(* ===== verification/Prelude.thy ===== *)
theory Prelude
  imports Main "HOL-Library.Word"
begin

text \<open>
  What the components share: the named collections their proofs use, a bind for results that
  are a sum of an error and a value, and generic facts on lists, options and numbers.
  Nothing in this theory models a line of the program.
\<close>

section \<open>Collections\<close>

named_theorems api_simps \<open>symbolic execution of operations on the interpreter state\<close>
named_theorems obj_simps \<open>values, their tags and the raw equality\<close>
named_theorems tab_simps \<open>fields and slots of a table\<close>

section \<open>Results that are an error or a value\<close>

fun bindE :: "'e + 'a \<Rightarrow> ('a \<Rightarrow> 'e + 'b) \<Rightarrow> 'e + 'b" where
  "bindE (Inl e) f = Inl e"
| "bindE (Inr x) f = f x"

lemma bindE_Inr_iff: "bindE m f = Inr y \<longleftrightarrow> (\<exists>x. m = Inr x \<and> f x = Inr y)"
  by (cases m) auto

lemma bindE_InrE:
  assumes "bindE m f = Inr y"
  obtains x where "m = Inr x" and "f x = Inr y"
  using assms by (auto simp: bindE_Inr_iff)

section \<open>Numbers\<close>

lemma nat_div2_less: "2 \<le> n \<Longrightarrow> n div 2 < (n::nat)"
  by simp

lemma div_pow2_Suc: "(n::nat) div 2 ^ Suc k = n div 2 div 2 ^ k"
  by (simp add: div_mult2_eq)

lemma or_one_nat: "or (n::nat) 1 = n + of_bool (even n)"
  by (metis One_nat_def or_Suc_0_eq)

lemma pow2_minus_one_or_one: "or ((2::nat) ^ k - 1) 1 = (if k = 0 then 1 else 2 ^ k - 1)"
  unfolding or_one_nat by (cases k) (auto simp: of_bool_def)

lemma div_mod_add_mult:
  assumes "0 \<le> r" and "r < (m::int)"
  shows "(q * m + r) div m = q" and "(q * m + r) mod m = r"
  using assms by simp_all

section \<open>Lists\<close>

lemma nth_list_update_if: "i < length xs \<Longrightarrow> xs[i := x] ! j = (if i = j then x else xs ! j)"
  by auto

lemma upt_split: "i \<le> j \<Longrightarrow> j \<le> k \<Longrightarrow> [i..<k] = [i..<j] @ [j..<k]"
  using upt_add_eq_append [of i j "k - j"] by simp

lemma list_update_nth_id: "xs[i := xs ! i] = xs"
  by simp

lemma card_Collect_less_le: "card {i. i < (n::nat) \<and> P i} \<le> n"
  by (rule order_trans [OF card_mono [of "{i. i < n}"]]) auto

lemma card_Collect_less_all: "card {i. i < (n::nat) \<and> P i} < n \<Longrightarrow> \<exists>i < n. \<not> P i"
proof (rule ccontr)
  assume less: "card {i. i < n \<and> P i} < n" and "\<not> (\<exists>i<n. \<not> P i)"
  then have "{i. i < n \<and> P i} = {i. i < n}" by auto
  with less show False by simp
qed

lemma card_Collect_less_insert:
  assumes "m < (n::nat)" and "\<not> P m"
  shows "card {i. i < n \<and> (i = m \<or> P i)} = Suc (card {i. i < n \<and> P i})"
proof -
  have "{i. i < n \<and> (i = m \<or> P i)} = insert m {i. i < n \<and> P i}" using assms by auto
  moreover have "m \<notin> {i. i < n \<and> P i}" using assms by simp
  moreover have "finite {i. i < n \<and> P i}" by (rule finite_subset [of _ "{..<n}"]) auto
  ultimately show ?thesis by simp
qed

end
