(* ===== verification/Lua_Number.thy ===== *)
theory Lua_Number
  imports Prelude
begin

unbundle bit_operations_syntax

text \<open>
  The numbers of the interpreter, \<^verbatim>\<open>lua_Number\<close> of src/lib/lua/luaconf.h: the C type double, kept as
  its 64 bits (IEEE 754 binary64: sign, 11 bits of exponent, 52 bits of fraction). Modelled are the
  comparisons, the conversion of an int to a double and back, and their laws; arithmetic, with its
  rounding, is not. A conversion to int that is out of range is undefined in C; the model gives
  it the value the machine instruction of the build's processor (cvttsd2si) gives, the least int.
\<close>

type_synonym lua_Number = "64 word"

abbreviation (input) INT_MIN :: int where "INT_MIN \<equiv> - (2 ^ 31)"
abbreviation (input) INT_MAX :: int where "INT_MAX \<equiv> 2 ^ 31 - 1"
abbreviation (input) MAX_INT :: int where "MAX_INT \<equiv> INT_MAX - 2"

section \<open>The fields of a double\<close>

definition num_mag :: "lua_Number \<Rightarrow> int" where
  "num_mag n = uint n mod 2 ^ 63"

definition num_neg :: "lua_Number \<Rightarrow> bool" where
  "num_neg n \<longleftrightarrow> 2 ^ 63 \<le> uint n"

definition num_isnan :: "lua_Number \<Rightarrow> bool" where
  "num_isnan n \<longleftrightarrow> 2047 * 2 ^ 52 < num_mag n"

text \<open>
  Doubles that are not NaN are ordered as their bits read as sign and magnitude: a larger
  exponent, then a larger fraction, is a larger absolute value, and the two zeros are equal.
\<close>

definition num_key :: "lua_Number \<Rightarrow> int" where
  "num_key n = (if num_neg n then - num_mag n else num_mag n)"

section \<open>Comparisons: luai_numeq, luai_numlt, luai_numle, luai_numisnan\<close>

definition luai_numeq :: "lua_Number \<Rightarrow> lua_Number \<Rightarrow> bool" where
  "luai_numeq a b \<longleftrightarrow> \<not> num_isnan a \<and> \<not> num_isnan b \<and> num_key a = num_key b"

definition luai_numlt :: "lua_Number \<Rightarrow> lua_Number \<Rightarrow> bool" where
  "luai_numlt a b \<longleftrightarrow> \<not> num_isnan a \<and> \<not> num_isnan b \<and> num_key a < num_key b"

definition luai_numle :: "lua_Number \<Rightarrow> lua_Number \<Rightarrow> bool" where
  "luai_numle a b \<longleftrightarrow> \<not> num_isnan a \<and> \<not> num_isnan b \<and> num_key a \<le> num_key b"

definition luai_numisnan :: "lua_Number \<Rightarrow> bool" where
  "luai_numisnan a \<longleftrightarrow> \<not> luai_numeq a a"

lemma luai_numisnan_iff: "luai_numisnan a \<longleftrightarrow> num_isnan a"
  by (auto simp: luai_numisnan_def luai_numeq_def)

lemma luai_numeq_refl_iff: "luai_numeq a a \<longleftrightarrow> \<not> num_isnan a"
  by (auto simp: luai_numeq_def)

lemma luai_numeq_sym: "luai_numeq a b \<Longrightarrow> luai_numeq b a"
  by (auto simp: luai_numeq_def)

lemma luai_numeq_trans: "luai_numeq a b \<Longrightarrow> luai_numeq b c \<Longrightarrow> luai_numeq a c"
  by (auto simp: luai_numeq_def)

lemma num_mag_bounds: "0 \<le> num_mag n" "num_mag n < 2 ^ 63"
  by (simp_all add: num_mag_def)

lemma num_isnan_zero [simp]: "\<not> num_isnan 0"
  by (simp add: num_isnan_def num_mag_def)

lemma num_key_zero [simp]: "num_key 0 = 0"
  by (simp add: num_key_def num_mag_def)

lemma uint_sign_mag: "uint a = (if num_neg a then 2 ^ 63 else 0) + num_mag a" for a :: lua_Number
proof (cases "num_neg a")
  case True
  have "uint a < 2 ^ 64" using uint_lt2p [of a] by simp
  with True have "(uint a - 2 ^ 63) mod 2 ^ 63 = uint a - 2 ^ 63"
    by (intro mod_pos_pos_trivial) (auto simp: num_neg_def)
  then have "uint a mod 2 ^ 63 = uint a - 2 ^ 63" by (simp only: minus_mod_self2)
  with True show ?thesis by (simp add: num_mag_def)
next
  case False
  then show ?thesis by (simp add: num_mag_def num_neg_def)
qed

text \<open>Equal numbers have equal bits, but for the two zeros.\<close>

lemma num_key_inj_nonzero:
  assumes "num_key a = num_key b" and "num_key a \<noteq> 0"
  shows "a = b"
proof -
  have "num_neg a = num_neg b" and "num_mag a = num_mag b"
    using assms num_mag_bounds [of a] num_mag_bounds [of b]
    by (auto simp: num_key_def split: if_splits)
  then have "uint a = uint b" by (simp add: uint_sign_mag [of a] uint_sign_mag [of b])
  then show ?thesis by (simp add: word_uint_eq_iff)
qed

section \<open>From int to double: cast_num\<close>

text \<open>The position of the highest bit of a positive number.\<close>

fun flog :: "nat \<Rightarrow> nat" where
  "flog n = (if n < 2 then 0 else Suc (flog (n div 2)))"

declare flog.simps [simp del]

lemma flog_bounds: "0 < n \<Longrightarrow> 2 ^ flog n \<le> n \<and> n < 2 ^ Suc (flog n)"
proof (induction n rule: flog.induct)
  case (1 n)
  show ?case
  proof (cases "n < 2")
    case True
    with 1 show ?thesis by (simp add: flog.simps)
  next
    case False
    with 1 have "2 ^ flog (n div 2) \<le> n div 2 \<and> n div 2 < 2 ^ Suc (flog (n div 2))" by simp
    with False show ?thesis by (simp add: flog.simps [of n]) linarith
  qed
qed

lemma flog_less: "0 < n \<Longrightarrow> n < 2 ^ k \<Longrightarrow> flog n < k"
  using flog_bounds [of n] by (meson less_le_trans not_less power_increasing_iff one_less_numeral_iff
      le_less_trans power_strict_increasing_iff semiring_norm(76))

lemma flog_unique: "2 ^ k \<le> n \<Longrightarrow> n < 2 ^ Suc k \<Longrightarrow> flog n = k"
proof -
  assume a: "2 ^ k \<le> n" "n < 2 ^ Suc k"
  then have "0 < n" by (metis gr0I le_zero_eq power_not_zero zero_neq_numeral)
  then have "2 ^ flog n \<le> n" "n < 2 ^ Suc (flog n)" using flog_bounds by auto
  with a have "2 ^ flog n < (2::nat) ^ Suc k" "2 ^ k < (2::nat) ^ Suc (flog n)"
    by linarith+
  then have "flog n < Suc k" "k < Suc (flog n)"
    by (simp_all only: power_strict_increasing_iff one_less_numeral_iff semiring_norm(76))
  then show ?thesis by simp
qed

text \<open>Exact for every int of absolute value below \<open>2 ^ 53\<close>, so for every int of the program.\<close>

definition cast_num :: "int \<Rightarrow> lua_Number" where
  "cast_num k =
     (if k = 0 then 0
      else let a = nat \<bar>k\<bar>; e = flog a
           in word_of_int ((if k < 0 then 2 ^ 63 else 0) + (int e + 1023) * 2 ^ 52
                           + (int a * 2 ^ (52 - e) - 2 ^ 52)))"

section \<open>From double to int: lua_number2int\<close>

definition lua_number2int :: "lua_Number \<Rightarrow> int" where
  "lua_number2int n =
     (let m = num_mag n; e = m div 2 ^ 52; f = m mod 2 ^ 52
      in if e < 1023 then 0
         else if 1054 \<le> e then INT_MIN
         else let r = (2 ^ 52 + f) div 2 ^ nat (1075 - e) in if num_neg n then - r else r)"

section \<open>The conversions agree\<close>

lemma uint_word64: "0 \<le> x \<Longrightarrow> x < 2 ^ 64 \<Longrightarrow> uint (word_of_int x :: 64 word) = x"
  by (simp add: uint_word_of_int)

lemma cast_num_scaled:
  assumes "0 < a" and "a < 2 ^ 53"
  shows "flog a < 53" and "(2::int) ^ 52 \<le> int a * 2 ^ (52 - flog a)"
    and "int a * 2 ^ (52 - flog a) < 2 ^ 53"
proof -
  show e: "flog a < 53" by (rule flog_less [OF assms])
  then have p: "(2::int) ^ flog a * 2 ^ (52 - flog a) = 2 ^ 52"
    by (simp flip: power_add)
  have "int (2 ^ flog a) \<le> int a" and "int a < int (2 * 2 ^ flog a)"
    using flog_bounds [OF assms(1)] by (simp_all only: of_nat_le_iff of_nat_less_iff power_Suc)
  then have lo: "(2::int) ^ flog a \<le> int a" and hi: "int a < 2 * 2 ^ flog a" by simp_all
  from lo have "(2::int) ^ flog a * 2 ^ (52 - flog a) \<le> int a * 2 ^ (52 - flog a)"
    by (intro mult_right_mono) auto
  then show "(2::int) ^ 52 \<le> int a * 2 ^ (52 - flog a)" by (simp only: p)
  from hi have "int a * 2 ^ (52 - flog a) < 2 * 2 ^ flog a * (2::int) ^ (52 - flog a)"
    by (intro mult_strict_right_mono) auto
  then have "int a * 2 ^ (52 - flog a) < 2 * 2 ^ 52" by (simp only: mult.assoc p)
  then show "int a * 2 ^ (52 - flog a) < 2 ^ 53" by simp
qed

lemma cast_num_fields:
  assumes "k \<noteq> 0" and "\<bar>k\<bar> < 2 ^ 53"
  defines "a \<equiv> nat \<bar>k\<bar>"
  shows "num_neg (cast_num k) \<longleftrightarrow> k < 0"
    and "num_mag (cast_num k) = (int (flog a) + 1023) * 2 ^ 52 + (int a * 2 ^ (52 - flog a) - 2 ^ 52)"
proof -
  have a: "0 < a" "a < 2 ^ 53" using assms by (auto simp: a_def)
  let ?m = "(int (flog a) + 1023) * 2 ^ 52 + (int a * 2 ^ (52 - flog a) - 2 ^ 52)"
  have m: "0 \<le> ?m" "?m < 2 ^ 63" using cast_num_scaled [OF a] by auto
  have "cast_num k = word_of_int ((if k < 0 then 2 ^ 63 else 0) + ?m)"
    using assms(1) by (simp add: cast_num_def Let_def a_def)
  moreover have "0 \<le> (if k < 0 then 2 ^ 63 else 0) + ?m" "(if k < 0 then 2 ^ 63 else 0) + ?m < 2 ^ 64"
    using m by auto
  ultimately have "uint (cast_num k) = (if k < 0 then 2 ^ 63 else 0) + ?m"
    by (simp only: uint_word64)
  then have u: "uint (cast_num k) = (if k < 0 then 1 else 0) * 2 ^ 63 + ?m" by simp
  show "num_neg (cast_num k) \<longleftrightarrow> k < 0" using m by (simp add: num_neg_def u del: One_nat_def)
  show "num_mag (cast_num k) = ?m" unfolding num_mag_def u by (rule div_mod_add_mult(2) [OF m])
qed

theorem lua_number2int_cast_num:
  assumes "INT_MIN \<le> k" and "k \<le> INT_MAX"
  shows "lua_number2int (cast_num k) = k"
proof (cases "k = 0")
  case True
  then show ?thesis by (simp add: cast_num_def lua_number2int_def num_mag_def)
next
  case False
  define a where "a = nat \<bar>k\<bar>"
  define e where "e = flog a"
  define s where "s = int a * 2 ^ (52 - e)"
  have a: "0 < a" "a < 2 ^ 53" "a \<le> 2 ^ 31" using assms False by (auto simp: a_def)
  have e31: "e < 32" unfolding e_def by (rule flog_less) (use a in auto)
  have s: "2 ^ 52 \<le> s" "s < 2 ^ 53" using cast_num_scaled [OF a(1,2)] by (simp_all add: s_def e_def)
  have k: "\<bar>k\<bar> < 2 ^ 53" using assms by auto
  note f = cast_num_fields [OF False k, folded a_def, folded e_def, folded s_def]
  have d: "num_mag (cast_num k) div 2 ^ 52 = int e + 1023" "num_mag (cast_num k) mod 2 ^ 52 = s - 2 ^ 52"
    unfolding f(2) by (rule div_mod_add_mult; use s in simp)+
  show ?thesis
  proof (cases "e = 31")
    case True
    then have "2 ^ 31 \<le> a" using flog_bounds [OF a(1)] by (simp add: e_def)
    with a have "a = 2 ^ 31" by simp
    with assms have "k = INT_MIN" by (auto simp: a_def)
    with True d show ?thesis by (simp add: lua_number2int_def Let_def)
  next
    case False
    then have e: "e < 31" using e31 by simp
    then have n: "nat (1075 - (int e + 1023)) = 52 - e" by simp
    have "s div 2 ^ (52 - e) = int a" by (simp add: s_def)
    then have "lua_number2int (cast_num k) = (if k < 0 then - int a else int a)"
      using e d n by (simp add: lua_number2int_def Let_def f(1))
    then show ?thesis by (simp add: a_def)
  qed
qed

lemma cast_num_not_nan:
  assumes "\<bar>k\<bar> < 2 ^ 53" shows "\<not> num_isnan (cast_num k)"
proof (cases "k = 0")
  case False
  have "0 < nat \<bar>k\<bar>" "nat \<bar>k\<bar> < 2 ^ 53" using False assms by auto
  from cast_num_fields(2) [OF False assms] cast_num_scaled [OF this] show ?thesis
    by (simp add: num_isnan_def)
qed (simp add: cast_num_def)

lemma num_key_cast_num_nonzero:
  assumes "k \<noteq> 0" and "\<bar>k\<bar> < 2 ^ 53" shows "num_key (cast_num k) \<noteq> 0"
proof -
  have "0 < nat \<bar>k\<bar>" "nat \<bar>k\<bar> < 2 ^ 53" using assms by auto
  from cast_num_fields(2) [OF assms] cast_num_scaled [OF this] show ?thesis
    by (simp add: num_key_def)
qed

lemma num_key_zero_number2int: "num_key n = 0 \<Longrightarrow> lua_number2int n = 0"
  by (auto simp: num_key_def lua_number2int_def split: if_splits)

lemma lua_number2int_num_key:
  assumes "num_key a = num_key b" shows "lua_number2int a = lua_number2int b"
proof (cases "num_key a = 0")
  case True
  with assms show ?thesis by (simp add: num_key_zero_number2int)
next
  case False
  with assms have "a = b" by (rule num_key_inj_nonzero)
  then show ?thesis by simp
qed

lemma luai_numeq_number2int: "luai_numeq a b \<Longrightarrow> lua_number2int a = lua_number2int b"
  using lua_number2int_num_key [of a b] by (auto simp only: luai_numeq_def)

lemma lua_number2int_range: "INT_MIN \<le> lua_number2int n \<and> lua_number2int n \<le> INT_MAX"
proof -
  define m e f where "m = num_mag n" and "e = m div 2 ^ 52" and "f = m mod 2 ^ 52"
  define r where "r = (2 ^ 52 + f) div 2 ^ nat (1075 - e)"
  have f: "0 \<le> f" "f < 2 ^ 52" by (simp_all add: f_def)
  have r: "0 \<le> r \<and> r < 2 ^ 31" if "1023 \<le> e" "e < 1054"
  proof -
    have "nat (1075 - e) = 22 + nat (1053 - e)" using that by simp
    then have "(2::int) ^ nat (1075 - e) = 2 ^ 22 * 2 ^ nat (1053 - e)" by (simp only: power_add)
    moreover have "(1::int) \<le> 2 ^ nat (1053 - e)" by simp
    ultimately have "(2::int) ^ 22 \<le> 2 ^ nat (1075 - e)" by simp
    then have "r \<le> (2 ^ 52 + f) div 2 ^ 22"
      unfolding r_def using f by (intro zdiv_mono2) simp_all
    moreover have "(2 ^ 52 + f) div 2 ^ 22 < 2 ^ 31" using f by simp
    ultimately show ?thesis using f by (simp add: r_def pos_imp_zdiv_nonneg_iff)
  qed
  have "lua_number2int n = (if e < 1023 then 0 else if 1054 \<le> e then INT_MIN
      else if num_neg n then - r else r)"
    by (simp add: lua_number2int_def Let_def m_def e_def f_def r_def)
  with r show ?thesis by auto
qed

text \<open>
  An int is recovered from its double, and two ints give equal doubles only if they are equal:
  integer keys of a table behave as the ints they stand for.
\<close>

lemma luai_numeq_cast_num:
  assumes "INT_MIN \<le> j" "j \<le> INT_MAX" "INT_MIN \<le> k" "k \<le> INT_MAX"
  shows "luai_numeq (cast_num j) (cast_num k) \<longleftrightarrow> j = k"
proof
  assume "luai_numeq (cast_num j) (cast_num k)"
  then have "lua_number2int (cast_num j) = lua_number2int (cast_num k)"
    by (rule luai_numeq_number2int)
  with assms show "j = k" by (simp add: lua_number2int_cast_num)
next
  assume "j = k"
  moreover have "\<bar>k\<bar> < 2 ^ 53" using assms by auto
  ultimately show "luai_numeq (cast_num j) (cast_num k)"
    by (simp add: luai_numeq_refl_iff cast_num_not_nan)
qed

end
