(* ===== verification/Lua_Object.thy ===== *)
theory Lua_Object
  imports Lua_Number
begin

unbundle bit_operations_syntax

text \<open>
  The values of the interpreter and the generic functions over them: src/lib/lua/lobject.h and
  src/lib/lua/lobject.c, and the hash of a string (src/lib/lua/lstring.c). A collectable object is a
  reference, a number that plays the part of its address. A string is represented by its bytes:
  the string table keeps one object per content, so the C code's comparison of two addresses is
  the comparison of two contents.
\<close>

section \<open>Values and their tags\<close>

type_synonym addr = nat

datatype TValue =
    TNil
  | TBoolean bool
  | TLightUserdata addr
  | TNumber lua_Number
  | TString string
  | TTable addr
  | TFunction addr
  | TUserdata addr
  | TThread addr

abbreviation (input) LUA_TNONE :: int where "LUA_TNONE \<equiv> - 1"
abbreviation (input) LUA_TNIL :: int where "LUA_TNIL \<equiv> 0"
abbreviation (input) LUA_TBOOLEAN :: int where "LUA_TBOOLEAN \<equiv> 1"
abbreviation (input) LUA_TLIGHTUSERDATA :: int where "LUA_TLIGHTUSERDATA \<equiv> 2"
abbreviation (input) LUA_TNUMBER :: int where "LUA_TNUMBER \<equiv> 3"
abbreviation (input) LUA_TSTRING :: int where "LUA_TSTRING \<equiv> 4"
abbreviation (input) LUA_TTABLE :: int where "LUA_TTABLE \<equiv> 5"
abbreviation (input) LUA_TFUNCTION :: int where "LUA_TFUNCTION \<equiv> 6"
abbreviation (input) LUA_TUSERDATA :: int where "LUA_TUSERDATA \<equiv> 7"
abbreviation (input) LUA_TTHREAD :: int where "LUA_TTHREAD \<equiv> 8"

fun ttype :: "TValue \<Rightarrow> int" where
  "ttype TNil = LUA_TNIL"
| "ttype (TBoolean b) = LUA_TBOOLEAN"
| "ttype (TLightUserdata p) = LUA_TLIGHTUSERDATA"
| "ttype (TNumber n) = LUA_TNUMBER"
| "ttype (TString s) = LUA_TSTRING"
| "ttype (TTable a) = LUA_TTABLE"
| "ttype (TFunction a) = LUA_TFUNCTION"
| "ttype (TUserdata a) = LUA_TUSERDATA"
| "ttype (TThread a) = LUA_TTHREAD"

definition iscollectable :: "TValue \<Rightarrow> bool" where
  "iscollectable v \<longleftrightarrow> LUA_TSTRING \<le> ttype v"

fun l_isfalse :: "TValue \<Rightarrow> bool" where
  "l_isfalse TNil = True"
| "l_isfalse (TBoolean b) = (\<not> b)"
| "l_isfalse _ = False"

lemma ttype_nil_iff [obj_simps]: "ttype v = LUA_TNIL \<longleftrightarrow> v = TNil"
  by (cases v) auto

lemma ttype_string_iff [obj_simps]: "ttype v = LUA_TSTRING \<longleftrightarrow> (\<exists>s. v = TString s)"
  by (cases v) auto

lemma ttype_number_iff [obj_simps]: "ttype v = LUA_TNUMBER \<longleftrightarrow> (\<exists>n. v = TNumber n)"
  by (cases v) auto

lemma ttype_table_iff [obj_simps]: "ttype v = LUA_TTABLE \<longleftrightarrow> (\<exists>a. v = TTable a)"
  by (cases v) auto

lemma ttype_function_iff [obj_simps]: "ttype v = LUA_TFUNCTION \<longleftrightarrow> (\<exists>a. v = TFunction a)"
  by (cases v) auto

section \<open>Raw equality: luaO_rawequalObj\<close>

text \<open>
  For the types other than nil and number the payloads are compared: the boolean, the light
  userdata pointer, or the object. Both tags are equal there, so this is equality of the values.
\<close>

definition luaO_rawequalObj :: "TValue \<Rightarrow> TValue \<Rightarrow> bool" where
  "luaO_rawequalObj t1 t2 =
     (if ttype t1 \<noteq> ttype t2 then False
      else case t1 of
             TNil \<Rightarrow> True
           | TNumber a \<Rightarrow> (case t2 of TNumber b \<Rightarrow> luai_numeq a b | _ \<Rightarrow> False)
           | _ \<Rightarrow> t1 = t2)"

lemma rawequal_number_number [simp]: "luaO_rawequalObj (TNumber a) (TNumber b) = luai_numeq a b"
  by (simp add: luaO_rawequalObj_def)

lemma rawequal_not_number:
  assumes "ttype a \<noteq> LUA_TNUMBER" shows "luaO_rawequalObj a b \<longleftrightarrow> a = b"
  using assms by (cases a) (auto simp: luaO_rawequalObj_def obj_simps)

lemma rawequal_iff:
  "luaO_rawequalObj a b \<longleftrightarrow>
     (ttype a \<noteq> LUA_TNUMBER \<and> a = b) \<or>
     (\<exists>x y. a = TNumber x \<and> b = TNumber y \<and> luai_numeq x y)"
proof (cases "ttype a = LUA_TNUMBER")
  case True
  then obtain x where "a = TNumber x" by (auto simp: obj_simps)
  then show ?thesis by (cases b) (auto simp: luaO_rawequalObj_def)
qed (auto simp: rawequal_not_number)

fun isnan_value :: "TValue \<Rightarrow> bool" where
  "isnan_value (TNumber n) = luai_numisnan n"
| "isnan_value _ = False"

lemma rawequal_refl_iff: "luaO_rawequalObj k k \<longleftrightarrow> \<not> isnan_value k"
  by (cases k) (simp_all add: luai_numisnan_def rawequal_not_number)

lemma rawequal_sym: "luaO_rawequalObj a b \<Longrightarrow> luaO_rawequalObj b a"
  by (auto simp: rawequal_iff intro: luai_numeq_sym)

lemma rawequal_commute: "luaO_rawequalObj a b = luaO_rawequalObj b a"
  by (blast intro: rawequal_sym)

lemma rawequal_trans:
  "luaO_rawequalObj a b \<Longrightarrow> luaO_rawequalObj b c \<Longrightarrow> luaO_rawequalObj a c"
  by (auto simp: rawequal_iff intro: luai_numeq_trans)

lemma rawequal_not_nan: "luaO_rawequalObj a b \<Longrightarrow> \<not> isnan_value a"
  by (meson rawequal_refl_iff rawequal_sym rawequal_trans)

lemma rawequal_nil_iff [simp]:
  "luaO_rawequalObj a TNil \<longleftrightarrow> a = TNil" "luaO_rawequalObj TNil a \<longleftrightarrow> a = TNil"
  by (auto simp: rawequal_iff)

lemma rawequal_string_iff [simp]:
  "luaO_rawequalObj a (TString s) \<longleftrightarrow> a = TString s" "luaO_rawequalObj (TString s) a \<longleftrightarrow> a = TString s"
  by (auto simp: rawequal_iff)

lemma rawequal_ttype: "luaO_rawequalObj a b \<Longrightarrow> ttype a = ttype b"
  by (auto simp: rawequal_iff)

lemma rawequal_number: "luaO_rawequalObj (TNumber a) v \<longleftrightarrow> (\<exists>b. v = TNumber b \<and> luai_numeq a b)"
  by (auto simp: rawequal_iff)

text \<open>Values that are raw equal but not identical are the two zeros.\<close>

lemma rawequal_eq_or_zero:
  assumes "luaO_rawequalObj a b"
  shows "a = b \<or> (\<exists>x y. a = TNumber x \<and> b = TNumber y \<and> num_key x = 0 \<and> num_key y = 0)"
  using assms num_key_inj_nonzero by (auto simp: rawequal_iff luai_numeq_def)

section \<open>Base-two logarithm: luaO_log2, ceillog2\<close>

text \<open>The table \<open>log_2\<close> of 256 bytes, its runs of equal entries written as such.\<close>

definition log_2 :: "nat list" where
  "log_2 = [0, 1] @ replicate 2 2 @ replicate 4 3 @ replicate 8 4 @ replicate 16 5
     @ replicate 32 6 @ replicate 64 7 @ replicate 128 8"

fun log2_loop :: "nat \<Rightarrow> int \<Rightarrow> int" where
  "log2_loop x l = (if 256 \<le> x then log2_loop (x div 256) (l + 8) else l + int (log_2 ! x))"

declare log2_loop.simps [simp del]

definition luaO_log2 :: "nat \<Rightarrow> int" where
  "luaO_log2 x = log2_loop x (- 1)"

definition ceillog2 :: "nat \<Rightarrow> nat" where
  "ceillog2 x = nat (luaO_log2 (x - 1) + 1)"

lemma log_2_table:
  assumes "x < 256" shows "log_2 ! x = (if x = 0 then 0 else Suc (flog x))"
proof -
  consider "x = 0" | "x = 1" | "2 \<le> x \<and> x < 4" | "4 \<le> x \<and> x < 8" | "8 \<le> x \<and> x < 16"
    | "16 \<le> x \<and> x < 32" | "32 \<le> x \<and> x < 64" | "64 \<le> x \<and> x < 128" | "128 \<le> x \<and> x < 256"
    using assms by linarith
  then show ?thesis
    by cases (auto simp: log_2_def nth_append flog.simps [of "Suc 0"] flog_unique [of 1] flog_unique [of 2]
        flog_unique [of 3] flog_unique [of 4] flog_unique [of 5] flog_unique [of 6] flog_unique [of 7])
qed

lemma flog_div256: "256 \<le> x \<Longrightarrow> flog x = flog (x div 256) + 8"
proof (rule flog_unique)
  assume "256 \<le> x"
  then have "0 < x div 256" by simp
  then have b: "2 ^ flog (x div 256) \<le> x div 256" "x div 256 < 2 ^ Suc (flog (x div 256))"
    using flog_bounds by auto
  then show "2 ^ (flog (x div 256) + 8) \<le> x" by (simp add: power_add)
  from b show "x < 2 ^ Suc (flog (x div 256) + 8)" by (simp add: power_add)
qed

lemma log2_loop_eq: "log2_loop x l = (if x = 0 then l else l + 1 + int (flog x))"
proof (induction x l rule: log2_loop.induct)
  case (1 x l)
  show ?case
  proof (cases "256 \<le> x")
    case True
    then have "x div 256 \<noteq> 0" by simp
    with True 1 show ?thesis by (simp add: log2_loop.simps [of x l] flog_div256)
  next
    case False
    then show ?thesis by (simp add: log2_loop.simps [of x l] log_2_table)
  qed
qed

text \<open>The table-driven logarithm is the position of the highest bit, and \<open>- 1\<close> for zero.\<close>

lemma luaO_log2_eq: "luaO_log2 x = (if x = 0 then - 1 else int (flog x))"
  by (simp add: luaO_log2_def log2_loop_eq)

lemma ceillog2_le_iff:
  assumes "1 \<le> x"
  shows "ceillog2 x \<le> j \<longleftrightarrow> x \<le> 2 ^ j"
proof (cases "x = 1")
  case True
  then show ?thesis by (simp add: ceillog2_def luaO_log2_eq)
next
  case False
  with assms have x: "0 < x - 1" by simp
  have "ceillog2 x = Suc (flog (x - 1))" using x by (simp add: ceillog2_def luaO_log2_eq)
  moreover have "2 ^ flog (x - 1) \<le> x - 1" "x - 1 < 2 ^ Suc (flog (x - 1))"
    using flog_bounds [OF x] by auto
  moreover have "flog (x - 1) < j" if "x \<le> 2 ^ j" using x that by (intro flog_less) auto
  moreover have "x \<le> 2 ^ j" if "Suc (flog (x - 1)) \<le> j"
  proof -
    have "(2::nat) ^ Suc (flog (x - 1)) \<le> 2 ^ j" using that by (rule power_increasing) simp
    with \<open>x - 1 < 2 ^ Suc (flog (x - 1))\<close> show ?thesis by linarith
  qed
  ultimately show ?thesis by auto
qed

lemma ceillog2_bounds: "1 \<le> x \<Longrightarrow> x \<le> 2 ^ ceillog2 x"
  using ceillog2_le_iff [of x "ceillog2 x"] by simp

section \<open>Floating point bytes: luaO_int2fb, luaO_fb2int\<close>

text \<open>The loop of the encoding; the argument is an unsigned int, so \<open>x + 1\<close> wraps around.\<close>

function int2fb_loop :: "nat \<Rightarrow> nat \<Rightarrow> nat \<times> nat" where
  "int2fb_loop x e =
     (if 16 \<le> x then int2fb_loop (((x + 1) mod 2 ^ 32) div 2) (Suc e) else (x, e))"
  by pat_completeness auto
termination
proof (relation "measure fst")
  fix x e :: nat
  assume "16 \<le> x"
  moreover have "(x + 1) mod 2 ^ 32 \<le> x + 1" by (rule mod_less_eq_dividend)
  ultimately have "(x + 1) mod 2 ^ 32 div 2 < x" by linarith
  then show "((((x + 1) mod 2 ^ 32) div 2, Suc e), (x, e)) \<in> measure fst" by simp
qed simp

declare int2fb_loop.simps [simp del]

definition luaO_int2fb :: "nat \<Rightarrow> nat" where
  "luaO_int2fb x =
     (let (x', e) = int2fb_loop x 0
      in if x' < 8 then x' else ((e + 1) * 8) OR (x' - 8))"

definition luaO_fb2int :: "nat \<Rightarrow> nat" where
  "luaO_fb2int x =
     (let e = (x div 8) AND 31
      in if e = 0 then x else ((x AND 7) + 8) * 2 ^ (e - 1))"

section \<open>Hash of a string\<close>

text \<open>
  The seed is the length; of a string of 32 characters or more only every \<open>step\<close>-th character,
  counted from the end, is hashed. \<open>step\<close> is \<open>Suc k\<close>, never zero.
\<close>

fun luaS_hash_loop :: "string \<Rightarrow> nat \<Rightarrow> nat \<Rightarrow> 32 word \<Rightarrow> 32 word" where
  "luaS_hash_loop str k l1 h =
     (if Suc k \<le> l1
      then luaS_hash_loop str k (l1 - Suc k)
             (h XOR (push_bit 5 h + drop_bit 2 h + of_nat (of_char (str ! (l1 - 1)))))
      else h)"

declare luaS_hash_loop.simps [simp del]

definition luaS_hash :: "string \<Rightarrow> 32 word" where
  "luaS_hash str =
     (let l = length str in luaS_hash_loop str (l div 32) l (of_nat l))"

end
