(* ===== verification/Lua_Table.thy ===== *)
theory Lua_Table
  imports Lua_Object
begin

unbundle bit_operations_syntax

text \<open>
  Tables: src/lib/lua/ltable.c over the structures of src/lib/lua/lobject.h. A table has an array part and a
  hash part, a vector of nodes chained by \<open>gnext\<close>; a pointer to a node is its index in the
  vector. The pointer to the shared \<open>dummynode\<close> of an empty hash part is \<open>node t = None\<close>.
  A pointer to a value, which the C functions return, is a \<open>tvptr\<close>; \<open>deref\<close> reads it and
  \<open>store\<close> assigns through it. The collector is not modelled: no key is ever turned dead, so the test
  for dead keys in \<open>findindex\<close> never applies. Running out of memory is not modelled.
\<close>

section \<open>Data\<close>

record Node =
  i_val :: TValue
  i_key :: TValue
  gnext :: "nat option"

record Table =
  flags :: "8 word"
  lsizenode :: nat
  metatable :: "addr option"
  arr :: "TValue list"
  node :: "Node list option"
  lastfree :: int

datatype tvptr = NilObject | ArrPtr nat | ValPtr nat

datatype terror = TableOverflow | IndexIsNil | IndexIsNaN | InvalidNextKey | Unterminated

abbreviation (input) MAXBITS :: nat where "MAXBITS \<equiv> 26"
abbreviation (input) MAXASIZE :: nat where "MAXASIZE \<equiv> 2 ^ MAXBITS"

definition dummynode :: Node where
  "dummynode = \<lparr>i_val = TNil, i_key = TNil, gnext = None\<rparr>"

definition nodes :: "Table \<Rightarrow> Node list" where
  "nodes t = (case node t of None \<Rightarrow> [dummynode] | Some ns \<Rightarrow> ns)"

definition sizearray :: "Table \<Rightarrow> nat" where
  "sizearray t = length (arr t)"

definition sizenode :: "Table \<Rightarrow> nat" where
  "sizenode t = 2 ^ lsizenode t"

definition deref :: "Table \<Rightarrow> tvptr \<Rightarrow> TValue" where
  "deref t p = (case p of NilObject \<Rightarrow> TNil | ArrPtr i \<Rightarrow> arr t ! i | ValPtr i \<Rightarrow> i_val (nodes t ! i))"

definition store :: "Table \<Rightarrow> tvptr \<Rightarrow> TValue \<Rightarrow> Table" where
  "store t p v =
     (case p of
        NilObject \<Rightarrow> t
      | ArrPtr i \<Rightarrow> t\<lparr>arr := (arr t)[i := v]\<rparr>
      | ValPtr i \<Rightarrow> t\<lparr>node := Some ((nodes t)[i := (nodes t ! i)\<lparr>i_val := v\<rparr>])\<rparr>)"

section \<open>Hashing: lmod, hashpow2, hashmod, hashnum, mainposition\<close>

definition lmod :: "nat \<Rightarrow> nat \<Rightarrow> nat" where
  "lmod s sz = s AND (sz - 1)"

definition hashpow2 :: "Table \<Rightarrow> nat \<Rightarrow> nat" where
  "hashpow2 t n = lmod n (sizenode t)"

definition hashmod :: "Table \<Rightarrow> nat \<Rightarrow> nat" where
  "hashmod t n = n mod ((sizenode t - 1) OR 1)"

definition hashpointer :: "Table \<Rightarrow> addr \<Rightarrow> nat" where
  "hashpointer t p = hashmod t (p mod 2 ^ 32)"

definition hashnum :: "Table \<Rightarrow> lua_Number \<Rightarrow> nat" where
  "hashnum t n =
     (if luai_numeq n 0 then 0
      else hashmod t (unat (ucast n + ucast (drop_bit 32 n) :: 32 word)))"

fun mainposition :: "Table \<Rightarrow> TValue \<Rightarrow> nat" where
  "mainposition t (TNumber n) = hashnum t n"
| "mainposition t (TString s) = hashpow2 t (unat (luaS_hash s))"
| "mainposition t (TBoolean b) = hashpow2 t (if b then 1 else 0)"
| "mainposition t (TLightUserdata p) = hashpointer t p"
| "mainposition t (TTable p) = hashpointer t p"
| "mainposition t (TFunction p) = hashpointer t p"
| "mainposition t (TUserdata p) = hashpointer t p"
| "mainposition t (TThread p) = hashpointer t p"
| "mainposition t TNil = hashpointer t 0"

fun arrayindex :: "TValue \<Rightarrow> int" where
  "arrayindex (TNumber n) =
     (let k = lua_number2int n in if luai_numeq (cast_num k) n then k else - 1)"
| "arrayindex _ = - 1"

section \<open>Search: luaH_getnum, luaH_getstr, luaH_get\<close>

text \<open>
  The loop that follows a chain until a node satisfies \<open>P\<close>. The fuel is the number of nodes:
  a chain without a cycle ends within it, and a chain with one never does (\<open>Unterminated\<close>).
\<close>

fun chain_find :: "(Node \<Rightarrow> bool) \<Rightarrow> Node list \<Rightarrow> nat \<Rightarrow> nat \<Rightarrow> terror + nat option" where
  "chain_find P ns 0 i = Inl Unterminated"
| "chain_find P ns (Suc fuel) i =
     (if P (ns ! i) then Inr (Some i)
      else case gnext (ns ! i) of None \<Rightarrow> Inr None | Some j \<Rightarrow> chain_find P ns fuel j)"

definition node_ptr :: "nat option \<Rightarrow> tvptr" where
  "node_ptr r = (case r of None \<Rightarrow> NilObject | Some i \<Rightarrow> ValPtr i)"

definition search :: "Table \<Rightarrow> (TValue \<Rightarrow> bool) \<Rightarrow> nat \<Rightarrow> terror + nat option" where
  "search t P i = chain_find (\<lambda>n. P (i_key n)) (nodes t) (length (nodes t)) i"

fun key_is_num :: "lua_Number \<Rightarrow> TValue \<Rightarrow> bool" where
  "key_is_num nk (TNumber n) = luai_numeq n nk"
| "key_is_num nk _ = False"

definition luaH_getnum :: "Table \<Rightarrow> int \<Rightarrow> terror + tvptr" where
  "luaH_getnum t key =
     (if (key - 1) mod 2 ^ 32 < int (sizearray t) then Inr (ArrPtr (nat (key - 1)))
      else let nk = cast_num key
           in bindE (search t (key_is_num nk) (hashnum t nk))
                (\<lambda>r. Inr (node_ptr r)))"

definition luaH_getstr :: "Table \<Rightarrow> string \<Rightarrow> terror + tvptr" where
  "luaH_getstr t key =
     bindE (search t (\<lambda>k. k = TString key) (hashpow2 t (unat (luaS_hash key))))
       (\<lambda>r. Inr (node_ptr r))"

definition get_generic :: "Table \<Rightarrow> TValue \<Rightarrow> terror + tvptr" where
  "get_generic t key =
     bindE (search t (\<lambda>k. luaO_rawequalObj k key) (mainposition t key)) (\<lambda>r. Inr (node_ptr r))"

fun luaH_get :: "Table \<Rightarrow> TValue \<Rightarrow> terror + tvptr" where
  "luaH_get t TNil = Inr NilObject"
| "luaH_get t (TString s) = luaH_getstr t s"
| "luaH_get t (TNumber n) =
     (let k = lua_number2int n
      in if luai_numeq (cast_num k) n then luaH_getnum t k else get_generic t (TNumber n))"
| "luaH_get t key = get_generic t key"

section \<open>Creation: setarrayvector, setnodevector, luaH_new\<close>

definition setarrayvector :: "Table \<Rightarrow> nat \<Rightarrow> Table" where
  "setarrayvector t sz =
     t\<lparr>arr := take sz (arr t) @ replicate (sz - sizearray t) TNil\<rparr>"

definition setnodevector :: "Table \<Rightarrow> nat \<Rightarrow> terror + Table" where
  "setnodevector t sz =
     (if sz = 0 then Inr (t\<lparr>node := None, lsizenode := 0, lastfree := 0\<rparr>)
      else let lsize = ceillog2 sz
           in if MAXBITS < lsize then Inl TableOverflow
              else Inr (t\<lparr>node := Some (replicate (2 ^ lsize) dummynode), lsizenode := lsize,
                         lastfree := 2 ^ lsize\<rparr>))"

definition luaH_new :: "nat \<Rightarrow> nat \<Rightarrow> terror + Table" where
  "luaH_new narray nhash =
     setnodevector
       (setarrayvector
         \<lparr>flags = 255, lsizenode = 0, metatable = None, arr = [], node = None, lastfree = 0\<rparr> narray)
       nhash"

section \<open>Sizes for a rehash: countint, numusearray, numusehash, computesizes\<close>

definition countint :: "TValue \<Rightarrow> nat list \<Rightarrow> nat \<times> nat list" where
  "countint key nums =
     (let k = arrayindex key
      in if 0 < k \<and> k \<le> int MAXASIZE
         then let c = ceillog2 (nat k) in (1, nums[c := nums ! c + 1])
         else (0, nums))"

text \<open>The loop \<open>for (; i <= lim; i++)\<close> over one slice; it gives the count and the new \<open>i\<close>.\<close>

function count_slice :: "TValue list \<Rightarrow> nat \<Rightarrow> nat \<Rightarrow> nat \<Rightarrow> nat \<times> nat" where
  "count_slice a i lim lc =
     (if i \<le> lim then count_slice a (Suc i) lim (if a ! (i - 1) \<noteq> TNil then lc + 1 else lc)
      else (lc, i))"
  by pat_completeness auto
termination
  by (relation "measure (\<lambda>(a, i, lim, lc). Suc lim - i)") auto

declare count_slice.simps [simp del]

function numusearray_loop :: "Table \<Rightarrow> nat \<Rightarrow> nat \<Rightarrow> nat \<Rightarrow> nat list \<Rightarrow> nat \<times> nat list" where
  "numusearray_loop t lg i ause nums =
     (if lg \<le> MAXBITS
      then let lim = min (2 ^ lg) (sizearray t)
           in if sizearray t < 2 ^ lg \<and> lim < i then (ause, nums)
              else case count_slice (arr t) i lim 0 of (lc, i') \<Rightarrow>
                     numusearray_loop t (Suc lg) i' (ause + lc) (nums[lg := nums ! lg + lc])
      else (ause, nums))"
  by pat_completeness auto
termination
  by (relation "measure (\<lambda>(t, lg, i, ause, nums). Suc MAXBITS - lg)") auto

declare numusearray_loop.simps [simp del]

definition numusearray :: "Table \<Rightarrow> nat list \<Rightarrow> nat \<times> nat list" where
  "numusearray t nums = numusearray_loop t 0 1 0 nums"

text \<open>The loop runs over the nodes from the last to the first: it gives the count of elements,
  the count of integer keys and the counters.\<close>

fun numusehash_loop :: "Node list \<Rightarrow> nat \<Rightarrow> nat \<Rightarrow> nat list \<Rightarrow> nat \<times> nat \<times> nat list" where
  "numusehash_loop [] totaluse ause nums = (totaluse, ause, nums)"
| "numusehash_loop (n # ns) totaluse ause nums =
     (if i_val n \<noteq> TNil
      then case countint (i_key n) nums of (c, nums') \<Rightarrow>
             numusehash_loop ns (totaluse + 1) (ause + c) nums'
      else numusehash_loop ns totaluse ause nums)"

definition numusehash :: "Table \<Rightarrow> nat list \<Rightarrow> nat \<Rightarrow> nat \<times> nat \<times> nat list" where
  "numusehash t nums pnasize =
     (case numusehash_loop (rev (nodes t)) 0 0 nums of (totaluse, ause, nums') \<Rightarrow>
        (totaluse, pnasize + ause, nums'))"

text \<open>\<open>twotoi\<close> is \<open>2 ^ i\<close>. The result is the number of elements that go to the array part
  and the size of that part.\<close>

function computesizes_loop :: "nat list \<Rightarrow> nat \<Rightarrow> nat \<Rightarrow> nat \<Rightarrow> nat \<Rightarrow> nat \<Rightarrow> nat \<times> nat" where
  "computesizes_loop nums narray i a na n =
     (if 2 ^ i div 2 < narray
      then let a' = a + nums ! i;
               more = 0 < nums ! i \<and> 2 ^ i div 2 < a';
               n' = (if more then 2 ^ i else n);
               na' = (if more then a' else na)
           in if a' = narray then (na', n')
              else computesizes_loop nums narray (Suc i) a' na' n'
      else (na, n))"
  by pat_completeness auto
termination
proof (relation "measure (\<lambda>(nums, narray, i, a, na, n). 2 * narray + 1 - i)")
  fix nums :: "nat list" and narray i :: nat
  assume "2 ^ i div 2 < narray"
  moreover have "i < 2 ^ i" by (rule less_exp)
  ultimately have "i < 2 * narray + 1" by linarith
  then show "((nums, narray, Suc i, a, na, n), nums, narray, i, a', na', n')
      \<in> measure (\<lambda>(nums, narray, i, a, na, n). 2 * narray + 1 - i)" for a na n a' na' n' :: nat
    by simp
qed simp

declare computesizes_loop.simps [simp del]

definition computesizes :: "nat list \<Rightarrow> nat \<Rightarrow> nat \<times> nat" where
  "computesizes nums narray = computesizes_loop nums narray 0 0 0 0"

section \<open>Insertion: getfreepos, resize, rehash, newkey, luaH_set\<close>

text \<open>The loop decrements \<open>lastfree\<close> also in the test that ends it.\<close>

function getfreepos_loop :: "Node list \<Rightarrow> int \<Rightarrow> nat option \<times> int" where
  "getfreepos_loop ns lf =
     (if 0 < lf
      then if i_key (ns ! nat (lf - 1)) = TNil then (Some (nat (lf - 1)), lf - 1)
           else getfreepos_loop ns (lf - 1)
      else (None, lf - 1))"
  by pat_completeness auto
termination
  by (relation "measure (\<lambda>(ns, lf). nat lf)") auto

declare getfreepos_loop.simps [simp del]

definition getfreepos :: "Table \<Rightarrow> nat option \<times> Table" where
  "getfreepos t =
     (case getfreepos_loop (nodes t) (lastfree t) of (r, lf) \<Rightarrow> (r, t\<lparr>lastfree := lf\<rparr>))"

text \<open>Re-insertion of key and value pairs, in order, skipping nil values.\<close>

type_synonym setter = "Table \<Rightarrow> TValue \<Rightarrow> terror + tvptr \<times> Table"

fun reinsert :: "setter \<Rightarrow> (TValue \<times> TValue) list \<Rightarrow> Table \<Rightarrow> terror + Table" where
  "reinsert setk [] t = Inr t"
| "reinsert setk ((k, v) # kvs) t =
     (if v = TNil then reinsert setk kvs t
      else bindE (setk t k) (\<lambda>(p, t'). reinsert setk kvs (store t' p v)))"

definition slice_entries :: "TValue list \<Rightarrow> nat \<Rightarrow> (TValue \<times> TValue) list" where
  "slice_entries a lo = map (\<lambda>i. (TNumber (cast_num (int i + 1)), a ! i)) [lo..<length a]"

definition resize_with :: "setter \<Rightarrow> setter \<Rightarrow> Table \<Rightarrow> nat \<Rightarrow> nat \<Rightarrow> terror + Table" where
  "resize_with setnum setk t nasize nhsize =
     (let oldasize = sizearray t;
          nold = nodes t;
          t1 = (if oldasize < nasize then setarrayvector t nasize else t)
      in bindE (setnodevector t1 nhsize) (\<lambda>t2.
         bindE (if nasize < oldasize
                then reinsert setnum (slice_entries (arr t) nasize) (t2\<lparr>arr := take nasize (arr t2)\<rparr>)
                else Inr t2) (\<lambda>t3.
         reinsert setk (map (\<lambda>n. (i_key n, i_val n)) (rev nold)) t3)))"

definition rehash_with :: "setter \<Rightarrow> setter \<Rightarrow> Table \<Rightarrow> TValue \<Rightarrow> terror + Table" where
  "rehash_with setnum setk t ek =
     (case numusearray t (replicate (MAXBITS + 1) 0) of (nasize0, nums0) \<Rightarrow>
      case numusehash t nums0 nasize0 of (hashuse, nasize1, nums1) \<Rightarrow>
      case countint ek nums1 of (c, nums2) \<Rightarrow>
      let nasize2 = nasize1 + c; totaluse = nasize0 + hashuse + 1
      in case computesizes nums2 nasize2 of (na, nasize) \<Rightarrow>
           resize_with setnum setk t nasize (totaluse - na))"

definition set_with :: "setter \<Rightarrow> setter" where
  "set_with newkey t key =
     bindE (luaH_get t key) (\<lambda>p.
       let t' = t\<lparr>flags := 0\<rparr>
       in if p \<noteq> NilObject then Inr (p, t')
          else if key = TNil then Inl IndexIsNil
          else if isnan_value key then Inl IndexIsNaN
          else newkey t' key)"

definition setnum_with :: "setter \<Rightarrow> Table \<Rightarrow> int \<Rightarrow> terror + tvptr \<times> Table" where
  "setnum_with newkey t key =
     bindE (luaH_getnum t key) (\<lambda>p.
       if p \<noteq> NilObject then Inr (p, t) else newkey t (TNumber (cast_num key)))"

text \<open>\<open>luaH_setnum\<close> on the keys of a vanishing slice, which are ints.\<close>

definition setnum_key :: "setter \<Rightarrow> setter" where
  "setnum_key newkey t key = setnum_with newkey t (arrayindex key)"

text \<open>The loop \<open>while (gnext(othern) != mp)\<close>; following a null pointer is \<open>Unterminated\<close>.\<close>

fun find_previous :: "Node list \<Rightarrow> nat \<Rightarrow> nat \<Rightarrow> nat \<Rightarrow> terror + nat" where
  "find_previous ns 0 othern mp = Inl Unterminated"
| "find_previous ns (Suc fuel) othern mp =
     (if gnext (ns ! othern) = Some mp then Inr othern
      else case gnext (ns ! othern) of
             None \<Rightarrow> Inl Unterminated
           | Some j \<Rightarrow> find_previous ns fuel j mp)"

definition set_nodes :: "Table \<Rightarrow> Node list \<Rightarrow> Table" where
  "set_nodes t ns = t\<lparr>node := Some ns\<rparr>"

definition move_colliding :: "Node list \<Rightarrow> nat \<Rightarrow> nat \<Rightarrow> nat \<Rightarrow> Node list" where
  "move_colliding ns prev mp n =
     (let ns1 = ns[prev := (ns ! prev)\<lparr>gnext := Some n\<rparr>];
          ns2 = ns1[n := ns1 ! mp]
      in ns2[mp := (ns2 ! mp)\<lparr>gnext := None, i_val := TNil\<rparr>])"

definition chain_after :: "Node list \<Rightarrow> nat \<Rightarrow> nat \<Rightarrow> Node list" where
  "chain_after ns mp n =
     (let ns1 = ns[n := (ns ! n)\<lparr>gnext := gnext (ns ! mp)\<rparr>]
      in ns1[mp := (ns1 ! mp)\<lparr>gnext := Some n\<rparr>])"

definition put_key :: "Table \<Rightarrow> Node list \<Rightarrow> nat \<Rightarrow> TValue \<Rightarrow> tvptr \<times> Table" where
  "put_key t ns mp key = (ValPtr mp, set_nodes t (ns[mp := (ns ! mp)\<lparr>i_key := key\<rparr>]))"

text \<open>
  \<open>newkey\<close>, \<open>rehash\<close> and \<open>luaH_set\<close> call each other; the fuel counts the nesting of rehashes.
  \<open>newkey_enough_fuel\<close> (theory \<open>Lua_Rehash\<close>) shows that two levels are enough.
\<close>

fun newkey :: "nat \<Rightarrow> setter" where
  "newkey 0 t key = Inl Unterminated"
| "newkey (Suc fuel) t key =
     (let mp = mainposition t key; ns = nodes t
      in if i_val (ns ! mp) \<noteq> TNil \<or> node t = None then
           case getfreepos t of
             (None, t') \<Rightarrow>
               bindE (rehash_with (setnum_key (\<lambda>t k. newkey fuel t k)) (set_with (\<lambda>t k. newkey fuel t k)) t' key)
                 (\<lambda>t''. set_with (\<lambda>t k. newkey fuel t k) t'' key)
           | (Some n, t') \<Rightarrow>
               (let othern = mainposition t (i_key (ns ! mp))
                in if othern \<noteq> mp then
                     bindE (find_previous ns (length ns) othern mp)
                       (\<lambda>prev. Inr (put_key t' (move_colliding ns prev mp n) mp key))
                   else Inr (put_key t' (chain_after ns mp n) n key))
         else Inr (put_key t ns mp key))"

abbreviation (input) rehash_fuel :: nat where "rehash_fuel \<equiv> 2"

definition luaH_set :: setter where
  "luaH_set = set_with (newkey rehash_fuel)"

definition luaH_setnum :: "Table \<Rightarrow> int \<Rightarrow> terror + tvptr \<times> Table" where
  "luaH_setnum = setnum_with (newkey rehash_fuel)"

definition luaH_setstr :: "Table \<Rightarrow> string \<Rightarrow> terror + tvptr \<times> Table" where
  "luaH_setstr t key =
     bindE (luaH_getstr t key) (\<lambda>p.
       if p \<noteq> NilObject then Inr (p, t) else newkey rehash_fuel t (TString key))"

definition resize :: "Table \<Rightarrow> nat \<Rightarrow> nat \<Rightarrow> terror + Table" where
  "resize = resize_with (setnum_key (newkey rehash_fuel)) (set_with (newkey rehash_fuel))"

definition rehash :: "Table \<Rightarrow> TValue \<Rightarrow> terror + Table" where
  "rehash = rehash_with (setnum_key (newkey rehash_fuel)) (set_with (newkey rehash_fuel))"

definition luaH_resizearray :: "Table \<Rightarrow> nat \<Rightarrow> terror + Table" where
  "luaH_resizearray t nasize =
     resize t nasize (if node t = None then 0 else sizenode t)"

section \<open>Traversal: findindex, luaH_next\<close>

definition findindex :: "Table \<Rightarrow> TValue \<Rightarrow> terror + int" where
  "findindex t key =
     (if key = TNil then Inr (- 1)
      else let i = arrayindex key
           in if 0 < i \<and> i \<le> int (sizearray t) then Inr (i - 1)
              else bindE (search t (\<lambda>k. luaO_rawequalObj k key) (mainposition t key))
                     (\<lambda>r. case r of None \<Rightarrow> Inl InvalidNextKey
                                  | Some i \<Rightarrow> Inr (int i + int (sizearray t))))"

text \<open>The first entry with a value that is not nil, at index \<open>i\<close> or later, array part first.\<close>

function next_entry :: "Table \<Rightarrow> nat \<Rightarrow> (TValue \<times> TValue) option" where
  "next_entry t i =
     (if i < sizearray t then
        if arr t ! i \<noteq> TNil then Some (TNumber (cast_num (int i + 1)), arr t ! i)
        else next_entry t (Suc i)
      else if i - sizearray t < sizenode t then
        (let n = nodes t ! (i - sizearray t)
         in if i_val n \<noteq> TNil then Some (i_key n, i_val n) else next_entry t (Suc i))
      else None)"
  by pat_completeness auto
termination
  by (relation "measure (\<lambda>(t, i). sizearray t + sizenode t - i)") auto

declare next_entry.simps [simp del]

definition luaH_next :: "Table \<Rightarrow> TValue \<Rightarrow> terror + (TValue \<times> TValue) option" where
  "luaH_next t key = bindE (findindex t key) (\<lambda>i. Inr (next_entry t (nat (i + 1))))"

section \<open>Length: unbound_search, luaH_getn\<close>

definition isnil_at :: "Table \<Rightarrow> int \<Rightarrow> terror + bool" where
  "isnil_at t j = bindE (luaH_getnum t j) (\<lambda>p. Inr (deref t p = TNil))"

text \<open>The linear search of a table \<open>built with bad purposes\<close>: it may run for as long as keys
  are present, so it is a partial function.\<close>

partial_function (option) linear_search :: "Table \<Rightarrow> int \<Rightarrow> (terror + int) option" where
  "linear_search t i =
     (case isnil_at t i of
        Inl e \<Rightarrow> Some (Inl e)
      | Inr b \<Rightarrow> if b then Some (Inr (i - 1)) else linear_search t (i + 1))"

text \<open>The binary search between a present index \<open>i\<close> (or zero) and an absent index \<open>j\<close>.\<close>

function binary_search :: "(int \<Rightarrow> terror + bool) \<Rightarrow> int \<Rightarrow> int \<Rightarrow> terror + int" where
  "binary_search isnil i j =
     (if 1 < j - i then
        let m = (i + j) div 2
        in bindE (isnil m) (\<lambda>b. if b then binary_search isnil i m else binary_search isnil m j)
      else Inr i)"
  by pat_completeness auto
termination
  by (relation "measure (\<lambda>(f, i, j). nat (j - i))") auto

declare binary_search.simps [simp del]

partial_function (option) unbound_loop :: "Table \<Rightarrow> int \<Rightarrow> int \<Rightarrow> (terror + int) option" where
  "unbound_loop t i j =
     (case isnil_at t j of
        Inl e \<Rightarrow> Some (Inl e)
      | Inr b \<Rightarrow>
          if b then Some (binary_search (isnil_at t) i j)
          else if MAX_INT < 2 * j then linear_search t 1
          else unbound_loop t j (2 * j))"

definition unbound_search :: "Table \<Rightarrow> int \<Rightarrow> (terror + int) option" where
  "unbound_search t j = unbound_loop t j (j + 1)"

definition luaH_getn :: "Table \<Rightarrow> (terror + int) option" where
  "luaH_getn t =
     (let j = int (sizearray t)
      in if 0 < j \<and> arr t ! nat (j - 1) = TNil
         then Some (binary_search (\<lambda>m. Inr (arr t ! nat (m - 1) = TNil)) 0 j)
         else if node t = None then Some (Inr j)
         else unbound_search t j)"

end
