(* ===== verification/Lua_Scatter.thy ===== *)
theory Lua_Scatter
  imports Lua_Object
begin

text \<open>
  The chained scatter table with Brent's variation of src/lib/lua/ltable.c, seen as three functions of
  the node index: the next node \<open>nx\<close>, the key \<open>ky\<close> and the value \<open>vl\<close>. \<open>scatter\<close> is the
  invariant the comment of that file announces, made precise enough to be kept by every insertion:
  a chain holds used nodes only, no two nodes have the same successor, chains end, every key
  is on the chain of its main position \<open>mp\<close>, and the node at the main position of a key
  holds a key of that main position. The lemmas are about the three ways \<open>newkey\<close> inserts.
\<close>

definition nrel :: "nat \<Rightarrow> (nat \<Rightarrow> nat option) \<Rightarrow> (nat \<times> nat) set" where
  "nrel n nx = {(i, j). i < n \<and> nx i = Some j}"

definition links_ok :: "nat \<Rightarrow> (nat \<Rightarrow> nat option) \<Rightarrow> (nat \<Rightarrow> TValue) \<Rightarrow> bool" where
  "links_ok n nx ky \<longleftrightarrow>
     (\<forall>i < n. \<forall>j. nx i = Some j \<longrightarrow> j < n \<and> ky i \<noteq> TNil \<and> ky j \<noteq> TNil)"

definition next_inj :: "nat \<Rightarrow> (nat \<Rightarrow> nat option) \<Rightarrow> bool" where
  "next_inj n nx \<longleftrightarrow> (\<forall>i < n. \<forall>i' < n. \<forall>j. nx i = Some j \<longrightarrow> nx i' = Some j \<longrightarrow> i = i')"

definition ranked :: "nat \<Rightarrow> (nat \<Rightarrow> nat option) \<Rightarrow> (nat \<Rightarrow> nat) \<Rightarrow> bool" where
  "ranked n nx r \<longleftrightarrow> (\<forall>i < n. \<forall>j. nx i = Some j \<longrightarrow> r i < r j)"

definition keys_ok :: "nat \<Rightarrow> (nat \<Rightarrow> TValue) \<Rightarrow> (nat \<Rightarrow> TValue) \<Rightarrow> bool" where
  "keys_ok n ky vl \<longleftrightarrow>
     (\<forall>i < n. ky i = TNil \<longrightarrow> vl i = TNil) \<and>
     (\<forall>i < n. \<not> isnan_value (ky i)) \<and>
     (\<forall>i < n. \<forall>j < n. ky i \<noteq> TNil \<longrightarrow> luaO_rawequalObj (ky i) (ky j) \<longrightarrow> i = j)"

definition homes_ok :: "nat \<Rightarrow> (TValue \<Rightarrow> nat) \<Rightarrow> (nat \<Rightarrow> nat option) \<Rightarrow> (nat \<Rightarrow> TValue) \<Rightarrow> bool" where
  "homes_ok n mp nx ky \<longleftrightarrow>
     (\<forall>i < n. ky i \<noteq> TNil \<longrightarrow>
        (mp (ky i), i) \<in> (nrel n nx)\<^sup>* \<and> mp (ky (mp (ky i))) = mp (ky i))"

definition scatter ::
  "nat \<Rightarrow> (TValue \<Rightarrow> nat) \<Rightarrow> (nat \<Rightarrow> nat option) \<Rightarrow> (nat \<Rightarrow> TValue) \<Rightarrow> (nat \<Rightarrow> TValue) \<Rightarrow> bool" where
  "scatter n mp nx ky vl \<longleftrightarrow>
     links_ok n nx ky \<and> next_inj n nx \<and> (\<exists>r. ranked n nx r) \<and> keys_ok n ky vl \<and>
     homes_ok n mp nx ky \<and> (\<forall>k. mp k < n)"

lemma nrel_iff: "(i, j) \<in> nrel n nx \<longleftrightarrow> i < n \<and> nx i = Some j"
  by (simp add: nrel_def)

lemma scatterD:
  assumes "scatter n mp nx ky vl"
  shows scatter_links: "links_ok n nx ky" and scatter_inj: "next_inj n nx"
    and scatter_rank: "\<exists>r. ranked n nx r" and scatter_keys: "keys_ok n ky vl"
    and scatter_homes: "homes_ok n mp nx ky" and scatter_mp: "mp k < n"
  using assms by (auto simp: scatter_def)

lemma links_next: "links_ok n nx ky \<Longrightarrow> i < n \<Longrightarrow> nx i = Some j \<Longrightarrow> j < n \<and> ky i \<noteq> TNil \<and> ky j \<noteq> TNil"
  by (auto simp: links_ok_def)

lemma reach_less: "links_ok n nx ky \<Longrightarrow> (i, j) \<in> (nrel n nx)\<^sup>* \<Longrightarrow> i < n \<Longrightarrow> j < n"
  by (erule rtrancl_induct) (auto simp: nrel_iff links_ok_def)

lemma reach_rank: "ranked n nx r \<Longrightarrow> (i, j) \<in> (nrel n nx)\<^sup>* \<Longrightarrow> r i \<le> r j"
  by (erule rtrancl_induct) (auto simp: nrel_iff ranked_def dest!: spec intro: order_trans less_imp_le)

lemma ranked_no_loop: "ranked n nx r \<Longrightarrow> i < n \<Longrightarrow> nx i \<noteq> Some i"
  by (auto simp: ranked_def)

text \<open>Simulating one link relation in another, along a renaming of the nodes.\<close>

lemma reach_map:
  assumes step: "\<And>i j. (i, j) \<in> R \<Longrightarrow> (f i, f j) \<in> S\<^sup>*" and "(a, b) \<in> R\<^sup>*"
  shows "(f a, f b) \<in> S\<^sup>*"
  using assms(2) by (induction rule: rtrancl_induct) (auto intro: rtrancl_trans step)

lemma home_used:
  assumes "homes_ok n mp nx ky" and "links_ok n nx ky" and "i < n" and "ky i \<noteq> TNil"
  shows "ky (mp (ky i)) \<noteq> TNil"
proof (cases "mp (ky i) = i")
  case False
  from assms have "(mp (ky i), i) \<in> (nrel n nx)\<^sup>*" by (auto simp: homes_ok_def)
  with False obtain j where "(mp (ky i), j) \<in> nrel n nx" by (auto elim: converse_rtranclE)
  with assms(2) show ?thesis by (auto simp: nrel_iff links_ok_def)
qed (use assms in simp)

section \<open>Overwriting the node at the main position\<close>

lemma scatter_overwrite:
  assumes sc: "scatter n mp nx ky vl"
    and k: "k \<noteq> TNil" "\<not> isnan_value k"
    and fresh: "\<And>i. i < n \<Longrightarrow> \<not> luaO_rawequalObj (ky i) k"
    and free: "vl (mp k) = TNil"
  shows "scatter n mp nx (ky(mp k := k)) vl"
proof -
  note D = scatterD [OF sc]
  have fresh': "\<not> luaO_rawequalObj k (ky i)" if "i < n" for i
    using fresh [OF that] by (simp add: rawequal_commute)
  have "links_ok n nx (ky(mp k := k))" using D(1) k by (auto simp: links_ok_def)
  moreover have "keys_ok n (ky(mp k := k)) vl"
    using D(4) k fresh fresh' free by (auto simp: keys_ok_def)
  moreover have "homes_ok n mp nx (ky(mp k := k))"
    using D(5) by (auto simp: homes_ok_def)
  ultimately show ?thesis using D by (simp add: scatter_def)
qed

section \<open>Chaining a new node after the main position\<close>

definition chained :: "(nat \<Rightarrow> nat option) \<Rightarrow> nat \<Rightarrow> nat \<Rightarrow> nat \<Rightarrow> nat option" where
  "chained nx m f = nx(f := nx m, m := Some f)"

lemma ranked_chained:
  assumes "ranked n nx r" and links: "links_ok n nx ky" and f: "ky f = TNil" and m: "m < n" "m \<noteq> f"
  shows "\<exists>r'. ranked n (chained nx m f) r'"
proof
  have nf: "nx i \<noteq> Some f" if "i < n" for i using links f that by (auto simp: links_ok_def)
  show "ranked n (chained nx m f) (\<lambda>i. if i = f then 2 * r m + 1 else 2 * r i)"
    unfolding ranked_def chained_def
  proof (intro allI impI)
    fix i j assume i: "i < n" and ij: "(nx(f := nx m, m := Some f)) i = Some j"
    show "(if i = f then 2 * r m + 1 else 2 * r i) < (if j = f then 2 * r m + 1 else 2 * r j)"
    proof (cases "i = m")
      case True
      with ij m show ?thesis by auto
    next
      case False
      define i' where "i' = (if i = f then m else i)"
      from ij False have "nx i' = Some j" and "i' < n" using i m by (auto simp: i'_def)
      then have "r i' < r j" and "j \<noteq> f" using assms(1) nf by (auto simp: ranked_def)
      then show ?thesis by (auto simp: i'_def split: if_splits)
    qed
  qed
qed

lemma scatter_chain_after:
  assumes sc: "scatter n mp nx ky vl"
    and k: "k \<noteq> TNil" "\<not> isnan_value k"
    and fresh: "\<And>i. i < n \<Longrightarrow> \<not> luaO_rawequalObj (ky i) k"
    and m: "m = mp k" "ky m \<noteq> TNil" "mp (ky m) = m"
    and f: "f < n" "ky f = TNil"
  shows "scatter n mp (chained nx m f) (ky(f := k)) vl"
proof -
  note D = scatterD [OF sc]
  have fresh': "\<not> luaO_rawequalObj k (ky i)" if "i < n" for i
    using fresh [OF that] by (simp add: rawequal_commute)
  have mn: "m < n" "m \<noteq> f" using D(6) m f by auto
  have nf: "nx i \<noteq> Some f" if "i < n" for i using D(1) f that by (auto simp: links_ok_def)
  have nff: "nx f = None" using D(1) f by (cases "nx f") (auto simp: links_ok_def)
  have links: "links_ok n (chained nx m f) (ky(f := k))"
    using D(1) k m f mn by (auto simp: links_ok_def chained_def)
  have inj: "next_inj n (chained nx m f)"
    using D(2) nf mn unfolding next_inj_def chained_def
    by (auto simp: nff split: if_splits)
  obtain r where "ranked n nx r" using D(3) by blast
  then have rank: "\<exists>r. ranked n (chained nx m f) r"
    by (rule ranked_chained [OF _ D(1) f(2) mn])
  have keys: "keys_ok n (ky(f := k)) vl"
    using D(4) k fresh fresh' f by (auto simp: keys_ok_def)
  have step: "(i, j) \<in> (nrel n (chained nx m f))\<^sup>*" if "(i, j) \<in> nrel n nx" for i j
  proof (cases "i = m")
    case True
    with that mn have "(m, f) \<in> nrel n (chained nx m f)" "(f, j) \<in> nrel n (chained nx m f)"
      using f by (auto simp: nrel_iff chained_def)
    with True show ?thesis by (meson r_into_rtrancl rtrancl_trans)
  next
    case False
    with that nff have "(i, j) \<in> nrel n (chained nx m f)" by (auto simp: nrel_iff chained_def)
    then show ?thesis by (rule r_into_rtrancl)
  qed
  have reach: "(a, b) \<in> (nrel n nx)\<^sup>* \<Longrightarrow> (a, b) \<in> (nrel n (chained nx m f))\<^sup>*" for a b
    using reach_map [where f = "\<lambda>i. i", OF step] by auto
  have mf: "(m, f) \<in> (nrel n (chained nx m f))\<^sup>*" using mn by (auto simp: nrel_iff chained_def)
  have hf: "mp (ky i) \<noteq> f" if "i < n" "ky i \<noteq> TNil" for i
    using home_used [OF D(5) D(1) that] f by auto
  have "homes_ok n mp (chained nx m f) (ky(f := k))"
    unfolding homes_ok_def
  proof (intro allI impI)
    fix i assume i: "i < n" "(ky(f := k)) i \<noteq> TNil"
    show "(mp ((ky(f := k)) i), i) \<in> (nrel n (chained nx m f))\<^sup>* \<and>
        mp ((ky(f := k)) (mp ((ky(f := k)) i))) = mp ((ky(f := k)) i)"
      using i D(5) hf reach mf m mn by (cases "i = f") (auto simp: homes_ok_def)
  qed
  with links inj rank keys D(6) show ?thesis by (simp add: scatter_def)
qed

section \<open>Moving a colliding node out of the main position\<close>

definition moved :: "(nat \<Rightarrow> nat option) \<Rightarrow> nat \<Rightarrow> nat \<Rightarrow> nat \<Rightarrow> nat \<Rightarrow> nat option" where
  "moved nx p m f = nx(p := Some f, f := nx m, m := None)"

lemma scatter_move:
  assumes sc: "scatter n mp nx ky vl"
    and k: "k \<noteq> TNil" "\<not> isnan_value k"
    and fresh: "\<And>i. i < n \<Longrightarrow> \<not> luaO_rawequalObj (ky i) k"
    and m: "m = mp k" "ky m \<noteq> TNil" "mp (ky m) \<noteq> m"
    and f: "f < n" "ky f = TNil"
    and p: "p < n" "nx p = Some m"
  shows "scatter n mp (moved nx p m f) (ky(f := ky m, m := k)) (vl(f := vl m, m := TNil))"
proof -
  note D = scatterD [OF sc]
  have fresh': "\<not> luaO_rawequalObj k (ky i)" if "i < n" for i
    using fresh [OF that] by (simp add: rawequal_commute)
  have mn: "m < n" "m \<noteq> f" using D(6) m f by auto
  have nf: "nx i \<noteq> Some f" if "i < n" for i using D(1) f that by (auto simp: links_ok_def)
  have nff: "nx f = None" using D(1) f by (cases "nx f") (auto simp: links_ok_def)
  obtain r where r: "ranked n nx r" using D(3) by blast
  have pm: "p \<noteq> m" "p \<noteq> f" using r p nff by (auto simp: ranked_def)
  have only: "nx i \<noteq> Some m" if "i < n" "i \<noteq> p" for i using D(2) p that by (auto simp: next_inj_def)
  have nm: "mp (ky i) \<noteq> m" if "i < n" "ky i \<noteq> TNil" for i
    using D(5) that m by (auto simp: homes_ok_def)
  let ?nx = "moved nx p m f" and ?ky = "ky(f := ky m, m := k)"
  define s where "s i = (if i = m then f else i)" for i
  have links: "links_ok n ?nx ?ky"
    using D(1) k m f p mn pm by (auto simp: links_ok_def moved_def)
  have inj: "next_inj n ?nx"
  proof -
    define h where "h i = (if i = f then m else i)" for i
    have h: "i \<noteq> m" "j = f \<Longrightarrow> i = p" "j \<noteq> f \<Longrightarrow> nx (h i) = Some j" "h i < n"
      if "i < n" "?nx i = Some j" for i j
      using that pm mn nf by (auto simp: moved_def h_def split: if_splits)
    have hh: "h i = h i'" if "nx (h i) = Some j" "nx (h i') = Some j" "h i < n" "h i' < n" for i i' j
      using D(2) that unfolding next_inj_def by blast
    have hi: "i = i'" if "h i = h i'" "i \<noteq> m" "i' \<noteq> m" for i i'
      using that by (auto simp: h_def split: if_splits)
    show ?thesis unfolding next_inj_def
    proof (intro allI impI)
      fix i i' j assume ij: "i < n" "i' < n" "?nx i = Some j" "?nx i' = Some j"
      show "i = i'"
      proof (cases "j = f")
        case True
        from h(2) [OF ij(1,3) True] h(2) [OF ij(2,4) True] show ?thesis by (rule trans [OF _ sym])
      next
        case False
        from hh [OF h(3) [OF ij(1,3) False] h(3) [OF ij(2,4) False] h(4) [OF ij(1,3)] h(4) [OF ij(2,4)]]
        show ?thesis by (rule hi) (fact h(1) [OF ij(1,3)], fact h(1) [OF ij(2,4)])
      qed
    qed
  qed
  have "ranked n ?nx (r(f := r m))"
    using r nf only p pm mn unfolding ranked_def moved_def by (auto split: if_splits)
  then have rank: "\<exists>r. ranked n ?nx r" by blast
  have keys: "keys_ok n ?ky (vl(f := vl m, m := TNil))"
  proof -
    define g where "g i = (if i = f then m else i)" for i
    have g: "?ky i = ky (g i)" "(vl(f := vl m, m := TNil)) i = vl (g i)" "g i < n" if "i < n" "i \<noteq> m" for i
      using that mn by (auto simp: g_def)
    have gi: "i = j" if "g i = g j" "i \<noteq> m" "j \<noteq> m" for i j
      using that by (auto simp: g_def split: if_splits)
    have old: "ky (g i) = TNil \<longrightarrow> vl (g i) = TNil" "\<not> isnan_value (ky (g i))"
        "\<not> luaO_rawequalObj (ky (g i)) k" "\<not> luaO_rawequalObj k (ky (g i))" if "i < n" "i \<noteq> m" for i
      using D(4) g(3) [OF that] fresh fresh' by (auto simp: keys_ok_def)
    have "i = j" if "i < n" "j < n" "?ky i \<noteq> TNil" "luaO_rawequalObj (?ky i) (?ky j)" for i j
    proof (cases "i = m \<or> j = m")
      case True
      with that old show ?thesis using g(1) by (metis fun_upd_same)
    next
      case False
      with that g(1) [of i] g(1) [of j]
      have "ky (g i) \<noteq> TNil" "luaO_rawequalObj (ky (g i)) (ky (g j))" by simp_all
      then have "g i = g j" using D(4) g(3) that False by (auto simp: keys_ok_def)
      with False show ?thesis by (simp add: gi)
    qed
    moreover have "?ky i = TNil \<longrightarrow> (vl(f := vl m, m := TNil)) i = TNil" "\<not> isnan_value (?ky i)"
      if "i < n" for i
      using k old g that by (cases "i = m"; simp)+
    ultimately show ?thesis unfolding keys_ok_def by blast
  qed
  have step: "(s i, s j) \<in> (nrel n ?nx)\<^sup>*" if "(i, j) \<in> nrel n nx" for i j
  proof -
    from that have "i < n" "nx i = Some j" by (auto simp: nrel_iff)
    then have "(s i, s j) \<in> nrel n ?nx"
      using only nff f p pm mn nf r
      by (auto simp: s_def nrel_iff moved_def ranked_def split: if_splits)
    then show ?thesis by (rule r_into_rtrancl)
  qed
  have reach: "(s a, s b) \<in> (nrel n ?nx)\<^sup>*" if "(a, b) \<in> (nrel n nx)\<^sup>*" for a b
    by (rule reach_map [OF step that])
  have hf: "mp (ky i) \<noteq> f" if "i < n" "ky i \<noteq> TNil" for i
    using home_used [OF D(5) D(1) that] f by auto
  have "homes_ok n mp ?nx ?ky"
    unfolding homes_ok_def
  proof (intro allI impI)
    fix i assume i: "i < n" "?ky i \<noteq> TNil"
    show "(mp (?ky i), i) \<in> (nrel n ?nx)\<^sup>* \<and> mp (?ky (mp (?ky i))) = mp (?ky i)"
    proof (cases "i = m")
      case True
      then show ?thesis using m by simp
    next
      case False
      define i' where "i' = (if i = f then m else i)"
      have i': "i' < n" "ky i' \<noteq> TNil" "?ky i = ky i'" "s i' = i"
        using i False mn m by (auto simp: i'_def s_def)
      then have "(mp (ky i'), i') \<in> (nrel n nx)\<^sup>*" "mp (ky (mp (ky i'))) = mp (ky i')"
        using D(5) by (auto simp: homes_ok_def)
      moreover have "mp (ky i') \<noteq> m" "mp (ky i') \<noteq> f" using nm hf i' by auto
      ultimately show ?thesis using reach [of "mp (ky i')" i'] i' by (auto simp: s_def)
    qed
  qed
  with links inj rank keys D(6) show ?thesis by (simp add: scatter_def)
qed

end
