(* ===== verification/Lua_Table_Inv.thy ===== *)
theory Lua_Table_Inv
  imports Lua_Table Lua_Scatter
begin

unbundle bit_operations_syntax

text \<open>
  The invariant of a table, the map it stands for, and the search: every lookup of
  src/lib/lua/ltable.c ends and finds the slot of the key. \<open>tabs\<close> is the abstraction function;
  \<open>locates t k p\<close> says that \<open>p\<close> is the place the key \<open>k\<close> has in \<open>t\<close>.
\<close>

section \<open>The invariant\<close>

definition nx :: "Table \<Rightarrow> nat \<Rightarrow> nat option" where "nx t i = gnext (nodes t ! i)"
definition ky :: "Table \<Rightarrow> nat \<Rightarrow> TValue" where "ky t i = i_key (nodes t ! i)"
definition vl :: "Table \<Rightarrow> nat \<Rightarrow> TValue" where "vl t i = i_val (nodes t ! i)"

definition in_array :: "Table \<Rightarrow> TValue \<Rightarrow> bool" where
  "in_array t k \<longleftrightarrow> 0 < arrayindex k \<and> arrayindex k \<le> int (sizearray t)"

definition wf_sizes :: "Table \<Rightarrow> bool" where
  "wf_sizes t \<longleftrightarrow> length (nodes t) = sizenode t \<and> lsizenode t \<le> MAXBITS \<and>
     sizearray t \<le> MAXASIZE \<and> (node t = None \<longrightarrow> lsizenode t = 0)"

definition free_ok :: "Table \<Rightarrow> bool" where
  "free_ok t \<longleftrightarrow>
     (case node t of None \<Rightarrow> lastfree t \<le> 0
      | Some _ \<Rightarrow> lastfree t \<le> int (sizenode t) \<and>
          (\<forall>i < sizenode t. lastfree t \<le> int i \<longrightarrow> ky t i \<noteq> TNil))"

definition table_inv :: "Table \<Rightarrow> bool" where
  "table_inv t \<longleftrightarrow> wf_sizes t \<and> free_ok t \<and>
     scatter (sizenode t) (mainposition t) (nx t) (ky t) (vl t) \<and>
     (\<forall>i < sizenode t. \<not> in_array t (ky t i))"

definition tabs :: "Table \<Rightarrow> TValue \<Rightarrow> TValue" where
  "tabs t k =
     (if in_array t k then arr t ! nat (arrayindex k - 1)
      else case find (\<lambda>n. luaO_rawequalObj (i_key n) k) (nodes t) of
             None \<Rightarrow> TNil | Some n \<Rightarrow> i_val n)"

definition locates :: "Table \<Rightarrow> TValue \<Rightarrow> tvptr \<Rightarrow> bool" where
  "locates t k p =
     (case p of
        NilObject \<Rightarrow> \<not> in_array t k \<and>
          (k = TNil \<or> (\<forall>i < sizenode t. \<not> luaO_rawequalObj (ky t i) k))
      | ArrPtr i \<Rightarrow> in_array t k \<and> int i + 1 = arrayindex k
      | ValPtr i \<Rightarrow> \<not> in_array t k \<and> k \<noteq> TNil \<and> i < sizenode t \<and> luaO_rawequalObj (ky t i) k)"

lemma table_invD:
  assumes "table_inv t"
  shows inv_sizes: "wf_sizes t" and inv_free: "free_ok t"
    and inv_scatter: "scatter (sizenode t) (mainposition t) (nx t) (ky t) (vl t)"
    and inv_array: "i < sizenode t \<Longrightarrow> \<not> in_array t (ky t i)"
    and inv_length: "length (nodes t) = sizenode t"
  using assms by (auto simp: table_inv_def wf_sizes_def)

lemma sizenode_pos [simp]: "0 < sizenode t"
  by (simp add: sizenode_def)

lemma find_key:
  assumes "table_inv t" and "i < sizenode t" and "luaO_rawequalObj (ky t i) k" and "k \<noteq> TNil"
  shows "find (\<lambda>n. luaO_rawequalObj (i_key n) k) (nodes t) = Some (nodes t ! i)"
proof -
  have D: "keys_ok (sizenode t) (ky t) (vl t)" by (rule scatter_keys [OF inv_scatter [OF assms(1)]])
  have "\<not> luaO_rawequalObj (ky t j) k" if "j < i" for j
  proof
    assume j: "luaO_rawequalObj (ky t j) k"
    then have "luaO_rawequalObj (ky t j) (ky t i)" "ky t j \<noteq> TNil"
      using assms(3,4) by (auto intro: rawequal_trans rawequal_sym)
    with D assms(2) that have "j = i" by (auto simp: keys_ok_def)
    with that show False by simp
  qed
  then show ?thesis
    using assms inv_length [OF assms(1)] by (auto simp: find_Some_iff ky_def)
qed

lemma find_no_key:
  assumes "table_inv t" and "\<forall>i < sizenode t. \<not> luaO_rawequalObj (ky t i) k"
  shows "find (\<lambda>n. luaO_rawequalObj (i_key n) k) (nodes t) = None"
  using assms inv_length [OF assms(1)] by (auto simp: find_None_iff in_set_conv_nth ky_def)

lemma tabs_node:
  assumes "table_inv t" and "i < sizenode t" and "luaO_rawequalObj (ky t i) k" and "k \<noteq> TNil"
    and "\<not> in_array t k"
  shows "tabs t k = vl t i"
  using find_key [OF assms(1-4)] assms(5) by (simp add: tabs_def vl_def)

lemma tabs_nil: 
  assumes "table_inv t" shows "tabs t TNil = TNil"
proof -
  have "\<not> in_array t TNil" by (simp add: in_array_def)
  moreover have "i_val n = TNil" if "find (\<lambda>n. luaO_rawequalObj (i_key n) TNil) (nodes t) = Some n" for n
  proof -
    from that obtain i where "i < length (nodes t)" "n = nodes t ! i" "ky t i = TNil"
      by (auto simp: find_Some_iff ky_def)
    then show ?thesis
      using scatter_keys [OF inv_scatter [OF assms]] inv_length [OF assms]
      by (auto simp: keys_ok_def vl_def)
  qed
  ultimately show ?thesis by (auto simp: tabs_def split: option.splits)
qed

lemma tabs_locates:
  assumes "table_inv t" and "locates t k p"
  shows "deref t p = tabs t k"
proof (cases p)
  case NilObject
  show ?thesis
  proof (cases "k = TNil")
    case True
    with NilObject show ?thesis by (simp add: deref_def tabs_nil [OF assms(1)])
  next
    case False
    with NilObject assms(2) have "\<not> in_array t k" "\<forall>i < sizenode t. \<not> luaO_rawequalObj (ky t i) k"
      by (auto simp: locates_def)
    with NilObject find_no_key [OF assms(1)] show ?thesis by (simp add: deref_def tabs_def)
  qed
next
  case (ArrPtr i)
  then have "in_array t k" "int i = arrayindex k - 1" using assms(2) by (auto simp: locates_def)
  then have "i = nat (arrayindex k - 1)" by simp
  with ArrPtr \<open>in_array t k\<close> show ?thesis by (simp add: deref_def tabs_def)
next
  case (ValPtr i)
  with assms show ?thesis by (auto simp: locates_def deref_def tabs_node vl_def)
qed

section \<open>Hashing stays in range and respects equality\<close>

lemma lmod_pow2: "lmod s (2 ^ k) = s mod 2 ^ k"
  unfolding lmod_def mask_eq_exp_minus_1 [symmetric] take_bit_eq_mask [symmetric]
  by (rule take_bit_eq_mod)

lemma hashpow2_less: "hashpow2 t n < sizenode t"
  by (simp add: hashpow2_def sizenode_def lmod_pow2)

lemma hashmod_less: "hashmod t n < sizenode t"
proof (cases "lsizenode t = 0")
  case True
  then show ?thesis by (simp add: hashmod_def sizenode_def)
next
  case False
  then have "(1::nat) < 2 ^ lsizenode t" by (intro one_less_power) auto
  then have "n mod (2 ^ lsizenode t - 1) < 2 ^ lsizenode t"
    by (meson diff_less less_imp_diff_less less_trans mod_less_divisor zero_less_diff zero_less_one
        zero_less_numeral zero_less_power)
  then show ?thesis
    using False pow2_minus_one_or_one [of "lsizenode t"] by (simp add: hashmod_def sizenode_def)
qed

lemma hashnum_less: "hashnum t n < sizenode t"
  by (simp add: hashnum_def hashmod_less)

lemma mainposition_less: "mainposition t k < sizenode t"
  by (cases k) (simp_all add: hashnum_less hashpow2_less hashmod_less hashpointer_def)

lemma mainposition_cong: "lsizenode t = lsizenode t' \<Longrightarrow> mainposition t = mainposition t'"
proof
  fix k assume "lsizenode t = lsizenode t'"
  then show "mainposition t k = mainposition t' k"
    by (cases k) (simp_all add: hashnum_def hashmod_def hashpow2_def hashpointer_def sizenode_def)
qed

lemma hashnum_numeq: "luai_numeq a b \<Longrightarrow> hashnum t a = hashnum t b"
proof (cases "num_key a = 0")
  case True
  moreover assume "luai_numeq a b"
  ultimately have "luai_numeq a 0" "luai_numeq b 0" by (simp_all add: luai_numeq_def)
  then show ?thesis by (simp add: hashnum_def)
next
  case False
  moreover assume "luai_numeq a b"
  ultimately have "a = b" by (intro num_key_inj_nonzero) (simp_all add: luai_numeq_def)
  then show ?thesis by simp
qed

lemma mainposition_rawequal: "luaO_rawequalObj a b \<Longrightarrow> mainposition t a = mainposition t b"
  by (auto simp: rawequal_iff hashnum_numeq)

lemma arrayindex_range: "- (2 ^ 31) \<le> arrayindex k \<and> arrayindex k \<le> 2 ^ 31 - 1"
proof (cases k)
  case (TNumber n)
  then show ?thesis using lua_number2int_range [of n] by (simp add: Let_def)
qed simp_all

lemma arrayindex_rawequal:
  assumes "luaO_rawequalObj a b" shows "arrayindex a = arrayindex b"
proof -
  have "arrayindex (TNumber x) = arrayindex (TNumber y)" if "luai_numeq x y" for x y
  proof -
    have "lua_number2int x = lua_number2int y" using that by (rule luai_numeq_number2int)
    moreover have "luai_numeq z x \<longleftrightarrow> luai_numeq z y" for z
      using that by (blast intro: luai_numeq_trans luai_numeq_sym)
    ultimately show ?thesis by simp
  qed
  with assms show ?thesis by (auto simp: rawequal_iff simp del: arrayindex.simps)
qed

lemma in_array_rawequal: "luaO_rawequalObj a b \<Longrightarrow> in_array t a = in_array t b"
  by (simp add: in_array_def arrayindex_rawequal)

lemma arrayindex_cast_num:
  "- (2 ^ 31) \<le> k \<Longrightarrow> k \<le> 2 ^ 31 - 1 \<Longrightarrow> arrayindex (TNumber (cast_num k)) = k"
  by (simp add: lua_number2int_cast_num luai_numeq_cast_num)

lemma arrayindex_pos_rawequal:
  "0 < arrayindex k \<Longrightarrow> luaO_rawequalObj k (TNumber (cast_num (arrayindex k)))"
  by (cases k) (auto simp: Let_def intro: luai_numeq_sym split: if_splits)

lemma tabs_rawequal:
  assumes "luaO_rawequalObj a b" shows "tabs t a = tabs t b"
proof -
  have "luaO_rawequalObj k a = luaO_rawequalObj k b" for k
    using assms by (blast intro: rawequal_trans rawequal_sym)
  with assms show ?thesis
    by (simp add: tabs_def in_array_rawequal [OF assms] arrayindex_rawequal [OF assms])
qed

section \<open>The search along a chain\<close>

lemma chain_find_spec:
  fixes ns :: "Node list"
  defines "n \<equiv> length ns" and "f \<equiv> \<lambda>i. gnext (ns ! i)"
  assumes links: "links_ok n f k" and rank: "ranked n f r"
    and "i < n" and "card {j. j < n \<and> r i \<le> r j} \<le> fuel"
  shows "(\<exists>j. chain_find P ns fuel i = Inr (Some j) \<and> (i, j) \<in> (nrel n f)\<^sup>* \<and> P (ns ! j)) \<or>
     (chain_find P ns fuel i = Inr None \<and> (\<forall>j. (i, j) \<in> (nrel n f)\<^sup>* \<longrightarrow> \<not> P (ns ! j)))"
  using assms(5,6)
proof (induction fuel arbitrary: i)
  case 0
  have fin: "finite {j. j < n \<and> r i \<le> r j}" by (rule finite_subset [of _ "{..<n}"]) auto
  with 0 have "{j. j < n \<and> r i \<le> r j} = {}" by simp
  with 0 show ?case by auto
next
  case (Suc fuel)
  show ?case
  proof (cases "P (ns ! i)")
    case True
    then show ?thesis by auto
  next
    case False
    show ?thesis
    proof (cases "f i")
      case None
      have "j = i" if "(i, j) \<in> (nrel n f)\<^sup>*" for j
        using that None by (auto elim: converse_rtranclE simp: nrel_iff)
      with None False show ?thesis by (auto simp: f_def)
    next
      case (Some j)
      have ij: "(i, j) \<in> nrel n f" "j < n" "r i < r j"
        using Some Suc.prems links rank by (auto simp: nrel_iff links_ok_def ranked_def)
      have fin: "finite {j. j < n \<and> r i \<le> r j}" by (rule finite_subset [of _ "{..<n}"]) auto
      have "{l. l < n \<and> r j \<le> r l} \<subseteq> {l. l < n \<and> r i \<le> r l}"
        using ij(3) by (simp add: Collect_mono_iff)
      moreover have "i \<in> {l. l < n \<and> r i \<le> r l}" "i \<notin> {l. l < n \<and> r j \<le> r l}"
        using ij(3) Suc.prems(1) by simp_all
      ultimately have "{l. l < n \<and> r j \<le> r l} \<subset> {l. l < n \<and> r i \<le> r l}" by blast
      then have "card {l. l < n \<and> r j \<le> r l} < card {l. l < n \<and> r i \<le> r l}"
        by (rule psubset_card_mono [OF fin])
      with Suc.prems have "card {l. l < n \<and> r j \<le> r l} \<le> fuel" by simp
      note IH = Suc.IH [OF ij(2) this]
      have eq: "chain_find P ns (Suc fuel) i = chain_find P ns fuel j"
        using False Some by (simp add: f_def)
      have split: "(i, l) \<in> (nrel n f)\<^sup>* \<longleftrightarrow> l = i \<or> (j, l) \<in> (nrel n f)\<^sup>*" for l
      proof
        assume "(i, l) \<in> (nrel n f)\<^sup>*"
        then show "l = i \<or> (j, l) \<in> (nrel n f)\<^sup>*"
          by (cases rule: converse_rtranclE) (use Some in \<open>simp_all add: nrel_iff\<close>)
      next
        assume "l = i \<or> (j, l) \<in> (nrel n f)\<^sup>*"
        with ij(1) show "(i, l) \<in> (nrel n f)\<^sup>*" by (auto intro: converse_rtrancl_into_rtrancl)
      qed
      from IH False show ?thesis unfolding eq by (simp add: split) blast
    qed
  qed
qed

lemma search_spec:
  fixes P :: "TValue \<Rightarrow> bool"
  assumes inv: "table_inv t" and i: "i < sizenode t"
  shows "(\<exists>j. search t P i = Inr (Some j) \<and> j < sizenode t \<and>
             (i, j) \<in> (nrel (sizenode t) (nx t))\<^sup>* \<and> P (ky t j)) \<or>
     (search t P i = Inr None \<and>
       (\<forall>j. (i, j) \<in> (nrel (sizenode t) (nx t))\<^sup>* \<longrightarrow> \<not> P (ky t j)))"
proof -
  note D = scatterD [OF inv_scatter [OF inv]]
  have len: "length (nodes t) = sizenode t" and f: "(\<lambda>i. gnext (nodes t ! i)) = nx t"
    using inv_length [OF inv] by (auto simp: nx_def)
  obtain r where r: "ranked (sizenode t) (nx t) r" using D(3) by blast
  note spec = chain_find_spec [where ns = "nodes t" and k = "ky t" and r = r and i = i
      and fuel = "sizenode t" and P = "\<lambda>n. P (i_key n)", unfolded len f, OF D(1) r i card_Collect_less_le]
  then show ?thesis
    using reach_less [OF D(1) _ i] by (auto simp: search_def len ky_def)
qed

text \<open>Looking for a key from its main position finds its node.\<close>

lemma search_key:
  assumes inv: "table_inv t" and k: "k \<noteq> TNil"
    and P: "\<And>x. P x \<longleftrightarrow> luaO_rawequalObj x k"
  shows "(\<exists>i < sizenode t. search t P (mainposition t k) = Inr (Some i) \<and> luaO_rawequalObj (ky t i) k) \<or>
     (search t P (mainposition t k) = Inr None \<and> (\<forall>i < sizenode t. \<not> luaO_rawequalObj (ky t i) k))"
proof -
  note D = scatterD [OF inv_scatter [OF inv]]
  have home: "(mainposition t k, i) \<in> (nrel (sizenode t) (nx t))\<^sup>*"
    if "i < sizenode t" "luaO_rawequalObj (ky t i) k" for i
  proof -
    from that k have "ky t i \<noteq> TNil" by auto
    with D(5) that have "(mainposition t (ky t i), i) \<in> (nrel (sizenode t) (nx t))\<^sup>*"
      by (auto simp: homes_ok_def)
    with mainposition_rawequal [OF that(2)] show ?thesis by simp
  qed
  from search_spec [OF inv mainposition_less [of t k], of P] show ?thesis
    using home by (auto simp: P)
qed

section \<open>Every lookup ends and finds the slot of the key\<close>

lemma getnum_locates:
  assumes inv: "table_inv t" and key: "- (2 ^ 31) \<le> key" "key \<le> 2 ^ 31 - 1"
  shows "\<exists>p. luaH_getnum t key = Inr p \<and> locates t (TNumber (cast_num key)) p"
proof -
  let ?k = "TNumber (cast_num key)"
  have ai: "arrayindex ?k = key" using key by (rule arrayindex_cast_num)
  have sz: "sizearray t \<le> 2 ^ 26" using inv by (simp add: table_inv_def wf_sizes_def)
  have range: "(key - 1) mod 2 ^ 32 < int (sizearray t) \<longleftrightarrow> in_array t ?k"
  proof (cases "0 < key")
    case True
    then have "(key - 1) mod 2 ^ 32 = key - 1" using key by simp
    with True show ?thesis by (auto simp: in_array_def ai simp del: arrayindex.simps)
  next
    case False
    then have "(key - 1 + 2 ^ 32) mod 2 ^ 32 = key - 1 + 2 ^ 32"
      using key by (intro mod_pos_pos_trivial) auto
    then have "(key - 1) mod 2 ^ 32 = (key - 1) + 2 ^ 32" by (simp only: mod_add_self2)
    with False sz key show ?thesis by (simp add: in_array_def ai del: arrayindex.simps)
  qed
  show ?thesis
  proof (cases "in_array t ?k")
    case True
    then have "luaH_getnum t key = Inr (ArrPtr (nat (key - 1)))" using range by (simp add: luaH_getnum_def)
    moreover have "locates t ?k (ArrPtr (nat (key - 1)))" using True
      by (auto simp: locates_def in_array_def ai simp del: arrayindex.simps)
    ultimately show ?thesis by blast
  next
    case False
    have P: "key_is_num (cast_num key) x \<longleftrightarrow> luaO_rawequalObj x ?k" for x
      by (cases x) (auto simp: rawequal_iff)
    show ?thesis
      using search_key [OF inv _ P] False range
      by (auto simp: luaH_getnum_def Let_def locates_def node_ptr_def)
  qed
qed

lemma get_generic_locates:
  assumes "table_inv t" and "k \<noteq> TNil" and "\<not> in_array t k"
  shows "\<exists>p. get_generic t k = Inr p \<and> locates t k p"
  using search_key [OF assms(1,2), of "\<lambda>x. luaO_rawequalObj x k"] assms
  by (auto simp: get_generic_def locates_def node_ptr_def)

lemma getstr_locates:
  assumes "table_inv t"
  shows "\<exists>p. luaH_getstr t s = Inr p \<and> locates t (TString s) p"
  using search_key [OF assms, of "TString s" "\<lambda>k. k = TString s"]
  by (auto simp: luaH_getstr_def locates_def node_ptr_def in_array_def)

lemma locates_rawequal:
  assumes eq: "luaO_rawequalObj a b" and "locates t a p" shows "locates t b p"
proof -
  have nil: "a = TNil \<longleftrightarrow> b = TNil" using eq by (auto simp: rawequal_iff)
  have "luaO_rawequalObj x a \<longleftrightarrow> luaO_rawequalObj x b" for x
    using eq by (blast intro: rawequal_trans rawequal_sym)
  with assms nil show ?thesis
    by (auto simp: locates_def in_array_rawequal [OF eq] arrayindex_rawequal [OF eq] split: tvptr.splits)
qed

theorem luaH_get_locates:
  assumes inv: "table_inv t"
  shows "\<exists>p. luaH_get t k = Inr p \<and> locates t k p"
proof (cases k)
  case (TNumber n)
  let ?i = "lua_number2int n"
  show ?thesis
  proof (cases "luai_numeq (cast_num ?i) n")
    case True
    then have eq: "luaO_rawequalObj (TNumber (cast_num ?i)) k" by (simp add: TNumber)
    obtain p where p: "luaH_getnum t ?i = Inr p" "locates t (TNumber (cast_num ?i)) p"
      using getnum_locates [OF inv, of ?i] lua_number2int_range [of n] by blast
    from locates_rawequal [OF eq p(2)] p(1) True show ?thesis by (simp add: TNumber)
  next
    case False
    then have "\<not> in_array t k" by (simp add: TNumber in_array_def)
    with False get_generic_locates [OF inv] TNumber show ?thesis by simp
  qed
next
  case TNil
  then show ?thesis by (simp add: locates_def in_array_def)
qed (use get_generic_locates [OF inv, of k] getstr_locates [OF inv] in \<open>simp_all add: in_array_def\<close>)

end
