(* ===== verification/Lua_Insert.thy ===== *)
theory Lua_Insert
  imports Lua_Table_Inv
begin

unbundle bit_operations_syntax

text \<open>
  Writing to a table: assigning through the pointer a lookup gave, and the insertion of a new key
  into a table that has room (\<open>newkey\<close> of src/lib/lua/ltable.c without its rehash). Each operation
  keeps \<open>table_inv\<close>, and its effect is stated on the abstraction \<open>tabs\<close>.
\<close>

section \<open>Assigning through a pointer\<close>

lemma nodes_set_nodes [simp]: "nodes (set_nodes t ns) = ns"
  by (simp add: nodes_def set_nodes_def)

lemma nodes_update [simp]:
  "nodes (t\<lparr>arr := a\<rparr>) = nodes t" "nodes (t\<lparr>lastfree := l\<rparr>) = nodes t" "nodes (t\<lparr>flags := g\<rparr>) = nodes t"
  "nodes (t\<lparr>metatable := m\<rparr>) = nodes t" "nodes (t\<lparr>node := Some ns\<rparr>) = ns"
  by (simp_all add: nodes_def)

lemma funs_cong:
  "nodes t = nodes t' \<Longrightarrow> nx t = nx t'" "nodes t = nodes t' \<Longrightarrow> ky t = ky t'"
  "nodes t = nodes t' \<Longrightarrow> vl t = vl t'"
  by (simp_all add: nx_def ky_def vl_def fun_eq_iff)

lemma locates_node_not_None:
  assumes "table_inv t" and "locates t k (ValPtr i)" shows "node t \<noteq> None"
proof
  assume n: "node t = None"
  with assms have "i = 0" by (auto simp: table_inv_def wf_sizes_def locates_def sizenode_def)
  with assms(2) n show False by (auto simp: locates_def ky_def nodes_def dummynode_def)
qed

lemma store_fields [simp]:
  "lsizenode (store t p v) = lsizenode t" "lastfree (store t p v) = lastfree t"
  "flags (store t p v) = flags t" "metatable (store t p v) = metatable t"
  "sizearray (store t p v) = sizearray t" "sizenode (store t p v) = sizenode t"
  "in_array (store t p v) k = in_array t k" "mainposition (store t p v) = mainposition t"
  by (auto simp: store_def sizearray_def sizenode_def in_array_def split: tvptr.splits intro: mainposition_cong)

lemma store_funs:
  assumes "table_inv t" and "locates t k p"
  shows "nx (store t p v) = nx t" and "ky (store t p v) = ky t"
    and "vl (store t p v) = (case p of ValPtr i \<Rightarrow> (vl t)(i := v) | _ \<Rightarrow> vl t)"
    and "length (nodes (store t p v)) = length (nodes t)"
    and "node (store t p v) = None \<longleftrightarrow> node t = None"
proof -
  show "nx (store t p v) = nx t"
  proof (cases p)
    case (ValPtr i)
    then have "i < length (nodes t)" using assms inv_length [OF assms(1)] by (simp add: locates_def)
    with ValPtr show ?thesis
      by (intro ext) (auto simp: nx_def store_def nth_list_update_if)
  qed (auto simp: store_def intro: funs_cong)
  show "ky (store t p v) = ky t"
  proof (cases p)
    case (ValPtr i)
    then have "i < length (nodes t)" using assms inv_length [OF assms(1)] by (simp add: locates_def)
    with ValPtr show ?thesis
      by (intro ext) (auto simp: ky_def store_def nth_list_update_if)
  qed (auto simp: store_def intro: funs_cong)
  show "vl (store t p v) = (case p of ValPtr i \<Rightarrow> (vl t)(i := v) | _ \<Rightarrow> vl t)"
  proof (cases p)
    case (ValPtr i)
    then have "i < length (nodes t)" using assms inv_length [OF assms(1)] by (simp add: locates_def)
    with ValPtr show ?thesis
      by (intro ext) (auto simp: vl_def store_def nth_list_update_if)
  qed (auto simp: store_def intro: funs_cong)
  show "length (nodes (store t p v)) = length (nodes t)"
    by (cases p) (simp_all add: store_def)
  show "node (store t p v) = None \<longleftrightarrow> node t = None"
    using assms locates_node_not_None by (cases p) (auto simp: store_def)
qed

lemma table_inv_store:
  assumes inv: "table_inv t" and loc: "locates t k p"
  shows "table_inv (store t p v)"
proof -
  note F = store_funs [OF assms, of v]
  have "keys_ok (sizenode t) (ky t) (vl (store t p v))"
  proof (cases p)
    case (ValPtr i)
    then have "ky t i \<noteq> TNil" using loc by (auto simp: locates_def)
    with scatter_keys [OF inv_scatter [OF inv]] show ?thesis
      unfolding F(3) by (simp add: ValPtr keys_ok_def)
  qed (use scatter_keys [OF inv_scatter [OF inv]] F in simp_all)
  with inv show ?thesis
    by (simp add: table_inv_def wf_sizes_def free_ok_def F scatter_def split: option.splits)
       (metis F(5) not_None_eq)
qed

lemma locates_store:
  assumes "table_inv t" and "locates t k p" and "locates t k' p'"
  shows "locates (store t p v) k' p'"
  using assms(3) by (simp add: locates_def store_funs [OF assms(1,2)] split: tvptr.splits)

lemma locates_unique:
  assumes inv: "table_inv t" and "locates t k p" "locates t k' p'" and eq: "luaO_rawequalObj k k'"
  shows "p = p'"
proof -
  have l: "locates t k p'" by (rule locates_rawequal [OF rawequal_sym [OF eq] assms(3)])
  have "i = j" if "i < sizenode t" "j < sizenode t" "luaO_rawequalObj (ky t i) k"
    "luaO_rawequalObj (ky t j) k" "k \<noteq> TNil" for i j
  proof -
    from that have "luaO_rawequalObj (ky t i) (ky t j)" "ky t i \<noteq> TNil"
      by (auto intro: rawequal_trans [OF _ rawequal_sym])
    with scatter_keys [OF inv_scatter [OF inv]] that show ?thesis by (auto simp: keys_ok_def)
  qed
  with assms(2) l show ?thesis by (auto simp: locates_def split: tvptr.splits)
qed

lemma locates_inj:
  assumes "locates t k p" "locates t k' p" and "p \<noteq> NilObject"
  shows "luaO_rawequalObj k k'"
proof (cases p)
  case (ArrPtr i)
  with assms have "0 < arrayindex k" "arrayindex k = arrayindex k'"
    by (auto simp: locates_def in_array_def)
  with arrayindex_pos_rawequal [of k] arrayindex_pos_rawequal [of k'] show ?thesis
    by (auto intro: rawequal_trans rawequal_sym)
next
  case (ValPtr i)
  with assms show ?thesis by (auto simp: locates_def intro: rawequal_trans rawequal_sym)
qed (use assms in simp)

lemma deref_store:
  assumes "table_inv t" and "locates t k p" "locates t k' p'" and "p \<noteq> NilObject"
  shows "deref (store t p v) p' = (if p = p' then v else deref t p')"
  using assms inv_length [OF assms(1)]
  by (cases p; cases p')
     (auto simp: deref_def store_def nth_list_update_if locates_def in_array_def sizearray_def)

text \<open>Assigning changes the map at the located key and nowhere else.\<close>

lemma tabs_store:
  assumes inv: "table_inv t" and loc: "locates t k p" and p: "p \<noteq> NilObject"
  shows "tabs (store t p v) k' = (if luaO_rawequalObj k k' then v else tabs t k')"
proof -
  obtain p' where p': "locates t k' p'" using luaH_get_locates [OF inv] by blast
  have "tabs (store t p v) k' = deref (store t p v) p'"
    by (rule tabs_locates [symmetric, OF table_inv_store [OF inv loc] locates_store [OF inv loc p']])
  also have "\<dots> = (if p = p' then v else deref t p')" by (rule deref_store [OF inv loc p' p])
  also have "p = p' \<longleftrightarrow> luaO_rawequalObj k k'"
    using locates_unique [OF inv loc p'] locates_inj [OF loc _ p] p' by blast
  finally show ?thesis by (simp add: tabs_locates [OF inv p'])
qed

section \<open>The map of the hash part\<close>

text \<open>\<open>hlook n K V k v\<close>: some node has key \<open>k\<close> and value \<open>v\<close>. Two tables with the same
  array part whose hash parts agree on the values that are not nil stand for the same map.\<close>

definition hlook :: "nat \<Rightarrow> (nat \<Rightarrow> TValue) \<Rightarrow> (nat \<Rightarrow> TValue) \<Rightarrow> TValue \<Rightarrow> TValue \<Rightarrow> bool" where
  "hlook n K V k v \<longleftrightarrow> (\<exists>i < n. luaO_rawequalObj (K i) k \<and> V i = v)"

lemma tabs_hash_iff:
  assumes inv: "table_inv t" and v: "v \<noteq> TNil" and na: "\<not> in_array t k"
  shows "tabs t k = v \<longleftrightarrow> hlook (sizenode t) (ky t) (vl t) k v"
proof (cases "k = TNil")
  case True
  have "vl t i = TNil" if "i < sizenode t" "ky t i = TNil" for i
    using scatter_keys [OF inv_scatter [OF inv]] that by (auto simp: keys_ok_def)
  with True v show ?thesis by (auto simp: tabs_nil [OF inv] hlook_def)
next
  case False
  show ?thesis
  proof (cases "\<exists>i < sizenode t. luaO_rawequalObj (ky t i) k")
    case True
    then show ?thesis using tabs_node [OF inv _ _ False na] by (auto simp: hlook_def)
  next
    case none: False
    with find_no_key [OF inv] na v show ?thesis by (auto simp: tabs_def hlook_def)
  qed
qed

lemma tabs_eqI:
  assumes inv: "table_inv t" "table_inv t'" and arr: "arr t' = arr t"
    and same: "\<And>k v. v \<noteq> TNil \<Longrightarrow> hlook (sizenode t') (ky t') (vl t') k v \<longleftrightarrow> hlook (sizenode t) (ky t) (vl t) k v"
  shows "tabs t' = tabs t"
proof
  fix k
  have ia: "in_array t' k = in_array t k" by (simp add: in_array_def sizearray_def arr)
  show "tabs t' k = tabs t k"
  proof (cases "in_array t k")
    case True
    with ia show ?thesis by (simp add: tabs_def arr)
  next
    case False
    have "tabs t' k = v \<longleftrightarrow> tabs t k = v" if "v \<noteq> TNil" for v
      using tabs_hash_iff [OF inv(1) that False] tabs_hash_iff [OF inv(2) that] same [OF that] False ia
      by simp
    then show ?thesis by metis
  qed
qed

lemma hlook_overwrite:
  assumes "V m = TNil" and "v \<noteq> TNil"
  shows "hlook n (K(m := k)) V k' v \<longleftrightarrow> hlook n K V k' v"
proof -
  have "(luaO_rawequalObj ((K(m := k)) i) k' \<and> V i = v) \<longleftrightarrow> (luaO_rawequalObj (K i) k' \<and> V i = v)" for i
    using assms by (cases "i = m") auto
  then show ?thesis by (simp add: hlook_def)
qed

lemma hlook_move:
  assumes "V f = TNil" and "v \<noteq> TNil" and "f < n" "m < n" "m \<noteq> f"
  shows "hlook n (K(f := K m, m := k)) (V(f := V m, m := TNil)) k' v \<longleftrightarrow> hlook n K V k' v"
    (is "?L \<longleftrightarrow> ?R")
proof
  assume ?L
  then obtain i where i: "i < n" "luaO_rawequalObj ((K(f := K m, m := k)) i) k'"
    "(V(f := V m, m := TNil)) i = v" by (auto simp: hlook_def)
  then have "i \<noteq> m" using assms by auto
  with i show ?R unfolding hlook_def
    using assms(3-5) by (intro exI [of _ "if i = f then m else i"]) (auto split: if_splits)
next
  assume ?R
  then obtain i where i: "i < n" "luaO_rawequalObj (K i) k'" "V i = v" by (auto simp: hlook_def)
  then have "i \<noteq> f" using assms by auto
  with i show ?L unfolding hlook_def
    using assms(3-5) by (intro exI [of _ "if i = m then f else i"]) auto
qed

section \<open>Finding a free node and the predecessor of a node\<close>

lemma getfreepos_loop_Some:
  assumes "getfreepos_loop ns lf = (Some m, lf')" and "lf \<le> int (length ns)"
  shows "m < length ns \<and> i_key (ns ! m) = TNil \<and> lf' = int m \<and>
    (\<forall>i < length ns. m < i \<longrightarrow> int i < lf \<longrightarrow> i_key (ns ! i) \<noteq> TNil)"
  using assms
proof (induction ns lf rule: getfreepos_loop.induct)
  case (1 ns lf)
  show ?case
  proof (cases "0 < lf \<and> i_key (ns ! nat (lf - 1)) = TNil")
    case True
    with 1(2,3) show ?thesis by (auto simp: getfreepos_loop.simps [of ns lf])
  next
    case False
    with 1(2) have lf: "0 < lf" "i_key (ns ! nat (lf - 1)) \<noteq> TNil"
      and eq: "getfreepos_loop ns (lf - 1) = (Some m, lf')"
      by (auto simp: getfreepos_loop.simps [of ns lf] split: if_splits)
    from 1(1) [OF lf eq] 1(3)
    have IH: "m < length ns" "i_key (ns ! m) = TNil" "lf' = int m"
      and used: "\<And>i. i < length ns \<Longrightarrow> m < i \<Longrightarrow> int i < lf - 1 \<Longrightarrow> i_key (ns ! i) \<noteq> TNil" by auto
    have "i_key (ns ! i) \<noteq> TNil" if "i < length ns" "m < i" "int i < lf" for i
    proof (cases "int i < lf - 1")
      case False
      with that have "i = nat (lf - 1)" by simp
      with lf show ?thesis by simp
    qed (use that used in simp)
    with IH show ?thesis by simp
  qed
qed

lemma getfreepos_loop_None:
  assumes "getfreepos_loop ns lf = (None, lf')"
  shows "\<forall>i. int i < lf \<longrightarrow> i_key (ns ! i) \<noteq> TNil"
  using assms
proof (induction ns lf rule: getfreepos_loop.induct)
  case (1 ns lf)
  show ?case
  proof (cases "0 < lf")
    case True
    with 1(2) have k: "i_key (ns ! nat (lf - 1)) \<noteq> TNil"
      and eq: "getfreepos_loop ns (lf - 1) = (None, lf')"
      by (auto simp: getfreepos_loop.simps [of ns lf] split: if_splits)
    from 1(1) [OF True k eq] have IH: "\<And>i. int i < lf - 1 \<Longrightarrow> i_key (ns ! i) \<noteq> TNil" by blast
    show ?thesis
    proof (intro allI impI)
      fix i assume i: "int i < lf"
      show "i_key (ns ! i) \<noteq> TNil"
      proof (cases "int i < lf - 1")
        case False
        with i have "i = nat (lf - 1)" by simp
        with k show ?thesis by simp
      qed (rule IH)
    qed
  qed simp
qed

lemma getfreepos_loop_low: "getfreepos_loop ns lf = (None, lf') \<Longrightarrow> lf' < 0"
proof (induction ns lf rule: getfreepos_loop.induct)
  case (1 ns lf)
  then show ?case by (auto simp: getfreepos_loop.simps [of ns lf] split: if_splits)
qed

lemma getfreepos_Some:
  assumes inv: "table_inv t" and eq: "getfreepos t = (Some m, t')"
  shows "m < sizenode t \<and> ky t m = TNil \<and> t' = t\<lparr>lastfree := int m\<rparr> \<and> node t \<noteq> None \<and>
    (\<forall>i < sizenode t. m < i \<longrightarrow> ky t i \<noteq> TNil)"
proof -
  have len: "length (nodes t) = sizenode t" by (rule inv_length [OF inv])
  from eq obtain lf where lf: "getfreepos_loop (nodes t) (lastfree t) = (Some m, lf)"
    and t': "t' = t\<lparr>lastfree := lf\<rparr>"
    by (auto simp: getfreepos_def split: prod.splits)
  have some: "node t \<noteq> None"
  proof
    assume "node t = None"
    with inv_free [OF inv] lf show False
      by (simp add: free_ok_def getfreepos_loop.simps [of _ "lastfree t"])
  qed
  with inv_free [OF inv] have le: "lastfree t \<le> int (length (nodes t))"
    and used: "\<And>i. i < sizenode t \<Longrightarrow> lastfree t \<le> int i \<Longrightarrow> ky t i \<noteq> TNil"
    by (auto simp: free_ok_def len)
  from getfreepos_loop_Some [OF lf le] have m: "m < sizenode t" "ky t m = TNil" "lf = int m"
    "\<forall>i < sizenode t. m < i \<longrightarrow> int i < lastfree t \<longrightarrow> ky t i \<noteq> TNil"
    by (auto simp: len ky_def)
  moreover have "ky t i \<noteq> TNil" if "i < sizenode t" "m < i" for i
    using m(4) used that by (cases "int i < lastfree t") auto
  ultimately show ?thesis using some t' by blast
qed

lemma getfreepos_None:
  assumes inv: "table_inv t" and eq: "getfreepos t = (None, t')" and some: "node t \<noteq> None"
  shows "\<forall>i < sizenode t. ky t i \<noteq> TNil"
proof -
  from eq obtain lf where lf: "getfreepos_loop (nodes t) (lastfree t) = (None, lf)"
    by (auto simp: getfreepos_def split: prod.splits)
  have "ky t i \<noteq> TNil" if "i < sizenode t" for i
  proof (cases "int i < lastfree t")
    case True
    with getfreepos_loop_None [OF lf] show ?thesis by (simp add: ky_def)
  next
    case False
    with inv_free [OF inv] some that show ?thesis by (auto simp: free_ok_def)
  qed
  then show ?thesis by blast
qed

lemma find_previous_eq:
  "find_previous ns fuel i mp =
     (case chain_find (\<lambda>n. gnext n = Some mp) ns fuel i of
        Inr (Some j) \<Rightarrow> Inr j | _ \<Rightarrow> Inl Unterminated)"
proof (induction fuel arbitrary: i)
  case (Suc fuel)
  then show ?case by (cases "gnext (ns ! i)") auto
qed simp

lemma find_previous_ok:
  assumes inv: "table_inv t" and path: "(i, mp) \<in> (nrel (sizenode t) (nx t))\<^sup>*"
    and "i \<noteq> mp" and i: "i < sizenode t"
  shows "\<exists>p < sizenode t. find_previous (nodes t) (length (nodes t)) i mp = Inr p \<and> nx t p = Some mp"
proof -
  note D = scatterD [OF inv_scatter [OF inv]]
  have len: "length (nodes t) = sizenode t" and f: "(\<lambda>i. gnext (nodes t ! i)) = nx t"
    using inv_length [OF inv] by (auto simp: nx_def)
  obtain r where r: "ranked (sizenode t) (nx t) r" using D(3) by blast
  note spec = chain_find_spec [where ns = "nodes t" and k = "ky t" and r = r and i = i
      and fuel = "sizenode t" and P = "\<lambda>n. gnext n = Some mp", unfolded len f, OF D(1) r i card_Collect_less_le]
  from path \<open>i \<noteq> mp\<close> obtain p where p: "(i, p) \<in> (nrel (sizenode t) (nx t))\<^sup>*" "nx t p = Some mp"
    by (auto elim: rtranclE simp: nrel_iff)
  then show ?thesis using spec reach_less [OF D(1) _ i]
    by (auto simp: find_previous_eq len nx_def)
qed

section \<open>Inserting a new key where there is room\<close>

text \<open>What an operation that gives a slot for a key promises.\<close>

definition slot_for :: "Table \<Rightarrow> TValue \<Rightarrow> tvptr \<Rightarrow> Table \<Rightarrow> bool" where
  "slot_for t k p t' \<longleftrightarrow> table_inv t' \<and> tabs t' = tabs t \<and> locates t' k p \<and> p \<noteq> NilObject"

definition used :: "Table \<Rightarrow> nat" where
  "used t = card {i. i < sizenode t \<and> ky t i \<noteq> TNil}"

definition new_key_ok :: "Table \<Rightarrow> TValue \<Rightarrow> bool" where
  "new_key_ok t k \<longleftrightarrow> table_inv t \<and> k \<noteq> TNil \<and> \<not> isnan_value k \<and> locates t k NilObject"

lemma new_key_okD:
  assumes "new_key_ok t k"
  shows "table_inv t" "k \<noteq> TNil" "\<not> isnan_value k" "\<not> in_array t k"
    "\<And>i. i < sizenode t \<Longrightarrow> \<not> luaO_rawequalObj (ky t i) k"
  using assms by (auto simp: new_key_ok_def locates_def)

lemma in_array_set_nodes [simp]:
  "in_array (set_nodes t ns) k = in_array t k" "sizenode (set_nodes t ns) = sizenode t"
  "arr (set_nodes t ns) = arr t" "lsizenode (set_nodes t ns) = lsizenode t"
  "lastfree (set_nodes t ns) = lastfree t" "node (set_nodes t ns) = Some ns"
  "sizearray (set_nodes t ns) = sizearray t" "metatable (set_nodes t ns) = metatable t"
  "mainposition (set_nodes t ns) = mainposition t"
  by (auto simp: set_nodes_def in_array_def sizearray_def sizenode_def intro: mainposition_cong)

lemma lastfree_fields [simp]:
  "in_array (t\<lparr>lastfree := l\<rparr>) k = in_array t k" "sizenode (t\<lparr>lastfree := l\<rparr>) = sizenode t"
  "sizearray (t\<lparr>lastfree := l\<rparr>) = sizearray t" "mainposition (t\<lparr>lastfree := l\<rparr>) = mainposition t"
  by (auto simp: in_array_def sizearray_def sizenode_def intro: mainposition_cong)

text \<open>The three insertions give a table whose functions are updates of the old ones.\<close>

lemma slot_forI:
  assumes new: "new_key_ok t k" and m: "m < sizenode t"
    and t': "lsizenode t' = lsizenode t" "arr t' = arr t" "node t' = Some ns" "length ns = sizenode t"
    and free: "free_ok t'"
    and sc: "scatter (sizenode t) (mainposition t) (nx t') (ky t') (vl t')"
    and keys: "\<And>i. i < sizenode t \<Longrightarrow> ky t' i = k \<or> (\<exists>j < sizenode t. ky t' i = ky t j)"
    and at: "ky t' m = k"
    and same: "\<And>k v. v \<noteq> TNil \<Longrightarrow> hlook (sizenode t) (ky t') (vl t') k v \<longleftrightarrow> hlook (sizenode t) (ky t) (vl t) k v"
  shows "slot_for t k (ValPtr m) t'"
proof -
  note N = new_key_okD [OF new]
  have eq: "sizenode t' = sizenode t" "nodes t' = ns" "mainposition t' = mainposition t"
    "\<And>k. in_array t' k = in_array t k"
    using t' by (auto simp: sizenode_def nodes_def in_array_def sizearray_def intro: mainposition_cong)
  have "\<not> in_array t (ky t' i)" if i: "i < sizenode t" for i
    using keys [OF i] N(4) inv_array [OF N(1)] by auto
  moreover have "wf_sizes t'"
    using inv_sizes [OF N(1)] t' by (simp add: wf_sizes_def eq sizearray_def)
  ultimately have inv: "table_inv t'" using free sc by (simp add: table_inv_def eq)
  have "tabs t' = tabs t" by (rule tabs_eqI [OF N(1) inv t'(2)]) (simp add: eq same)
  moreover have "locates t' k (ValPtr m)"
    using m at N(2-4) by (simp add: locates_def eq rawequal_refl_iff)
  ultimately show ?thesis using inv by (simp add: slot_for_def)
qed

lemma put_key_funs:
  assumes "put_key t ns m k = (p, t')" and "m < length ns"
  shows "p = ValPtr m" "nodes t' = ns[m := (ns ! m)\<lparr>i_key := k\<rparr>]"
    "nx t' = (\<lambda>i. gnext (ns ! i))" "ky t' = (\<lambda>i. i_key (ns ! i))(m := k)" "vl t' = (\<lambda>i. i_val (ns ! i))"
    "lsizenode t' = lsizenode t" "arr t' = arr t" "node t' = Some (nodes t')" "lastfree t' = lastfree t"
    "metatable t' = metatable t"
  using assms by (auto simp: put_key_def nx_def ky_def vl_def nth_list_update_if fun_eq_iff)

lemma insert_overwrite:
  assumes new: "new_key_ok t k" and m: "m = mainposition t k"
    and free: "vl t m = TNil" and some: "node t \<noteq> None"
    and put: "put_key t (nodes t) m k = (p, t')"
  shows "slot_for t k p t' \<and> used t' \<le> Suc (used t)"
proof -
  note N = new_key_okD [OF new]
  have mn: "m < sizenode t" by (simp add: m mainposition_less)
  have len: "length (nodes t) = sizenode t" by (rule inv_length [OF N(1)])
  note P = put_key_funs [OF put, unfolded len, OF mn, folded nx_def ky_def vl_def]
  have sz: "sizenode t' = sizenode t" by (simp add: sizenode_def P)
  have fun_eqs: "nx t' = nx t" "ky t' = (ky t)(m := k)" "vl t' = vl t"
    using P(3-5) by (auto simp: nx_def ky_def vl_def)
  have fr: "free_ok t'"
    using inv_free [OF N(1)] some N(2) P(8) by (auto simp: free_ok_def sz fun_eqs P(9) split: option.splits)
  have sc: "scatter (sizenode t) (mainposition t) (nx t') (ky t') (vl t')"
    unfolding fun_eqs m
    by (rule scatter_overwrite [OF inv_scatter [OF N(1)] N(2,3,5)]) (simp_all add: free [unfolded m])
  have "slot_for t k (ValPtr m) t'"
    by (rule slot_forI [OF new mn P(6,7,8) _ fr sc])
       (auto simp: P(2) len fun_eqs hlook_overwrite [where V = "vl t" and m = m, OF free])
  moreover have "used t' \<le> Suc (used t)"
  proof -
    have "{i. i < sizenode t \<and> ky t' i \<noteq> TNil} \<subseteq> insert m {i. i < sizenode t \<and> ky t i \<noteq> TNil}"
      by (auto simp: fun_eqs)
    then have "card {i. i < sizenode t \<and> ky t' i \<noteq> TNil} \<le> card (insert m {i. i < sizenode t \<and> ky t i \<noteq> TNil})"
      by (intro card_mono) auto
    also have "\<dots> \<le> Suc (used t)" by (simp add: used_def card_insert_if)
    finally show ?thesis by (simp add: used_def sz)
  qed
  ultimately show ?thesis using P(1) by simp
qed

lemma insert_chain:
  assumes new: "new_key_ok t k" and m: "m = mainposition t k"
    and home: "ky t m \<noteq> TNil" "mainposition t (ky t m) = m"
    and free: "getfreepos t = (Some f, t1)"
    and put: "put_key t1 (chain_after (nodes t) m f) f k = (p, t')"
  shows "slot_for t k p t' \<and> used t' \<le> Suc (used t)"
proof -
  note N = new_key_okD [OF new]
  note G = getfreepos_Some [OF N(1) free]
  have mn: "m < sizenode t" by (simp add: m mainposition_less)
  have len: "length (nodes t) = sizenode t" by (rule inv_length [OF N(1)])
  have fm: "f < sizenode t" "m \<noteq> f" "ky t f = TNil" "t1 = t\<lparr>lastfree := int f\<rparr>"
    using G home by auto
  have len': "length (chain_after (nodes t) m f) = sizenode t" by (simp add: chain_after_def Let_def len)
  note P = put_key_funs [OF put, unfolded len', OF fm(1)]
  have sz: "sizenode t' = sizenode t" by (simp add: sizenode_def P fm)
  have fun_eqs: "nx t' = chained (nx t) m f" "ky t' = (ky t)(f := k)" "vl t' = vl t"
    using P(3-5) fm mn len
    by (auto simp: nx_def ky_def vl_def chained_def chain_after_def Let_def nth_list_update_if fun_eq_iff)
  have fr: "free_ok t'"
    using G N(2) P(8,9) fm by (auto simp: free_ok_def sz fun_eqs split: option.splits)
  have sc: "scatter (sizenode t) (mainposition t) (nx t') (ky t') (vl t')"
    unfolding fun_eqs
    by (rule scatter_chain_after [OF inv_scatter [OF N(1)] N(2,3,5) m home fm(1,3)])
  have vf: "vl t f = TNil"
    using scatter_keys [OF inv_scatter [OF N(1)]] fm by (auto simp: keys_ok_def)
  have "slot_for t k (ValPtr f) t'"
    by (rule slot_forI [OF new fm(1) _ _ P(8) _ fr sc])
       (auto simp: P(2,6,7) len' fm fun_eqs hlook_overwrite [where V = "vl t" and m = f, OF vf])
  moreover have "used t' = Suc (used t)"
  proof -
    have "{i. i < sizenode t \<and> ky t' i \<noteq> TNil} = {i. i < sizenode t \<and> (i = f \<or> ky t i \<noteq> TNil)}"
      using N(2) fm by (auto simp: fun_eqs)
    with card_Collect_less_insert [OF fm(1), of "\<lambda>i. ky t i \<noteq> TNil"] fm show ?thesis
      by (simp add: used_def sz)
  qed
  ultimately show ?thesis using P(1) by simp
qed

lemma insert_move:
  assumes new: "new_key_ok t k" and m: "m = mainposition t k"
    and home: "ky t m \<noteq> TNil" "mainposition t (ky t m) \<noteq> m"
    and free: "getfreepos t = (Some f, t1)"
    and prev: "p0 < sizenode t" "nx t p0 = Some m"
    and put: "put_key t1 (move_colliding (nodes t) p0 m f) m k = (p, t')"
  shows "slot_for t k p t' \<and> used t' \<le> Suc (used t)"
proof -
  note N = new_key_okD [OF new]
  note G = getfreepos_Some [OF N(1) free]
  have mn: "m < sizenode t" by (simp add: m mainposition_less)
  have len: "length (nodes t) = sizenode t" by (rule inv_length [OF N(1)])
  have fm: "f < sizenode t" "m \<noteq> f" "ky t f = TNil" "t1 = t\<lparr>lastfree := int f\<rparr>"
    using G home by auto
  have len': "length (move_colliding (nodes t) p0 m f) = sizenode t"
    by (simp add: move_colliding_def Let_def len)
  note P = put_key_funs [OF put, unfolded len', OF mn]
  have sz: "sizenode t' = sizenode t" by (simp add: sizenode_def P fm)
  obtain r where "ranked (sizenode t) (nx t) r" using scatter_rank [OF inv_scatter [OF N(1)]] by blast
  with prev have pm: "p0 \<noteq> m" by (auto simp: ranked_def)
  have pf: "p0 \<noteq> f" using links_next [OF scatter_links [OF inv_scatter [OF N(1)]] prev] fm by auto
  have fun_eqs: "nx t' = moved (nx t) p0 m f" "ky t' = (ky t)(f := ky t m, m := k)"
    "vl t' = (vl t)(f := vl t m, m := TNil)"
    using P(3-5) fm mn len prev(1) pm pf
    by (auto simp: nx_def ky_def vl_def moved_def move_colliding_def Let_def nth_list_update_if fun_eq_iff)
  have fr: "free_ok t'"
    using G N(2) P(8,9) fm home by (auto simp: free_ok_def sz fun_eqs split: option.splits)
  have sc: "scatter (sizenode t) (mainposition t) (nx t') (ky t') (vl t')"
    unfolding fun_eqs
    by (rule scatter_move [OF inv_scatter [OF N(1)] N(2,3,5) m home fm(1,3) prev])
  have vf: "vl t f = TNil"
    using scatter_keys [OF inv_scatter [OF N(1)]] fm by (auto simp: keys_ok_def)
  have "slot_for t k (ValPtr m) t'"
    by (rule slot_forI [OF new mn _ _ P(8) _ fr sc])
       (use fm mn in \<open>auto simp: P(2,6,7) len' fun_eqs hlook_move [where V = "vl t" and f = f and m = m, OF vf _ fm(1) mn fm(2)]\<close>)
  moreover have "used t' = Suc (used t)"
  proof -
    have "{i. i < sizenode t \<and> ky t' i \<noteq> TNil} = {i. i < sizenode t \<and> (i = f \<or> ky t i \<noteq> TNil)}"
      using N(2) fm home by (auto simp: fun_eqs)
    with card_Collect_less_insert [OF fm(1), of "\<lambda>i. ky t i \<noteq> TNil"] fm show ?thesis
      by (simp add: used_def sz)
  qed
  ultimately show ?thesis using P(1) by simp
qed

text \<open>Without a rehash, \<open>newkey\<close> gives the slot of its key; it needs a rehash only when the
  hash part is empty or every node is used.\<close>

theorem newkey_room:
  assumes new: "new_key_ok t k" and some: "node t \<noteq> None" and room: "used t < sizenode t"
  shows "\<exists>p t'. newkey (Suc n) t k = Inr (p, t') \<and> slot_for t k p t' \<and> used t' \<le> Suc (used t) \<and>
    lsizenode t' = lsizenode t \<and> arr t' = arr t \<and> node t' \<noteq> None \<and> metatable t' = metatable t"
proof -
  let ?m = "mainposition t k"
  note N = new_key_okD [OF new]
  have len: "length (nodes t) = sizenode t" by (rule inv_length [OF N(1)])
  have mn: "?m < sizenode t" by (rule mainposition_less)
  show ?thesis
  proof (cases "vl t ?m = TNil")
    case True
    obtain p t' where put: "put_key t (nodes t) ?m k = (p, t')" by fastforce
    with True some have "newkey (Suc n) t k = Inr (p, t')" by (auto simp: vl_def Let_def)
    with insert_overwrite [OF new refl True some put] put_key_funs [OF put] mn len
    show ?thesis by auto
  next
    case False
    then have home: "ky t ?m \<noteq> TNil"
      using scatter_keys [OF inv_scatter [OF N(1)]] mn by (auto simp: keys_ok_def)
    obtain f t1 where free: "getfreepos t = (Some f, t1)"
    proof (cases "getfreepos t")
      case (Pair r t1)
      obtain i where "i < sizenode t" "ky t i = TNil"
        using card_Collect_less_all [OF room [unfolded used_def]] by blast
      then have "r \<noteq> None" using getfreepos_None [OF N(1) _ some, of t1] Pair by auto
      with Pair that show thesis by auto
    qed
    have t1: "arr t1 = arr t" "lsizenode t1 = lsizenode t" "f < sizenode t" "metatable t1 = metatable t"
      using getfreepos_Some [OF N(1) free] by auto
    show ?thesis
    proof (cases "mainposition t (ky t ?m) = ?m")
      case True
      obtain p t' where put: "put_key t1 (chain_after (nodes t) ?m f) f k = (p, t')" by fastforce
      have "newkey (Suc n) t k = Inr (p, t')"
        using False free True put by (simp add: vl_def ky_def Let_def)
      with insert_chain [OF new refl home True free put] put_key_funs [OF put] t1 len
      show ?thesis by (auto simp: chain_after_def Let_def)
    next
      case other: False
      have path: "(mainposition t (ky t ?m), ?m) \<in> (nrel (sizenode t) (nx t))\<^sup>*"
        using scatter_homes [OF inv_scatter [OF N(1)]] mn home by (auto simp: homes_ok_def)
      obtain p0 where p0: "find_previous (nodes t) (length (nodes t)) (mainposition t (ky t ?m)) ?m = Inr p0"
        and prev: "p0 < sizenode t" "nx t p0 = Some ?m"
        using find_previous_ok [OF N(1) path other mainposition_less] by blast
      obtain p t' where put: "put_key t1 (move_colliding (nodes t) p0 ?m f) ?m k = (p, t')" by fastforce
      have "newkey (Suc n) t k = Inr (p, t')"
        using False free other put p0 by (simp add: vl_def ky_def Let_def)
      with insert_move [OF new refl home other free prev put] put_key_funs [OF put] t1 len mn
      show ?thesis by (auto simp: move_colliding_def Let_def)
    qed
  qed
qed

end
