(* ===== verification/Lua_Sizes.thy ===== *)
theory Lua_Sizes
  imports Lua_Table_Inv
begin

text \<open>
  The sizes a rehash chooses (src/lib/lua/ltable.c: \<open>countint\<close>, \<open>numusearray\<close>, \<open>numusehash\<close>,
  \<open>computesizes\<close>). The counters \<open>nums\<close> hold, for each class \<open>2^(j-1) < i <= 2^j\<close>, how many
  integer keys \<open>i\<close> are in use; \<open>computesizes\<close> turns them into an array size of which more than
  half is used. The keys in use are a list of array indexes, one per live entry.
\<close>

section \<open>Counters\<close>

definition class_count :: "int list \<Rightarrow> nat \<Rightarrow> nat" where
  "class_count xs j = length (filter (\<lambda>i. 0 < i \<and> i \<le> int MAXASIZE \<and> ceillog2 (nat i) = j) xs)"

definition counters :: "int list \<Rightarrow> nat list" where
  "counters xs = map (class_count xs) [0..<MAXBITS + 1]"

text \<open>How many of the indexes are in \<open>1..n\<close>.\<close>

definition in_range :: "int list \<Rightarrow> nat \<Rightarrow> nat" where
  "in_range xs n = length (filter (\<lambda>i. 0 < i \<and> i \<le> int n) xs)"

lemma class_count_append: "class_count (xs @ ys) j = class_count xs j + class_count ys j"
  by (simp add: class_count_def)

lemma in_range_append: "in_range (xs @ ys) n = in_range xs n + in_range ys n"
  by (simp add: in_range_def)

lemma length_counters [simp]: "length (counters xs) = MAXBITS + 1"
  by (simp add: counters_def)

lemma counters_nth: "j \<le> MAXBITS \<Longrightarrow> counters xs ! j = class_count xs j"
  by (simp add: counters_def del: upt_Suc)

lemma counters_Nil: "counters [] = replicate (MAXBITS + 1) 0"
  by (rule nth_equalityI) (simp_all add: counters_nth class_count_def)

lemma ceillog2_MAXBITS:
  assumes "0 < i" shows "i \<le> int MAXASIZE \<longleftrightarrow> ceillog2 (nat i) \<le> MAXBITS"
  using ceillog2_le_iff [of "nat i" MAXBITS] assms by auto

text \<open>The classes up to \<open>j\<close> are the indexes up to \<open>2 ^ j\<close>.\<close>

lemma sum_class_count:
  assumes "j \<le> MAXBITS"
  shows "(\<Sum>l\<le>j. class_count xs l) = in_range xs (2 ^ j)"
proof (induction xs)
  case Nil
  then show ?case by (simp add: class_count_def in_range_def)
next
  case (Cons i xs)
  have pow: "(2::nat) ^ j \<le> 2 ^ MAXBITS" using assms by (intro power_increasing) auto
  have "(\<Sum>l\<le>j. class_count [i] l) = in_range [i] (2 ^ j)"
  proof (cases "0 < i \<and> i \<le> int (2 ^ j)")
    case True
    then have c: "ceillog2 (nat i) \<le> j" using ceillog2_le_iff [of "nat i" j] by auto
    from True pow have "i \<le> int MAXASIZE" by linarith
    with True have "class_count [i] l = (if l = ceillog2 (nat i) then 1 else 0)" for l
      by (auto simp: class_count_def)
    with True c show ?thesis by (simp add: in_range_def)
  next
    case False
    have "class_count [i] l = 0" if "l \<le> j" for l
    proof (cases "0 < i")
      case True
      with False have "\<not> ceillog2 (nat i) \<le> j" using ceillog2_le_iff [of "nat i" j] by auto
      with that show ?thesis by (auto simp: class_count_def)
    qed (simp add: class_count_def)
    with False show ?thesis by (auto simp: in_range_def)
  qed
  with Cons show ?case
    using class_count_append [of "[i]" xs] in_range_append [of "[i]" xs] by (simp add: sum.distrib)
qed

section \<open>countint and numusehash\<close>

lemma countint_counters:
  "countint k (counters xs) = (in_range [arrayindex k] MAXASIZE, counters (xs @ [arrayindex k]))"
proof (cases "0 < arrayindex k \<and> arrayindex k \<le> int MAXASIZE")
  case True
  then have c: "ceillog2 (nat (arrayindex k)) \<le> MAXBITS" using ceillog2_MAXBITS by blast
  have "(counters xs)[ceillog2 (nat (arrayindex k)) := counters xs ! ceillog2 (nat (arrayindex k)) + 1]
      = counters (xs @ [arrayindex k])"
  proof (rule nth_equalityI)
    fix j assume j: "j < length ((counters xs)[ceillog2 (nat (arrayindex k)) := counters xs ! ceillog2 (nat (arrayindex k)) + 1])"
    with True c show "(counters xs)[ceillog2 (nat (arrayindex k)) := counters xs ! ceillog2 (nat (arrayindex k)) + 1] ! j
        = counters (xs @ [arrayindex k]) ! j"
      by (simp add: counters_nth nth_list_update_if class_count_append)
         (simp add: class_count_def)
  qed simp
  with True show ?thesis by (simp add: countint_def Let_def in_range_def)
next
  case False
  then have "class_count [arrayindex k] j = 0" for j by (auto simp: class_count_def)
  then have "counters (xs @ [arrayindex k]) = counters xs"
    by (simp add: counters_def class_count_append)
  with False show ?thesis by (auto simp: countint_def Let_def in_range_def)
qed

definition live_idx :: "Node list \<Rightarrow> int list" where
  "live_idx ns = map (\<lambda>n. arrayindex (i_key n)) (filter (\<lambda>n. i_val n \<noteq> TNil) ns)"

lemma numusehash_loop_eq:
  "numusehash_loop ns tot ause (counters xs) =
     (tot + length (live_idx ns), ause + in_range (live_idx ns) MAXASIZE, counters (xs @ live_idx ns))"
proof (induction ns arbitrary: tot ause xs)
  case (Cons n ns)
  show ?case
  proof (cases "i_val n = TNil")
    case True
    with Cons show ?thesis by (simp add: live_idx_def)
  next
    case False
    have "live_idx (n # ns) = arrayindex (i_key n) # live_idx ns" using False by (simp add: live_idx_def)
    moreover have "in_range (arrayindex (i_key n) # live_idx ns) MAXASIZE =
        in_range [arrayindex (i_key n)] MAXASIZE + in_range (live_idx ns) MAXASIZE"
      using in_range_append [of "[arrayindex (i_key n)]" "live_idx ns" MAXASIZE] by simp
    ultimately show ?thesis using False by (simp add: countint_counters Cons.IH)
  qed
qed (simp add: live_idx_def in_range_def)

section \<open>numusearray\<close>

definition live_arr :: "TValue list \<Rightarrow> int list" where
  "live_arr a = map int (filter (\<lambda>i. a ! (i - 1) \<noteq> TNil) [1..<Suc (length a)])"

lemma count_slice_eq:
  "count_slice a i lim lc =
     (lc + length (filter (\<lambda>i. a ! (i - 1) \<noteq> TNil) [i..<Suc lim]), max i (Suc lim))"
proof (induction a i lim lc rule: count_slice.induct)
  case (1 a i lim lc)
  show ?case
  proof (cases "i \<le> lim")
    case True
    then have "[i..<Suc lim] = i # [Suc i..<Suc lim]" by (simp add: upt_conv_Cons)
    moreover have "max (Suc i) (Suc lim) = max i (Suc lim)" using True by simp
    ultimately show ?thesis using 1 [OF True] True by (simp add: count_slice.simps [of a i])
  qed (simp add: count_slice.simps [of a i])
qed

lemma live_prefix_class:
  assumes "0 < i" and lo: "\<forall>l. l < i \<longrightarrow> 0 < l \<longrightarrow> ceillog2 l < lg"
    and hi: "\<forall>l. i \<le> l \<longrightarrow> l \<le> lim \<longrightarrow> ceillog2 l = lg" and lim: "lim \<le> MAXASIZE" and "lg \<le> MAXBITS" "i \<le> Suc lim"
  shows "(counters (map int (filter P [1..<i])))[lg := counters (map int (filter P [1..<i])) ! lg
       + length (filter P [i..<Suc lim])] = counters (map int (filter P [1..<Suc lim]))"
proof (rule nth_equalityI)
  let ?xs = "map int (filter P [1..<i])" and ?ys = "map int (filter P [i..<Suc lim])"
  have app: "map int (filter P [1..<Suc lim]) = ?xs @ ?ys"
    using assms(1,6) by (simp add: upt_split [of "Suc 0" i "Suc lim"] del: upt_Suc)
  have ys: "class_count ?ys j = (if j = lg then length (filter P [i..<Suc lim]) else 0)" for j
  proof -
    have "0 < int l \<and> int l \<le> int MAXASIZE \<and> ceillog2 (nat (int l)) = lg" if "l \<in> set [i..<Suc lim]" for l
      using that assms(1) hi lim by (auto simp del: upt_Suc)
    then have "filter (\<lambda>x. 0 < x \<and> x \<le> int MAXASIZE \<and> ceillog2 (nat x) = j) ?ys = (if j = lg then ?ys else [])"
      by (auto simp: filter_map comp_def filter_empty_conv simp del: upt_Suc intro!: filter_cong arg_cong [where f = "map int"])
    then show ?thesis by (simp add: class_count_def del: upt_Suc)
  qed
  fix j assume "j < length ((counters ?xs)[lg := counters ?xs ! lg + length (filter P [i..<Suc lim])])"
  then show "(counters ?xs)[lg := counters ?xs ! lg + length (filter P [i..<Suc lim])] ! j
      = counters (map int (filter P [1..<Suc lim])) ! j"
    unfolding app using assms(5)
    by (simp add: counters_nth nth_list_update_if class_count_append ys del: upt_Suc)
qed simp

text \<open>Where the slice of class \<open>lg\<close> starts.\<close>

definition slice_start :: "nat \<Rightarrow> nat \<Rightarrow> nat" where
  "slice_start sz lg = (if lg = 0 then 1 else Suc (min (2 ^ (lg - 1)) sz))"

lemma slice_class:
  assumes "l \<le> sz" and "0 < l"
  shows "l < slice_start sz lg \<longleftrightarrow> ceillog2 l < lg"
proof (cases lg)
  case (Suc j)
  have "l < slice_start sz lg \<longleftrightarrow> l \<le> 2 ^ j" using assms Suc by (auto simp: slice_start_def)
  also have "\<dots> \<longleftrightarrow> ceillog2 l \<le> j" using ceillog2_le_iff [of l j] assms by simp
  finally show ?thesis using Suc by auto
qed (use assms in \<open>simp add: slice_start_def\<close>)

lemma numusearray_loop_eq:
  assumes sz: "sizearray t \<le> MAXASIZE" and "lg \<le> MAXBITS + 1"
  defines "P \<equiv> \<lambda>i. arr t ! (i - 1) \<noteq> TNil" and "s \<equiv> slice_start (sizearray t)"
  shows "numusearray_loop t lg (s lg) (length (filter P [1..<s lg])) (counters (map int (filter P [1..<s lg])))
     = (length (filter P [1..<Suc (sizearray t)]), counters (map int (filter P [1..<Suc (sizearray t)])))"
  using assms(2)
proof (induction "Suc MAXBITS - lg" arbitrary: lg)
  case 0
  then have "lg = Suc MAXBITS" by simp
  then have "s lg = Suc (sizearray t)" using sz by (simp add: s_def slice_start_def)
  then show ?case
    using \<open>lg = Suc MAXBITS\<close> by (subst numusearray_loop.simps) (simp del: upt_Suc)
next
  case (Suc d)
  then have lg: "lg \<le> MAXBITS" by simp
  let ?lim = "min (2 ^ lg) (sizearray t)"
  have next_s: "s (Suc lg) = Suc ?lim" by (simp add: s_def slice_start_def)
  have mono: "s lg \<le> Suc ?lim"
    by (cases lg) (auto simp: s_def slice_start_def min_def)
  have one: "1 \<le> s lg" by (simp add: s_def slice_start_def)
  show ?case
  proof (cases "sizearray t < 2 ^ lg \<and> ?lim < s lg")
    case True
    then have "s lg = Suc (sizearray t)" using mono by linarith
    with True lg show ?thesis by (subst numusearray_loop.simps) (simp add: Let_def del: upt_Suc)
  next
    case False
    have upd: "(counters (map int (filter P [1..<s lg])))[lg := counters (map int (filter P [1..<s lg])) ! lg
       + length (filter P [s lg..<Suc ?lim])] = counters (map int (filter P [1..<Suc ?lim]))"
    proof (rule live_prefix_class [OF _ _ _ _ lg mono])
      show "\<forall>l. l < s lg \<longrightarrow> 0 < l \<longrightarrow> ceillog2 l < lg"
      proof (intro allI impI)
        fix l assume l: "l < s lg" "0 < l"
        then have "l \<le> sizearray t" using mono by linarith
        with l slice_class [of l "sizearray t" lg] show "ceillog2 l < lg" by (simp add: s_def)
      qed
      show "\<forall>l. s lg \<le> l \<longrightarrow> l \<le> ?lim \<longrightarrow> ceillog2 l = lg"
      proof (intro allI impI)
        fix l assume l: "s lg \<le> l" "l \<le> ?lim"
        then have "0 < l" "l \<le> sizearray t" using one by auto
        with l slice_class [of l "sizearray t" lg] slice_class [of l "sizearray t" "Suc lg"] next_s
        show "ceillog2 l = lg" by (auto simp: s_def)
      qed
    qed (use one sz in auto)
    have len: "length (filter P [1..<s lg]) + length (filter P [s lg..<Suc ?lim])
        = length (filter P [1..<Suc ?lim])"
      using upt_split [OF one mono] by simp
    have cs: "count_slice (arr t) (s lg) ?lim 0 = (length (filter P [s lg..<Suc ?lim]), Suc ?lim)"
      using mono by (simp only: count_slice_eq P_def) simp
    have "numusearray_loop t lg (s lg) (length (filter P [1..<s lg])) (counters (map int (filter P [1..<s lg])))
      = numusearray_loop t (Suc lg) (Suc ?lim) (length (filter P [1..<Suc ?lim])) (counters (map int (filter P [1..<Suc ?lim])))"
      by (subst numusearray_loop.simps)
         (simp only: if_P [OF lg] Let_def if_not_P [OF False] cs prod.case upd len)
    with Suc.hyps(1) [of "Suc lg"] Suc.hyps(2) lg show ?thesis by (simp add: next_s)
  qed
qed

lemma numusearray_eq:
  assumes "table_inv t"
  shows "numusearray t (replicate (MAXBITS + 1) 0) = (length (live_arr (arr t)), counters (live_arr (arr t)))"
proof -
  have "sizearray t \<le> MAXASIZE" using inv_sizes [OF assms] by (simp add: wf_sizes_def)
  from numusearray_loop_eq [OF this, of 0] counters_Nil show ?thesis
    by (simp add: numusearray_def live_arr_def slice_start_def sizearray_def)
qed

section \<open>computesizes\<close>

lemma computesizes_loop_ok:
  fixes nums :: "nat list"
  defines "S \<equiv> \<lambda>i. \<Sum>l<i. nums ! l"
  assumes "i \<le> B" and "a = S i" and "a < narray" and tot: "S (Suc B) = narray"
    and "n = 0 \<and> na = 0 \<or> (\<exists>j < i. n = 2 ^ j \<and> na = S (Suc j) \<and> n div 2 < na)"
    and "\<And>j. j < i \<Longrightarrow> 0 < nums ! j \<Longrightarrow> 2 ^ j div 2 < S (Suc j) \<Longrightarrow> 2 ^ j \<le> n"
    and "computesizes_loop nums narray i a na n = (na', n')"
  shows "(n' = 0 \<and> na' = 0 \<or> (\<exists>j \<le> B. n' = 2 ^ j \<and> na' = S (Suc j) \<and> n' div 2 < na')) \<and>
    (\<forall>j \<le> B. 0 < nums ! j \<longrightarrow> 2 ^ j div 2 < S (Suc j) \<longrightarrow> 2 ^ j \<le> n')"
  using assms(2-4,6-)
proof (induction "B - i" arbitrary: i a na n rule: less_induct)
  case less
  have mono: "S x \<le> S y" if "x \<le> y" for x y using that by (auto simp: S_def intro: sum_mono2)
  define a' where "a' = a + nums ! i"
  have a': "a' = S (Suc i)" using less.prems(2) by (simp add: a'_def S_def)
  define big where "big \<longleftrightarrow> 0 < nums ! i \<and> 2 ^ i div 2 < a'"
  define n1 na1 where "n1 = (if big then 2 ^ i else n)" and "na1 = (if big then a' else na)"
  have new: "n1 = 0 \<and> na1 = 0 \<or> (\<exists>j < Suc i. n1 = 2 ^ j \<and> na1 = S (Suc j) \<and> n1 div 2 < na1)"
  proof (cases big)
    case True
    then show ?thesis by (intro disjI2 exI [of _ i]) (simp add: n1_def na1_def big_def a')
  next
    case False
    then show ?thesis using less.prems(4) by (auto simp: n1_def na1_def less_Suc_eq)
  qed
  have best: "2 ^ j \<le> n1" if j: "j < Suc i" "0 < nums ! j" "2 ^ j div 2 < S (Suc j)" for j
  proof (cases "j = i")
    case True
    with j have big by (simp add: big_def a')
    with True show ?thesis by (simp add: n1_def)
  next
    case False
    with j less.prems(5) have "2 ^ j \<le> n" by simp
    moreover have "n \<le> n1"
    proof (cases big)
      case True
      have "n \<le> 2 ^ i" using less.prems(4) by (auto intro: power_increasing)
      with True show ?thesis by (simp add: n1_def)
    qed (simp add: n1_def)
    ultimately show ?thesis by simp
  qed
  have late: "\<not> (0 < nums ! j \<and> 2 ^ j div 2 < S (Suc j))" if "i \<le> j" "j \<le> B" "narray \<le> 2 ^ i div 2" for j
  proof -
    have "S (Suc j) \<le> narray" using mono [of "Suc j" "Suc B"] that tot by simp
    moreover have "(2::nat) ^ i div 2 \<le> 2 ^ j div 2"
      using that by (intro div_le_mono power_increasing) auto
    ultimately show ?thesis using that by linarith
  qed
  have rest: "nums ! j = 0" if "i < j" "j \<le> B" "a' = narray" for j
  proof -
    have "S j + nums ! j \<le> S (Suc B)" using mono [of "Suc j" "Suc B"] that by (simp add: S_def)
    moreover have "a' \<le> S j" using mono [of "Suc i" j] that by (simp add: a')
    ultimately show ?thesis using that tot by simp
  qed
  show ?case
  proof (cases "2 ^ i div 2 < narray")
    case False
    with less.prems(6) have "na' = na" "n' = n" by (auto simp: computesizes_loop.simps [of nums narray i])
    moreover have "2 ^ j \<le> n" if "j \<le> B" "0 < nums ! j" "2 ^ j div 2 < S (Suc j)" for j
      using that less.prems(5) late [of j] False by (cases "j < i") auto
    moreover have "n = 0 \<and> na = 0 \<or> (\<exists>j \<le> B. n = 2 ^ j \<and> na = S (Suc j) \<and> n div 2 < na)"
      using less.prems(1,4) by (elim disjE exE conjE) (auto intro!: exI)
    ultimately show ?thesis by blast
  next
    case go: True
    show ?thesis
    proof (cases "a' = narray")
      case True
      with less.prems(6) go have "na' = na1" "n' = n1"
        by (auto simp: computesizes_loop.simps [of nums narray i] Let_def a'_def n1_def na1_def big_def)
      moreover have "2 ^ j \<le> n1" if "j \<le> B" "0 < nums ! j" "2 ^ j div 2 < S (Suc j)" for j
        using that best rest [of j] True by (cases "j < Suc i") auto
      moreover have "n1 = 0 \<and> na1 = 0 \<or> (\<exists>j \<le> B. n1 = 2 ^ j \<and> na1 = S (Suc j) \<and> n1 div 2 < na1)"
        using less.prems(1) new by (elim disjE exE conjE) (auto intro!: exI)
      ultimately show ?thesis by blast
    next
      case False
      have "i < B"
      proof (rule ccontr)
        assume "\<not> i < B"
        with less.prems(1) have "i = B" by simp
        with a' tot False show False by simp
      qed
      moreover have "a' < narray" using mono [of "Suc i" "Suc B"] less.prems(1) False a' tot by simp
      moreover have "computesizes_loop nums narray (Suc i) a' na1 n1 = (na', n')"
        using less.prems(6) go False
        by (subst (asm) computesizes_loop.simps)
           (auto simp: Let_def a'_def n1_def na1_def big_def split: if_splits)
      ultimately show ?thesis using less.hyps [of "Suc i" a' n1 na1] new best a' by simp
    qed
  qed
qed

text \<open>
  The chosen array size: the count of its elements is exact, more than half of its slots are
  used, and no larger power of two within the limit has more than half of its slots used.
\<close>

lemma in_range_le_length: "in_range xs n \<le> length xs"
  by (simp add: in_range_def)

lemma in_range_distinct:
  assumes "distinct xs" shows "in_range xs n \<le> n"
proof -
  have "in_range xs n = card {i \<in> set xs. 0 < i \<and> i \<le> int n}"
    using assms by (simp add: in_range_def distinct_length_filter Collect_conj_eq Int_commute)
  also have "\<dots> \<le> card {0<..int n}" by (intro card_mono) auto
  finally show ?thesis by simp
qed

lemma computesizes_exact:
  assumes "computesizes (counters xs) (in_range xs MAXASIZE) = (na, n)"
  shows "na = in_range xs n" and "n \<le> MAXASIZE" and "n = 0 \<or> n div 2 < na"
    and "j \<le> MAXBITS \<Longrightarrow> 0 < class_count xs j \<Longrightarrow> 2 ^ j div 2 < in_range xs (2 ^ j) \<Longrightarrow> 2 ^ j \<le> n"
proof -
  have S: "(\<Sum>l<Suc i. counters xs ! l) = in_range xs (2 ^ i)" if "i \<le> MAXBITS" for i
  proof -
    have "(\<Sum>l<Suc i. counters xs ! l) = (\<Sum>l<Suc i. class_count xs l)"
      by (rule sum.cong) (use that in \<open>auto simp: counters_nth\<close>)
    then show ?thesis using sum_class_count [OF that] by (simp only: lessThan_Suc_atMost)
  qed
  have main: "(n = 0 \<and> na = 0 \<or> (\<exists>j \<le> MAXBITS. n = 2 ^ j \<and> na = in_range xs (2 ^ j) \<and> n div 2 < na)) \<and>
    (\<forall>j \<le> MAXBITS. 0 < class_count xs j \<longrightarrow> 2 ^ j div 2 < in_range xs (2 ^ j) \<longrightarrow> 2 ^ j \<le> n)"
  proof (cases "in_range xs MAXASIZE = 0")
    case True
    then have "na = 0" "n = 0" using assms by (auto simp: computesizes_def computesizes_loop.simps [of _ _ 0])
    moreover have "in_range xs (2 ^ j) = 0" if "j \<le> MAXBITS" for j
    proof -
      have "(2::nat) ^ j \<le> MAXASIZE" using that by (intro power_increasing) auto
      then have "0 < i \<and> i \<le> int (2 ^ j) \<Longrightarrow> 0 < i \<and> i \<le> int MAXASIZE" for i by linarith
      with True show ?thesis unfolding in_range_def by (auto simp: filter_empty_conv)
    qed
    ultimately show ?thesis by simp
  next
    case False
    have "computesizes_loop (counters xs) (in_range xs MAXASIZE) 0 0 0 0 = (na, n)"
      using assms by (simp only: computesizes_def)
    from computesizes_loop_ok [OF _ _ _ S [OF order_refl] _ _ this] False
    have "(n = 0 \<and> na = 0 \<or> (\<exists>j \<le> MAXBITS. n = 2 ^ j \<and> na = (\<Sum>l<Suc j. counters xs ! l) \<and> n div 2 < na)) \<and>
      (\<forall>j \<le> MAXBITS. 0 < counters xs ! j \<longrightarrow> 2 ^ j div 2 < (\<Sum>l<Suc j. counters xs ! l) \<longrightarrow> 2 ^ j \<le> n)"
      by simp
    then show ?thesis using S counters_nth by metis
  qed
  show "na = in_range xs n" using main by (auto simp: in_range_def)
  show "n \<le> MAXASIZE"
  proof -
    have "(2::nat) ^ j \<le> MAXASIZE" if "j \<le> MAXBITS" for j using that by (intro power_increasing) auto
    with main show ?thesis by auto
  qed
  show "n = 0 \<or> n div 2 < na" using main by blast
  show "2 ^ j \<le> n" if "j \<le> MAXBITS" "0 < class_count xs j" "2 ^ j div 2 < in_range xs (2 ^ j)"
    using main that by blast
qed

lemma computesizes_largest:
  assumes eq: "computesizes (counters xs) (in_range xs MAXASIZE) = (na, n)"
    and dist: "distinct xs" and j: "j \<le> MAXBITS" "2 ^ j div 2 < in_range xs (2 ^ j)"
  shows "2 ^ j \<le> n"
proof -
  have "0 < class_count xs j"
  proof (cases j)
    case 0
    with j sum_class_count [of 0 xs] show ?thesis by simp
  next
    case (Suc i)
    have "in_range xs (2 ^ j) = in_range xs (2 ^ i) + class_count xs j"
      using sum_class_count [OF j(1), of xs] sum_class_count [of i xs] j(1) Suc by simp
    moreover have "in_range xs (2 ^ i) \<le> 2 ^ i" by (rule in_range_distinct [OF dist])
    ultimately show ?thesis using j(2) Suc by simp
  qed
  with computesizes_exact(4) [OF eq j(1)] j(2) show ?thesis by blast
qed

section \<open>The sizes of a rehash\<close>

text \<open>The array indexes of the live entries and of the new key, and the sizes they give.\<close>

definition key_indexes :: "Table \<Rightarrow> TValue \<Rightarrow> int list" where
  "key_indexes t ek = live_arr (arr t) @ live_idx (rev (nodes t)) @ [arrayindex ek]"

definition rehash_sizes :: "Table \<Rightarrow> TValue \<Rightarrow> nat \<times> nat" where
  "rehash_sizes t ek =
     (let xs = key_indexes t ek
      in case computesizes (counters xs) (in_range xs MAXASIZE) of (na, n) \<Rightarrow> (n, length xs - na))"

lemma live_arr_in_range:
  assumes "length a \<le> n" shows "in_range (live_arr a) n = length (live_arr a)"
  unfolding in_range_def live_arr_def
  by (subst filter_True) (use assms in \<open>auto simp del: upt_Suc\<close>)

lemma rehash_with_eq:
  assumes inv: "table_inv t"
  shows "rehash_with sn sk t ek = (case rehash_sizes t ek of (na, nh) \<Rightarrow> resize_with sn sk t na nh)"
proof -
  let ?A = "live_arr (arr t)" and ?H = "live_idx (rev (nodes t))"
  have sz: "length (arr t) \<le> MAXASIZE" using inv_sizes [OF inv] by (simp add: wf_sizes_def sizearray_def)
  have h: "numusehash t (counters ?A) (length ?A) =
      (length ?H, length ?A + in_range ?H MAXASIZE, counters (?A @ ?H))"
    using numusehash_loop_eq [of "rev (nodes t)" 0 0 ?A] by (simp add: numusehash_def)
  have tot: "length ?A + in_range ?H MAXASIZE + in_range [arrayindex ek] MAXASIZE
      = in_range (key_indexes t ek) MAXASIZE"
    by (simp only: key_indexes_def in_range_append live_arr_in_range [OF sz])
  have len: "length ?A + length ?H + 1 = length (key_indexes t ek)" by (simp add: key_indexes_def)
  have c: "counters ((?A @ ?H) @ [arrayindex ek]) = counters (key_indexes t ek)"
    by (simp add: key_indexes_def)
  show ?thesis
    unfolding rehash_with_def numusearray_eq [OF inv] prod.case h countint_counters c tot len
      Let_def rehash_sizes_def
    by (simp split: prod.split)
qed

end
