(* ===== verification/Lua_Rehash.thy ===== *)
theory Lua_Rehash
  imports Lua_Insert Lua_Sizes
begin

text \<open>
  The rehash of src/lib/lua/ltable.c and, with it, the full insertion: \<open>resize\<close> rebuilds a table of the
  sizes \<open>Lua_Sizes\<close> chose and keeps its map, there is room for every entry and the new key, and so
  a rehash never starts another one: two levels of \<open>newkey\<close> are enough (\<open>newkey_enough_fuel\<close>).
\<close>

section \<open>Room in the hash part\<close>

definition hcap :: "Table \<Rightarrow> nat" where
  "hcap t = (if node t = None then 0 else sizenode t)"

definition same_shape :: "Table \<Rightarrow> Table \<Rightarrow> bool" where
  "same_shape t t' \<longleftrightarrow> sizearray t' = sizearray t \<and> hcap t' = hcap t \<and> metatable t' = metatable t"

definition valid_key :: "TValue \<Rightarrow> bool" where
  "valid_key k \<longleftrightarrow> k \<noteq> TNil \<and> \<not> isnan_value k"

lemma table_inv_cong:
  assumes "node t' = node t" "arr t' = arr t" "lsizenode t' = lsizenode t" "lastfree t' = lastfree t"
  shows "table_inv t' = table_inv t" "tabs t' = tabs t" "locates t' k p = locates t k p" "used t' = used t"
    "hcap t' = hcap t" "in_array t' k = in_array t k"
proof -
  have n: "nodes t' = nodes t" using assms by (simp add: nodes_def)
  then have f: "nx t' = nx t" "ky t' = ky t" "vl t' = vl t" by (rule funs_cong)+
  have s: "sizenode t' = sizenode t" "sizearray t' = sizearray t" "mainposition t' = mainposition t"
    "\<And>k. in_array t' k = in_array t k"
    using assms by (auto simp: sizenode_def sizearray_def in_array_def intro: mainposition_cong)
  show "table_inv t' = table_inv t" "locates t' k p = locates t k p"
    unfolding table_inv_def wf_sizes_def free_ok_def locates_def assms n f s by (rule refl)+
  show "tabs t' = tabs t" unfolding tabs_def [abs_def] assms n s by (rule refl)
  show "used t' = used t" unfolding used_def f s by (rule refl)
  show "hcap t' = hcap t" unfolding hcap_def assms s by (rule refl)
  show "in_array t' k = in_array t k" by (rule s)
qed

lemma used_no_node: "table_inv t \<Longrightarrow> node t = None \<Longrightarrow> used t = 0"
proof -
  assume "table_inv t" and none: "node t = None"
  then have "lsizenode t = 0" using inv_sizes by (auto simp: wf_sizes_def)
  then have "sizenode t = 1" by (simp add: sizenode_def)
  then have "ky t i = TNil" if "i < sizenode t" for i
    using none that by (simp add: ky_def nodes_def dummynode_def)
  then have "{i. i < sizenode t \<and> ky t i \<noteq> TNil} = {}" by auto
  then show ?thesis unfolding used_def by (simp only: card.empty)
qed

lemma used_store:
  assumes "table_inv t" and "locates t k p"
  shows "used (store t p v) = used t" "hcap (store t p v) = hcap t"
  using store_funs [OF assms, of v] by (simp_all add: used_def hcap_def)

text \<open>What \<open>set_with\<close> and \<open>setnum_with\<close> do where no rehash is needed.\<close>

definition set_ok :: "setter \<Rightarrow> Table \<Rightarrow> TValue \<Rightarrow> bool" where
  "set_ok setk t k \<longleftrightarrow>
     (\<exists>p t'. setk t k = Inr (p, t') \<and> slot_for t k p t' \<and> same_shape t t' \<and>
        used t' \<le> used t + (if in_array t k then 0 else 1))"

lemma slot_for_found:
  assumes "table_inv t" "locates t k p" "p \<noteq> NilObject"
    and "node t' = node t" "arr t' = arr t" "lsizenode t' = lsizenode t" "lastfree t' = lastfree t"
  shows "slot_for t k p t'"
  using assms table_inv_cong [OF assms(4-7)] by (simp add: slot_for_def)

lemma newkey_room_ok:
  assumes inv: "table_inv t" and k: "valid_key k" and nil: "locates t k NilObject" and room: "used t < hcap t"
  shows "\<exists>p t'. newkey (Suc n) t k = Inr (p, t') \<and> slot_for t k p t' \<and> same_shape t t' \<and> used t' \<le> Suc (used t)"
proof -
  have some: "node t \<noteq> None" using room by (auto simp: hcap_def split: if_splits)
  have new: "new_key_ok t k" using inv k nil by (simp add: new_key_ok_def valid_key_def)
  have lt: "used t < sizenode t" using room some by (simp add: hcap_def)
  obtain p t' where n: "newkey (Suc n) t k = Inr (p, t')" "slot_for t k p t'" "used t' \<le> Suc (used t)"
    "lsizenode t' = lsizenode t" "arr t' = arr t" "node t' \<noteq> None" "metatable t' = metatable t"
    using newkey_room [OF new some lt] by blast
  with n some show ?thesis by (auto simp: same_shape_def sizearray_def hcap_def sizenode_def)
qed

text \<open>Both setters of a rehash, when the key has a place or the hash part has room.\<close>

lemma set_with_room:
  assumes inv: "table_inv t" and k: "valid_key k" and room: "in_array t k \<or> used t < hcap t"
  shows "set_ok (set_with (newkey (Suc n))) t k"
proof -
  obtain p where p: "luaH_get t k = Inr p" "locates t k p" using luaH_get_locates [OF inv] by blast
  let ?t = "t\<lparr>flags := 0\<rparr>"
  note C = table_inv_cong [of ?t t, simplified]
  show ?thesis
  proof (cases "p = NilObject")
    case False
    with p have "set_with (newkey (Suc n)) t k = Inr (p, ?t)" by (simp add: set_with_def Let_def)
    moreover have "slot_for t k p ?t" by (rule slot_for_found [OF inv p(2) False]) simp_all
    ultimately show ?thesis
      unfolding set_ok_def by (intro exI [of _ p] exI [of _ ?t]) (simp add: same_shape_def C sizearray_def)
  next
    case True
    with p room have "\<not> in_array t k" "used t < hcap t" by (auto simp: locates_def)
    with newkey_room_ok [of ?t k n] inv k p True obtain p' t' where
      new: "newkey (Suc n) ?t k = Inr (p', t')" "slot_for ?t k p' t'" "same_shape ?t t'" "used t' \<le> Suc (used ?t)"
      by (auto simp: C)
    moreover have "set_with (newkey (Suc n)) t k = newkey (Suc n) ?t k"
      using p True k by (simp add: set_with_def Let_def valid_key_def)
    ultimately show ?thesis
      using \<open>\<not> in_array t k\<close> unfolding set_ok_def
      by (intro exI [of _ p'] exI [of _ t']) (simp add: same_shape_def slot_for_def C sizearray_def)
  qed
qed

definition int_key :: "TValue \<Rightarrow> bool" where
  "int_key k \<longleftrightarrow> (\<exists>i. 0 < i \<and> i \<le> int MAXASIZE \<and> k = TNumber (cast_num i))"

lemma int_key_valid: "int_key k \<Longrightarrow> valid_key k"
  using cast_num_not_nan by (fastforce simp: int_key_def valid_key_def luai_numisnan_iff)

lemma setnum_room:
  assumes inv: "table_inv t" and k: "int_key k" and room: "in_array t k \<or> used t < hcap t"
  shows "set_ok (setnum_key (newkey (Suc n))) t k"
proof -
  from k obtain i where i: "0 < i" "i \<le> int MAXASIZE" "k = TNumber (cast_num i)" by (auto simp: int_key_def)
  then have ai: "arrayindex k = i" unfolding i(3) by (intro arrayindex_cast_num) auto
  obtain p where p: "luaH_getnum t i = Inr p" "locates t k p"
    using getnum_locates [OF inv, of i] i by auto
  have eq: "setnum_key (newkey (Suc n)) t k = (if p \<noteq> NilObject then Inr (p, t) else newkey (Suc n) t k)"
    using p by (simp add: setnum_key_def setnum_with_def ai i(3) [symmetric])
  show ?thesis
  proof (cases "p = NilObject")
    case False
    with eq have "setnum_key (newkey (Suc n)) t k = Inr (p, t)" by simp
    moreover have "slot_for t k p t" using inv p(2) False by (simp add: slot_for_def)
    ultimately show ?thesis unfolding set_ok_def by (auto simp: same_shape_def)
  next
    case True
    with p room have "\<not> in_array t k" "used t < hcap t" by (auto simp: locates_def)
    with newkey_room_ok [OF inv int_key_valid [OF k]] p(2) True eq show ?thesis
      unfolding set_ok_def by auto
  qed
qed

section \<open>Re-insertion\<close>

text \<open>The map after a list of assignments, skipping nil values as \<open>reinsert\<close> does.\<close>

fun upds :: "(TValue \<Rightarrow> TValue) \<Rightarrow> (TValue \<times> TValue) list \<Rightarrow> TValue \<Rightarrow> TValue" where
  "upds f [] = f"
| "upds f ((k, v) # kvs) =
     upds (if v = TNil then f else (\<lambda>k'. if luaO_rawequalObj k k' then v else f k')) kvs"

definition live :: "(TValue \<times> TValue) list \<Rightarrow> (TValue \<times> TValue) list" where
  "live kvs = filter (\<lambda>(k, v). v \<noteq> TNil) kvs"

lemma live_Cons: "live ((k, v) # kvs) = (if v = TNil then live kvs else (k, v) # live kvs)"
  by (simp add: live_def)

lemma upds_other:
  "\<forall>(k0, v) \<in> set (live kvs). \<not> luaO_rawequalObj k0 k \<Longrightarrow> upds f kvs k = f k"
  by (induction kvs arbitrary: f rule: list.induct) (auto simp: live_def split: if_splits)

lemma upds_only:
  assumes "\<forall>(k0, v) \<in> set (live kvs). luaO_rawequalObj k0 k \<longrightarrow> v = w"
    and "(\<exists>(k0, v) \<in> set (live kvs). luaO_rawequalObj k0 k) \<or> f k = w"
  shows "upds f kvs k = w"
  using assms
proof (induction kvs arbitrary: f)
  case (Cons e kvs)
  obtain k0 v where e: "e = (k0, v)" by fastforce
  show ?case
  proof (cases "v = TNil")
    case True
    with Cons e show ?thesis by (simp add: live_Cons)
  next
    case False
    then have l: "live (e # kvs) = (k0, v) # live kvs" by (simp add: live_Cons e)
    have "(\<exists>(k0, v) \<in> set (live kvs). luaO_rawequalObj k0 k) \<or>
        (if luaO_rawequalObj k0 k then v else f k) = w"
      using Cons.prems by (auto simp: l)
    moreover have "\<forall>(k0, v) \<in> set (live kvs). luaO_rawequalObj k0 k \<longrightarrow> v = w"
      using Cons.prems(1) by (simp add: l)
    ultimately have "upds (\<lambda>k'. if luaO_rawequalObj k0 k' then v else f k') kvs k = w"
      by (intro Cons.IH)
    then show ?thesis by (simp add: e False)
  qed
qed (simp add: live_def)

lemma upds_append: "upds f (xs @ ys) = upds (upds f xs) ys"
  by (induction xs arbitrary: f) auto

lemma live_append: "live (xs @ ys) = live xs @ live ys"
  by (simp add: live_def)

definition pending :: "(TValue \<Rightarrow> bool) \<Rightarrow> (TValue \<times> TValue) list \<Rightarrow> nat" where
  "pending inarr kvs = length (filter (\<lambda>(k, v). \<not> inarr k) (live kvs))"

lemma pending_simps:
  "pending A [] = 0"
  "pending A ((k, v) # kvs) = (if v = TNil \<or> A k then 0 else 1) + pending A kvs"
  "pending A (xs @ ys) = pending A xs + pending A ys"
  by (auto simp: pending_def live_def)

lemma same_shape_trans: "same_shape a b \<Longrightarrow> same_shape b c \<Longrightarrow> same_shape a c"
  by (simp add: same_shape_def)

lemma same_shape_in_array: "same_shape t t' \<Longrightarrow> in_array t' = in_array t"
  by (simp add: same_shape_def in_array_def fun_eq_iff)

text \<open>
  A setter that finds a slot whenever there is room. Re-inserting a list of entries with it succeeds
  and has the effect of the assignments.
\<close>

locale slot_setter =
  fixes setk :: setter and okkey :: "TValue \<Rightarrow> bool"
  assumes setk_ok: "table_inv t \<Longrightarrow> okkey k \<Longrightarrow> in_array t k \<or> used t < hcap t \<Longrightarrow> set_ok setk t k"
begin

lemma reinsert_ok:
  assumes "table_inv t" and "\<forall>(k, v) \<in> set (live kvs). okkey k"
    and "used t + pending (in_array t) kvs \<le> hcap t"
  shows "\<exists>t'. reinsert setk kvs t = Inr t' \<and> table_inv t' \<and> same_shape t t' \<and>
    used t' \<le> used t + pending (in_array t) kvs \<and> tabs t' = upds (tabs t) kvs"
  using assms
proof (induction kvs arbitrary: t)
  case Nil
  then show ?case by (simp add: same_shape_def)
next
  case (Cons e kvs)
  obtain k v where e: "e = (k, v)" by fastforce
  show ?case
  proof (cases "v = TNil")
    case True
    with Cons e show ?thesis by (simp add: live_def pending_simps)
  next
    case False
    with e Cons.prems(2) have ok: "okkey k" and ok': "\<forall>(k, v) \<in> set (live kvs). okkey k"
      by (auto simp: live_def)
    have "in_array t k \<or> used t < hcap t"
      using Cons.prems(3) False by (auto simp: e pending_simps split: if_splits)
    from setk_ok [OF Cons.prems(1) ok this] obtain p t1 where
      s: "setk t k = Inr (p, t1)" "slot_for t k p t1" "same_shape t t1"
        "used t1 \<le> used t + (if in_array t k then 0 else 1)" by (auto simp: set_ok_def)
    let ?t = "store t1 p v"
    from s(2) have sl: "table_inv t1" "locates t1 k p" "p \<noteq> NilObject" "tabs t1 = tabs t"
      by (simp_all add: slot_for_def)
    have shape: "same_shape t ?t"
      using s(3) used_store(2) [OF sl(1,2)] by (simp add: same_shape_def)
    have u: "used ?t = used t1" by (rule used_store(1) [OF sl(1,2)])
    have m: "tabs ?t = (\<lambda>k'. if luaO_rawequalObj k k' then v else tabs t k')"
      using tabs_store [OF sl(1-3)] sl(4) by (simp add: fun_eq_iff)
    have "used ?t + pending (in_array ?t) kvs \<le> hcap ?t"
      using Cons.prems(3) s(4) u shape False
      by (simp add: same_shape_in_array [OF shape] e pending_simps same_shape_def split: if_splits)
    from Cons.IH [OF table_inv_store [OF sl(1,2)] ok' this] obtain t' where
      t': "reinsert setk kvs ?t = Inr t'" "table_inv t'" "same_shape ?t t'"
        "used t' \<le> used ?t + pending (in_array t) kvs" "tabs t' = upds (tabs ?t) kvs"
      by (auto simp: same_shape_in_array [OF shape])
    have "used t' \<le> used t + pending (in_array t) (e # kvs)"
      using t'(4) u s(4) False by (simp add: e pending_simps split: if_splits)
    then show ?thesis
      using t' s(1) False same_shape_trans [OF shape t'(3)] by (simp add: e m)
  qed
qed

end

interpretation fullset: slot_setter "set_with (newkey (Suc n))" valid_key for n
  by unfold_locales (rule set_with_room)

interpretation numset: slot_setter "setnum_key (newkey (Suc n))" int_key for n
  by unfold_locales (rule setnum_room)

section \<open>Empty hash parts\<close>

definition blank :: "Table \<Rightarrow> bool" where
  "blank t \<longleftrightarrow> wf_sizes t \<and> free_ok t \<and> (\<forall>i < sizenode t. nodes t ! i = dummynode)"

lemma blank_inv:
  assumes "blank t"
  shows "table_inv t" "used t = 0" "\<not> in_array t k \<Longrightarrow> tabs t k = TNil"
proof -
  have f: "nx t i = None" "ky t i = TNil" "vl t i = TNil" if "i < sizenode t" for i
    using assms that by (simp_all add: blank_def nx_def ky_def vl_def dummynode_def)
  have "links_ok (sizenode t) (nx t) (ky t)" "next_inj (sizenode t) (nx t)"
    "ranked (sizenode t) (nx t) (\<lambda>_. 0)" "keys_ok (sizenode t) (ky t) (vl t)"
    "homes_ok (sizenode t) (mainposition t) (nx t) (ky t)"
    using f by (simp_all add: links_ok_def next_inj_def ranked_def keys_ok_def homes_ok_def)
  then have "scatter (sizenode t) (mainposition t) (nx t) (ky t) (vl t)"
    unfolding scatter_def using mainposition_less by blast
  moreover have "\<not> in_array t (ky t i)" if "i < sizenode t" for i using f that by (simp add: in_array_def)
  ultimately show inv: "table_inv t" using assms by (simp add: table_inv_def blank_def)
  have "{i. i < sizenode t \<and> ky t i \<noteq> TNil} = {}" using f by auto
  then show "used t = 0" unfolding used_def by (simp only: card.empty)
  show "tabs t k = TNil" if "\<not> in_array t k"
  proof (rule ccontr)
    assume nil: "tabs t k \<noteq> TNil"
    with tabs_hash_iff [OF inv nil that] have "hlook (sizenode t) (ky t) (vl t) k (tabs t k)" by simp
    then obtain i where "i < sizenode t" "vl t i = tabs t k" by (auto simp: hlook_def)
    with f(3) nil show False by simp
  qed
qed

lemma setnodevector_ok:
  assumes "length (arr t) \<le> MAXASIZE" and "sz \<le> 2 ^ MAXBITS"
  shows "\<exists>t'. setnodevector t sz = Inr t' \<and> blank t' \<and> arr t' = arr t \<and> metatable t' = metatable t \<and>
    sz \<le> hcap t'"
proof (cases "sz = 0")
  case True
  then show ?thesis using assms(1)
    by (auto simp: setnodevector_def blank_def wf_sizes_def free_ok_def sizenode_def nodes_def sizearray_def)
next
  case False
  then have "ceillog2 sz \<le> MAXBITS" using assms(2) ceillog2_le_iff [of sz MAXBITS] by simp
  moreover have "sz \<le> 2 ^ ceillog2 sz" using False ceillog2_bounds [of sz] by simp
  ultimately show ?thesis using False assms(1)
    by (auto simp: setnodevector_def Let_def blank_def wf_sizes_def free_ok_def sizenode_def nodes_def
        sizearray_def hcap_def)
qed

lemma setnodevector_overflow:
  assumes "setnodevector t sz = Inl e" shows "e = TableOverflow \<and> 2 ^ MAXBITS < sz"
proof -
  have "sz \<noteq> 0" "MAXBITS < ceillog2 sz" "e = TableOverflow"
    using assms by (auto simp: setnodevector_def Let_def split: if_splits)
  then show ?thesis using ceillog2_le_iff [of sz MAXBITS] by auto
qed

section \<open>The entries of a table\<close>

definition entries :: "Table \<Rightarrow> (TValue \<times> TValue) list" where
  "entries t = slice_entries (arr t) 0 @ map (\<lambda>n. (i_key n, i_val n)) (rev (nodes t))"

lemma slice_entry:
  assumes "table_inv t" and "(k0, v) \<in> set (slice_entries (arr t) lo)"
  obtains i where "lo \<le> i" "i < sizearray t" "k0 = TNumber (cast_num (int i + 1))" "v = arr t ! i"
    "arrayindex k0 = int i + 1" "int_key k0" "in_array t k0"
proof -
  from assms(2) obtain i where i: "lo \<le> i" "i < sizearray t" "k0 = TNumber (cast_num (int i + 1))" "v = arr t ! i"
    by (auto simp: slice_entries_def sizearray_def)
  have sz: "sizearray t \<le> MAXASIZE" using inv_sizes [OF assms(1)] by (simp add: wf_sizes_def)
  have ai: "arrayindex k0 = int i + 1" unfolding i(3) using i(2) sz by (intro arrayindex_cast_num) auto
  moreover have "int_key k0" unfolding int_key_def using i sz by (intro exI [of _ "int i + 1"]) auto
  moreover have "in_array t k0" using i(2) by (simp add: in_array_def ai)
  ultimately show thesis using that i by blast
qed

lemma entry_tabs:
  assumes inv: "table_inv t" and e: "(k0, v) \<in> set (live (entries t))"
  shows "valid_key k0" "luaO_rawequalObj k0 k \<Longrightarrow> tabs t k = v"
proof -
  have v: "v \<noteq> TNil" using e by (simp add: live_def)
  from e have "(k0, v) \<in> set (slice_entries (arr t) 0) \<or> (\<exists>i < sizenode t. k0 = ky t i \<and> v = vl t i)"
    using inv_length [OF inv] by (auto simp: live_def entries_def in_set_conv_nth ky_def vl_def)
  then have "valid_key k0 \<and> tabs t k0 = v"
  proof
    assume "(k0, v) \<in> set (slice_entries (arr t) 0)"
    then show ?thesis
      by (rule slice_entry [OF inv]) (auto simp: tabs_def int_key_valid)
  next
    assume "\<exists>i < sizenode t. k0 = ky t i \<and> v = vl t i"
    then obtain i where i: "i < sizenode t" "k0 = ky t i" "v = vl t i" by blast
    with v scatter_keys [OF inv_scatter [OF inv]] have k: "valid_key k0"
      by (auto simp: keys_ok_def valid_key_def)
    then show ?thesis using tabs_node [OF inv i(1), of k0] inv_array [OF inv i(1)] i
      by (simp add: valid_key_def rawequal_refl_iff)
  qed
  then show "valid_key k0" "luaO_rawequalObj k0 k \<Longrightarrow> tabs t k = v"
    using tabs_rawequal [of k0 k t] by simp_all
qed

lemma tabs_entry_hash:
  assumes inv: "table_inv t" and "\<not> in_array t k" and "tabs t k \<noteq> TNil"
  shows "\<exists>(k0, v) \<in> set (live (map (\<lambda>n. (i_key n, i_val n)) (rev (nodes t)))). luaO_rawequalObj k0 k"
proof -
  from tabs_hash_iff [OF inv assms(3,2)] have "hlook (sizenode t) (ky t) (vl t) k (tabs t k)" by simp
  then obtain i where i: "i < sizenode t" "luaO_rawequalObj (ky t i) k" "vl t i \<noteq> TNil"
    using assms(3) by (auto simp: hlook_def)
  then have "nodes t ! i \<in> set (nodes t)" using inv_length [OF inv] by simp
  then have "(ky t i, vl t i) \<in> set (live (map (\<lambda>n. (i_key n, i_val n)) (rev (nodes t))))"
    using i(3) by (force simp: live_def ky_def vl_def)
  with i(2) show ?thesis by blast
qed

lemma tabs_entry_slice:
  assumes inv: "table_inv t" and "in_array t k" and "tabs t k \<noteq> TNil" and "int lo < arrayindex k"
  shows "\<exists>(k0, v) \<in> set (live (slice_entries (arr t) lo)). luaO_rawequalObj k0 k"
proof -
  define i where "i = nat (arrayindex k - 1)"
  have i: "lo \<le> i" "i < sizearray t" "int i + 1 = arrayindex k" using assms(2,4) by (auto simp: i_def in_array_def)
  have "luaO_rawequalObj (TNumber (cast_num (int i + 1))) k"
    unfolding i(3)
    by (rule rawequal_sym [OF arrayindex_pos_rawequal]) (use assms(2) in \<open>simp add: in_array_def\<close>)
  moreover have "arr t ! i \<noteq> TNil" using assms(2,3) by (simp add: tabs_def i_def)
  moreover have "(TNumber (cast_num (int i + 1)), arr t ! i) \<in> set (slice_entries (arr t) lo)"
    unfolding slice_entries_def using i(1,2) by (auto simp: sizearray_def)
  ultimately have "(TNumber (cast_num (int i + 1)), arr t ! i) \<in> set (live (slice_entries (arr t) lo))"
    by (simp only: live_def set_filter mem_Collect_eq prod.case simp_thms)
  moreover have "luaO_rawequalObj (TNumber (cast_num (int i + 1))) k" by fact
  ultimately show ?thesis by blast
qed

section \<open>resize\<close>

definition node_entries :: "Table \<Rightarrow> (TValue \<times> TValue) list" where
  "node_entries t = map (\<lambda>n. (i_key n, i_val n)) (rev (nodes t))"

text \<open>The entries that leave the array part, then those of the hash part, are re-inserted.\<close>

definition moving :: "Table \<Rightarrow> nat \<Rightarrow> (TValue \<times> TValue) list" where
  "moving t nasize = slice_entries (arr t) nasize @ node_entries t"

lemma slice_entries_none: "length a \<le> lo \<Longrightarrow> slice_entries a lo = []"
  by (simp add: slice_entries_def)

lemma slice_entries_split:
  "lo \<le> length a \<Longrightarrow> slice_entries a 0 =
     map (\<lambda>i. (TNumber (cast_num (int i + 1)), a ! i)) [0..<lo] @ slice_entries a lo"
  using upt_split [of 0 lo "length a"] by (simp add: slice_entries_def)

lemma moving_entries: "set (live (moving t nasize)) \<subseteq> set (live (entries t))"
  by (auto simp: moving_def live_def entries_def node_entries_def slice_entries_def)

definition new_array :: "Table \<Rightarrow> nat \<Rightarrow> TValue list" where
  "new_array t nasize = take nasize (arr t) @ replicate (nasize - sizearray t) TNil"

text \<open>Re-inserting the moving entries into a blank table with the new array gives the old map.\<close>

lemma upds_moving:
  assumes inv: "table_inv t" and b: "blank t2" and arr: "arr t2 = new_array t nasize"
  shows "upds (tabs t2) (moving t nasize) = tabs t"
proof
  fix k
  have len: "sizearray t2 = nasize" by (simp add: sizearray_def arr new_array_def)
  show "upds (tabs t2) (moving t nasize) k = tabs t k"
  proof (rule upds_only)
    show "\<forall>(k0, v) \<in> set (live (moving t nasize)). luaO_rawequalObj k0 k \<longrightarrow> v = tabs t k"
      using entry_tabs(2) [OF inv] moving_entries [of t nasize] by blast
    show "(\<exists>(k0, v) \<in> set (live (moving t nasize)). luaO_rawequalObj k0 k) \<or> tabs t2 k = tabs t k"
    proof (cases "tabs t k = TNil")
      case True
      have "tabs t2 k = TNil"
      proof (cases "in_array t2 k")
        case in2: True
        then have t2: "tabs t2 k = new_array t nasize ! nat (arrayindex k - 1)" by (simp add: tabs_def arr)
        show ?thesis
        proof (cases "arrayindex k \<le> int (sizearray t)")
          case old: True
          with in2 True have "arr t ! nat (arrayindex k - 1) = TNil" by (auto simp: tabs_def in_array_def split: if_splits)
          moreover have "nat (arrayindex k - 1) < length (arr t)" "nat (arrayindex k - 1) < nasize"
            using old in2 len by (auto simp: in_array_def sizearray_def)
          ultimately show ?thesis unfolding t2 by (simp add: new_array_def nth_append)
        next
          case False
          then have "\<not> nat (arrayindex k - 1) < length (arr t)"
            "nat (arrayindex k - 1) - min (length (arr t)) nasize < nasize - length (arr t)"
            using in2 len by (auto simp: in_array_def sizearray_def)
          then show ?thesis unfolding t2 by (simp add: new_array_def nth_append sizearray_def)
        qed
      qed (rule blank_inv(3) [OF b])
      with True show ?thesis by simp
    next
      case live: False
      show ?thesis
      proof (cases "in_array t k")
        case False
        from tabs_entry_hash [OF inv False live] show ?thesis
          by (auto simp: moving_def live_append node_entries_def)
      next
        case True
        show ?thesis
        proof (cases "int nasize < arrayindex k")
          case out: True
          from tabs_entry_slice [OF inv True live out] show ?thesis by (auto simp: moving_def live_append)
        next
          case False
          with True len have "in_array t2 k" by (simp add: in_array_def)
          with True False show ?thesis
            by (auto simp: tabs_def arr new_array_def nth_append in_array_def sizearray_def)
        qed
      qed
    qed
  qed
qed

definition fits :: "nat \<Rightarrow> TValue \<Rightarrow> bool" where
  "fits nasize k \<longleftrightarrow> 0 < arrayindex k \<and> arrayindex k \<le> int nasize"

lemma fits_in_array: "sizearray t = nasize \<Longrightarrow> in_array t = fits nasize"
  by (simp add: in_array_def fits_def fun_eq_iff)

text \<open>What a resize promises.\<close>

definition resized :: "Table \<Rightarrow> nat \<Rightarrow> nat \<Rightarrow> Table \<Rightarrow> bool" where
  "resized t nasize nhsize t' \<longleftrightarrow>
     table_inv t' \<and> tabs t' = tabs t \<and> sizearray t' = nasize \<and> nhsize \<le> hcap t' \<and>
     used t' \<le> pending (fits nasize) (moving t nasize) \<and> metatable t' = metatable t"

locale resizer = num: slot_setter setnum int_key + full: slot_setter setk valid_key
  for setnum setk
begin

lemma resize_with_ok:
  assumes inv: "table_inv t" and na: "nasize \<le> MAXASIZE" and nh: "nhsize \<le> 2 ^ MAXBITS"
    and room: "pending (fits nasize) (moving t nasize) \<le> nhsize"
  shows "\<exists>t'. resize_with setnum setk t nasize nhsize = Inr t' \<and> resized t nasize nhsize t'"
proof -
  define t1 where "t1 = (if sizearray t < nasize then setarrayvector t nasize else t)"
  have sz: "sizearray t \<le> MAXASIZE" using inv_sizes [OF inv] by (simp add: wf_sizes_def)
  have a1: "length (arr t1) \<le> MAXASIZE" "metatable t1 = metatable t" "take nasize (arr t1) = new_array t nasize"
    using sz na by (auto simp: t1_def setarrayvector_def sizearray_def new_array_def)
  obtain t2 where t2: "setnodevector t1 nhsize = Inr t2" "blank t2" "arr t2 = arr t1"
    "metatable t2 = metatable t1" "nhsize \<le> hcap t2" using setnodevector_ok [OF a1(1) nh] by blast
  define t2' where "t2' = t2\<lparr>arr := take nasize (arr t2)\<rparr>"
  have arr2: "arr t2' = new_array t nasize" by (simp add: t2'_def t2 a1)
  have len: "sizearray t2' = nasize" by (simp add: sizearray_def arr2 new_array_def)
  have b: "blank t2'" using t2(2) na len
    by (auto simp: blank_def wf_sizes_def free_ok_def t2'_def sizenode_def ky_def split: option.splits)
  have hc: "hcap t2' = hcap t2" by (simp add: hcap_def t2'_def sizenode_def)
  note B = blank_inv [OF b]
  have ia: "in_array t2' = fits nasize" by (rule fits_in_array [OF len])
  have slice_ok: "\<forall>(k, v) \<in> set (live (slice_entries (arr t) nasize)). int_key k"
    by (auto simp: live_def elim: slice_entry [OF inv])
  have node_ok: "\<forall>(k, v) \<in> set (live (node_entries t)). valid_key k"
    using entry_tabs(1) [OF inv] by (auto simp: live_def entries_def node_entries_def)
  have p: "pending (fits nasize) (slice_entries (arr t) nasize) + pending (fits nasize) (node_entries t) \<le> nhsize"
    using room by (simp add: moving_def pending_simps)
  obtain t3 where t3: "reinsert setnum (slice_entries (arr t) nasize) t2' = Inr t3" "table_inv t3"
    "same_shape t2' t3" "used t3 \<le> pending (fits nasize) (slice_entries (arr t) nasize)"
    "tabs t3 = upds (tabs t2') (slice_entries (arr t) nasize)"
    using num.reinsert_ok [OF B(1) slice_ok] p t2(5) hc B(2) ia by fastforce
  have ia3: "in_array t3 = fits nasize" using same_shape_in_array [OF t3(3)] ia by simp
  have room3: "used t3 + pending (in_array t3) (node_entries t) \<le> hcap t3"
    using t3(3,4) p t2(5) hc by (simp add: ia3 same_shape_def)
  obtain t4 where t4: "reinsert setk (node_entries t) t3 = Inr t4" "table_inv t4" "same_shape t3 t4"
    "used t4 \<le> used t3 + pending (fits nasize) (node_entries t)"
    "tabs t4 = upds (tabs t3) (node_entries t)"
    using full.reinsert_ok [OF t3(2) node_ok room3] ia3 by auto
  have "tabs t4 = upds (tabs t2') (moving t nasize)" by (simp add: t4 t3 moving_def upds_append)
  then have tabs: "tabs t4 = tabs t" by (simp add: upds_moving [OF inv b arr2])
  have first: "(if nasize < sizearray t then reinsert setnum (slice_entries (arr t) nasize) (t2\<lparr>arr := take nasize (arr t2)\<rparr>)
      else Inr t2) = Inr t3"
  proof (cases "nasize < sizearray t")
    case True
    with t3(1) show ?thesis by (simp add: t2'_def)
  next
    case False
    then have "take nasize (arr t2) = arr t2"
      by (simp add: t2(3) t1_def setarrayvector_def sizearray_def)
    then have "t2' = t2" by (simp add: t2'_def)
    moreover have "slice_entries (arr t) nasize = []"
      using False by (simp add: slice_entries_none sizearray_def)
    ultimately have "slice_entries (arr t) nasize = []" "t2' = t2" by simp_all
    with t3(1) False show ?thesis by simp
  qed
  have "resize_with setnum setk t nasize nhsize = Inr t4"
    unfolding resize_with_def Let_def t1_def [symmetric] t2(1) bindE.simps first
    by (simp add: t4(1) node_entries_def [symmetric])
  moreover have "resized t nasize nhsize t4"
    using t4 t3(3,4) tabs len t2(4,5) hc a1(2)
    by (simp add: resized_def same_shape_def moving_def pending_simps t2'_def)
  ultimately show ?thesis by blast
qed

end

interpretation rehasher: resizer "setnum_key (newkey (Suc n))" "set_with (newkey (Suc n))" for n ..

section \<open>rehash: there is room for every entry and the new key\<close>

definition key_idx :: "(TValue \<times> TValue) list \<Rightarrow> int list" where
  "key_idx kvs = map (\<lambda>(k, v). arrayindex k) (live kvs)"

lemma pending_idx: "pending (fits na) kvs = length (filter (\<lambda>i. \<not> (0 < i \<and> i \<le> int na)) (key_idx kvs))"
  unfolding pending_def key_idx_def filter_map length_map comp_def fits_def
  by (rule arg_cong [where f = length], rule filter_cong) auto

lemma length_not_in_range:
  "length (filter (\<lambda>i. \<not> (0 < i \<and> i \<le> int na)) xs) = length xs - in_range xs na"
  using sum_length_filter_compl [of "\<lambda>i. 0 < i \<and> i \<le> int na" xs] by (simp add: in_range_def)

lemma idx_slice:
  assumes "length a \<le> MAXASIZE" shows "key_idx (slice_entries a 0) = live_arr a"
proof -
  have ai: "arrayindex (TNumber (cast_num (int i + 1))) = int i + 1" if "i < length a" for i
    using that assms by (intro arrayindex_cast_num) auto
  have "live (slice_entries a 0) = map (\<lambda>i. (TNumber (cast_num (int i + 1)), a ! i)) (filter (\<lambda>i. a ! i \<noteq> TNil) [0..<length a])"
    by (simp add: live_def slice_entries_def filter_map comp_def)
  then have "key_idx (slice_entries a 0) =
      map (\<lambda>i. arrayindex (TNumber (cast_num (int i + 1)))) (filter (\<lambda>i. a ! i \<noteq> TNil) [0..<length a])"
    by (simp add: key_idx_def del: arrayindex.simps)
  also have "\<dots> = map (\<lambda>i. int (Suc i)) (filter (\<lambda>i. a ! i \<noteq> TNil) [0..<length a])"
    by (rule map_cong) (auto simp: ai simp del: arrayindex.simps)
  also have "\<dots> = live_arr a"
    unfolding live_arr_def One_nat_def map_Suc_upt [symmetric] filter_map by (simp add: comp_def)
  finally show ?thesis .
qed

lemma pending_slice:
  assumes "length a \<le> MAXASIZE"
  shows "pending (fits na) (slice_entries a na) \<le> pending (fits na) (slice_entries a 0)"
proof (cases "na \<le> length a")
  case True
  then show ?thesis by (simp add: slice_entries_split pending_simps)
qed (simp add: slice_entries_none pending_simps)

lemma idx_nodes: "key_idx (node_entries t) = live_idx (rev (nodes t))"
  unfolding key_idx_def node_entries_def live_def live_idx_def by (simp add: filter_map comp_def)

lemma sizes_room:
  assumes inv: "table_inv t" and eq: "rehash_sizes t ek = (na, nh)"
  shows "na \<le> MAXASIZE" "pending (fits na) (moving t na) + (if fits na ek then 0 else 1) \<le> nh"
    "nh \<le> length (live (entries t)) + 1"
proof -
  let ?xs = "key_indexes t ek"
  have sz: "length (arr t) \<le> MAXASIZE" using inv_sizes [OF inv] by (simp add: wf_sizes_def sizearray_def)
  obtain m where m: "computesizes (counters ?xs) (in_range ?xs MAXASIZE) = (m, na)" and nh: "nh = length ?xs - m"
    using eq by (auto simp: rehash_sizes_def Let_def split: prod.splits)
  note C = computesizes_exact [OF m]
  show "na \<le> MAXASIZE" by (rule C(2))
  have xs: "?xs = key_idx (slice_entries (arr t) 0) @ key_idx (node_entries t) @ [arrayindex ek]"
    by (simp add: key_indexes_def idx_slice [OF sz] idx_nodes)
  have "nh = length (filter (\<lambda>i. \<not> (0 < i \<and> i \<le> int na)) ?xs)"
    unfolding length_not_in_range nh C(1) by (rule refl)
  also have "\<dots> = pending (fits na) (slice_entries (arr t) 0) + pending (fits na) (node_entries t)
      + (if fits na ek then 0 else 1)"
    unfolding xs filter_append length_append pending_idx by (auto simp: fits_def)
  finally show "pending (fits na) (moving t na) + (if fits na ek then 0 else 1) \<le> nh"
    using pending_slice [OF sz, of na] by (simp add: moving_def pending_simps)
  have "length ?xs = length (live (entries t)) + 1"
    unfolding xs by (simp add: key_idx_def entries_def node_entries_def live_append)
  then show "nh \<le> length (live (entries t)) + 1" by (simp add: nh)
qed

text \<open>The only error of a rehash: more live entries than the largest hash part holds.\<close>

definition overfull :: "Table \<Rightarrow> bool" where
  "overfull t \<longleftrightarrow> 2 ^ MAXBITS \<le> length (live (entries t))"

lemma rehash_with_ok:
  fixes n :: nat
  defines "r \<equiv> rehash_with (setnum_key (newkey (Suc n))) (set_with (newkey (Suc n)))"
  assumes inv: "table_inv t"
  shows "(\<exists>t'. r t ek = Inr t' \<and> table_inv t' \<and> tabs t' = tabs t \<and> metatable t' = metatable t \<and>
      (in_array t' ek \<or> used t' < hcap t')) \<or> (r t ek = Inl TableOverflow \<and> overfull t)"
proof -
  obtain na nh where s: "rehash_sizes t ek = (na, nh)" by fastforce
  note R = sizes_room [OF inv s]
  have eq: "r t ek = resize_with (setnum_key (newkey (Suc n))) (set_with (newkey (Suc n))) t na nh"
    by (simp add: r_def rehash_with_eq [OF inv] s)
  show ?thesis
  proof (cases "nh \<le> 2 ^ MAXBITS")
    case True
    have "pending (fits na) (moving t na) \<le> nh" using R(2) by simp
    from rehasher.resize_with_ok [OF inv R(1) True this] obtain t' where
      t': "r t ek = Inr t'" "resized t na nh t'" by (auto simp: eq)
    then have "in_array t' ek \<or> used t' < hcap t'"
      using R(2) fits_in_array [of t' na] by (auto simp: resized_def split: if_splits)
    with t' show ?thesis by (auto simp: resized_def)
  next
    case False
    then have "nh \<noteq> 0" "MAXBITS < ceillog2 nh" using ceillog2_le_iff [of nh MAXBITS] by auto
    then have "r t ek = Inl TableOverflow" by (simp add: eq resize_with_def Let_def setnodevector_def)
    moreover have "overfull t" using False R(3) by (simp add: overfull_def)
    ultimately show ?thesis by blast
  qed
qed

lemma free_node_used:
  assumes "m < sizenode t" "ky t m = TNil" shows "used t < sizenode t"
  using card_Collect_less_insert [OF assms(1), of "\<lambda>i. ky t i \<noteq> TNil"] assms
    card_Collect_less_le [of "sizenode t" "\<lambda>i. i = m \<or> ky t i \<noteq> TNil"]
  by (simp add: used_def)

text \<open>A failed search for a free node only moves \<open>lastfree\<close>.\<close>

lemma getfreepos_None_inv:
  assumes inv: "table_inv t" and eq: "getfreepos t = (None, t1)"
  shows "table_inv t1" "tabs t1 = tabs t" "metatable t1 = metatable t" "overfull t1 = overfull t"
proof -
  from eq obtain lf where lf: "getfreepos_loop (nodes t) (lastfree t) = (None, lf)" and t1: "t1 = t\<lparr>lastfree := lf\<rparr>"
    by (auto simp: getfreepos_def split: prod.splits)
  have low: "lf \<le> 0" using getfreepos_loop_low [OF lf] by simp
  have used: "\<forall>i < sizenode t. ky t i \<noteq> TNil" if "node t \<noteq> None"
    using getfreepos_None [OF inv eq that] .
  have n: "nodes t1 = nodes t" by (simp add: t1)
  have f: "nx t1 = nx t" "ky t1 = ky t" "vl t1 = vl t" by (rule funs_cong [OF n])+
  have z: "sizenode t1 = sizenode t" "sizearray t1 = sizearray t" "mainposition t1 = mainposition t"
    "\<And>k. in_array t1 k = in_array t k" "lsizenode t1 = lsizenode t" "node t1 = node t"
    by (simp_all add: t1)
  have "free_ok t1" using low used
    by (cases "node t") (simp_all add: free_ok_def f z t1 [symmetric], simp_all add: t1)
  then show "table_inv t1"
    using inv unfolding table_inv_def wf_sizes_def n f z by simp
  show "tabs t1 = tabs t" by (simp add: t1 tabs_def fun_eq_iff)
  show "metatable t1 = metatable t" by (simp add: t1)
  show "overfull t1 = overfull t" by (simp add: t1 overfull_def entries_def)
qed

text \<open>Two levels of fuel are enough for every insertion.\<close>

theorem newkey_enough_fuel:
  assumes inv: "table_inv t" and k: "valid_key k" and nil: "locates t k NilObject"
  shows "(\<exists>p t'. newkey (Suc (Suc n)) t k = Inr (p, t') \<and> slot_for t k p t' \<and> metatable t' = metatable t) \<or>
    (newkey (Suc (Suc n)) t k = Inl TableOverflow \<and> overfull t)"
proof -
  have new: "new_key_ok t k" using inv k nil by (simp add: new_key_ok_def valid_key_def)
  let ?m = "mainposition t k" and ?sn = "setnum_key (newkey (Suc n))" and ?sk = "set_with (newkey (Suc n))"
  show ?thesis
  proof (cases "node t \<noteq> None \<and> used t < sizenode t")
    case True
    then show ?thesis using newkey_room [OF new, of "Suc n"] by blast
  next
    case full: False
    show ?thesis
    proof (cases "vl t ?m = TNil \<and> node t \<noteq> None")
      case True
      obtain p t' where put: "put_key t (nodes t) ?m k = (p, t')" by fastforce
      with True have "newkey (Suc (Suc n)) t k = Inr (p, t')" by (auto simp: vl_def Let_def)
      moreover have "metatable t' = metatable t" using put by (auto simp: put_key_def set_nodes_def)
      ultimately show ?thesis using insert_overwrite [OF new refl _ _ put] True by blast
    next
      case False
      obtain t1 where free: "getfreepos t = (None, t1)"
      proof (cases "getfreepos t")
        case (Pair r t1)
        have "r = None"
        proof (rule ccontr)
          assume "r \<noteq> None"
          then obtain m where "getfreepos t = (Some m, t1)" using Pair by auto
          from getfreepos_Some [OF inv this] free_node_used full show False by blast
        qed
        with Pair that show thesis by simp
      qed
      note F = getfreepos_None_inv [OF inv free]
      have eq: "newkey (Suc (Suc n)) t k = bindE (rehash_with ?sn ?sk t1 k) (\<lambda>t2. ?sk t2 k)"
        using False free by (subst newkey.simps) (auto simp: Let_def vl_def)
      from rehash_with_ok [OF F(1), of n k] consider
        (rehashed) t2 where "rehash_with ?sn ?sk t1 k = Inr t2" "table_inv t2" "tabs t2 = tabs t1"
          "metatable t2 = metatable t1" "in_array t2 k \<or> used t2 < hcap t2"
        | (overflow) "rehash_with ?sn ?sk t1 k = Inl TableOverflow" "overfull t1" by blast
      then show ?thesis
      proof cases
        case rehashed
        from set_with_room [OF rehashed(2) k rehashed(5), of n] obtain p t' where
          "?sk t2 k = Inr (p, t')" "slot_for t2 k p t'" "same_shape t2 t'" by (auto simp: set_ok_def)
        then show ?thesis using rehashed F eq by (auto simp: slot_for_def same_shape_def)
      qed (use eq F in simp)
    qed
  qed
qed

text \<open>\<open>luaH_set\<close> gives the slot of a valid key and keeps the map; its errors are exactly these.\<close>

theorem luaH_set_ok:
  assumes inv: "table_inv t" and k: "valid_key k"
  shows "(\<exists>p t'. luaH_set t k = Inr (p, t') \<and> slot_for t k p t' \<and> metatable t' = metatable t) \<or>
    (luaH_set t k = Inl TableOverflow \<and> overfull t)"
proof -
  obtain p where p: "luaH_get t k = Inr p" "locates t k p" using luaH_get_locates [OF inv] by blast
  let ?t = "t\<lparr>flags := 0\<rparr>"
  note C = table_inv_cong [of ?t t, simplified]
  show ?thesis
  proof (cases "p = NilObject")
    case False
    with p have "luaH_set t k = Inr (p, ?t)" by (simp add: luaH_set_def set_with_def Let_def)
    moreover have "slot_for t k p ?t" by (rule slot_for_found [OF inv p(2) False]) simp_all
    ultimately show ?thesis by simp
  next
    case True
    with p k have "luaH_set t k = newkey rehash_fuel ?t k"
      by (simp add: luaH_set_def set_with_def Let_def valid_key_def)
    moreover have "slot_for ?t k p' t' = slot_for t k p' t'" "overfull ?t = overfull t" for p' t'
      by (simp_all add: slot_for_def C overfull_def entries_def)
    ultimately show ?thesis
      using newkey_enough_fuel [of ?t k 0] inv k p(2) True by (simp add: C numeral_2_eq_2)
  qed
qed

end
