(* ===== verification/Lua_Traverse.thy ===== *)
theory Lua_Traverse
  imports Lua_Rehash
begin

text \<open>
  Traversal and length of a table (src/lib/lua/ltable.c: \<open>findindex\<close>, \<open>luaH_next\<close>, \<open>unbound_search\<close>,
  \<open>luaH_getn\<close>). Repeated \<open>luaH_next\<close> gives every live entry once, in the order of the slots;
  \<open>luaH_getn\<close> ends and gives a border: an index whose value is not nil (or zero) with a nil value after it.
\<close>

section \<open>Traversal\<close>

definition slots :: "Table \<Rightarrow> (TValue \<times> TValue) list" where
  "slots t = slice_entries (arr t) 0 @ map (\<lambda>n. (i_key n, i_val n)) (nodes t)"

fun first :: "'a list \<Rightarrow> 'a option" where
  "first [] = None"
| "first (x # xs) = Some x"

lemma length_slots: "table_inv t \<Longrightarrow> length (slots t) = sizearray t + sizenode t"
  using inv_length by (simp add: slots_def slice_entries_def sizearray_def)

lemma slots_nth:
  assumes "table_inv t"
  shows "i < sizearray t \<Longrightarrow> slots t ! i = (TNumber (cast_num (int i + 1)), arr t ! i)"
    and "j < sizenode t \<Longrightarrow> slots t ! (sizearray t + j) = (ky t j, vl t j)"
  using inv_length [OF assms]
  by (simp_all add: slots_def slice_entries_def nth_append sizearray_def ky_def vl_def)

lemma next_entry_eq: "table_inv t \<Longrightarrow> next_entry t i = first (live (drop i (slots t)))"
proof (induction t i rule: next_entry.induct)
  case (1 t i)
  note len = length_slots [OF 1(3)] and nth = slots_nth [OF 1(3)]
  show ?case
  proof (cases "i < sizearray t")
    case True
    then have "drop i (slots t) = (TNumber (cast_num (int i + 1)), arr t ! i) # drop (Suc i) (slots t)"
      using nth(1) len by (metis Cons_nth_drop_Suc trans_less_add1)
    with True 1 show ?thesis by (simp add: next_entry.simps [of t i] live_Cons)
  next
    case arr: False
    show ?thesis
    proof (cases "i - sizearray t < sizenode t")
      case True
      with arr have "slots t ! i = (ky t (i - sizearray t), vl t (i - sizearray t))" "i < length (slots t)"
        using nth(2) [of "i - sizearray t"] len by auto
      then have "drop i (slots t) = (ky t (i - sizearray t), vl t (i - sizearray t)) # drop (Suc i) (slots t)"
        by (metis Cons_nth_drop_Suc)
      with True arr 1 show ?thesis
        by (simp add: next_entry.simps [of t i] live_Cons Let_def ky_def vl_def)
    next
      case False
      with arr len show ?thesis by (simp add: next_entry.simps [of t i] live_def)
    qed
  qed
qed

lemma findindex_slot:
  assumes inv: "table_inv t" and i: "i < length (slots t)" and v: "snd (slots t ! i) \<noteq> TNil"
  shows "findindex t (fst (slots t ! i)) = Inr (int i)"
proof (cases "i < sizearray t")
  case True
  have sz: "sizearray t \<le> MAXASIZE" using inv_sizes [OF inv] by (simp add: wf_sizes_def)
  have "arrayindex (TNumber (cast_num (int i + 1))) = int i + 1"
    using True sz by (intro arrayindex_cast_num) auto
  with True show ?thesis
    by (simp add: findindex_def Let_def slots_nth(1) [OF inv] del: arrayindex.simps)
next
  case False
  define j where "j = i - sizearray t"
  have j: "j < sizenode t" "i = sizearray t + j"
    using False i length_slots [OF inv] by (auto simp: j_def)
  have k: "ky t j \<noteq> TNil" "\<not> isnan_value (ky t j)"
    using scatter_keys [OF inv_scatter [OF inv]] j v by (auto simp: keys_ok_def slots_nth(2) [OF inv])
  have na: "\<not> in_array t (ky t j)" by (rule inv_array [OF inv j(1)])
  have self: "luaO_rawequalObj (ky t j) (ky t j)" using k(2) by (simp add: rawequal_refl_iff)
  have "search t (\<lambda>x. luaO_rawequalObj x (ky t j)) (mainposition t (ky t j)) = Inr (Some j)"
  proof -
    have "(\<exists>m < sizenode t. search t (\<lambda>x. luaO_rawequalObj x (ky t j)) (mainposition t (ky t j)) = Inr (Some m) \<and>
        luaO_rawequalObj (ky t m) (ky t j)) \<or> (\<forall>m < sizenode t. \<not> luaO_rawequalObj (ky t m) (ky t j))"
      using search_key [OF inv k(1), of "\<lambda>x. luaO_rawequalObj x (ky t j)"] by auto
    with self j(1) obtain m where
      m: "m < sizenode t" "search t (\<lambda>x. luaO_rawequalObj x (ky t j)) (mainposition t (ky t j)) = Inr (Some m)"
        "luaO_rawequalObj (ky t m) (ky t j)" by blast
    have "ky t m \<noteq> TNil" using m(3) k(1) by auto
    with m scatter_keys [OF inv_scatter [OF inv]] j have "m = j" by (auto simp: keys_ok_def)
    with m show ?thesis by simp
  qed
  moreover have "slots t ! i = (ky t j, vl t j)" unfolding j(2) by (rule slots_nth(2) [OF inv j(1)])
  moreover have "\<not> (0 < arrayindex (ky t j) \<and> arrayindex (ky t j) \<le> int (sizearray t))"
    using na by (simp add: in_array_def)
  ultimately show ?thesis
    using k(1) j(2) by (simp only: findindex_def Let_def fst_conv if_False bindE.simps option.case) simp
qed

text \<open>The loop of a client: call \<open>luaH_next\<close> with the key it gave last, from nil on, until it gives nothing.\<close>

fun next_all :: "nat \<Rightarrow> Table \<Rightarrow> TValue \<Rightarrow> terror + (TValue \<times> TValue) list" where
  "next_all 0 t key = Inl Unterminated"
| "next_all (Suc fuel) t key =
     bindE (luaH_next t key) (\<lambda>r. case r of
         None \<Rightarrow> Inr []
       | Some (k, v) \<Rightarrow> bindE (next_all fuel t k) (\<lambda>es. Inr ((k, v) # es)))"

lemma first_live_drop:
  assumes "live (drop i L) = e # es"
  shows "\<exists>j \<ge> i. j < length L \<and> L ! j = e \<and> snd e \<noteq> TNil \<and> live (drop (Suc j) L) = es"
  using assms
proof (induction "length L - i" arbitrary: i)
  case 0
  then show ?case by (simp add: live_def)
next
  case (Suc d)
  then have i: "i < length L" by simp
  obtain k v where kv: "L ! i = (k, v)" by fastforce
  have d: "drop i L = (k, v) # drop (Suc i) L" using Cons_nth_drop_Suc [OF i] kv by simp
  show ?case
  proof (cases "v = TNil")
    case True
    with Suc d have "live (drop (Suc i) L) = e # es" by (simp add: live_Cons)
    with Suc have "\<exists>j \<ge> Suc i. j < length L \<and> L ! j = e \<and> snd e \<noteq> TNil \<and> live (drop (Suc j) L) = es"
      by (intro Suc.hyps(1)) auto
    then show ?thesis by (blast intro: Suc_leD)
  next
    case False
    with Suc.prems d have "e = (k, v)" "es = live (drop (Suc i) L)" by (simp_all add: live_Cons)
    with i kv False show ?thesis by auto
  qed
qed

lemma next_all_from:
  assumes inv: "table_inv t"
  shows "findindex t key = Inr (int i - 1) \<Longrightarrow> length (live (drop i (slots t))) < fuel \<Longrightarrow>
    next_all fuel t key = Inr (live (drop i (slots t)))"
proof (induction fuel arbitrary: i key)
  case (Suc fuel)
  have n: "luaH_next t key = Inr (first (live (drop i (slots t))))"
    using Suc.prems(1) by (simp add: luaH_next_def next_entry_eq [OF inv])
  show ?case
  proof (cases "live (drop i (slots t))")
    case Nil
    with n show ?thesis by simp
  next
    case (Cons e es)
    obtain j where j: "j < length (slots t)" "slots t ! j = e" "snd e \<noteq> TNil" "live (drop (Suc j) (slots t)) = es"
      using first_live_drop [OF Cons] by blast
    obtain k v where e: "e = (k, v)" by fastforce
    have "findindex t k = Inr (int (Suc j) - 1)" using findindex_slot [OF inv j(1)] j e by simp
    from Suc.IH [OF this] Suc.prems(2) j(4) Cons have "next_all fuel t k = Inr es" by simp
    with n Cons e show ?thesis by simp
  qed
qed simp

lemma next_all_live:
  assumes "table_inv t"
  shows "next_all (Suc (length (live (slots t)))) t TNil = Inr (live (slots t))"
  using next_all_from [OF assms, of TNil 0 "Suc (length (live (slots t)))"]
  by (simp add: findindex_def del: next_all.simps)

lemma slots_entries: "set (live (slots t)) = set (live (entries t))"
  by (auto simp: slots_def entries_def live_def)

lemma tabs_slots:
  assumes inv: "table_inv t" and v: "v \<noteq> TNil"
  shows "tabs t k = v \<longleftrightarrow> (\<exists>k0. (k0, v) \<in> set (live (slots t)) \<and> luaO_rawequalObj k0 k)"
proof
  assume "tabs t k = v"
  then have "tabs t k \<noteq> TNil" using v by simp
  then have "\<exists>(k0, w) \<in> set (live (entries t)). luaO_rawequalObj k0 k"
  proof (cases "in_array t k")
    case True
    with tabs_entry_slice [OF inv True \<open>tabs t k \<noteq> TNil\<close>, of 0] show ?thesis
      by (auto simp: in_array_def entries_def live_append)
  next
    case False
    with tabs_entry_hash [OF inv False \<open>tabs t k \<noteq> TNil\<close>] show ?thesis
      by (auto simp: entries_def live_append)
  qed
  then show "\<exists>k0. (k0, v) \<in> set (live (slots t)) \<and> luaO_rawequalObj k0 k"
    using entry_tabs(2) [OF inv] \<open>tabs t k = v\<close> by (fastforce simp: slots_entries)
next
  assume "\<exists>k0. (k0, v) \<in> set (live (slots t)) \<and> luaO_rawequalObj k0 k"
  then show "tabs t k = v" using entry_tabs(2) [OF inv] by (auto simp: slots_entries)
qed

lemma slots_distinct:
  assumes inv: "table_inv t" and ij: "i < length (slots t)" "j < length (slots t)"
    and v: "snd (slots t ! i) \<noteq> TNil" "snd (slots t ! j) \<noteq> TNil"
    and eq: "luaO_rawequalObj (fst (slots t ! i)) (fst (slots t ! j))"
  shows "i = j"
proof -
  let ?k = "fst (slots t ! i)" and ?k' = "fst (slots t ! j)"
  have "findindex t ?k = findindex t ?k'"
  proof -
    have fn: "(\<lambda>x. luaO_rawequalObj x ?k) = (\<lambda>x. luaO_rawequalObj x ?k')"
      using eq by (blast intro: rawequal_trans rawequal_sym)
    have nil: "(?k = TNil) = (?k' = TNil)" using eq by (auto simp: rawequal_iff)
    show ?thesis
      unfolding findindex_def arrayindex_rawequal [OF eq] mainposition_rawequal [OF eq] fn nil by (rule refl)
  qed
  then have "(Inr (int i) :: terror + int) = Inr (int j)"
    unfolding findindex_slot [OF inv ij(1) v(1)] findindex_slot [OF inv ij(2) v(2)] .
  then show ?thesis by (simp only: sum.inject of_nat_eq_iff)
qed

lemma live_nth:
  "i < length (live (L :: (TValue \<times> TValue) list)) \<Longrightarrow> \<exists>j < length L. live L ! i = L ! j \<and> snd (L ! j) \<noteq> TNil"
proof -
  assume "i < length (live L)"
  then have "live L ! i \<in> set (live L)" by simp
  then have "live L ! i \<in> set L" "snd (live L ! i) \<noteq> TNil" by (auto simp: live_def)
  then show ?thesis by (metis in_set_conv_nth)
qed

lemma live_distinct:
  fixes L :: "(TValue \<times> TValue) list"
  assumes "\<And>i j. i < length L \<Longrightarrow> j < length L \<Longrightarrow> snd (L ! i) \<noteq> TNil \<Longrightarrow> snd (L ! j) \<noteq> TNil \<Longrightarrow>
      R (fst (L ! i)) (fst (L ! j)) \<Longrightarrow> i = j"
  shows "\<forall>i < length (live L). \<forall>j < length (live L). R (fst (live L ! i)) (fst (live L ! j)) \<longrightarrow> i = j"
  using assms
proof (induction L)
  case (Cons e L)
  obtain k v where e: "e = (k, v)" by fastforce
  have IH: "\<forall>i < length (live L). \<forall>j < length (live L). R (fst (live L ! i)) (fst (live L ! j)) \<longrightarrow> i = j"
  proof (rule Cons.IH)
    fix i j assume "i < length L" "j < length L" "snd (L ! i) \<noteq> TNil" "snd (L ! j) \<noteq> TNil" "R (fst (L ! i)) (fst (L ! j))"
    then show "i = j" using Cons.prems [of "Suc i" "Suc j"] by simp
  qed
  show ?case
  proof (cases "v = TNil")
    case True
    with IH show ?thesis by (simp add: e live_Cons)
  next
    case False
    have "\<not> R k (fst (live L ! i)) \<and> \<not> R (fst (live L ! i)) k" if i: "i < length (live L)" for i
    proof -
      obtain j where "j < length L" "live L ! i = L ! j" "snd (L ! j) \<noteq> TNil" using live_nth [OF i] by auto
      with Cons.prems [of 0 "Suc j"] Cons.prems [of "Suc j" 0] False show ?thesis by (auto simp: e)
    qed
    with IH False show ?thesis
      by (auto simp: e live_Cons nth_Cons split: nat.splits)
  qed
qed (simp add: live_def)

lemma live_slots_distinct:
  assumes "table_inv t"
  shows "\<forall>i < length (live (slots t)). \<forall>j < length (live (slots t)).
    luaO_rawequalObj (fst (live (slots t) ! i)) (fst (live (slots t) ! j)) \<longrightarrow> i = j"
  by (rule live_distinct) (rule slots_distinct [OF assms])

section \<open>Length\<close>

definition at :: "Table \<Rightarrow> int \<Rightarrow> TValue" where
  "at t i = tabs t (TNumber (cast_num i))"

text \<open>A border of the table: what \<open>luaH_getn\<close> promises.\<close>

definition border :: "(int \<Rightarrow> TValue) \<Rightarrow> int \<Rightarrow> bool" where
  "border f j \<longleftrightarrow> 0 \<le> j \<and> (j = 0 \<or> f j \<noteq> TNil) \<and> f (j + 1) = TNil"

lemma isnil_at_eq:
  assumes "table_inv t" and "INT_MIN \<le> j" "j \<le> INT_MAX"
  shows "isnil_at t j = Inr (at t j = TNil)"
proof -
  obtain p where "luaH_getnum t j = Inr p" "locates t (TNumber (cast_num j)) p"
    using getnum_locates [OF assms] by blast
  then show ?thesis by (simp add: isnil_at_def at_def tabs_locates [OF assms(1)])
qed

lemma binary_search_border:
  assumes "\<And>m. i \<le> m \<Longrightarrow> m \<le> j \<Longrightarrow> isnil m = Inr (f m = TNil)"
    and "0 \<le> i" "i < j" "i = 0 \<or> f i \<noteq> TNil" "f j = TNil"
  shows "\<exists>r. binary_search isnil i j = Inr r \<and> i \<le> r \<and> r < j \<and> border f r"
  using assms
proof (induction isnil i j rule: binary_search.induct)
  case (1 isnil i j)
  show ?case
  proof (cases "1 < j - i")
    case False
    with 1 have "j = i + 1" by simp
    with False 1 show ?thesis by (simp add: binary_search.simps [of _ i] border_def)
  next
    case True
    define m where "m = (i + j) div 2"
    have m: "i < m" "m < j" using True by (auto simp: m_def)
    have b: "isnil m = Inr (f m = TNil)" using 1(3) [of m] m by simp
    show ?thesis
    proof (cases "f m = TNil")
      case nil: True
      have "\<exists>r. binary_search isnil i m = Inr r \<and> i \<le> r \<and> r < m \<and> border f r"
        by (rule 1(1) [OF True m_def]) (use 1 m nil in auto)
      with True m b nil show ?thesis by (auto simp: binary_search.simps [of _ i j] m_def [symmetric])
    next
      case some: False
      have "\<exists>r. binary_search isnil m j = Inr r \<and> m \<le> r \<and> r < j \<and> border f r"
        by (rule 1(2) [OF True m_def]) (use 1 m some in auto)
      with True m b some show ?thesis by (auto simp: binary_search.simps [of _ i j] m_def [symmetric])
    qed
  qed
qed

text \<open>A table holds at most \<open>2 ^ 27\<close> entries, so the keys \<open>1..m\<close> are all present only for small \<open>m\<close>.\<close>

lemma present_bound:
  assumes inv: "table_inv t" and all: "\<And>i. 1 \<le> i \<Longrightarrow> i \<le> m \<Longrightarrow> at t i \<noteq> TNil" and m: "m \<le> INT_MAX"
  shows "m \<le> 2 ^ 27"
proof -
  define P where "P = ArrPtr ` {..<sizearray t} \<union> ValPtr ` {..<sizenode t}"
  have ex: "\<forall>i \<in> {1..m}. \<exists>p. locates t (TNumber (cast_num i)) p \<and> p \<in> P"
  proof
    fix i assume i: "i \<in> {1..m}"
    obtain p where p: "locates t (TNumber (cast_num i)) p" using luaH_get_locates [OF inv] by blast
    have "p \<noteq> NilObject" using all [of i] i tabs_locates [OF inv p] by (auto simp: at_def deref_def)
    with p have "p \<in> P" by (cases p) (auto simp: P_def locates_def in_array_def simp del: arrayindex.simps)
    with p show "\<exists>p. locates t (TNumber (cast_num i)) p \<and> p \<in> P" by blast
  qed
  from bchoice [OF ex] obtain g where
    g: "\<And>i. i \<in> {1..m} \<Longrightarrow> locates t (TNumber (cast_num i)) (g i)" "\<And>i. i \<in> {1..m} \<Longrightarrow> g i \<in> P" by blast
  have "inj_on g {1..m}"
  proof (rule inj_onI)
    fix i j assume ij: "i \<in> {1..m}" "j \<in> {1..m}" "g i = g j"
    have "g i \<noteq> NilObject" using g(2) [OF ij(1)] by (auto simp: P_def)
    moreover have "locates t (TNumber (cast_num j)) (g i)" unfolding ij(3) by (rule g(1) [OF ij(2)])
    ultimately have "luaO_rawequalObj (TNumber (cast_num i)) (TNumber (cast_num j))"
      by (intro locates_inj [OF g(1) [OF ij(1)]])
    then show "i = j" using luai_numeq_cast_num [of i j] ij m by simp
  qed
  moreover have "g ` {1..m} \<subseteq> P" using g(2) by blast
  moreover have "finite P" by (simp add: P_def)
  ultimately have "card {1..m} \<le> card P" by (intro card_inj_on_le)
  also have "card P \<le> sizearray t + sizenode t"
    unfolding P_def by (rule order_trans [OF card_Un_le]) (simp add: add_mono card_image_le [THEN order_trans])
  also have "\<dots> \<le> 2 ^ 26 + 2 ^ 26"
  proof (rule add_mono)
    show "sizearray t \<le> 2 ^ 26" using inv_sizes [OF inv] by (simp add: wf_sizes_def)
    have "lsizenode t \<le> 26" using inv_sizes [OF inv] by (simp add: wf_sizes_def)
    then show "sizenode t \<le> 2 ^ 26" unfolding sizenode_def by (intro power_increasing) auto
  qed
  finally show ?thesis by simp
qed

lemma linear_search_ok:
  assumes inv: "table_inv t"
  shows "1 \<le> i \<Longrightarrow> i \<le> 2 ^ 27 + 1 \<Longrightarrow> (\<And>k. 1 \<le> k \<Longrightarrow> k < i \<Longrightarrow> at t k \<noteq> TNil) \<Longrightarrow>
    \<exists>r. linear_search t i = Some (Inr r) \<and> r \<le> 2 ^ 27 \<and> border (at t) r"
proof (induction "nat (2 ^ 27 + 1 - i)" arbitrary: i rule: less_induct)
  case less
  have b: "isnil_at t i = Inr (at t i = TNil)" using less.prems by (intro isnil_at_eq [OF inv]) auto
  show ?case
  proof (cases "at t i = TNil")
    case True
    with less.prems b show ?thesis
      by (subst linear_search.simps) (auto simp: border_def)
  next
    case False
    have all: "at t k \<noteq> TNil" if "1 \<le> k" "k \<le> i" for k using less.prems(3) that False by (cases "k = i") auto
    have "i \<le> 2 ^ 27" by (rule present_bound [OF inv all]) (use less.prems in auto)
    then have "\<exists>r. linear_search t (i + 1) = Some (Inr r) \<and> r \<le> 2 ^ 27 \<and> border (at t) r"
      using less.prems all by (intro less.hyps) auto
    with b False show ?thesis by (subst linear_search.simps) simp
  qed
qed

lemma unbound_loop_ok:
  assumes inv: "table_inv t"
  shows "0 \<le> i \<Longrightarrow> i < j \<Longrightarrow> j \<le> MAX_INT \<Longrightarrow> i = 0 \<or> at t i \<noteq> TNil \<Longrightarrow>
    \<exists>r. unbound_loop t i j = Some (Inr r) \<and> r < INT_MAX \<and> border (at t) r"
proof (induction "nat (MAX_INT - j)" arbitrary: i j rule: less_induct)
  case less
  have b: "isnil_at t m = Inr (at t m = TNil)" if "0 \<le> m" "m \<le> j" for m
    using less.prems that by (intro isnil_at_eq [OF inv]) auto
  have bj: "isnil_at t j = Inr (at t j = TNil)" using b less.prems by simp
  show ?case
  proof (cases "at t j = TNil")
    case True
    have "\<exists>r. binary_search (isnil_at t) i j = Inr r \<and> i \<le> r \<and> r < j \<and> border (at t) r"
      by (rule binary_search_border) (use less.prems True b in auto)
    with True bj less.prems show ?thesis by (subst unbound_loop.simps) auto
  next
    case False
    show ?thesis
    proof (cases "MAX_INT < 2 * j")
      case True
      have "\<exists>r. linear_search t 1 = Some (Inr r) \<and> r \<le> 2 ^ 27 \<and> border (at t) r"
        by (rule linear_search_ok [OF inv]) auto
      with True False bj show ?thesis by (subst unbound_loop.simps) auto
    next
      case le: False
      have "\<exists>r. unbound_loop t j (2 * j) = Some (Inr r) \<and> r < INT_MAX \<and> border (at t) r"
        using less.prems le False by (intro less.hyps) auto
      with le False bj show ?thesis by (subst unbound_loop.simps) auto
    qed
  qed
qed

lemma luaH_getn_border:
  assumes inv: "table_inv t"
  shows "\<exists>r. luaH_getn t = Some (Inr r) \<and> r < INT_MAX \<and> border (at t) r"
proof -
  let ?j = "int (sizearray t)"
  have sz: "sizearray t \<le> 2 ^ 26" using inv_sizes [OF inv] by (simp add: wf_sizes_def)
  have elem: "at t i = arr t ! nat (i - 1)" if "1 \<le> i" "i \<le> ?j" for i
  proof -
    have "arrayindex (TNumber (cast_num i)) = i" using that sz by (intro arrayindex_cast_num) auto
    with that show ?thesis by (simp add: at_def tabs_def in_array_def del: arrayindex.simps)
  qed
  show ?thesis
  proof (cases "0 < ?j \<and> arr t ! nat (?j - 1) = TNil")
    case True
    have "\<exists>r. binary_search (\<lambda>m. Inr (arr t ! nat (m - 1) = TNil)) 0 ?j = Inr r \<and> 0 \<le> r \<and> r < ?j \<and>
        border (\<lambda>m. if m = 0 then arr t ! nat (0 - 1) else at t m) r"
      by (rule binary_search_border) (use True elem in auto)
    then obtain r where r: "binary_search (\<lambda>m. Inr (arr t ! nat (m - 1) = TNil)) 0 ?j = Inr r" "0 \<le> r" "r < ?j"
      "border (\<lambda>m. if m = 0 then arr t ! nat (0 - 1) else at t m) r" by blast
    then have "border (at t) r" by (auto simp: border_def)
    with r True sz show ?thesis by (auto simp: luaH_getn_def Let_def)
  next
    case False
    then have last: "?j = 0 \<or> at t ?j \<noteq> TNil" using elem [of ?j] by auto
    show ?thesis
    proof (cases "node t = None")
      case True
      have "at t (?j + 1) = TNil"
      proof -
        have "arrayindex (TNumber (cast_num (?j + 1))) = ?j + 1" using sz by (intro arrayindex_cast_num) auto
        then have na: "\<not> in_array t (TNumber (cast_num (?j + 1)))" by (simp add: in_array_def del: arrayindex.simps)
        have "nodes t = [dummynode]" using True by (simp add: nodes_def)
        with na show ?thesis by (simp add: at_def tabs_def dummynode_def)
      qed
      with True False last sz show ?thesis by (auto simp: luaH_getn_def Let_def border_def)
    next
      case some: False
      have "\<exists>r. unbound_loop t ?j (?j + 1) = Some (Inr r) \<and> r < INT_MAX \<and> border (at t) r"
        by (rule unbound_loop_ok [OF inv]) (use sz last in auto)
      with False some show ?thesis by (auto simp: luaH_getn_def Let_def unbound_search_def)
    qed
  qed
qed

end
