(* ===== verification/Lua_Table_Spec.thy ===== *)
theory Lua_Table_Spec
  imports Lua_Traverse
begin

text \<open>
  A table as its clients see it. \<open>rawget\<close> and \<open>rawset\<close> are the two uses the interpreter makes of
  src/lib/lua/ltable.c: reading through the pointer \<open>luaH_get\<close> gives and assigning through the one \<open>luaH_set\<close>
  gives. The interface \<open>raw_map\<close> is what every other component relies on, and its interpretation
  on the model of the table discharges its laws. The properties of the table close the theory.
\<close>

section \<open>The interface\<close>

definition rawget :: "Table \<Rightarrow> TValue \<Rightarrow> terror + TValue" where
  "rawget t k = bindE (luaH_get t k) (\<lambda>p. Inr (deref t p))"

definition rawset :: "Table \<Rightarrow> TValue \<Rightarrow> TValue \<Rightarrow> terror + Table" where
  "rawset t k v = bindE (luaH_set t k) (\<lambda>(p, t'). Inr (store t' p v))"

text \<open>The update of a map at every key that is raw equal to \<open>k\<close>.\<close>

definition upd :: "(TValue \<Rightarrow> TValue) \<Rightarrow> TValue \<Rightarrow> TValue \<Rightarrow> TValue \<Rightarrow> TValue" where
  "upd f k v = (\<lambda>k'. if luaO_rawequalObj k k' then v else f k')"

lemma upd_same [tab_simps]: "\<not> isnan_value k \<Longrightarrow> upd f k v k = v"
  by (simp add: upd_def rawequal_refl_iff)

lemma upd_other [tab_simps]: "\<not> luaO_rawequalObj k k' \<Longrightarrow> upd f k v k' = f k'"
  by (simp add: upd_def)

lemma upd_string [tab_simps]: "upd f (TString a) v (TString b) = (if a = b then v else f (TString b))"
  by (simp add: upd_def)

locale raw_map =
  fixes inv :: "'t \<Rightarrow> bool" and lookup :: "'t \<Rightarrow> TValue \<Rightarrow> TValue"
    and get :: "'t \<Rightarrow> TValue \<Rightarrow> terror + TValue"
    and put :: "'t \<Rightarrow> TValue \<Rightarrow> TValue \<Rightarrow> terror + 't"
    and full :: "'t \<Rightarrow> bool"
  assumes get_law: "inv t \<Longrightarrow> get t k = Inr (lookup t k)"
    and put_law: "inv t \<Longrightarrow> put t k v = Inr t' \<Longrightarrow> inv t' \<and> lookup t' = upd (lookup t) k v"
    and put_total: "inv t \<Longrightarrow> k \<noteq> TNil \<Longrightarrow> \<not> isnan_value k \<Longrightarrow> \<not> full t \<Longrightarrow> \<exists>t'. put t k v = Inr t'"
    and put_nil: "inv t \<Longrightarrow> put t TNil v = Inl IndexIsNil"
    and put_nan: "inv t \<Longrightarrow> isnan_value k \<Longrightarrow> put t k v = Inl IndexIsNaN"
begin

lemma get_put_same:
  assumes "inv t" "put t k v = Inr t'" shows "get t' k = Inr v"
proof -
  have k: "\<not> isnan_value k" using assms put_nan by auto
  from put_law [OF assms] get_law [of t' k] k show ?thesis by (simp add: tab_simps)
qed

lemma get_put_other:
  assumes "inv t" "put t k v = Inr t'" "\<not> luaO_rawequalObj k k'" shows "get t' k' = get t k'"
  using put_law [OF assms(1,2)] get_law [of t' k'] get_law [OF assms(1), of k'] assms(3)
  by (simp add: tab_simps)

lemma put_put_lookup:
  assumes "inv t" "put t k v = Inr t1" "put t1 k w = Inr t2"
  shows "lookup t2 = upd (lookup t) k w"
  using put_law [OF assms(1,2)] put_law [of t1 k w t2] assms(3)
  by (auto simp: upd_def fun_eq_iff)

lemma put_string:
  assumes "inv t" "\<not> full t"
  obtains t' where "put t (TString s) v = Inr t'" "inv t'" "lookup t' = upd (lookup t) (TString s) v"
  using put_total [OF assms(1) _ _ assms(2), of "TString s" v] put_law [OF assms(1), of "TString s" v] by auto

end

section \<open>The table implements it\<close>

lemma rawget_tabs: "table_inv t \<Longrightarrow> rawget t k = Inr (tabs t k)"
  using luaH_get_locates [of t k] tabs_locates [of t k] by (auto simp: rawget_def)

lemma rawset_ok:
  assumes "table_inv t" and "rawset t k v = Inr t'"
  shows "table_inv t' \<and> tabs t' = upd (tabs t) k v \<and> metatable t' = metatable t"
proof -
  obtain p t1 where s: "luaH_set t k = Inr (p, t1)" "t' = store t1 p v"
    using assms(2) by (auto simp: rawset_def bindE_Inr_iff)
  have "valid_key k"
  proof (rule ccontr)
    assume "\<not> valid_key k"
    then have "k = TNil \<or> isnan_value k" by (simp add: valid_key_def)
    moreover obtain q where q: "luaH_get t k = Inr q" "locates t k q" using luaH_get_locates [OF assms(1)] by blast
    ultimately have "q = NilObject"
      by (cases q) (auto simp: locates_def in_array_def dest: rawequal_sym rawequal_not_nan
          arrayindex_pos_rawequal)
    with q s(1) \<open>k = TNil \<or> isnan_value k\<close> show False
      by (auto simp: luaH_set_def set_with_def Let_def split: if_splits)
  qed
  with luaH_set_ok [OF assms(1)] s(1) have sl: "table_inv t1" "locates t1 k p" "p \<noteq> NilObject"
    "tabs t1 = tabs t" "metatable t1 = metatable t"
    by (fastforce simp: slot_for_def)+
  from table_inv_store [OF sl(1,2)] tabs_store [OF sl(1-3)] show ?thesis
    by (simp add: s(2) sl upd_def fun_eq_iff)
qed

lemma rawset_total:
  assumes "table_inv t" and "k \<noteq> TNil" "\<not> isnan_value k" and "\<not> overfull t"
  shows "\<exists>t'. rawset t k v = Inr t'"
  using luaH_set_ok [OF assms(1), of k] assms(2-4) by (auto simp: valid_key_def rawset_def)

lemma luaH_set_invalid:
  assumes inv: "table_inv t"
  shows "luaH_set t TNil = Inl IndexIsNil" "isnan_value k \<Longrightarrow> luaH_set t k = Inl IndexIsNaN"
proof -
  show "luaH_set t TNil = Inl IndexIsNil" by (simp add: luaH_set_def set_with_def Let_def)
  assume nan: "isnan_value k"
  obtain q where q: "luaH_get t k = Inr q" "locates t k q" using luaH_get_locates [OF inv] by blast
  with nan have "q = NilObject"
    by (cases q) (auto simp: locates_def in_array_def dest: rawequal_sym rawequal_not_nan arrayindex_pos_rawequal)
  with q nan show "luaH_set t k = Inl IndexIsNaN"
    by (cases k) (auto simp: luaH_set_def set_with_def Let_def)
qed

interpretation ltable: raw_map table_inv tabs rawget rawset overfull
proof unfold_locales
  show "rawset t TNil v = Inl IndexIsNil" if "table_inv t" for t v
    by (simp add: rawset_def luaH_set_invalid [OF that])
  show "rawset t k v = Inl IndexIsNaN" if "table_inv t" "isnan_value k" for t k v
    by (simp add: rawset_def luaH_set_invalid [OF that(1)] that(2))
qed (auto simp: rawget_tabs rawset_ok rawset_total)

lemma luaH_new_blank:
  assumes "narray \<le> MAXASIZE" and "nhash \<le> 2 ^ MAXBITS"
  shows "\<exists>t. luaH_new narray nhash = Inr t \<and> table_inv t \<and> tabs t = (\<lambda>_. TNil) \<and> metatable t = None"
proof -
  let ?t0 = "setarrayvector \<lparr>flags = 255, lsizenode = 0, metatable = None, arr = [], node = None, lastfree = 0\<rparr> narray"
  have a: "arr ?t0 = replicate narray TNil" "metatable ?t0 = None" by (simp_all add: setarrayvector_def sizearray_def)
  obtain t where t: "luaH_new narray nhash = Inr t" "blank t" "arr t = arr ?t0" "metatable t = metatable ?t0"
    using setnodevector_ok [of ?t0 nhash] assms by (auto simp: luaH_new_def a)
  have "tabs t k = TNil" for k
    using blank_inv(3) [OF t(2), of k]
    by (cases "in_array t k") (auto simp: tabs_def t(3) a in_array_def sizearray_def)
  with t blank_inv(1) [OF t(2)] a show ?thesis by auto
qed

section \<open>Properties\<close>

text \<open>A table with two elements in its array part and one in its hash part, on which the properties
  are instantiated.\<close>

definition sample_table :: Table where
  "sample_table =
     \<lparr>flags = 0, lsizenode = 0, metatable = None, arr = [TBoolean True, TString ''b''],
      node = Some [\<lparr>i_val = TBoolean False, i_key = TString ''n'', gnext = None\<rparr>], lastfree = 0\<rparr>"

lemma sample_inv: "table_inv sample_table"
proof -
  have mp: "mainposition sample_table k = 0" for k
    using mainposition_less [of sample_table k] by (simp add: sample_table_def sizenode_def)
  have n: "sizenode sample_table = 1" "nx sample_table 0 = None" "ky sample_table 0 = TString ''n''"
    "vl sample_table 0 = TBoolean False"
    by (simp_all add: sample_table_def sizenode_def nodes_def nx_def ky_def vl_def)
  have "scatter (sizenode sample_table) (mainposition sample_table) (nx sample_table) (ky sample_table) (vl sample_table)"
    by (simp add: scatter_def links_ok_def next_inj_def ranked_def keys_ok_def homes_ok_def n mp
        del: mainposition.simps)
  moreover have "wf_sizes sample_table" "free_ok sample_table"
    by (simp_all add: wf_sizes_def free_ok_def n sizenode_def sizearray_def sample_table_def nodes_def ky_def)
  ultimately show ?thesis by (simp add: table_inv_def n in_array_def)
qed

lemma sample_room: "\<not> overfull sample_table"
  by (simp add: overfull_def entries_def live_def slice_entries_def sample_table_def nodes_def)

text \<open>C7: Reading a table at any key ends and gives the value the table holds for the key.\<close>

theorem rawget_reads_map:
  assumes "table_inv t" shows "rawget t k = Inr (tabs t k)"
  by (rule ltable.get_law [OF assms])

theorem rawget_reads_map_witness: "rawget sample_table (TString ''n'') = Inr (tabs sample_table (TString ''n''))"
  by (rule rawget_reads_map [OF sample_inv])

text \<open>C1: Assigning to a key that is neither nil nor NaN succeeds, rehash included, unless the hash part
  has reached its largest size; the table then holds the value at the key, every other key keeps
  its value, and the structure is intact.\<close>

theorem rawset_writes_map:
  assumes "table_inv t" and "k \<noteq> TNil" and "\<not> isnan_value k" and "\<not> overfull t"
  shows "\<exists>t'. rawset t k v = Inr t' \<and> table_inv t' \<and> tabs t' = upd (tabs t) k v \<and> metatable t' = metatable t"
  using ltable.put_total [OF assms] rawset_ok [OF assms(1)] by blast

theorem rawset_writes_map_witness:
  "\<exists>t'. rawset sample_table (TString ''x'') (TBoolean True) = Inr t' \<and> table_inv t' \<and>
     tabs t' = upd (tabs sample_table) (TString ''x'') (TBoolean True) \<and> metatable t' = metatable sample_table"
  by (rule rawset_writes_map [OF sample_inv _ _ sample_room]) simp_all

text \<open>C2: The errors of an assignment are these and no other: index is nil, index is NaN, table overflow
  (only of a table whose live entries fill the largest hash part). No chain is followed for ever
  and no rehash starts another.\<close>

theorem rawset_errors:
  assumes "table_inv t" and "rawset t k v = Inl e"
  shows "(k = TNil \<and> e = IndexIsNil) \<or> (isnan_value k \<and> e = IndexIsNaN) \<or> (e = TableOverflow \<and> overfull t)"
proof (cases "valid_key k")
  case True
  with luaH_set_ok [OF assms(1) True] assms(2) show ?thesis by (auto simp: rawset_def)
next
  case False
  with ltable.put_nil [OF assms(1)] ltable.put_nan [OF assms(1)] assms(2) show ?thesis
    by (auto simp: valid_key_def)
qed

theorem rawset_errors_witness: "(TNil = TNil \<and> IndexIsNil = IndexIsNil) \<or>
    (isnan_value TNil \<and> IndexIsNil = IndexIsNaN) \<or> (IndexIsNil = TableOverflow \<and> overfull sample_table)"
  by (rule rawset_errors [OF sample_inv]) (rule ltable.put_nil [OF sample_inv, of TNil])

text \<open>C8: A traversal from nil gives every key that has a value, once, with its value, and then ends.\<close>

theorem luaH_next_traverses:
  assumes "table_inv t"
  shows "\<exists>n es. next_all n t TNil = Inr es \<and>
    (\<forall>k v. v \<noteq> TNil \<longrightarrow> (tabs t k = v \<longleftrightarrow> (\<exists>k0. (k0, v) \<in> set es \<and> luaO_rawequalObj k0 k))) \<and>
    (\<forall>i < length es. \<forall>j < length es. luaO_rawequalObj (fst (es ! i)) (fst (es ! j)) \<longrightarrow> i = j)"
  using next_all_live [OF assms] tabs_slots [OF assms] live_slots_distinct [OF assms] by blast

theorem luaH_next_traverses_witness:
  "\<exists>n es. next_all n sample_table TNil = Inr es \<and>
    (\<forall>k v. v \<noteq> TNil \<longrightarrow> (tabs sample_table k = v \<longleftrightarrow> (\<exists>k0. (k0, v) \<in> set es \<and> luaO_rawequalObj k0 k))) \<and>
    (\<forall>i < length es. \<forall>j < length es. luaO_rawequalObj (fst (es ! i)) (fst (es ! j)) \<longrightarrow> i = j)"
  by (rule luaH_next_traverses [OF sample_inv])

text \<open>C9: The length of a table is computed in finitely many steps and is a border of it: zero or an
  index that has a value, and the next index has none.\<close>

theorem luaH_getn_gives_border:
  assumes "table_inv t"
  shows "\<exists>r. luaH_getn t = Some (Inr r) \<and> 0 \<le> r \<and> r < INT_MAX \<and>
    (r = 0 \<or> tabs t (TNumber (cast_num r)) \<noteq> TNil) \<and> tabs t (TNumber (cast_num (r + 1))) = TNil"
  using luaH_getn_border [OF assms] by (auto simp: border_def at_def)

theorem luaH_getn_gives_border_witness:
  "\<exists>r. luaH_getn sample_table = Some (Inr r) \<and> 0 \<le> r \<and> r < INT_MAX \<and>
    (r = 0 \<or> tabs sample_table (TNumber (cast_num r)) \<noteq> TNil) \<and>
    tabs sample_table (TNumber (cast_num (r + 1))) = TNil"
  by (rule luaH_getn_gives_border [OF sample_inv])

text \<open>C10: A rehash chooses for the array part a size of which more than half will be used, or zero, and no
  larger power of two would be more than half used; the elements it counts are exactly those that fit.\<close>

theorem computesizes_optimal:
  assumes "computesizes (counters xs) (in_range xs MAXASIZE) = (na, n)" and "distinct xs"
  shows "na = in_range xs n \<and> (n = 0 \<or> n div 2 < na) \<and> n \<le> MAXASIZE \<and>
    (\<forall>j \<le> MAXBITS. 2 ^ j div 2 < in_range xs (2 ^ j) \<longrightarrow> 2 ^ j \<le> n)"
  using computesizes_exact [OF assms(1)] computesizes_largest [OF assms] by blast

theorem computesizes_optimal_witness: "\<exists>na n. na = in_range [1, 2, 3, 100] n \<and> (n = 0 \<or> n div 2 < na) \<and> n \<le> MAXASIZE \<and>
    (\<forall>j \<le> MAXBITS. 2 ^ j div 2 < in_range [1, 2, 3, 100] (2 ^ j) \<longrightarrow> 2 ^ j \<le> n)"
proof -
  obtain na n where "computesizes (counters [1, 2, 3, 100]) (in_range [1, 2, 3, 100] MAXASIZE) = (na, n)"
    by fastforce
  from computesizes_optimal [OF this] show ?thesis by auto
qed

lemma pending_nodes:
  assumes "table_inv t"
  shows "pending A (node_entries t) \<le> (if node t = None then 0 else sizenode t)"
proof (cases "node t")
  case None
  then show ?thesis by (simp add: node_entries_def nodes_def dummynode_def pending_simps)
next
  case (Some ns)
  have "pending A kvs \<le> length kvs" for kvs
    unfolding pending_def live_def by (rule le_trans [OF length_filter_le]) (rule length_filter_le)
  from this [of "node_entries t"] show ?thesis
    using Some inv_sizes [OF assms] by (simp add: node_entries_def nodes_def wf_sizes_def)
qed

text \<open>C11: Changing the size of the array part, to at most \<open>MAXASIZE\<close>, moves entries between the two parts and
  loses none. When the array grows or stays, as at the only call in the program (\<^verbatim>\<open>OP_SETLIST\<close> in
  src/lib/lua/lvm.c), this always holds. When it shrinks, the entries that have no place in the new array must fit into
  the hash part, which keeps its size: otherwise the insertion of one of them would rehash the table that is
  being resized, and its array part would be overwritten.\<close>

theorem luaH_resizearray_keeps_map:
  assumes "table_inv t" and "nasize \<le> MAXASIZE"
    and "nasize < sizearray t \<Longrightarrow> pending (fits nasize) (moving t nasize) \<le> (if node t = None then 0 else sizenode t)"
  shows "\<exists>t'. luaH_resizearray t nasize = Inr t' \<and> table_inv t' \<and> sizearray t' = nasize \<and> tabs t' = tabs t"
proof -
  have "sizenode t \<le> 2 ^ MAXBITS"
    unfolding sizenode_def
    by (rule power_increasing) (use inv_sizes [OF assms(1)] in \<open>auto simp: wf_sizes_def\<close>)
  then have nh: "(if node t = None then 0 else sizenode t) \<le> 2 ^ MAXBITS" by simp
  have "pending (fits nasize) (moving t nasize) \<le> (if node t = None then 0 else sizenode t)"
  proof (cases "nasize < sizearray t")
    case True then show ?thesis by (rule assms(3))
  next
    case False
    then have "moving t nasize = node_entries t" by (simp add: moving_def slice_entries_none sizearray_def)
    then show ?thesis using pending_nodes [OF assms(1), of "fits nasize"] by simp
  qed
  from rehasher.resize_with_ok [OF assms(1,2) nh this, of 1] show ?thesis
    by (auto simp: luaH_resizearray_def resize_def resized_def numeral_2_eq_2)
qed

theorem luaH_resizearray_keeps_map_witness:
  "\<exists>t'. luaH_resizearray sample_table 4 = Inr t' \<and> table_inv t' \<and> sizearray t' = 4 \<and> tabs t' = tabs sample_table"
  by (rule luaH_resizearray_keeps_map [OF sample_inv])
     (simp_all add: pending_def moving_def node_entries_def slice_entries_def live_def sample_table_def
        nodes_def sizenode_def fits_def)

text \<open>C12: A new table of any size hints within the limits is well formed and empty.\<close>

theorem luaH_new_empty:
  assumes "narray \<le> MAXASIZE" and "nhash \<le> 2 ^ MAXBITS"
  shows "\<exists>t. luaH_new narray nhash = Inr t \<and> table_inv t \<and> tabs t = (\<lambda>_. TNil) \<and> metatable t = None"
  by (rule luaH_new_blank [OF assms])

theorem luaH_new_empty_witness:
  "\<exists>t. luaH_new 4 3 = Inr t \<and> table_inv t \<and> tabs t = (\<lambda>_. TNil) \<and> metatable t = None"
  by (rule luaH_new_empty) simp_all

end
