(* ===== verification/Lua_Opcode.thy ===== *)
theory Lua_Opcode
  imports Lua_Object
begin

unbundle bit_operations_syntax

text \<open>
  The instructions of the virtual machine: src/lib/lua/lopcodes.h and src/lib/lua/lopcodes.c. An
  instruction is 32 bits, six of opcode, eight of \<open>A\<close>, nine of \<open>C\<close> and nine of \<open>B\<close>; the macros
  read and write these fields with shifts and masks, and so does the model. Six bits hold 64 numbers
  and only 38 are opcodes, so reading an opcode may give none.
\<close>

type_synonym Instruction = "32 word"

abbreviation (input) SIZE_C :: nat where "SIZE_C \<equiv> 9"
abbreviation (input) SIZE_B :: nat where "SIZE_B \<equiv> 9"
abbreviation (input) SIZE_Bx :: nat where "SIZE_Bx \<equiv> SIZE_C + SIZE_B"
abbreviation (input) SIZE_A :: nat where "SIZE_A \<equiv> 8"
abbreviation (input) SIZE_OP :: nat where "SIZE_OP \<equiv> 6"
abbreviation (input) POS_OP :: nat where "POS_OP \<equiv> 0"
abbreviation (input) POS_A :: nat where "POS_A \<equiv> POS_OP + SIZE_OP"
abbreviation (input) POS_C :: nat where "POS_C \<equiv> POS_A + SIZE_A"
abbreviation (input) POS_B :: nat where "POS_B \<equiv> POS_C + SIZE_C"
abbreviation (input) POS_Bx :: nat where "POS_Bx \<equiv> POS_C"
abbreviation (input) MAXARG_Bx :: int where "MAXARG_Bx \<equiv> 2 ^ SIZE_Bx - 1"
abbreviation (input) MAXARG_sBx :: int where "MAXARG_sBx \<equiv> MAXARG_Bx div 2"
abbreviation (input) MAXARG_A :: int where "MAXARG_A \<equiv> 2 ^ SIZE_A - 1"
abbreviation (input) NO_REG :: int where "NO_REG \<equiv> MAXARG_A"

section \<open>Opcodes\<close>

datatype OpCode =
    OP_MOVE | OP_LOADK | OP_LOADBOOL | OP_LOADNIL | OP_GETUPVAL | OP_GETGLOBAL
  | OP_GETTABLE | OP_SETGLOBAL | OP_SETUPVAL | OP_SETTABLE | OP_NEWTABLE | OP_SELF
  | OP_ADD | OP_SUB | OP_MUL | OP_DIV | OP_MOD | OP_POW
  | OP_UNM | OP_NOT | OP_LEN | OP_CONCAT | OP_JMP | OP_EQ
  | OP_LT | OP_LE | OP_TEST | OP_TESTSET | OP_CALL | OP_TAILCALL
  | OP_RETURN | OP_FORLOOP | OP_FORPREP | OP_TFORLOOP | OP_SETLIST | OP_CLOSE
  | OP_CLOSURE | OP_VARARG

abbreviation (input) NUM_OPCODES :: nat where "NUM_OPCODES \<equiv> 38"

definition opcodes :: "OpCode list" where
  "opcodes =
    [OP_MOVE, OP_LOADK, OP_LOADBOOL, OP_LOADNIL, OP_GETUPVAL, OP_GETGLOBAL,
     OP_GETTABLE, OP_SETGLOBAL, OP_SETUPVAL, OP_SETTABLE, OP_NEWTABLE, OP_SELF,
     OP_ADD, OP_SUB, OP_MUL, OP_DIV, OP_MOD, OP_POW,
     OP_UNM, OP_NOT, OP_LEN, OP_CONCAT, OP_JMP, OP_EQ,
     OP_LT, OP_LE, OP_TEST, OP_TESTSET, OP_CALL, OP_TAILCALL,
     OP_RETURN, OP_FORLOOP, OP_FORPREP, OP_TFORLOOP, OP_SETLIST, OP_CLOSE,
     OP_CLOSURE, OP_VARARG]"

fun opcode_num :: "OpCode \<Rightarrow> nat" where
  "opcode_num OP_MOVE = 0"
| "opcode_num OP_LOADK = 1"
| "opcode_num OP_LOADBOOL = 2"
| "opcode_num OP_LOADNIL = 3"
| "opcode_num OP_GETUPVAL = 4"
| "opcode_num OP_GETGLOBAL = 5"
| "opcode_num OP_GETTABLE = 6"
| "opcode_num OP_SETGLOBAL = 7"
| "opcode_num OP_SETUPVAL = 8"
| "opcode_num OP_SETTABLE = 9"
| "opcode_num OP_NEWTABLE = 10"
| "opcode_num OP_SELF = 11"
| "opcode_num OP_ADD = 12"
| "opcode_num OP_SUB = 13"
| "opcode_num OP_MUL = 14"
| "opcode_num OP_DIV = 15"
| "opcode_num OP_MOD = 16"
| "opcode_num OP_POW = 17"
| "opcode_num OP_UNM = 18"
| "opcode_num OP_NOT = 19"
| "opcode_num OP_LEN = 20"
| "opcode_num OP_CONCAT = 21"
| "opcode_num OP_JMP = 22"
| "opcode_num OP_EQ = 23"
| "opcode_num OP_LT = 24"
| "opcode_num OP_LE = 25"
| "opcode_num OP_TEST = 26"
| "opcode_num OP_TESTSET = 27"
| "opcode_num OP_CALL = 28"
| "opcode_num OP_TAILCALL = 29"
| "opcode_num OP_RETURN = 30"
| "opcode_num OP_FORLOOP = 31"
| "opcode_num OP_FORPREP = 32"
| "opcode_num OP_TFORLOOP = 33"
| "opcode_num OP_SETLIST = 34"
| "opcode_num OP_CLOSE = 35"
| "opcode_num OP_CLOSURE = 36"
| "opcode_num OP_VARARG = 37"

lemma opcode_num_less: "opcode_num op < NUM_OPCODES"
  by (cases op) simp_all

lemma length_opcodes [simp]: "length opcodes = NUM_OPCODES"
  by (simp add: opcodes_def)

lemma opcodes_num [simp]: "opcodes ! opcode_num op = op"
  by (cases op) (simp_all add: opcodes_def)

definition op_of_num :: "nat \<Rightarrow> OpCode option" where
  "op_of_num n = (if n < NUM_OPCODES then Some (opcodes ! n) else None)"

lemma op_of_num [simp]: "op_of_num (opcode_num op) = Some op"
  by (simp add: op_of_num_def opcode_num_less)

section \<open>Fields\<close>

definition MASK1 :: "nat \<Rightarrow> nat \<Rightarrow> Instruction" where
  "MASK1 n p = push_bit p (NOT (push_bit n (NOT 0)))"

definition MASK0 :: "nat \<Rightarrow> nat \<Rightarrow> Instruction" where
  "MASK0 n p = NOT (MASK1 n p)"

definition getfield :: "nat \<Rightarrow> nat \<Rightarrow> Instruction \<Rightarrow> Instruction" where
  "getfield p n i = drop_bit p i AND MASK1 n 0"

definition setfield :: "nat \<Rightarrow> nat \<Rightarrow> Instruction \<Rightarrow> Instruction \<Rightarrow> Instruction" where
  "setfield p n i v = (i AND MASK0 n p) OR (push_bit p v AND MASK1 n p)"

definition GET_OPCODE :: "Instruction \<Rightarrow> OpCode option" where
  "GET_OPCODE i = op_of_num (unat (getfield POS_OP SIZE_OP i))"

definition SET_OPCODE :: "Instruction \<Rightarrow> OpCode \<Rightarrow> Instruction" where
  "SET_OPCODE i op = setfield POS_OP SIZE_OP i (of_nat (opcode_num op))"

definition GETARG_A :: "Instruction \<Rightarrow> int" where "GETARG_A i = uint (getfield POS_A SIZE_A i)"
definition SETARG_A :: "Instruction \<Rightarrow> int \<Rightarrow> Instruction" where "SETARG_A i u = setfield POS_A SIZE_A i (word_of_int u)"
definition GETARG_B :: "Instruction \<Rightarrow> int" where "GETARG_B i = uint (getfield POS_B SIZE_B i)"
definition SETARG_B :: "Instruction \<Rightarrow> int \<Rightarrow> Instruction" where "SETARG_B i b = setfield POS_B SIZE_B i (word_of_int b)"
definition GETARG_C :: "Instruction \<Rightarrow> int" where "GETARG_C i = uint (getfield POS_C SIZE_C i)"
definition SETARG_C :: "Instruction \<Rightarrow> int \<Rightarrow> Instruction" where "SETARG_C i b = setfield POS_C SIZE_C i (word_of_int b)"
definition GETARG_Bx :: "Instruction \<Rightarrow> int" where "GETARG_Bx i = uint (getfield POS_Bx SIZE_Bx i)"
definition SETARG_Bx :: "Instruction \<Rightarrow> int \<Rightarrow> Instruction" where "SETARG_Bx i b = setfield POS_Bx SIZE_Bx i (word_of_int b)"
definition GETARG_sBx :: "Instruction \<Rightarrow> int" where "GETARG_sBx i = GETARG_Bx i - MAXARG_sBx"
definition SETARG_sBx :: "Instruction \<Rightarrow> int \<Rightarrow> Instruction" where "SETARG_sBx i b = SETARG_Bx i (b + MAXARG_sBx)"

definition CREATE_ABC :: "OpCode \<Rightarrow> int \<Rightarrow> int \<Rightarrow> int \<Rightarrow> Instruction" where
  "CREATE_ABC op a b c =
     push_bit POS_OP (of_nat (opcode_num op)) OR push_bit POS_A (word_of_int a)
       OR push_bit POS_B (word_of_int b) OR push_bit POS_C (word_of_int c)"

definition CREATE_ABx :: "OpCode \<Rightarrow> int \<Rightarrow> int \<Rightarrow> Instruction" where
  "CREATE_ABx op a bc =
     push_bit POS_OP (of_nat (opcode_num op)) OR push_bit POS_A (word_of_int a) OR push_bit POS_Bx (word_of_int bc)"

section \<open>Constants among the operands\<close>

abbreviation (input) BITRK :: int where "BITRK \<equiv> 2 ^ (SIZE_B - 1)"

definition ISK :: "int \<Rightarrow> bool" where "ISK x \<longleftrightarrow> x AND BITRK \<noteq> 0"
definition INDEXK :: "int \<Rightarrow> int" where "INDEXK r = r AND NOT BITRK"
definition RKASK :: "int \<Rightarrow> int" where "RKASK x = x OR BITRK"

section \<open>Modes\<close>

datatype OpMode = iABC | iABx | iAsBx
datatype OpArgMask = OpArgN | OpArgU | OpArgR | OpArgK

fun mode_num :: "OpMode \<Rightarrow> nat" where
  "mode_num iABC = 0" | "mode_num iABx = 1" | "mode_num iAsBx = 2"

fun mask_num :: "OpArgMask \<Rightarrow> nat" where
  "mask_num OpArgN = 0" | "mask_num OpArgU = 1" | "mask_num OpArgR = 2" | "mask_num OpArgK = 3"

definition opmode :: "nat \<Rightarrow> nat \<Rightarrow> OpArgMask \<Rightarrow> OpArgMask \<Rightarrow> OpMode \<Rightarrow> 8 word" where
  "opmode t a b c m =
     push_bit 7 (of_nat t) OR push_bit 6 (of_nat a) OR push_bit 4 (of_nat (mask_num b))
       OR push_bit 2 (of_nat (mask_num c)) OR of_nat (mode_num m)"

definition luaP_opmodes :: "8 word list" where
  "luaP_opmodes =
    [opmode 0 1 OpArgR OpArgN iABC,
     opmode 0 1 OpArgK OpArgN iABx,
     opmode 0 1 OpArgU OpArgU iABC,
     opmode 0 1 OpArgR OpArgN iABC,
     opmode 0 1 OpArgU OpArgN iABC,
     opmode 0 1 OpArgK OpArgN iABx,
     opmode 0 1 OpArgR OpArgK iABC,
     opmode 0 0 OpArgK OpArgN iABx,
     opmode 0 0 OpArgU OpArgN iABC,
     opmode 0 0 OpArgK OpArgK iABC,
     opmode 0 1 OpArgU OpArgU iABC,
     opmode 0 1 OpArgR OpArgK iABC,
     opmode 0 1 OpArgK OpArgK iABC,
     opmode 0 1 OpArgK OpArgK iABC,
     opmode 0 1 OpArgK OpArgK iABC,
     opmode 0 1 OpArgK OpArgK iABC,
     opmode 0 1 OpArgK OpArgK iABC,
     opmode 0 1 OpArgK OpArgK iABC,
     opmode 0 1 OpArgR OpArgN iABC,
     opmode 0 1 OpArgR OpArgN iABC,
     opmode 0 1 OpArgR OpArgN iABC,
     opmode 0 1 OpArgR OpArgR iABC,
     opmode 0 0 OpArgR OpArgN iAsBx,
     opmode 1 0 OpArgK OpArgK iABC,
     opmode 1 0 OpArgK OpArgK iABC,
     opmode 1 0 OpArgK OpArgK iABC,
     opmode 1 1 OpArgR OpArgU iABC,
     opmode 1 1 OpArgR OpArgU iABC,
     opmode 0 1 OpArgU OpArgU iABC,
     opmode 0 1 OpArgU OpArgU iABC,
     opmode 0 0 OpArgU OpArgN iABC,
     opmode 0 1 OpArgR OpArgN iAsBx,
     opmode 0 1 OpArgR OpArgN iAsBx,
     opmode 1 0 OpArgN OpArgU iABC,
     opmode 0 0 OpArgU OpArgU iABC,
     opmode 0 0 OpArgN OpArgN iABC,
     opmode 0 1 OpArgU OpArgN iABx,
     opmode 0 1 OpArgU OpArgN iABC]"

text \<open>The entries as numbers, for evaluation.\<close>

lemma luaP_opmodes_values [code]:
  "luaP_opmodes =
    [96, 113, 84, 96, 80, 113, 108, 49, 16, 60, 84, 108,
     124, 124, 124, 124, 124, 124, 96, 96, 96, 104, 34, 188,
     188, 188, 228, 228, 84, 84, 16, 98, 98, 132, 20, 0,
     81, 80]"
  by (simp add: luaP_opmodes_def opmode_def)

definition getOpMode :: "OpCode \<Rightarrow> OpMode" where
  "getOpMode op = [iABC, iABx, iAsBx, iABC] ! unat (luaP_opmodes ! opcode_num op AND 3)"

definition getBMode :: "OpCode \<Rightarrow> OpArgMask" where
  "getBMode op = [OpArgN, OpArgU, OpArgR, OpArgK] ! unat (drop_bit 4 (luaP_opmodes ! opcode_num op) AND 3)"

definition getCMode :: "OpCode \<Rightarrow> OpArgMask" where
  "getCMode op = [OpArgN, OpArgU, OpArgR, OpArgK] ! unat (drop_bit 2 (luaP_opmodes ! opcode_num op) AND 3)"

definition testAMode :: "OpCode \<Rightarrow> bool" where
  "testAMode op \<longleftrightarrow> luaP_opmodes ! opcode_num op AND push_bit 6 1 \<noteq> 0"

definition testTMode :: "OpCode \<Rightarrow> bool" where
  "testTMode op \<longleftrightarrow> luaP_opmodes ! opcode_num op AND push_bit 7 1 \<noteq> 0"

definition luaP_opnames :: "string list" where
  "luaP_opnames =
    [''MOVE'', ''LOADK'', ''LOADBOOL'', ''LOADNIL'', ''GETUPVAL'', ''GETGLOBAL'', ''GETTABLE'', ''SETGLOBAL'',
     ''SETUPVAL'', ''SETTABLE'', ''NEWTABLE'', ''SELF'', ''ADD'', ''SUB'', ''MUL'', ''DIV'',
     ''MOD'', ''POW'', ''UNM'', ''NOT'', ''LEN'', ''CONCAT'', ''JMP'', ''EQ'',
     ''LT'', ''LE'', ''TEST'', ''TESTSET'', ''CALL'', ''TAILCALL'', ''RETURN'', ''FORLOOP'',
     ''FORPREP'', ''TFORLOOP'', ''SETLIST'', ''CLOSE'', ''CLOSURE'', ''VARARG'']"

section \<open>The fields do not overlap\<close>

lemma bit_MASK1: "bit (MASK1 n p) k \<longleftrightarrow> p \<le> k \<and> k < n + p \<and> k < 32"
  by (auto simp: MASK1_def bit_simps)

lemma bit_getfield: "bit (getfield p n i) k \<longleftrightarrow> k < n \<and> k < 32 \<and> bit i (p + k)"
  by (auto simp: getfield_def bit_MASK1 bit_simps)

lemma bit_setfield: "bit (setfield p n i v) k \<longleftrightarrow> (if p \<le> k \<and> k < n + p then k < 32 \<and> bit v (k - p) else bit i k)"
  by (auto simp: setfield_def MASK0_def bit_MASK1 bit_simps dest: bit_imp_le_length)

lemma get_set_same:
  assumes "p + n \<le> 32"
  shows "getfield p n (setfield p n i v) = take_bit n v"
  using assms by (intro bit_word_eqI) (auto simp: bit_getfield bit_setfield bit_simps)

lemma get_set_other:
  assumes "p + n \<le> q \<or> q + m \<le> p"
  shows "getfield p n (setfield q m i v) = getfield p n i"
  using assms by (intro bit_word_eqI) (auto simp: bit_getfield bit_setfield)

lemma getfield_OR: "getfield p n (i OR j) = getfield p n i OR getfield p n j"
  by (intro bit_word_eqI) (auto simp: bit_getfield bit_simps)

lemma getfield_push_same: "p + n \<le> 32 \<Longrightarrow> getfield p n (push_bit p v) = take_bit n v"
  by (intro bit_word_eqI) (auto simp: bit_getfield bit_simps)

lemma getfield_push_below:
  assumes "take_bit m v = v" "q + m \<le> p"
  shows "getfield p n (push_bit q v) = 0"
proof (intro bit_word_eqI)
  fix k
  have "\<not> bit v (p + k - q)"
    using assms by (metis add_diff_inverse_nat bit_take_bit_iff leD le_add1 le_diff_conv2 le_trans add.commute)
  then show "bit (getfield p n (push_bit q v)) k = bit 0 k" by (simp add: bit_getfield bit_simps)
qed

lemma getfield_low: "n \<le> 32 \<Longrightarrow> getfield 0 n v = take_bit n v"
  using getfield_push_same [of 0 n v] by simp

lemma getfield_below: "take_bit m v = v \<Longrightarrow> m \<le> p \<Longrightarrow> getfield p n v = 0"
  using getfield_push_below [of m v 0 p n] by simp

lemma getfield_push_above: "p + n \<le> q \<Longrightarrow> getfield p n (push_bit q v) = 0"
  by (intro bit_word_eqI) (auto simp: bit_getfield bit_simps)

lemma take_bit_arg:
  assumes "0 \<le> u" "u < 2 ^ n" "n \<le> 32"
  shows "take_bit n (word_of_int u :: Instruction) = word_of_int u" "uint (word_of_int u :: Instruction) = u"
proof -
  have u: "u < 2 ^ 32" using assms power_increasing [of n 32 "2::int"] by simp
  show i: "uint (word_of_int u :: Instruction) = u"
    using assms(1) u by (simp add: uint_word_of_int take_bit_int_eq_self)
  show "take_bit n (word_of_int u :: Instruction) = word_of_int u"
    using assms by (metis i take_bit_int_eq_self unsigned_take_bit_eq word_uint_eq_iff)
qed

lemma take_bit_opcode:
  "take_bit SIZE_OP (of_nat (opcode_num op) :: Instruction) = of_nat (opcode_num op)"
  "unat (of_nat (opcode_num op) :: Instruction) = opcode_num op"
  by (cases op; simp)+

lemmas field_simps_op =
  GET_OPCODE_def SET_OPCODE_def GETARG_A_def SETARG_A_def GETARG_B_def SETARG_B_def GETARG_C_def SETARG_C_def
  GETARG_Bx_def SETARG_Bx_def GETARG_sBx_def SETARG_sBx_def

text \<open>An instruction is its fields.\<close>

lemma uint_getfield: "0 \<le> uint (getfield p n i)" "n \<le> 32 \<Longrightarrow> uint (getfield p n i) < 2 ^ n"
proof -
  assume "n \<le> 32"
  then have "getfield p n i = take_bit n (drop_bit p i)"
    by (intro bit_word_eqI) (auto simp: bit_getfield bit_simps)
  then show "uint (getfield p n i) < 2 ^ n" by (simp add: unsigned_take_bit_eq take_bit_int_less_exp)
qed simp

lemma arg_bounds:
  "0 \<le> GETARG_A i" "GETARG_A i < 256" "0 \<le> GETARG_B i" "GETARG_B i < 512" "0 \<le> GETARG_C i" "GETARG_C i < 512"
  "0 \<le> GETARG_Bx i" "GETARG_Bx i < 2 ^ 18" "- MAXARG_sBx \<le> GETARG_sBx i" "GETARG_sBx i \<le> MAXARG_sBx + 1"
  using uint_getfield(2) [of 8 6 i] uint_getfield(2) [of 9 23 i] uint_getfield(2) [of 9 14 i] uint_getfield(2) [of 18 14 i]
  by (auto simp: field_simps_op)

lemma unat_of_nat_opcode: "GET_OPCODE i = Some op \<Longrightarrow> of_nat (opcode_num op) = getfield POS_OP SIZE_OP i"
proof -
  assume "GET_OPCODE i = Some op"
  then have "unat (getfield POS_OP SIZE_OP i) < NUM_OPCODES" "op = opcodes ! unat (getfield POS_OP SIZE_OP i)"
    by (auto simp: GET_OPCODE_def op_of_num_def split: if_splits)
  moreover have "opcode_num (opcodes ! n) = n" if "n < NUM_OPCODES" for n
  proof -
    have "\<forall>n < 38. opcode_num (opcodes ! n) = n" by (simp add: opcodes_def All_less_Suc numeral_eq_Suc)
    then show ?thesis using that by blast
  qed
  ultimately show ?thesis by simp
qed

section \<open>Properties\<close>

lemma args_of_words:
  fixes a :: "8 word" and b :: "9 word" and d :: "18 word"
  shows "take_bit 8 (ucast a :: Instruction) = ucast a" "take_bit 9 (ucast b :: Instruction) = ucast b"
    "take_bit 18 (ucast d :: Instruction) = ucast d"
    "uint (ucast a :: Instruction) = uint a" "uint (ucast b :: Instruction) = uint b"
    "uint (ucast d :: Instruction) = uint d"
  using bit_imp_le_length [of a] bit_imp_le_length [of b] bit_imp_le_length [of d]
  by (auto intro!: bit_word_eqI uint_up_ucast simp: bit_simps is_up_def source_size_def target_size_def)

lemmas field_rules =
  getfield_OR getfield_push_same getfield_push_below getfield_push_above get_set_same get_set_other
  take_bit_arg take_bit_opcode args_of_words

lemma get_CREATE_ABC:
  fixes a :: "8 word" and b c :: "9 word"
  shows "GET_OPCODE (CREATE_ABC op (uint a) (uint b) (uint c)) = Some op"
    "GETARG_A (CREATE_ABC op (uint a) (uint b) (uint c)) = uint a"
    "GETARG_B (CREATE_ABC op (uint a) (uint b) (uint c)) = uint b"
    "GETARG_C (CREATE_ABC op (uint a) (uint b) (uint c)) = uint c"
proof -
  let ?o = "of_nat (opcode_num op) :: Instruction"
  have t: "take_bit 6 ?o = ?o" "take_bit 8 (ucast a :: Instruction) = ucast a"
    "take_bit 9 (ucast b :: Instruction) = ucast b" "take_bit 9 (ucast c :: Instruction) = ucast c"
    by (simp_all add: field_rules)
  note r = getfield_OR getfield_push_same getfield_push_above getfield_low getfield_below [OF t(1)]
    getfield_push_below [OF t(1)] getfield_push_below [OF t(2)] getfield_push_below [OF t(3)] getfield_push_below [OF t(4)]
  show "GET_OPCODE (CREATE_ABC op (uint a) (uint b) (uint c)) = Some op"
    "GETARG_A (CREATE_ABC op (uint a) (uint b) (uint c)) = uint a"
    "GETARG_B (CREATE_ABC op (uint a) (uint b) (uint c)) = uint b"
    "GETARG_C (CREATE_ABC op (uint a) (uint b) (uint c)) = uint c"
    unfolding field_simps_op CREATE_ABC_def
    by (simp_all add: r t field_rules)
qed

lemma get_CREATE_ABx:
  fixes a :: "8 word" and bx :: "18 word"
  shows "GET_OPCODE (CREATE_ABx op (uint a) (uint bx)) = Some op"
    "GETARG_A (CREATE_ABx op (uint a) (uint bx)) = uint a"
    "GETARG_Bx (CREATE_ABx op (uint a) (uint bx)) = uint bx"
proof -
  let ?o = "of_nat (opcode_num op) :: Instruction"
  have t: "take_bit 6 ?o = ?o" "take_bit 8 (ucast a :: Instruction) = ucast a"
    "take_bit 18 (ucast bx :: Instruction) = ucast bx"
    by (simp_all add: field_rules)
  note r = getfield_OR getfield_push_same getfield_push_above getfield_low getfield_below [OF t(1)]
    getfield_push_below [OF t(1)] getfield_push_below [OF t(2)] getfield_push_below [OF t(3)]
  show "GET_OPCODE (CREATE_ABx op (uint a) (uint bx)) = Some op"
    "GETARG_A (CREATE_ABx op (uint a) (uint bx)) = uint a"
    "GETARG_Bx (CREATE_ABx op (uint a) (uint bx)) = uint bx"
    unfolding field_simps_op CREATE_ABx_def
    by (simp_all add: r t field_rules)
qed

lemma set_get: "p + n \<le> 32 \<Longrightarrow> setfield p n i (getfield p n i) = i"
  by (intro bit_word_eqI) (auto simp: bit_setfield bit_getfield dest: bit_imp_le_length)

text \<open>C23: The macros of lopcodes.h are inverse to each other: the fields of a created instruction
  are the arguments it was created from; a field that was set is read back, the opcode and the other
  fields are unchanged, and setting a field to what it holds changes nothing. The arguments range over all
  values of their width, the jump offsets over \<open>- MAXARG_sBx\<close> to \<open>MAXARG_sBx + 1\<close>.\<close>

theorem instruction_fields:
  fixes a :: "8 word" and b c :: "9 word" and d :: "18 word"
  shows "GET_OPCODE (CREATE_ABC op (uint a) (uint b) (uint c)) = Some op \<and>
    GETARG_A (CREATE_ABC op (uint a) (uint b) (uint c)) = uint a \<and>
    GETARG_B (CREATE_ABC op (uint a) (uint b) (uint c)) = uint b \<and>
    GETARG_C (CREATE_ABC op (uint a) (uint b) (uint c)) = uint c \<and>
    GET_OPCODE (CREATE_ABx op (uint a) (uint d)) = Some op \<and>
    GETARG_A (CREATE_ABx op (uint a) (uint d)) = uint a \<and>
    GETARG_Bx (CREATE_ABx op (uint a) (uint d)) = uint d \<and>
    GET_OPCODE (SET_OPCODE i op) = Some op \<and> GETARG_A (SET_OPCODE i op) = GETARG_A i \<and>
    GETARG_Bx (SET_OPCODE i op) = GETARG_Bx i \<and>
    GET_OPCODE (SETARG_A i (uint a)) = GET_OPCODE i \<and> GET_OPCODE (SETARG_B i (uint b)) = GET_OPCODE i \<and>
    GET_OPCODE (SETARG_C i (uint c)) = GET_OPCODE i \<and> GET_OPCODE (SETARG_Bx i (uint d)) = GET_OPCODE i \<and>
    GET_OPCODE (SETARG_sBx i (uint d - MAXARG_sBx)) = GET_OPCODE i \<and>
    GETARG_Bx (SETARG_Bx i (uint d)) = uint d \<and> GETARG_A (SETARG_Bx i (uint d)) = GETARG_A i \<and>
    GETARG_A (SETARG_A i (uint a)) = uint a \<and> GETARG_Bx (SETARG_A i (uint a)) = GETARG_Bx i \<and>
    GETARG_B (SETARG_B i (uint b)) = uint b \<and> GETARG_C (SETARG_B i (uint b)) = GETARG_C i \<and>
    GETARG_A (SETARG_B i (uint b)) = GETARG_A i \<and>
    GETARG_C (SETARG_C i (uint c)) = uint c \<and> GETARG_B (SETARG_C i (uint c)) = GETARG_B i \<and>
    GETARG_A (SETARG_C i (uint c)) = GETARG_A i \<and>
    GETARG_sBx (SETARG_sBx i (uint d - MAXARG_sBx)) = uint d - MAXARG_sBx \<and>
    GETARG_A (SETARG_sBx i (uint d - MAXARG_sBx)) = GETARG_A i \<and>
    SETARG_A i (GETARG_A i) = i \<and> SETARG_B i (GETARG_B i) = i \<and> SETARG_C i (GETARG_C i) = i \<and>
    SETARG_sBx i (GETARG_sBx i) = i \<and> SETARG_Bx i (GETARG_Bx i) = i"
  by (simp add: get_CREATE_ABC get_CREATE_ABx)
    (simp add: field_simps_op get_set_same get_set_other take_bit_opcode args_of_words set_get)

end
