(* ===== verification/Lua_Proto.thy ===== *)
theory Lua_Proto
  imports Lua_Opcode
begin

text \<open>
  Function prototypes, the compiled form of a function (src/lib/lua/lobject.h, src/lib/lua/lfunc.c). The
  arrays of a prototype are lists, so the fields that count them are lengths; every function that
  builds a prototype sets both together. A name may be the null pointer, and so may the string of a
  constant that was loaded from a binary chunk: both are \<open>None\<close>.
\<close>

record LocVar =
  varname :: "string option"
  startpc :: int
  endpc :: int

datatype Proto =
  Proto (kst: "TValue option list") (pcode: "Instruction list") (protos: "Proto list") (plineinfo: "int list")
    (plocvars: "LocVar list") (pupvalues: "string option list") (psource: "string option")
    (linedefined: int) (lastlinedefined: int)
    (nups: "8 word") (numparams: "8 word") (is_vararg: "8 word") (maxstacksize: "8 word")

abbreviation VARARG_HASARG :: "8 word" where "VARARG_HASARG \<equiv> 1"
abbreviation VARARG_ISVARARG :: "8 word" where "VARARG_ISVARARG \<equiv> 2"
abbreviation VARARG_NEEDSARG :: "8 word" where "VARARG_NEEDSARG \<equiv> 4"
abbreviation (input) MAXSTACK :: int where "MAXSTACK \<equiv> 250"

definition sizecode :: "Proto \<Rightarrow> int" where "sizecode pt = int (length (pcode pt))"
definition sizek :: "Proto \<Rightarrow> int" where "sizek pt = int (length (kst pt))"
definition sizep :: "Proto \<Rightarrow> int" where "sizep pt = int (length (protos pt))"
definition sizelineinfo :: "Proto \<Rightarrow> int" where "sizelineinfo pt = int (length (plineinfo pt))"
definition sizelocvars :: "Proto \<Rightarrow> int" where "sizelocvars pt = int (length (plocvars pt))"
definition sizeupvalues :: "Proto \<Rightarrow> int" where "sizeupvalues pt = int (length (pupvalues pt))"

definition luaF_newproto :: Proto where
  "luaF_newproto = Proto [] [] [] [] [] [] None 0 0 0 0 0 0"

definition kstring :: "TValue option \<Rightarrow> bool" where
  "kstring o' \<longleftrightarrow> (case o' of None \<Rightarrow> True | Some v \<Rightarrow> ttype v = LUA_TSTRING)"

text \<open>The name of the \<open>n\<close>-th variable active at \<open>pc\<close>; the variables are in the order of \<open>startpc\<close>.\<close>

fun getlocalname_loop :: "LocVar list \<Rightarrow> int \<Rightarrow> int \<Rightarrow> string option option" where
  "getlocalname_loop [] n pc = None"
| "getlocalname_loop (v # vs) n pc =
     (if startpc v \<le> pc then
        if pc < endpc v then
          if n - 1 = 0 then Some (varname v) else getlocalname_loop vs (n - 1) pc
        else getlocalname_loop vs n pc
      else None)"

definition luaF_getlocalname :: "Proto \<Rightarrow> int \<Rightarrow> int \<Rightarrow> string option option" where
  "luaF_getlocalname f n pc = getlocalname_loop (plocvars f) n pc"

section \<open>Reading the arrays of a prototype\<close>

text \<open>
  A function over the code of a prototype either rejects it, or gives a result, or reads outside an
  array, which is undefined behaviour of the C code.
\<close>

datatype 'a verdict = Rejected | Accepted 'a | OutOfBounds

fun bindV :: "'a verdict \<Rightarrow> ('a \<Rightarrow> 'b verdict) \<Rightarrow> 'b verdict" where
  "bindV Rejected f = Rejected"
| "bindV (Accepted x) f = f x"
| "bindV OutOfBounds f = OutOfBounds"

definition checkV :: "bool \<Rightarrow> unit verdict" where
  "checkV b = (if b then Accepted () else Rejected)"

definition readV :: "'a list \<Rightarrow> int \<Rightarrow> 'a verdict" where
  "readV xs i = (if 0 \<le> i \<and> i < int (length xs) then Accepted (xs ! nat i) else OutOfBounds)"

named_theorems verdict_simps \<open>results of the functions that read code\<close>

lemma bindV_Accepted [verdict_simps]: "bindV m f = Accepted y \<longleftrightarrow> (\<exists>x. m = Accepted x \<and> f x = Accepted y)"
  by (cases m) auto

lemma bindV_OutOfBounds [verdict_simps]:
  "bindV m f = OutOfBounds \<longleftrightarrow> m = OutOfBounds \<or> (\<exists>x. m = Accepted x \<and> f x = OutOfBounds)"
  by (cases m) auto

lemma checkV_simps [verdict_simps]:
  "checkV b = Accepted u \<longleftrightarrow> b" "checkV b \<noteq> OutOfBounds" "checkV b = Rejected \<longleftrightarrow> \<not> b"
  by (auto simp: checkV_def)

lemma readV_simps [verdict_simps]:
  "readV xs i = Accepted x \<longleftrightarrow> 0 \<le> i \<and> i < int (length xs) \<and> x = xs ! nat i"
  "readV xs i = OutOfBounds \<longleftrightarrow> \<not> (0 \<le> i \<and> i < int (length xs))"
  "readV xs i \<noteq> Rejected"
  by (auto simp: readV_def)

end
