(* ===== verification/Lua_Check.thy ===== *)
theory Lua_Check
  imports Lua_Proto
begin

text \<open>
  The code checker of the interpreter: the symbolic execution of src/lib/lua/ldebug.c, which decides
  whether a loaded function may run and, traced for a register, finds the instruction that set it.
  The code is untrusted here, so every access to an array of the prototype is a read that may be out
  of bounds. Positions are unbounded numbers: an array of instructions has fewer than \<open>2 ^ 31\<close>
  elements less the largest jump.
\<close>

section \<open>The checks\<close>

definition precheck :: "Proto \<Rightarrow> unit verdict" where
  "precheck pt =
     bindV (checkV (uint (maxstacksize pt) \<le> MAXSTACK)) (\<lambda>_.
     bindV (checkV (uint (numparams pt) + uint (is_vararg pt AND VARARG_HASARG) \<le> uint (maxstacksize pt))) (\<lambda>_.
     bindV (checkV (is_vararg pt AND VARARG_NEEDSARG = 0 \<or> is_vararg pt AND VARARG_HASARG \<noteq> 0)) (\<lambda>_.
     bindV (checkV (sizeupvalues pt \<le> uint (nups pt))) (\<lambda>_.
     bindV (checkV (sizelineinfo pt = sizecode pt \<or> sizelineinfo pt = 0)) (\<lambda>_.
     bindV (checkV (0 < sizecode pt)) (\<lambda>_.
     bindV (readV (pcode pt) (sizecode pt - 1)) (\<lambda>i.
     checkV (GET_OPCODE i = Some OP_RETURN))))))))"

definition luaG_checkopenop :: "Instruction \<Rightarrow> bool" where
  "luaG_checkopenop i =
     (case GET_OPCODE i of
        Some OP_CALL \<Rightarrow> GETARG_B i = 0
      | Some OP_TAILCALL \<Rightarrow> GETARG_B i = 0
      | Some OP_RETURN \<Rightarrow> GETARG_B i = 0
      | Some OP_SETLIST \<Rightarrow> GETARG_B i = 0
      | _ \<Rightarrow> False)"

definition checkopenop :: "Proto \<Rightarrow> int \<Rightarrow> unit verdict" where
  "checkopenop pt pc = bindV (readV (pcode pt) (pc + 1)) (\<lambda>i. checkV (luaG_checkopenop i))"

definition checkreg :: "Proto \<Rightarrow> int \<Rightarrow> bool" where
  "checkreg pt reg \<longleftrightarrow> reg < uint (maxstacksize pt)"

definition checkArgMode :: "Proto \<Rightarrow> int \<Rightarrow> OpArgMask \<Rightarrow> bool" where
  "checkArgMode pt r mode =
     (case mode of
        OpArgN \<Rightarrow> r = 0
      | OpArgU \<Rightarrow> True
      | OpArgR \<Rightarrow> checkreg pt r
      | OpArgK \<Rightarrow> if ISK r then INDEXK r < sizek pt else r < uint (maxstacksize pt))"

text \<open>A word that reads as a SETLIST with its count in the next word, and how many stand before \<open>n\<close>.\<close>

definition is_setlist0 :: "Instruction \<Rightarrow> bool" where
  "is_setlist0 d \<longleftrightarrow> GET_OPCODE d = Some OP_SETLIST \<and> GETARG_C d = 0"

fun setlists_before :: "Proto \<Rightarrow> nat \<Rightarrow> nat verdict" where
  "setlists_before pt 0 = Accepted 0"
| "setlists_before pt (Suc n) =
     bindV (readV (pcode pt) (int n)) (\<lambda>d.
       if is_setlist0 d then bindV (setlists_before pt n) (\<lambda>j. Accepted (Suc j)) else Accepted 0)"

definition check_dest :: "Proto \<Rightarrow> int \<Rightarrow> unit verdict" where
  "check_dest pt dest =
     bindV (checkV (0 \<le> dest \<and> dest < sizecode pt)) (\<lambda>_.
       if 0 < dest then bindV (setlists_before pt (nat dest)) (\<lambda>j. checkV (even j)) else Accepted ())"

section \<open>One instruction\<close>

text \<open>The operands \<open>b\<close> and \<open>c\<close> in the mode of the opcode.\<close>

definition decode_args :: "Proto \<Rightarrow> int \<Rightarrow> OpCode \<Rightarrow> Instruction \<Rightarrow> (int \<times> int) verdict" where
  "decode_args pt pc op i =
     (case getOpMode op of
        iABC \<Rightarrow>
          let b = GETARG_B i; c = GETARG_C i
          in bindV (checkV (checkArgMode pt b (getBMode op))) (\<lambda>_.
             bindV (checkV (checkArgMode pt c (getCMode op))) (\<lambda>_. Accepted (b, c)))
      | iABx \<Rightarrow>
          let b = GETARG_Bx i
          in bindV (checkV (getBMode op = OpArgK \<longrightarrow> b < sizek pt)) (\<lambda>_. Accepted (b, 0))
      | iAsBx \<Rightarrow>
          let b = GETARG_sBx i
          in bindV (if getBMode op = OpArgR then check_dest pt (pc + 1 + b) else Accepted ()) (\<lambda>_. Accepted (b, 0)))"

text \<open>The pseudo instructions after a CLOSURE, at \<open>pc + 1\<close> to \<open>pc + nup\<close>.\<close>

fun check_pseudo :: "Proto \<Rightarrow> int \<Rightarrow> nat \<Rightarrow> unit verdict" where
  "check_pseudo pt pc 0 = Accepted ()"
| "check_pseudo pt pc (Suc n) =
     bindV (readV (pcode pt) (pc + 1)) (\<lambda>i.
     bindV (checkV (GET_OPCODE i = Some OP_GETUPVAL \<or> GET_OPCODE i = Some OP_MOVE)) (\<lambda>_.
     check_pseudo pt (pc + 1) n))"

definition check_test :: "Proto \<Rightarrow> int \<Rightarrow> unit verdict" where
  "check_test pt pc =
     bindV (checkV (pc + 2 < sizecode pt)) (\<lambda>_.
     bindV (readV (pcode pt) (pc + 1)) (\<lambda>i. checkV (GET_OPCODE i = Some OP_JMP)))"

text \<open>The jump is followed when a register is traced and it goes forward, not beyond \<open>lastpc\<close>.\<close>

definition follow_jump :: "int \<Rightarrow> int \<Rightarrow> int \<Rightarrow> int \<Rightarrow> int" where
  "follow_jump lastpc reg pc b =
     (let dest = pc + 1 + b in if reg \<noteq> NO_REG \<and> pc < dest \<and> dest \<le> lastpc then pc + b else pc)"

definition check_call :: "Proto \<Rightarrow> int \<Rightarrow> int \<Rightarrow> int \<Rightarrow> int \<Rightarrow> unit verdict" where
  "check_call pt pc a b c =
     bindV (checkV (b \<noteq> 0 \<longrightarrow> checkreg pt (a + b - 1))) (\<lambda>_.
       if c - 1 = -1 then checkopenop pt pc else checkV (c - 1 \<noteq> 0 \<longrightarrow> checkreg pt (a + (c - 1) - 1)))"

definition symb_op ::
    "Proto \<Rightarrow> int \<Rightarrow> int \<Rightarrow> int \<Rightarrow> int \<Rightarrow> OpCode \<Rightarrow> int \<Rightarrow> int \<Rightarrow> int \<Rightarrow> (int \<times> int) verdict" where
  "symb_op pt lastpc reg pc last' op a b c =
     (case op of
        OP_LOADBOOL \<Rightarrow>
          if c = 1 then
            bindV (checkV (pc + 2 < sizecode pt)) (\<lambda>_.
            bindV (readV (pcode pt) (pc + 1)) (\<lambda>i.
            bindV (checkV (GET_OPCODE i \<noteq> Some OP_SETLIST \<or> GETARG_C i \<noteq> 0)) (\<lambda>_. Accepted (pc, last'))))
          else Accepted (pc, last')
      | OP_LOADNIL \<Rightarrow> Accepted (pc, if a \<le> reg \<and> reg \<le> b then pc else last')
      | OP_GETUPVAL \<Rightarrow> bindV (checkV (b < uint (nups pt))) (\<lambda>_. Accepted (pc, last'))
      | OP_SETUPVAL \<Rightarrow> bindV (checkV (b < uint (nups pt))) (\<lambda>_. Accepted (pc, last'))
      | OP_GETGLOBAL \<Rightarrow> bindV (readV (kst pt) b) (\<lambda>k. bindV (checkV (kstring k)) (\<lambda>_. Accepted (pc, last')))
      | OP_SETGLOBAL \<Rightarrow> bindV (readV (kst pt) b) (\<lambda>k. bindV (checkV (kstring k)) (\<lambda>_. Accepted (pc, last')))
      | OP_SELF \<Rightarrow> bindV (checkV (checkreg pt (a + 1))) (\<lambda>_. Accepted (pc, if reg = a + 1 then pc else last'))
      | OP_CONCAT \<Rightarrow> bindV (checkV (b < c)) (\<lambda>_. Accepted (pc, last'))
      | OP_TFORLOOP \<Rightarrow>
          bindV (checkV (1 \<le> c)) (\<lambda>_.
          bindV (checkV (checkreg pt (a + 2 + c))) (\<lambda>_. Accepted (pc, if a + 2 \<le> reg then pc else last')))
      | OP_FORLOOP \<Rightarrow>
          bindV (checkV (checkreg pt (a + 3))) (\<lambda>_. Accepted (follow_jump lastpc reg pc b, last'))
      | OP_FORPREP \<Rightarrow>
          bindV (checkV (checkreg pt (a + 3))) (\<lambda>_. Accepted (follow_jump lastpc reg pc b, last'))
      | OP_JMP \<Rightarrow> Accepted (follow_jump lastpc reg pc b, last')
      | OP_CALL \<Rightarrow> bindV (check_call pt pc a b c) (\<lambda>_. Accepted (pc, if a \<le> reg then pc else last'))
      | OP_TAILCALL \<Rightarrow> bindV (check_call pt pc a b c) (\<lambda>_. Accepted (pc, if a \<le> reg then pc else last'))
      | OP_RETURN \<Rightarrow> bindV (checkV (0 < b - 1 \<longrightarrow> checkreg pt (a + (b - 1) - 1))) (\<lambda>_. Accepted (pc, last'))
      | OP_SETLIST \<Rightarrow>
          bindV (checkV (0 < b \<longrightarrow> checkreg pt (a + b))) (\<lambda>_.
            if c = 0 then bindV (checkV (pc + 1 < sizecode pt - 1)) (\<lambda>_. Accepted (pc + 1, last'))
            else Accepted (pc, last'))
      | OP_CLOSURE \<Rightarrow>
          bindV (checkV (b < sizep pt)) (\<lambda>_.
          bindV (readV (protos pt) b) (\<lambda>q. let nup = uint (nups q) in
          bindV (checkV (pc + nup < sizecode pt)) (\<lambda>_.
          bindV (check_pseudo pt pc (nat nup)) (\<lambda>_.
          Accepted (if reg \<noteq> NO_REG then pc + nup else pc, last')))))
      | OP_VARARG \<Rightarrow>
          bindV (checkV (is_vararg pt AND VARARG_ISVARARG \<noteq> 0 \<and> is_vararg pt AND VARARG_NEEDSARG = 0)) (\<lambda>_.
          bindV (if b - 1 = -1 then checkopenop pt pc else Accepted ()) (\<lambda>_.
          bindV (checkV (checkreg pt (a + (b - 1) - 1))) (\<lambda>_. Accepted (pc, last'))))
      | _ \<Rightarrow> Accepted (pc, last'))"

definition symb_step :: "Proto \<Rightarrow> int \<Rightarrow> int \<Rightarrow> int \<Rightarrow> int \<Rightarrow> (int \<times> int) verdict" where
  "symb_step pt lastpc reg pc last' =
     bindV (readV (pcode pt) pc) (\<lambda>i.
       let a = GETARG_A i
       in case GET_OPCODE i of
            None \<Rightarrow> Rejected
          | Some op \<Rightarrow>
              bindV (checkV (checkreg pt a)) (\<lambda>_.
              bindV (decode_args pt pc op i) (\<lambda>(b, c).
              let last1 = (if testAMode op \<and> a = reg then pc else last')
              in bindV (if testTMode op then check_test pt pc else Accepted ()) (\<lambda>_.
                 symb_op pt lastpc reg pc last1 op a b c))))"

section \<open>The loop\<close>

lemma symb_op_pc: "symb_op pt lastpc reg pc last' op a b c = Accepted (pc', last'') \<Longrightarrow> pc \<le> pc'"
  by (cases op) (auto simp: symb_op_def follow_jump_def Let_def verdict_simps split: if_splits)

lemma symb_step_pc: "symb_step pt lastpc reg pc last' = Accepted (pc', last'') \<Longrightarrow> pc \<le> pc'"
  by (auto simp: symb_step_def Let_def verdict_simps split: option.splits dest: symb_op_pc)

function symb_loop :: "Proto \<Rightarrow> int \<Rightarrow> int \<Rightarrow> int \<Rightarrow> int \<Rightarrow> int verdict" where
  "symb_loop pt lastpc reg pc last' =
     (if pc < lastpc then
        case symb_step pt lastpc reg pc last' of
          Rejected \<Rightarrow> Rejected
        | OutOfBounds \<Rightarrow> OutOfBounds
        | Accepted (pc', last'') \<Rightarrow> symb_loop pt lastpc reg (pc' + 1) last''
      else Accepted last')"
  by pat_completeness auto
termination
  by (relation "measure (\<lambda>(pt, lastpc, reg, pc, last'). nat (lastpc - pc))") (auto dest: symb_step_pc)

declare symb_loop.simps [simp del]

definition symbexec :: "Proto \<Rightarrow> int \<Rightarrow> int \<Rightarrow> Instruction verdict" where
  "symbexec pt lastpc reg =
     bindV (precheck pt) (\<lambda>_.
     bindV (symb_loop pt lastpc reg 0 (sizecode pt - 1)) (\<lambda>last'. readV (pcode pt) last'))"

text \<open>A failed check returns the word zero.\<close>

definition luaG_checkcode :: "Proto \<Rightarrow> bool verdict" where
  "luaG_checkcode pt =
     (case symbexec pt (sizecode pt) NO_REG of
        Rejected \<Rightarrow> Accepted False
      | Accepted i \<Rightarrow> Accepted (i \<noteq> 0)
      | OutOfBounds \<Rightarrow> OutOfBounds)"

section \<open>Every read is inside its array\<close>

definition prechecked :: "Proto \<Rightarrow> bool" where
  "prechecked pt \<longleftrightarrow> precheck pt = Accepted ()"

lemma precheck_safe: "precheck pt \<noteq> OutOfBounds"
  by (auto simp: precheck_def verdict_simps sizecode_def)

lemma precheckedD:
  assumes "prechecked pt"
  shows "0 < sizecode pt" "GET_OPCODE (pcode pt ! nat (sizecode pt - 1)) = Some OP_RETURN"
    "uint (maxstacksize pt) \<le> MAXSTACK" "sizeupvalues pt \<le> uint (nups pt)"
  using assms by (auto simp: prechecked_def precheck_def verdict_simps)

lemma not_last:
  assumes "prechecked pt" "pc < sizecode pt" "GET_OPCODE (pcode pt ! nat pc) \<noteq> Some OP_RETURN"
  shows "pc + 1 < sizecode pt"
proof -
  have "pc \<noteq> sizecode pt - 1" using assms precheckedD(2) by metis
  with assms(2) show ?thesis by simp
qed

lemma checkopenop_safe: "0 \<le> pc \<Longrightarrow> pc + 1 < sizecode pt \<Longrightarrow> checkopenop pt pc \<noteq> OutOfBounds"
  by (auto simp: checkopenop_def verdict_simps sizecode_def)

lemma setlists_before_safe: "n \<le> length (pcode pt) \<Longrightarrow> setlists_before pt n \<noteq> OutOfBounds"
  by (induction n) (auto simp: verdict_simps split: if_splits)

lemma check_dest_safe: "check_dest pt dest \<noteq> OutOfBounds"
  using setlists_before_safe [of "nat dest" pt]
  by (auto simp: check_dest_def verdict_simps sizecode_def split: if_splits)

lemma check_pseudo_safe: "0 \<le> pc \<Longrightarrow> pc + int n < sizecode pt \<Longrightarrow> check_pseudo pt pc n \<noteq> OutOfBounds"
  by (induction n arbitrary: pc) (auto simp: verdict_simps sizecode_def)

lemma decode_args_safe: "decode_args pt pc op i \<noteq> OutOfBounds"
  by (cases "getOpMode op") (auto simp: decode_args_def Let_def verdict_simps check_dest_safe split: if_splits)

lemma modes [simp]:
  "getOpMode OP_GETGLOBAL = iABx" "getOpMode OP_SETGLOBAL = iABx" "getOpMode OP_LOADK = iABx" "getOpMode OP_CLOSURE = iABx"
  "getBMode OP_GETGLOBAL = OpArgK" "getBMode OP_SETGLOBAL = OpArgK" "getBMode OP_LOADK = OpArgK" "getBMode OP_CLOSURE = OpArgU"
  "getOpMode OP_JMP = iAsBx" "getOpMode OP_FORLOOP = iAsBx" "getOpMode OP_FORPREP = iAsBx"
  "getBMode OP_JMP = OpArgR" "getBMode OP_FORLOOP = OpArgR" "getBMode OP_FORPREP = OpArgR"
  by (simp_all add: getOpMode_def getBMode_def luaP_opmodes_def opmode_def)

lemma testTMode_iff: "testTMode op \<longleftrightarrow> op \<in> {OP_EQ, OP_LT, OP_LE, OP_TEST, OP_TESTSET, OP_TFORLOOP}"
  by (cases op) (simp_all add: testTMode_def luaP_opmodes_def opmode_def)

lemma decode_args_global:
  assumes "decode_args pt pc op i = Accepted (b, c)" "op = OP_GETGLOBAL \<or> op = OP_SETGLOBAL \<or> op = OP_LOADK"
  shows "0 \<le> b" "b < sizek pt"
  using assms arg_bounds [of i] by (auto simp: decode_args_def Let_def verdict_simps)

lemma decode_args_nonneg: "decode_args pt pc op i = Accepted (b, c) \<Longrightarrow> getOpMode op \<noteq> iAsBx \<Longrightarrow> 0 \<le> b"
  using arg_bounds [of i] by (cases "getOpMode op") (auto simp: decode_args_def Let_def verdict_simps)

lemma symb_op_safe:
  assumes pt: "prechecked pt" "0 \<le> pc" "pc < sizecode pt" "GET_OPCODE (pcode pt ! nat pc) = Some op"
    and args: "decode_args pt pc op i = Accepted (b, c)"
  shows "symb_op pt lastpc reg pc last' op a b c \<noteq> OutOfBounds"
proof (cases "op = OP_RETURN")
  case True
  then show ?thesis by (simp add: symb_op_def verdict_simps)
next
  case False
  then have n: "pc + 1 < sizecode pt" using not_last [OF pt(1,3)] pt(4) by simp
  have o': "checkopenop pt pc \<noteq> OutOfBounds" by (rule checkopenop_safe [OF pt(2) n])
  have r: "readV (pcode pt) (pc + 1) \<noteq> OutOfBounds" using pt(2) n by (simp add: verdict_simps sizecode_def)
  have k: "readV (kst pt) b \<noteq> OutOfBounds" if "op = OP_GETGLOBAL \<or> op = OP_SETGLOBAL"
    using decode_args_global [OF args] that by (auto simp: verdict_simps sizek_def)
  have q: "readV (protos pt) b \<noteq> OutOfBounds" if "op = OP_CLOSURE" "b < sizep pt"
    using decode_args_nonneg [OF args] that by (auto simp: verdict_simps sizep_def)
  have s: "check_pseudo pt pc (nat (uint w)) \<noteq> OutOfBounds" if "pc + uint w < sizecode pt" for w :: "8 word"
    using check_pseudo_safe [OF pt(2), of "nat (uint w)"] that by simp
  show ?thesis using o' r k q s
    by (cases op) (auto simp: symb_op_def check_call_def Let_def bindV_OutOfBounds checkV_simps)
qed

lemma symb_step_safe:
  assumes "prechecked pt" "0 \<le> pc" "pc < sizecode pt"
  shows "symb_step pt lastpc reg pc last' \<noteq> OutOfBounds"
proof -
  have "readV (pcode pt) pc \<noteq> OutOfBounds" using assms by (simp add: verdict_simps sizecode_def)
  moreover have "check_test pt pc \<noteq> OutOfBounds"
    using assms by (auto simp: check_test_def verdict_simps sizecode_def)
  ultimately show ?thesis
    using assms symb_op_safe [OF assms] decode_args_safe [of pt pc]
    by (auto simp: symb_step_def Let_def bindV_OutOfBounds checkV_simps readV_simps(1) split: option.splits if_splits)
qed

lemma symb_op_last: "symb_op pt lastpc reg pc last' op a b c = Accepted (pc', last'') \<Longrightarrow> last'' = last' \<or> last'' = pc"
  by (cases op) (auto simp: symb_op_def Let_def verdict_simps split: if_splits)

lemma symb_step_last: "symb_step pt lastpc reg pc last' = Accepted (pc', last'') \<Longrightarrow> last'' = last' \<or> last'' = pc"
  by (auto simp: symb_step_def Let_def verdict_simps split: option.splits if_splits dest: symb_op_last)

lemma symb_loop_safe:
  assumes "prechecked pt" "0 \<le> pc" "lastpc \<le> sizecode pt" "0 \<le> last'" "last' < sizecode pt"
  shows "symb_loop pt lastpc reg pc last' \<noteq> OutOfBounds \<and>
    (\<forall>l. symb_loop pt lastpc reg pc last' = Accepted l \<longrightarrow> 0 \<le> l \<and> l < sizecode pt)"
  using assms
proof (induction pt lastpc reg pc last' rule: symb_loop.induct)
  case (1 pt lastpc reg pc last')
  show ?case
  proof (cases "pc < lastpc")
    case True
    then have safe: "symb_step pt lastpc reg pc last' \<noteq> OutOfBounds"
      using "1.prems" by (intro symb_step_safe) auto
    show ?thesis
    proof (cases "symb_step pt lastpc reg pc last'")
      case (Accepted r)
      obtain pc' last'' where r: "r = (pc', last'')" by fastforce
      have "pc \<le> pc'" "last'' = last' \<or> last'' = pc"
        using Accepted r symb_step_pc symb_step_last by blast+
      then show ?thesis
        using "1.IH" [OF True Accepted r [symmetric]] "1.prems" True Accepted r by (subst (1 2) symb_loop.simps) auto
    qed (use True safe in \<open>auto simp: symb_loop.simps\<close>)
  qed (use "1.prems" in \<open>simp add: symb_loop.simps\<close>)
qed

lemma symbexec_safe: "lastpc \<le> sizecode pt \<Longrightarrow> symbexec pt lastpc reg \<noteq> OutOfBounds"
proof -
  assume l: "lastpc \<le> sizecode pt"
  have "symb_loop pt lastpc reg 0 (sizecode pt - 1) \<noteq> OutOfBounds \<and>
    (\<forall>l. symb_loop pt lastpc reg 0 (sizecode pt - 1) = Accepted l \<longrightarrow> 0 \<le> l \<and> l < sizecode pt)"
    if "precheck pt = Accepted ()"
    using that l precheckedD(1) [of pt] by (intro symb_loop_safe) (auto simp: prechecked_def)
  then show ?thesis using precheck_safe [of pt]
    by (auto simp: symbexec_def bindV_OutOfBounds readV_simps sizecode_def)
qed

end
