(* ===== verification/Lua_Verified.thy ===== *)
theory Lua_Verified
  imports Lua_Check
begin

text \<open>
  What the code checker (\<open>Lua_Check\<close>) guarantees: it reads no array out of bounds whatever code it is
  given, and the code it accepts keeps control inside the code, except for one instruction it
  does not check.
\<close>

section \<open>Where the checker goes\<close>

definition next_pc :: "Proto \<Rightarrow> nat \<Rightarrow> nat" where
  "next_pc pt n = (if is_setlist0 (pcode pt ! n) then n + 2 else n + 1)"

inductive visited :: "Proto \<Rightarrow> nat \<Rightarrow> nat \<Rightarrow> bool" for pt m where
  start: "visited pt m m"
| go_on: "visited pt m n \<Longrightarrow> n < length (pcode pt) \<Longrightarrow> visited pt m (next_pc pt n)"

lemma visited_from:
  assumes "visited pt m n"
  shows "n = m \<or> m < length (pcode pt) \<and> visited pt (next_pc pt m) n"
  using assms by (induction rule: visited.induct) (auto intro: visited.intros)

definition step_ok :: "Proto \<Rightarrow> nat \<Rightarrow> bool" where
  "step_ok pt n \<longleftrightarrow> (\<exists>l r. symb_step pt (sizecode pt) NO_REG (int n) l = Accepted r)"

lemma follow_jump_full [simp]: "follow_jump lastpc 255 pc b = pc"
  by (simp add: follow_jump_def)

lemma decode_abc:
  assumes "decode_args pt pc op i = Accepted (b, c)" "getOpMode op = iABC"
  shows "b = GETARG_B i" "c = GETARG_C i" "checkArgMode pt b (getBMode op)" "checkArgMode pt c (getCMode op)"
  using assms by (auto simp: decode_args_def Let_def verdict_simps)

lemma mode_SETLIST [simp]: "getOpMode OP_SETLIST = iABC" "getOpMode OP_LOADBOOL = iABC"
  by (simp_all add: getOpMode_def luaP_opmodes_def opmode_def)

lemma symb_step_full:
  assumes "symb_step pt lastpc NO_REG (int n) l = Accepted (pc', l')"
  shows "pc' + 1 = int (next_pc pt n)"
proof -
  obtain op b c l1 where i: "GET_OPCODE (pcode pt ! n) = Some op" "decode_args pt (int n) op (pcode pt ! n) = Accepted (b, c)"
    "symb_op pt lastpc NO_REG (int n) l1 op (GETARG_A (pcode pt ! n)) b c = Accepted (pc', l')"
    using assms by (auto simp: symb_step_def Let_def verdict_simps split: option.splits)
  have "pc' = (if op = OP_SETLIST \<and> c = 0 then int n + 1 else int n)"
    using i(3) by (cases op) (auto simp: symb_op_def Let_def verdict_simps split: if_splits)
  moreover have "op = OP_SETLIST \<Longrightarrow> c = GETARG_C (pcode pt ! n)"
    using decode_abc(2) [OF i(2)] by simp
  ultimately show ?thesis using i(1) by (auto simp: next_pc_def is_setlist0_def)
qed

lemma symb_loop_visits:
  assumes "symb_loop pt (sizecode pt) NO_REG (int m) l = Accepted l'" "visited pt m n" "n < length (pcode pt)"
  shows "step_ok pt n"
  using assms
proof (induction "length (pcode pt) - m" arbitrary: m l rule: less_induct)
  case less
  show ?case
  proof (cases "m < length (pcode pt)")
    case True
    then obtain pc' l1 where s: "symb_step pt (sizecode pt) NO_REG (int m) l = Accepted (pc', l1)"
      "symb_loop pt (sizecode pt) NO_REG (pc' + 1) l1 = Accepted l'"
      using less.prems(1) symb_loop.simps [of pt "sizecode pt" NO_REG "int m" l]
      by (auto simp: sizecode_def split: verdict.splits)
    have e: "pc' + 1 = int (next_pc pt m)" by (rule symb_step_full [OF s(1)])
    have "m < next_pc pt m" by (simp add: next_pc_def)
    then have "visited pt (next_pc pt m) n \<Longrightarrow> step_ok pt n"
      using less.hyps [of "next_pc pt m" l1] less.prems(3) s(2) True e by simp
    moreover have "n = m \<Longrightarrow> step_ok pt n" using s(1) by (auto simp: step_ok_def)
    ultimately show ?thesis using visited_from [OF less.prems(2)] by blast
  next
    case False
    then show ?thesis using visited_from [OF less.prems(2)] less.prems(3) by auto
  qed
qed

lemma accepted_steps:
  assumes "luaG_checkcode pt = Accepted True"
  shows "prechecked pt" "visited pt 0 n \<Longrightarrow> n < length (pcode pt) \<Longrightarrow> step_ok pt n"
proof -
  obtain l where "precheck pt = Accepted ()" "symb_loop pt (sizecode pt) NO_REG 0 (sizecode pt - 1) = Accepted l"
    using assms by (auto simp: luaG_checkcode_def symbexec_def verdict_simps split: verdict.splits)
  then show "prechecked pt" "visited pt 0 n \<Longrightarrow> n < length (pcode pt) \<Longrightarrow> step_ok pt n"
    using symb_loop_visits [of pt 0 "sizecode pt - 1" l n] by (auto simp: prechecked_def)
qed

section \<open>Where control goes\<close>

text \<open>
  The positions the virtual machine (src/lib/lua/lvm.c) can continue at after the instruction at
  \<open>pc\<close>: a test skips the next instruction or does its jump, the pseudo instructions
  after a CLOSURE are read by it, and so is the count after a SETLIST whose \<open>C\<close> is zero.
\<close>

definition succs :: "Proto \<Rightarrow> int \<Rightarrow> int list" where
  "succs pt pc =
     (let i = pcode pt ! nat pc in
      case GET_OPCODE i of
        None \<Rightarrow> []
      | Some op \<Rightarrow>
          if op = OP_RETURN then []
          else if op = OP_JMP \<or> op = OP_FORPREP then [pc + 1 + GETARG_sBx i]
          else if op = OP_FORLOOP then [pc + 1, pc + 1 + GETARG_sBx i]
          else if testTMode op then [pc + 2, pc + 2 + GETARG_sBx (pcode pt ! nat (pc + 1))]
          else if op = OP_LOADBOOL then [if GETARG_C i \<noteq> 0 then pc + 2 else pc + 1]
          else if op = OP_SETLIST then [if GETARG_C i = 0 then pc + 2 else pc + 1]
          else if op = OP_CLOSURE then [pc + 1 + uint (nups (protos pt ! nat (GETARG_Bx i)))]
          else [pc + 1])"

inductive runs_to :: "Proto \<Rightarrow> int \<Rightarrow> bool" for pt where
  start: "runs_to pt 0"
| step: "runs_to pt pc \<Longrightarrow> pc' \<in> set (succs pt pc) \<Longrightarrow> runs_to pt pc'"

text \<open>What the checker has established of the instruction at a position.\<close>

definition operands_ok :: "Proto \<Rightarrow> nat \<Rightarrow> bool" where
  "operands_ok pt n \<longleftrightarrow>
     (let i = pcode pt ! n in
      case GET_OPCODE i of
        None \<Rightarrow> False
      | Some op \<Rightarrow>
          GETARG_A i < uint (maxstacksize pt) \<and>
          (getOpMode op = iABC \<longrightarrow> checkArgMode pt (GETARG_B i) (getBMode op) \<and> checkArgMode pt (GETARG_C i) (getCMode op)) \<and>
          (getOpMode op = iABx \<longrightarrow> getBMode op = OpArgK \<longrightarrow> GETARG_Bx i < sizek pt) \<and>
          (op = OP_CLOSURE \<longrightarrow> GETARG_Bx i < sizep pt) \<and>
          (op = OP_GETUPVAL \<or> op = OP_SETUPVAL \<longrightarrow> GETARG_B i < uint (nups pt)) \<and>
          (op = OP_GETGLOBAL \<or> op = OP_SETGLOBAL \<longrightarrow> kstring (kst pt ! nat (GETARG_Bx i))))"

section \<open>The checker visits every instruction control can reach\<close>

lemma GETARG_sBx_SETLIST: "is_setlist0 i \<Longrightarrow> GET_OPCODE i = Some OP_SETLIST"
  by (simp add: is_setlist0_def)

text \<open>A position that is not visited is the count of the SETLIST before it.\<close>

lemma visited_or_count:
  "n \<le> length (pcode pt) \<Longrightarrow> visited pt 0 n \<or> (0 < n \<and> visited pt 0 (n - 1) \<and> is_setlist0 (pcode pt ! (n - 1)))"
proof (induction n)
  case (Suc n)
  then have n: "n < length (pcode pt)"
    and IH: "visited pt 0 n \<or> (0 < n \<and> visited pt 0 (n - 1) \<and> is_setlist0 (pcode pt ! (n - 1)))" by auto
  show ?case
  proof (cases "visited pt 0 n")
    case True
    with visited.go_on [OF True n] show ?thesis by (auto simp: next_pc_def split: if_splits)
  next
    case False
    with IH have "0 < n" "visited pt 0 (n - 1)" "is_setlist0 (pcode pt ! (n - 1))" by auto
    then have "visited pt 0 (n + 1)"
      using visited.go_on [of pt 0 "n - 1"] n by (simp add: next_pc_def)
    then show ?thesis by simp
  qed
qed (simp add: visited.start)

lemma setlists_before_spec:
  assumes "setlists_before pt n = Accepted j"
  shows "j \<le> n" "\<And>m. n - j \<le> m \<Longrightarrow> m < n \<Longrightarrow> is_setlist0 (pcode pt ! m)"
    "j < n \<Longrightarrow> \<not> is_setlist0 (pcode pt ! (n - j - 1))"
  using assms
proof (induction n arbitrary: j)
  case (Suc n)
  {
    case 1 then show ?case using Suc.IH(1) by (auto simp: verdict_simps split: if_splits)
  next
    case (2 m)
    then show ?case using Suc.IH(2) [of _ m] by (auto simp: verdict_simps less_Suc_eq split: if_splits)
  next
    case 3
    then show ?case using Suc.IH(3) by (auto simp: verdict_simps split: if_splits)
  }
qed auto

lemma dest_visited:
  assumes "check_dest pt dest = Accepted ()"
  shows "0 \<le> dest" "dest < sizecode pt" "visited pt 0 (nat dest)"
proof -
  show d: "0 \<le> dest" "dest < sizecode pt" using assms by (auto simp: check_dest_def verdict_simps)
  define n where "n = nat dest"
  have n: "n < length (pcode pt)" using d by (simp add: n_def sizecode_def nat_less_iff)
  show "visited pt 0 (nat dest)"
  proof (cases "0 < n")
    case True
    then obtain j where j: "setlists_before pt n = Accepted j" "even j"
      using assms by (auto simp: check_dest_def verdict_simps n_def)
    note spec = setlists_before_spec [OF j(1)]
    have base: "visited pt 0 (n - j)"
    proof (cases "j = n")
      case True then show ?thesis by (simp add: visited.start)
    next
      case False
      with spec(1) have "j < n" by simp
      with spec(3) have q: "\<not> is_setlist0 (pcode pt ! (n - j - 1))" by simp
      have "visited pt 0 (n - j) \<or> (0 < n - j \<and> visited pt 0 (n - j - 1) \<and> is_setlist0 (pcode pt ! (n - j - 1)))"
        using n by (intro visited_or_count) simp
      with q show ?thesis by simp
    qed
    have "visited pt 0 (n - j + 2 * i)" if "2 * i \<le> j" for i
      using that
    proof (induction i)
      case (Suc i)
      then have "visited pt 0 (n - j + 2 * i)" and "is_setlist0 (pcode pt ! (n - j + 2 * i))"
        using spec(1) by (auto intro!: spec(2))
      then show ?case
        using visited.go_on [of pt 0 "n - j + 2 * i"] Suc.prems spec(1) n by (simp add: next_pc_def)
    qed (use base in simp)
    from this [of "j div 2"] j(2) spec(1) show ?thesis by (simp add: n_def)
  next
    case False then show ?thesis by (simp add: n_def [symmetric] visited.start)
  qed
qed

lemma step_okE:
  assumes "step_ok pt n" "n < length (pcode pt)"
  obtains op b c l r where "GET_OPCODE (pcode pt ! n) = Some op"
    "checkreg pt (GETARG_A (pcode pt ! n))"
    "decode_args pt (int n) op (pcode pt ! n) = Accepted (b, c)"
    "testTMode op \<Longrightarrow> check_test pt (int n) = Accepted ()"
    "symb_op pt (sizecode pt) NO_REG (int n) l op (GETARG_A (pcode pt ! n)) b c = Accepted r"
  using assms unfolding step_ok_def symb_step_def
  by (fastforce simp: Let_def verdict_simps split: option.splits if_splits)

lemma decode_jump:
  assumes "decode_args pt pc op i = Accepted (b, c)" "op = OP_JMP \<or> op = OP_FORLOOP \<or> op = OP_FORPREP"
  shows "check_dest pt (pc + 1 + GETARG_sBx i) = Accepted ()"
  using assms by (auto simp: decode_args_def Let_def verdict_simps)

lemma jump_visited:
  assumes "step_ok pt n" "n < length (pcode pt)" "GET_OPCODE (pcode pt ! n) = Some op"
    "op = OP_JMP \<or> op = OP_FORLOOP \<or> op = OP_FORPREP"
  defines "d \<equiv> int n + 1 + GETARG_sBx (pcode pt ! n)"
  shows "0 \<le> d" "d < sizecode pt" "visited pt 0 (nat d)"
proof -
  have "check_dest pt d = Accepted ()"
    using step_okE [OF assms(1,2)] assms(3,4) decode_jump unfolding d_def by (metis option.inject)
  then show "0 \<le> d" "d < sizecode pt" "visited pt 0 (nat d)" using dest_visited by auto
qed

lemma pseudo_visited:
  assumes "check_pseudo pt (int n) k = Accepted ()" "visited pt 0 (n + 1)"
  shows "visited pt 0 (n + 1 + k)"
  using assms
proof (induction k arbitrary: n)
  case (Suc k)
  from Suc.prems(1) have c: "n + 1 < length (pcode pt)"
    "GET_OPCODE (pcode pt ! (n + 1)) = Some OP_GETUPVAL \<or> GET_OPCODE (pcode pt ! (n + 1)) = Some OP_MOVE"
    "check_pseudo pt (int (n + 1)) k = Accepted ()"
    by (auto simp: verdict_simps nat_add_distrib add.commute)
  then have "\<not> is_setlist0 (pcode pt ! (n + 1))" by (auto simp: is_setlist0_def)
  then have "visited pt 0 (n + 1 + 1)"
    using visited.go_on [OF Suc.prems(2) c(1)] by (simp add: next_pc_def)
  with Suc.IH [OF c(3)] show ?case by simp
qed simp

lemma pseudo_last:
  assumes "check_pseudo pt (int n) k = Accepted ()"
  shows "k = 0 \<or> GET_OPCODE (pcode pt ! (n + k)) = Some OP_GETUPVAL \<or> GET_OPCODE (pcode pt ! (n + k)) = Some OP_MOVE"
  using assms
proof (induction k arbitrary: n)
  case (Suc k)
  from Suc.prems have "GET_OPCODE (pcode pt ! (n + 1)) = Some OP_GETUPVAL \<or> GET_OPCODE (pcode pt ! (n + 1)) = Some OP_MOVE"
    "check_pseudo pt (int (n + 1)) k = Accepted ()"
    by (auto simp: verdict_simps nat_add_distrib add.commute)
  with Suc.IH [of "n + 1"] show ?case by (cases k) auto
qed simp

definition loadbool_ok :: "Proto \<Rightarrow> bool" where
  "loadbool_ok pt \<longleftrightarrow> (\<forall>i \<in> set (pcode pt). GET_OPCODE i = Some OP_LOADBOOL \<longrightarrow> GETARG_C i \<le> 1)"

lemma succs_visited:
  assumes acc: "luaG_checkcode pt = Accepted True" and lb: "loadbool_ok pt"
    and v: "visited pt 0 n" "n < length (pcode pt)" and s: "pc' \<in> set (succs pt (int n))"
  shows "0 \<le> pc' \<and> pc' < sizecode pt \<and> visited pt 0 (nat pc')"
proof -
  note pre = accepted_steps(1) [OF acc]
  note ok = accepted_steps(2) [OF acc]
  let ?i = "pcode pt ! n"
  obtain op b c l r where i: "GET_OPCODE ?i = Some op" "decode_args pt (int n) op ?i = Accepted (b, c)"
    "testTMode op \<Longrightarrow> check_test pt (int n) = Accepted ()"
    "symb_op pt (sizecode pt) NO_REG (int n) l op (GETARG_A ?i) b c = Accepted r"
    using step_okE [OF ok [OF v] v(2)] by metis
  have nxt: "visited pt 0 (next_pc pt n)" by (rule visited.go_on [OF v])
  have n1: "n + 1 < length (pcode pt)" if "op \<noteq> OP_RETURN"
    using not_last [OF pre, of "int n"] that i(1) v(2) by (simp add: sizecode_def)
  have ns: "next_pc pt n = n + 1" if "op \<noteq> OP_SETLIST" using that i(1) by (simp add: next_pc_def is_setlist0_def)
  have plain: "?thesis" if "pc' = int n + 1" "op \<noteq> OP_RETURN" "next_pc pt n = n + 1"
    using that nxt n1 by (simp add: sizecode_def nat_add_distrib)
  have jump: ?thesis if "op = OP_JMP \<or> op = OP_FORLOOP \<or> op = OP_FORPREP" "pc' = int n + 1 + GETARG_sBx ?i"
    using jump_visited [OF ok [OF v] v(2) i(1) that(1)] that(2) by simp
  consider "op = OP_RETURN" | "op = OP_JMP \<or> op = OP_FORPREP \<or> op = OP_FORLOOP" | "testTMode op"
    | "op = OP_LOADBOOL" | "op = OP_SETLIST" | "op = OP_CLOSURE"
    | "op \<notin> {OP_RETURN, OP_JMP, OP_FORPREP, OP_FORLOOP, OP_LOADBOOL, OP_SETLIST, OP_CLOSURE} \<and> \<not> testTMode op"
    by blast
  then show ?thesis
  proof cases
    case 1 with s i(1) show ?thesis by (simp add: succs_def)
  next
    case 2 with s i(1) jump plain ns show ?thesis by (auto simp: succs_def testTMode_iff)
  next
    case 3
    then have t: "n + 2 < length (pcode pt)" "GET_OPCODE (pcode pt ! (n + 1)) = Some OP_JMP"
      using i(3) by (auto simp: check_test_def verdict_simps sizecode_def nat_add_distrib)
    have o': "op \<noteq> OP_SETLIST" "op \<noteq> OP_RETURN" "op \<noteq> OP_JMP" "op \<noteq> OP_FORPREP" "op \<noteq> OP_FORLOOP"
      using 3 by (auto simp: testTMode_iff)
    have v1: "visited pt 0 (n + 1)" using nxt ns o' by simp
    have v2: "visited pt 0 (n + 2)"
      using visited.go_on [OF v1] t by (simp add: next_pc_def is_setlist0_def)
    have "pc' = int n + 2 \<or> pc' = int (n + 1) + 1 + GETARG_sBx (pcode pt ! (n + 1))"
      using s i(1) 3 o' by (auto simp: succs_def nat_add_distrib)
    then show ?thesis
      using jump_visited [OF ok [OF v1], of OP_JMP] t v2 by (auto simp: sizecode_def nat_add_distrib)
  next
    case 4
    have c: "c = GETARG_C ?i" using decode_abc(2) [OF i(2)] 4 by simp
    have "GETARG_C ?i \<le> 1" using lb i(1) 4 v(2) by (simp add: loadbool_ok_def)
    then have "GETARG_C ?i = 0 \<or> GETARG_C ?i = 1" using arg_bounds [of ?i] by auto
    then show ?thesis
    proof
      assume "GETARG_C ?i = 0"
      with s i(1) 4 ns plain show ?thesis by (auto simp: succs_def testTMode_iff)
    next
      assume c1: "GETARG_C ?i = 1"
      then have t: "n + 2 < length (pcode pt)" "\<not> is_setlist0 (pcode pt ! (n + 1))"
        using i(4) 4 c by (auto simp: symb_op_def verdict_simps sizecode_def is_setlist0_def nat_add_distrib)
      have "visited pt 0 (n + 1)" using nxt ns 4 by simp
      from visited.go_on [OF this] t have "visited pt 0 (n + 2)" by (simp add: next_pc_def)
      then show ?thesis using s i(1) 4 c1 t(1) by (auto simp: succs_def testTMode_iff sizecode_def nat_add_distrib)
    qed
  next
    case 5
    have c: "c = GETARG_C ?i" using decode_abc(2) [OF i(2)] 5 by simp
    show ?thesis
    proof (cases "c = 0")
      case True
      then have "int n + 1 < sizecode pt - 1" using i(4) 5 by (auto simp: symb_op_def verdict_simps split: if_splits)
      then show ?thesis using s i(1) 5 True c nxt
        by (auto simp: succs_def testTMode_iff next_pc_def is_setlist0_def sizecode_def nat_add_distrib)
    next
      case False
      then show ?thesis using s i(1) 5 c plain by (auto simp: succs_def testTMode_iff next_pc_def is_setlist0_def)
    qed
  next
    case 6
    have b: "b = GETARG_Bx ?i" using i(2) 6 by (auto simp: decode_args_def Let_def verdict_simps)
    let ?k = "uint (nups (protos pt ! nat b))"
    have k: "int n + ?k < sizecode pt" "check_pseudo pt (int n) (nat ?k) = Accepted ()"
      using i(4) 6 by (auto simp: symb_op_def Let_def verdict_simps)
    have v1: "visited pt 0 (n + 1 + nat ?k)" using pseudo_visited [OF k(2)] nxt ns 6 by simp
    have r: "GET_OPCODE (pcode pt ! (n + nat ?k)) \<noteq> Some OP_RETURN"
      using pseudo_last [OF k(2)] 6 i(1) by auto
    have "int (n + nat ?k) + 1 < sizecode pt"
      using not_last [OF pre, of "int (n + nat ?k)"] k(1) r by (simp add: nat_add_distrib)
    then show ?thesis using v1 s i(1) 6 b by (auto simp: succs_def testTMode_iff nat_add_distrib add.assoc)
  next
    case 7 with s i(1) ns plain show ?thesis by (auto simp: succs_def)
  qed
qed

lemma step_ok_operands:
  assumes "step_ok pt n" "n < length (pcode pt)"
  shows "operands_ok pt n"
proof -
  let ?i = "pcode pt ! n"
  obtain op b c l r where i: "GET_OPCODE ?i = Some op" "checkreg pt (GETARG_A ?i)"
    "decode_args pt (int n) op ?i = Accepted (b, c)"
    "symb_op pt (sizecode pt) NO_REG (int n) l op (GETARG_A ?i) b c = Accepted r"
    using step_okE [OF assms] by metis
  have x: "b = GETARG_Bx ?i" "getBMode op = OpArgK \<Longrightarrow> GETARG_Bx ?i < sizek pt" if "getOpMode op = iABx"
    using i(3) that by (auto simp: decode_args_def Let_def verdict_simps)
  have m: "getOpMode OP_GETUPVAL = iABC" "getOpMode OP_SETUPVAL = iABC"
    by (simp_all add: getOpMode_def luaP_opmodes_def opmode_def)
  have "GETARG_B ?i < uint (nups pt)" if "op = OP_GETUPVAL \<or> op = OP_SETUPVAL"
    using i(4) decode_abc(1) [OF i(3)] that m by (auto simp: symb_op_def verdict_simps)
  moreover have "kstring (kst pt ! nat (GETARG_Bx ?i))" if "op = OP_GETGLOBAL \<or> op = OP_SETGLOBAL"
    using i(4) x(1) that by (auto simp: symb_op_def verdict_simps)
  moreover have "GETARG_Bx ?i < sizep pt" if "op = OP_CLOSURE"
    using i(4) x(1) that by (auto simp: symb_op_def Let_def verdict_simps)
  moreover have "checkArgMode pt (GETARG_B ?i) (getBMode op) \<and> checkArgMode pt (GETARG_C ?i) (getCMode op)" if "getOpMode op = iABC"
    using decode_abc [OF i(3) that] by simp
  ultimately show ?thesis
    using i x(2) by (auto simp: operands_ok_def Let_def checkreg_def)
qed

lemma runs_to_visited:
  assumes "luaG_checkcode pt = Accepted True" "loadbool_ok pt" "runs_to pt pc"
  shows "0 \<le> pc \<and> pc < sizecode pt \<and> visited pt 0 (nat pc)"
  using assms(3)
proof (induction rule: runs_to.induct)
  case start
  show ?case using precheckedD(1) [OF accepted_steps(1) [OF assms(1)]] by (simp add: visited.start)
next
  case (step pc pc')
  then show ?case using succs_visited [OF assms(1,2), of "nat pc" pc'] by (auto simp: sizecode_def nat_less_iff)
qed

section \<open>What the checker does not see\<close>

text \<open>
  Two codes that differ only in the \<open>C\<close> of instructions LOADBOOL, none of them one, are the same to
  the checker.
\<close>

definition with_code :: "Instruction list \<Rightarrow> Proto \<Rightarrow> Proto" where
  "with_code cs pt =
     Proto (kst pt) cs (protos pt) (plineinfo pt) (plocvars pt) (pupvalues pt) (psource pt)
       (linedefined pt) (lastlinedefined pt) (nups pt) (numparams pt) (is_vararg pt) (maxstacksize pt)"

lemma with_code_sel [simp]:
  "pcode (with_code cs pt) = cs" "kst (with_code cs pt) = kst pt" "protos (with_code cs pt) = protos pt"
  "nups (with_code cs pt) = nups pt" "numparams (with_code cs pt) = numparams pt" "is_vararg (with_code cs pt) = is_vararg pt"
  "maxstacksize (with_code cs pt) = maxstacksize pt" "sizek (with_code cs pt) = sizek pt" "sizep (with_code cs pt) = sizep pt"
  "sizeupvalues (with_code cs pt) = sizeupvalues pt" "sizelineinfo (with_code cs pt) = sizelineinfo pt"
  "sizecode (with_code cs pt) = int (length cs)"
  by (simp_all add: with_code_def sizek_def sizep_def sizeupvalues_def sizelineinfo_def sizecode_def)

definition alike :: "Instruction \<Rightarrow> Instruction \<Rightarrow> bool" where
  "alike i j \<longleftrightarrow> i = j \<or>
     (GET_OPCODE i = Some OP_LOADBOOL \<and> GET_OPCODE j = Some OP_LOADBOOL \<and> GETARG_A i = GETARG_A j \<and>
      GETARG_B i = GETARG_B j \<and> GETARG_C i \<noteq> 1 \<and> GETARG_C j \<noteq> 1)"

lemma alike_fields:
  assumes "alike i j"
  shows "GET_OPCODE j = GET_OPCODE i" "GETARG_A j = GETARG_A i" "is_setlist0 j = is_setlist0 i"
    "luaG_checkopenop j = luaG_checkopenop i" "GET_OPCODE i \<noteq> Some OP_LOADBOOL \<Longrightarrow> j = i"
    "(GET_OPCODE j \<noteq> Some OP_SETLIST \<or> GETARG_C j \<noteq> 0) = (GET_OPCODE i \<noteq> Some OP_SETLIST \<or> GETARG_C i \<noteq> 0)"
  using assms by (auto simp: alike_def is_setlist0_def luaG_checkopenop_def)

lemma bind_read_alike:
  assumes "list_all2 alike xs ys" "\<And>i j. alike i j \<Longrightarrow> g j = f i"
  shows "bindV (readV ys k) g = bindV (readV xs k) f"
  using assms by (auto simp: readV_def list_all2_conv_all_nth)

lemma arg_modes [simp]:
  "checkArgMode (with_code cs pt) = checkArgMode pt" "checkreg (with_code cs pt) = checkreg pt"
  by (simp_all add: fun_eq_iff checkArgMode_def checkreg_def split: OpArgMask.split)

lemma checks_alike:
  assumes "list_all2 alike (pcode pt) cs"
  shows "checkopenop (with_code cs pt) pc = checkopenop pt pc" "setlists_before (with_code cs pt) n = setlists_before pt n"
    "check_dest (with_code cs pt) pc = check_dest pt pc" "check_pseudo (with_code cs pt) pc n = check_pseudo pt pc n"
    "check_test (with_code cs pt) pc = check_test pt pc" "precheck (with_code cs pt) = precheck pt"
proof -
  note b = bind_read_alike [OF assms]
  have len: "int (length cs) = sizecode pt" using assms by (simp add: list_all2_lengthD sizecode_def)
  show "checkopenop (with_code cs pt) pc = checkopenop pt pc"
    unfolding checkopenop_def with_code_sel by (rule b) (simp add: alike_fields)
  show sb: "setlists_before (with_code cs pt) n = setlists_before pt n" for n
  proof (induction n)
    case (Suc n)
    show ?case unfolding setlists_before.simps with_code_sel by (rule b) (simp add: alike_fields Suc)
  qed simp
  show "check_dest (with_code cs pt) pc = check_dest pt pc" by (simp add: check_dest_def sb len)
  show "check_pseudo (with_code cs pt) pc n = check_pseudo pt pc n"
  proof (induction n arbitrary: pc)
    case (Suc n)
    show ?case unfolding check_pseudo.simps with_code_sel by (rule b) (simp add: alike_fields Suc)
  qed simp
  have "bindV (readV cs (pc + 1)) (\<lambda>i. checkV (GET_OPCODE i = Some OP_JMP)) =
      bindV (readV (pcode pt) (pc + 1)) (\<lambda>i. checkV (GET_OPCODE i = Some OP_JMP))"
    by (rule b) (simp add: alike_fields)
  then show "check_test (with_code cs pt) pc = check_test pt pc" by (simp add: check_test_def len)
  have "bindV (readV cs (sizecode pt - 1)) (\<lambda>i. checkV (GET_OPCODE i = Some OP_RETURN)) =
      bindV (readV (pcode pt) (sizecode pt - 1)) (\<lambda>i. checkV (GET_OPCODE i = Some OP_RETURN))"
    by (rule b) (simp add: alike_fields)
  then show "precheck (with_code cs pt) = precheck pt" by (simp add: precheck_def len)
qed

lemma symb_op_alike:
  assumes "list_all2 alike (pcode pt) cs"
  shows "symb_op (with_code cs pt) lastpc reg pc l op a b c = symb_op pt lastpc reg pc l op a b c"
proof -
  have len: "int (length cs) = sizecode pt" using assms by (simp add: list_all2_lengthD sizecode_def)
  have "bindV (readV cs (pc + 1)) (\<lambda>i. bindV (checkV (GET_OPCODE i \<noteq> Some OP_SETLIST \<or> GETARG_C i \<noteq> 0)) (\<lambda>_. Accepted (pc, l))) =
      bindV (readV (pcode pt) (pc + 1)) (\<lambda>i. bindV (checkV (GET_OPCODE i \<noteq> Some OP_SETLIST \<or> GETARG_C i \<noteq> 0)) (\<lambda>_. Accepted (pc, l)))"
    by (rule bind_read_alike [OF assms]) (drule alike_fields(6), simp)
  then show ?thesis
    by (cases op) (simp_all add: symb_op_def check_call_def checks_alike [OF assms] len)
qed

lemma symb_step_alike:
  assumes "list_all2 alike (pcode pt) cs"
  shows "symb_step (with_code cs pt) lastpc reg pc l = symb_step pt lastpc reg pc l"
  unfolding symb_step_def with_code_sel
proof (rule bind_read_alike [OF assms], goal_cases)
  case (1 i j)
  note F = alike_fields [OF 1]
  show ?case
  proof (cases "GET_OPCODE i = Some OP_LOADBOOL")
    case True
    have m: "getBMode OP_LOADBOOL = OpArgU" "getCMode OP_LOADBOOL = OpArgU" "\<not> testTMode OP_LOADBOOL"
      by (simp_all add: getBMode_def getCMode_def testTMode_def luaP_opmodes_def opmode_def)
    have d: "decode_args p q OP_LOADBOOL w = Accepted (GETARG_B w, GETARG_C w)" for p q w
      by (simp add: decode_args_def Let_def m checkArgMode_def checkV_def)
    have s: "symb_op p lastpc reg pc l1 OP_LOADBOOL x y z = Accepted (pc, l1)" if "z \<noteq> 1" for p l1 x y z
      using that by (simp add: symb_op_def)
    show ?thesis
    proof (cases "i = j")
      case True
      then show ?thesis using \<open>GET_OPCODE i = _\<close> by (simp add: Let_def d m symb_op_alike [OF assms])
    next
      case False
      then have "GETARG_C i \<noteq> 1" "GETARG_C j \<noteq> 1" using 1 by (auto simp: alike_def)
      then show ?thesis using True F(1,2) by (simp add: Let_def d m s)
    qed
  next
    case False
    then have "j = i" by (rule F(5))
    moreover have "decode_args (with_code cs pt) pc op i = decode_args pt pc op i" for op
      by (simp add: decode_args_def Let_def checks_alike [OF assms] split: OpMode.split)
    ultimately show ?thesis
      by (simp add: Let_def checks_alike [OF assms] symb_op_alike [OF assms] split: option.split)
  qed
qed

lemma symb_loop_alike:
  assumes "list_all2 alike (pcode pt) cs"
  shows "symb_loop (with_code cs pt) lastpc reg pc l = symb_loop pt lastpc reg pc l"
proof (induction "nat (lastpc - pc)" arbitrary: pc l rule: less_induct)
  case less
  have "symb_loop (with_code cs pt) lastpc reg (pc' + 1) l' = symb_loop pt lastpc reg (pc' + 1) l'"
    if "pc < lastpc" "symb_step pt lastpc reg pc l = Accepted (pc', l')" for pc' l'
    using less.hyps [of "pc' + 1" l'] symb_step_pc [OF that(2)] that(1) by simp
  then show ?case
    unfolding symb_loop.simps [of "with_code cs pt" lastpc reg pc l] symb_loop.simps [of pt lastpc reg pc l]
      symb_step_alike [OF assms]
    by (auto split: verdict.split)
qed

lemma alike_nonzero:
  assumes "alike i j" "i \<noteq> 0"
  shows "j \<noteq> 0"
proof -
  have "GET_OPCODE 0 = Some OP_MOVE"
    by (simp add: GET_OPCODE_def getfield_def op_of_num_def opcodes_def)
  then show ?thesis using assms by (auto simp: alike_def)
qed

lemma luaG_checkcode_alike:
  assumes "list_all2 alike (pcode pt) cs" "luaG_checkcode pt = Accepted True"
  shows "luaG_checkcode (with_code cs pt) = Accepted True"
proof -
  have len: "int (length cs) = sizecode pt" using assms(1) by (simp add: list_all2_lengthD sizecode_def)
  obtain l where l: "precheck pt = Accepted ()" "symb_loop pt (sizecode pt) NO_REG 0 (sizecode pt - 1) = Accepted l"
    "0 \<le> l" "l < sizecode pt" "pcode pt ! nat l \<noteq> 0"
    using assms(2) by (auto simp: luaG_checkcode_def symbexec_def verdict_simps sizecode_def split: verdict.splits)
  have "nat l < length (pcode pt)" using l(3,4) by (simp add: sizecode_def nat_less_iff)
  then have "cs ! nat l \<noteq> 0" using alike_nonzero l(5) assms(1) by (auto simp: list_all2_conv_all_nth)
  then show ?thesis
    using l len by (simp add: luaG_checkcode_def symbexec_def checks_alike [OF assms(1)] symb_loop_alike [OF assms(1)] readV_def)
qed

text \<open>A larger \<open>C\<close> in a LOADBOOL whose \<open>C\<close> is zero.\<close>

definition patch_C :: "Proto \<Rightarrow> nat \<Rightarrow> int \<Rightarrow> Proto" where
  "patch_C pt n c = with_code ((pcode pt)[n := SETARG_C (pcode pt ! n) c]) pt"

lemma SETARG_C_fields:
  fixes c :: "9 word"
  shows "GET_OPCODE (SETARG_C i (uint c)) = GET_OPCODE i" "GETARG_A (SETARG_C i (uint c)) = GETARG_A i"
    "GETARG_B (SETARG_C i (uint c)) = GETARG_B i" "GETARG_C (SETARG_C i (uint c)) = uint c"
  by (simp_all add: field_simps_op get_set_same get_set_other args_of_words)

lemma patch_alike:
  fixes c :: "9 word"
  assumes "GET_OPCODE (pcode pt ! n) = Some OP_LOADBOOL" "GETARG_C (pcode pt ! n) = 0" "2 \<le> uint c"
  shows "list_all2 alike (pcode pt) ((pcode pt)[n := SETARG_C (pcode pt ! n) (uint c)])"
proof -
  have "alike (pcode pt ! m) ((pcode pt)[n := SETARG_C (pcode pt ! n) (uint c)] ! m)" if "m < length (pcode pt)" for m
    using assms that by (cases "m = n") (simp_all add: alike_def SETARG_C_fields)
  then show ?thesis by (simp add: list_all2_conv_all_nth)
qed

lemma patch_succs:
  assumes "luaG_checkcode pt = Accepted True" "loadbool_ok pt" "runs_to pt pc" "pc \<noteq> int n"
    "GET_OPCODE (pcode pt ! n) = Some OP_LOADBOOL"
  shows "succs (patch_C pt n c) pc = succs pt pc"
proof -
  obtain m where m: "pc = int m" "m < length (pcode pt)" "visited pt 0 m" "m \<noteq> n"
    using runs_to_visited [OF assms(1,2,3)] assms(4) by (metis nat_0_le int_nat_eq nat_less_iff sizecode_def)
  obtain op where op: "GET_OPCODE (pcode pt ! m) = Some op" "testTMode op \<Longrightarrow> check_test pt (int m) = Accepted ()"
    using step_okE [OF accepted_steps(2) [OF assms(1) m(3,2)] m(2)] by metis
  have "testTMode op \<Longrightarrow> nat (pc + 1) \<noteq> n"
    using op(2) assms(5) m(1) by (auto simp: check_test_def verdict_simps)
  then show ?thesis using m op(1) by (cases "testTMode op") (simp_all add: succs_def patch_C_def Let_def testTMode_iff)
qed

lemma patch_runs:
  assumes "luaG_checkcode pt = Accepted True" "loadbool_ok pt" "GET_OPCODE (pcode pt ! n) = Some OP_LOADBOOL"
    "runs_to pt pc"
  shows "runs_to (patch_C pt n c) pc \<or> runs_to (patch_C pt n c) (int n)"
  using assms(4)
proof (induction rule: runs_to.induct)
  case start
  show ?case by (simp add: runs_to.start)
next
  case (step pc pc')
  show ?case
  proof (cases "pc = int n")
    case True
    then show ?thesis using step.IH by blast
  next
    case False
    then have "pc' \<in> set (succs (patch_C pt n c) pc)"
      using patch_succs [OF assms(1,2) step.hyps(1) _ assms(3)] step.hyps(2) by simp
    then show ?thesis using step.IH runs_to.step by blast
  qed
qed

section \<open>Properties\<close>

text \<open>C27: The code checker is safe on any prototype, whatever its code, constants and nested
  prototypes are: \<^verbatim>\<open>luaG_checkcode\<close> ends and never reads an array out of bounds, and so does the
  traced execution that looks for the name of a register.\<close>

theorem luaG_checkcode_reads_inside:
  "(\<exists>ok. luaG_checkcode pt = Accepted ok) \<and> symbexec pt (min lastpc (sizecode pt)) reg \<noteq> OutOfBounds"
  using symbexec_safe [of "sizecode pt" pt NO_REG] symbexec_safe [of "min lastpc (sizecode pt)" pt reg]
  by (auto simp: luaG_checkcode_def split: verdict.splits)

text \<open>C24: Code the checker accepts is safe to run: provided no LOADBOOL has a \<open>C\<close> above one (the
  compiler writes no other), control stays inside the code whatever the tests decide, never runs
  into the count of a SETLIST, and every instruction it reaches has an opcode and its registers,
  constants, upvalues and prototypes inside the function.\<close>

theorem luaG_checkcode_sound:
  assumes "luaG_checkcode pt = Accepted True" "loadbool_ok pt" "runs_to pt pc"
  shows "0 \<le> pc \<and> pc < sizecode pt \<and> operands_ok pt (nat pc)"
  using runs_to_visited [OF assms] accepted_steps(2) [OF assms(1), of "nat pc"] step_ok_operands
  by (simp add: sizecode_def nat_less_iff)

definition sample_proto :: "Instruction list \<Rightarrow> Proto" where
  "sample_proto c = Proto [Some (TString ''print'')] c [] [] [] [] (Some ''=chunk'') 0 0 0 0 2 2"

definition sample_code :: "Instruction list" where
  "sample_code = [CREATE_ABx OP_GETGLOBAL 0 0, CREATE_ABC OP_TEST 0 0 1, CREATE_ABx OP_JMP 0 (MAXARG_sBx - 3), CREATE_ABC OP_RETURN 0 1 0]"

lemma sample_accepted: "luaG_checkcode (sample_proto sample_code) = Accepted True"
  by code_simp

theorem luaG_checkcode_sound_witness: "operands_ok (sample_proto sample_code) 3"
proof -
  have "runs_to (sample_proto sample_code) 0" by (rule runs_to.start)
  then have "runs_to (sample_proto sample_code) 1" by (rule runs_to.step) code_simp
  then have "runs_to (sample_proto sample_code) 3" by (rule runs_to.step) code_simp
  moreover have "loadbool_ok (sample_proto sample_code)" by code_simp
  ultimately show ?thesis using luaG_checkcode_sound [OF sample_accepted] by force
qed

text \<open>C28: The exception is real, and everywhere: the checker tests \<^verbatim>\<open>c == 1\<close> where the virtual machine
  skips an instruction whenever \<open>C\<close> is not zero. Take any accepted function (its LOADBOOLs with
  \<open>C\<close> at most one) that can reach a LOADBOOL with \<open>C = 0\<close> and write any number from 2 to 511 into
  that \<open>C\<close>. The checker still accepts the function, and control still reaches the LOADBOOL but now
  goes on two instructions later; when only the final RETURN follows, that is beyond the end of the code.\<close>

theorem luaG_checkcode_loadbool_escapes:
  fixes c :: "9 word"
  assumes "luaG_checkcode pt = Accepted True" "loadbool_ok pt" "runs_to pt (int n)"
    "GET_OPCODE (pcode pt ! n) = Some OP_LOADBOOL" "GETARG_C (pcode pt ! n) = 0" "2 \<le> uint c"
  shows "luaG_checkcode (patch_C pt n (uint c)) = Accepted True \<and> runs_to (patch_C pt n (uint c)) (int n + 2) \<and>
    (int n + 2 = sizecode pt \<longrightarrow> runs_to (patch_C pt n (uint c)) (sizecode (patch_C pt n (uint c))))"
proof -
  have n: "n < length (pcode pt)" using runs_to_visited [OF assms(1,2,3)] by (simp add: sizecode_def)
  have acc: "luaG_checkcode (patch_C pt n (uint c)) = Accepted True"
    unfolding patch_C_def by (rule luaG_checkcode_alike [OF patch_alike [OF assms(4,5,6)] assms(1)])
  have "runs_to (patch_C pt n (uint c)) (int n)" using patch_runs [OF assms(1,2,4,3)] by blast
  moreover have "int n + 2 \<in> set (succs (patch_C pt n (uint c)) (int n))"
    using assms(4,6) n by (auto simp: succs_def patch_C_def Let_def SETARG_C_fields testTMode_iff)
  ultimately have "runs_to (patch_C pt n (uint c)) (int n + 2)" by (rule runs_to.step)
  with acc show ?thesis by (auto simp: patch_C_def sizecode_def)
qed

theorem luaG_checkcode_loadbool_escapes_witness:
  "runs_to (patch_C (sample_proto [CREATE_ABC OP_LOADBOOL 0 1 0, CREATE_ABC OP_RETURN 0 1 0]) 0 2) 2"
proof -
  let ?pt = "sample_proto [CREATE_ABC OP_LOADBOOL 0 1 0, CREATE_ABC OP_RETURN 0 1 0]"
  have "luaG_checkcode ?pt = Accepted True" by code_simp
  moreover have "loadbool_ok ?pt" by code_simp
  moreover have "runs_to ?pt (int 0)" by (simp add: runs_to.start)
  moreover have "GET_OPCODE (pcode ?pt ! 0) = Some OP_LOADBOOL" by code_simp
  moreover have "GETARG_C (pcode ?pt ! 0) = 0" by code_simp
  ultimately show ?thesis using luaG_checkcode_loadbool_escapes [of ?pt 0 2] by simp
qed

end
