(* ===== verification/Lua_Names.thy ===== *)
theory Lua_Names
  imports Lua_Verified
begin

text \<open>
  The name of a register for an error message: \<^verbatim>\<open>kname\<close> and \<^verbatim>\<open>getobjname\<close> of src/lib/lua/ldebug.c for a
  frame that runs the prototype \<open>pt\<close> and is at \<open>pc\<close>. The traced execution finds the instruction
  that set the register last; a MOVE from a lower register is followed to that register.
\<close>

section \<open>The instruction that is found\<close>

definition found_ok :: "Proto \<Rightarrow> int \<Rightarrow> int \<Rightarrow> int \<Rightarrow> bool" where
  "found_ok pt lastpc reg l \<longleftrightarrow>
     GET_OPCODE (pcode pt ! nat l) = Some OP_RETURN \<or>
     (GET_OPCODE (pcode pt ! nat l) = Some OP_MOVE \<longrightarrow> GETARG_A (pcode pt ! nat l) = reg) \<and>
     (\<exists>l0 r. symb_step pt lastpc reg l l0 = Accepted r)"

lemma symb_op_move: "symb_op pt lastpc reg pc last' OP_MOVE a b c = Accepted (pc', l) \<Longrightarrow> l = last'"
  by (simp add: symb_op_def)

lemma symb_step_found:
  assumes "symb_step pt lastpc reg pc last' = Accepted (pc', l)" "found_ok pt lastpc reg last'"
  shows "found_ok pt lastpc reg l"
proof -
  obtain op b c where i: "GET_OPCODE (pcode pt ! nat pc) = Some op"
    "symb_op pt lastpc reg pc (if testAMode op \<and> GETARG_A (pcode pt ! nat pc) = reg then pc else last') op
       (GETARG_A (pcode pt ! nat pc)) b c = Accepted (pc', l)"
    using assms(1) by (auto simp: symb_step_def Let_def verdict_simps split: option.splits)
  show ?thesis
  proof (cases "l = last'")
    case False
    then have l: "l = pc" using symb_step_last [OF assms(1)] by simp
    have "op = OP_MOVE \<Longrightarrow> GETARG_A (pcode pt ! nat pc) = reg"
      using symb_op_move i(2) l False by (auto split: if_splits)
    then show ?thesis using assms(1) i(1) l by (auto simp: found_ok_def)
  qed (use assms in simp)
qed

lemma symb_loop_found:
  "symb_loop pt lastpc reg pc last' = Accepted l \<Longrightarrow> found_ok pt lastpc reg last' \<Longrightarrow> found_ok pt lastpc reg l"
proof (induction pt lastpc reg pc last' rule: symb_loop.induct)
  case (1 pt lastpc reg pc last')
  show ?case
  proof (cases "pc < lastpc")
    case True
    then obtain pc' l1 where s: "symb_step pt lastpc reg pc last' = Accepted (pc', l1)"
      "symb_loop pt lastpc reg (pc' + 1) l1 = Accepted l"
      using "1.prems"(1) symb_loop.simps [of pt lastpc reg pc last'] by (auto split: verdict.splits)
    from symb_step_found [OF s(1) "1.prems"(2)] show ?thesis
      using "1.IH" [OF True s(1) refl s(2)] by simp
  qed (use "1.prems" in \<open>simp add: symb_loop.simps\<close>)
qed

lemma symbexec_found:
  assumes "symbexec pt lastpc reg = Accepted i"
  shows "\<exists>l. i = pcode pt ! nat l \<and> 0 \<le> l \<and> l < sizecode pt \<and> found_ok pt lastpc reg l"
proof -
  obtain l where l: "precheck pt = Accepted ()" "symb_loop pt lastpc reg 0 (sizecode pt - 1) = Accepted l"
    "readV (pcode pt) l = Accepted i"
    using assms by (auto simp: symbexec_def bindV_Accepted)
  have "found_ok pt lastpc reg (sizecode pt - 1)"
    using precheckedD(2) [of pt] l(1) by (simp add: found_ok_def prechecked_def)
  then show ?thesis using symb_loop_found [OF l(2)] l(3) by (auto simp: readV_simps sizecode_def)
qed

lemma symbexec_move:
  assumes "symbexec pt lastpc reg = Accepted i" "GET_OPCODE i = Some OP_MOVE"
  shows "GETARG_A i = reg"
  using symbexec_found [OF assms(1)] assms(2) by (auto simp: found_ok_def)

section \<open>getobjname\<close>

definition kname :: "Proto \<Rightarrow> int \<Rightarrow> string option verdict" where
  "kname pt c =
     (if ISK c then
        bindV (readV (kst pt) (INDEXK c)) (\<lambda>o'. case o' of
          Some (TString s) \<Rightarrow> Accepted (Some s)
        | None \<Rightarrow> Accepted None
        | _ \<Rightarrow> Accepted (Some ''?''))
      else Accepted (Some ''?''))"

definition kvalue :: "TValue option \<Rightarrow> string option" where
  "kvalue o' = (case o' of Some (TString s) \<Rightarrow> Some s | _ \<Rightarrow> None)"

text \<open>A failed trace gives the word zero, a MOVE from register 0 to itself, which has no name.\<close>

function getobjname :: "Proto \<Rightarrow> int \<Rightarrow> int \<Rightarrow> (string \<times> string option) option verdict" where
  "getobjname pt pc stackpos =
     (case luaF_getlocalname pt (stackpos + 1) pc of
        Some name \<Rightarrow> Accepted (Some (''local'', name))
      | None \<Rightarrow>
        (case symbexec pt pc stackpos of
           OutOfBounds \<Rightarrow> OutOfBounds
         | Rejected \<Rightarrow> Accepted None
         | Accepted i \<Rightarrow>
             (case GET_OPCODE i of
                Some OP_GETGLOBAL \<Rightarrow>
                  bindV (readV (kst pt) (GETARG_Bx i)) (\<lambda>k. Accepted (Some (''global'', kvalue k)))
              | Some OP_MOVE \<Rightarrow>
                  if GETARG_B i < GETARG_A i then getobjname pt pc (GETARG_B i) else Accepted None
              | Some OP_GETTABLE \<Rightarrow> bindV (kname pt (GETARG_C i)) (\<lambda>s. Accepted (Some (''field'', s)))
              | Some OP_GETUPVAL \<Rightarrow>
                  if pupvalues pt \<noteq> [] then
                    bindV (readV (pupvalues pt) (GETARG_B i)) (\<lambda>s. Accepted (Some (''upvalue'', s)))
                  else Accepted (Some (''upvalue'', Some ''?''))
              | Some OP_SELF \<Rightarrow> bindV (kname pt (GETARG_C i)) (\<lambda>s. Accepted (Some (''method'', s)))
              | _ \<Rightarrow> Accepted None)))"
  by pat_completeness auto
termination
  by (relation "measure (\<lambda>(pt, pc, stackpos). nat stackpos)")
    (auto dest!: symbexec_move simp: nat_mono_iff intro: le_less_trans [OF arg_bounds(3)])

declare getobjname.simps [simp del]

section \<open>The reads for a name\<close>

lemma kname_safe: "checkArgMode pt c OpArgK \<Longrightarrow> 0 \<le> c \<Longrightarrow> kname pt c \<noteq> OutOfBounds"
  by (auto simp: kname_def checkArgMode_def bindV_OutOfBounds readV_simps sizek_def INDEXK_def
      split: option.splits TValue.splits if_splits)

lemma modes_names [simp]:
  "getOpMode OP_GETTABLE = iABC" "getOpMode OP_SELF = iABC" "getCMode OP_GETTABLE = OpArgK" "getCMode OP_SELF = OpArgK"
  "getOpMode OP_GETUPVAL = iABC"
  by (simp_all add: getOpMode_def getCMode_def luaP_opmodes_def opmode_def)

lemma found_operands:
  assumes "symb_step pt lastpc reg l l0 = Accepted r" "0 \<le> l" "l < sizecode pt"
  defines "i \<equiv> pcode pt ! nat l"
  shows "GET_OPCODE i = Some OP_GETGLOBAL \<Longrightarrow> GETARG_Bx i < sizek pt"
    "GET_OPCODE i = Some OP_GETTABLE \<or> GET_OPCODE i = Some OP_SELF \<Longrightarrow> checkArgMode pt (GETARG_C i) OpArgK"
    "GET_OPCODE i = Some OP_GETUPVAL \<Longrightarrow> GETARG_B i < uint (nups pt)"
proof -
  obtain op b c l1 where d: "GET_OPCODE i = Some op" "decode_args pt l op i = Accepted (b, c)"
    "symb_op pt lastpc reg l l1 op (GETARG_A i) b c = Accepted r"
    using assms(1) by (auto simp: symb_step_def i_def Let_def verdict_simps split: option.splits)
  show "GET_OPCODE i = Some OP_GETGLOBAL \<Longrightarrow> GETARG_Bx i < sizek pt"
    using d(1,2) by (auto simp: decode_args_def Let_def verdict_simps)
  show "GET_OPCODE i = Some OP_GETTABLE \<or> GET_OPCODE i = Some OP_SELF \<Longrightarrow> checkArgMode pt (GETARG_C i) OpArgK"
    using decode_abc [OF d(2)] d(1) by auto
  show "GET_OPCODE i = Some OP_GETUPVAL \<Longrightarrow> GETARG_B i < uint (nups pt)"
    using decode_abc(1) [OF d(2)] d(1,3) by (auto simp: symb_op_def verdict_simps)
qed

lemma getobjname_safe:
  assumes "pc \<le> sizecode pt" "pupvalues pt = [] \<or> sizeupvalues pt = uint (nups pt)"
  shows "getobjname pt pc stackpos \<noteq> OutOfBounds"
  using assms
proof (induction pt pc stackpos rule: getobjname.induct)
  case (1 pt pc stackpos)
  show ?case
  proof (cases "luaF_getlocalname pt (stackpos + 1) pc")
    case None
    show ?thesis
    proof (cases "symbexec pt pc stackpos")
      case (Accepted i)
      obtain l where l: "i = pcode pt ! nat l" "0 \<le> l" "l < sizecode pt" "found_ok pt pc stackpos l"
        using symbexec_found [OF Accepted] by blast
      have f: "GET_OPCODE i = Some OP_GETGLOBAL \<Longrightarrow> GETARG_Bx i < sizek pt"
        "GET_OPCODE i = Some OP_GETTABLE \<or> GET_OPCODE i = Some OP_SELF \<Longrightarrow> checkArgMode pt (GETARG_C i) OpArgK"
        "GET_OPCODE i = Some OP_GETUPVAL \<Longrightarrow> GETARG_B i < uint (nups pt)"
        using l found_operands [of pt pc stackpos l] by (auto simp: found_ok_def)
      have IH: "GET_OPCODE i = Some OP_MOVE \<Longrightarrow> GETARG_B i < GETARG_A i \<Longrightarrow> getobjname pt pc (GETARG_B i) \<noteq> OutOfBounds"
        using "1.IH" [OF None Accepted _ refl] "1.prems" by blast
      show ?thesis
        using f IH kname_safe [OF f(2)] arg_bounds [of i] "1.prems" None Accepted
        by (subst getobjname.simps)
          (auto simp: bindV_OutOfBounds readV_simps sizek_def sizeupvalues_def split: option.splits OpCode.splits)
    qed (use symbexec_safe [OF "1.prems"(1)] None in \<open>auto simp: getobjname.simps\<close>)
  qed (simp add: getobjname.simps)
qed

section \<open>Properties\<close>

text \<open>C29: Looking for the name of any register, at any position of any prototype, ends and reads no array
  out of bounds, provided the prototype has the names of all its upvalues or of none.\<close>

theorem getobjname_reads_inside:
  assumes "pc \<le> sizecode pt" "pupvalues pt = [] \<or> sizeupvalues pt = uint (nups pt)"
  shows "getobjname pt pc stackpos \<noteq> OutOfBounds"
  by (rule getobjname_safe [OF assms])

theorem getobjname_reads_inside_witness:
  "getobjname (sample_proto sample_code) 1 0 \<noteq> OutOfBounds \<and>
   getobjname (sample_proto sample_code) 1 0 = Accepted (Some (''global'', Some ''print''))"
proof
  show "getobjname (sample_proto sample_code) 1 0 \<noteq> OutOfBounds"
    by (rule getobjname_reads_inside) (simp_all add: sample_proto_def sizecode_def sample_code_def)
  show "getobjname (sample_proto sample_code) 1 0 = Accepted (Some (''global'', Some ''print''))"
    by code_simp
qed

text \<open>
  The checker only asks that there are no more names than upvalues, so a loaded chunk may have
  fewer, and then the name of an upvalue is read beyond the array.
\<close>

definition few_names :: Proto where
  "few_names = Proto [] [CREATE_ABC OP_GETUPVAL 0 1 0, CREATE_ABC OP_CALL 0 1 1, CREATE_ABC OP_RETURN 0 1 0]
     [] [] [] [Some ''a''] None 0 0 2 0 0 2"

lemma getobjname_upvalue_escapes:
  "luaG_checkcode few_names = Accepted True \<and> getobjname few_names 1 0 = OutOfBounds"
  by code_simp

end
