(* ===== verification/C_Lib.thy ===== *)
theory C_Lib
  imports Lua_Number
begin

text \<open>
  The part of the C library the program uses on strings and numbers: \<open>strlen\<close>, \<open>strchr\<close>, \<open>strstr\<close>,
  \<open>isspace\<close>, the conversion \<open>"%.14g"\<close> of \<open>sprintf\<close> and \<open>strtod\<close>, \<open>strtoul\<close>. A \<open>char *\<close> is the list of
  the characters in front of the terminating zero byte; \<open>c_str\<close> is what C sees of a longer buffer.
  Doubles are converted exactly, with rounding to nearest, ties to even, as the library of the
  target does.
\<close>

section \<open>Strings\<close>

definition NUL :: char where "NUL = CHR 0x00"

definition c_str :: "string \<Rightarrow> string" where
  "c_str s = takeWhile (\<lambda>c. c \<noteq> NUL) s"

text \<open>The rest of the string from the first occurrence on.\<close>

fun strchr :: "string \<Rightarrow> char \<Rightarrow> string option" where
  "strchr [] c = None"
| "strchr (x # xs) c = (if x = c then Some (x # xs) else strchr xs c)"

fun is_prefix :: "string \<Rightarrow> string \<Rightarrow> bool" where
  "is_prefix [] ys = True"
| "is_prefix (x # xs) [] = False"
| "is_prefix (x # xs) (y # ys) = (x = y \<and> is_prefix xs ys)"

fun strstr :: "string \<Rightarrow> string \<Rightarrow> string option" where
  "strstr [] p = (if p = [] then Some [] else None)"
| "strstr (x # xs) p = (if is_prefix p (x # xs) then Some (x # xs) else strstr xs p)"

definition isspace :: "char \<Rightarrow> bool" where
  "isspace c \<longleftrightarrow> (let n = of_char c :: nat in n = 32 \<or> (9 \<le> n \<and> n \<le> 13))"

definition isdigit :: "char \<Rightarrow> bool" where
  "isdigit c \<longleftrightarrow> (let n = of_char c :: nat in 48 \<le> n \<and> n \<le> 57)"

definition isalpha :: "char \<Rightarrow> bool" where
  "isalpha c \<longleftrightarrow> (let n = of_char c :: nat in (65 \<le> n \<and> n \<le> 90) \<or> (97 \<le> n \<and> n \<le> 122))"

definition isalnum :: "char \<Rightarrow> bool" where
  "isalnum c \<longleftrightarrow> isalpha c \<or> isdigit c"

definition islower :: "char \<Rightarrow> bool" where
  "islower c \<longleftrightarrow> (let n = of_char c :: nat in 97 \<le> n \<and> n \<le> 122)"

definition isupper :: "char \<Rightarrow> bool" where
  "isupper c \<longleftrightarrow> (let n = of_char c :: nat in 65 \<le> n \<and> n \<le> 90)"

definition iscntrl :: "char \<Rightarrow> bool" where
  "iscntrl c \<longleftrightarrow> (let n = of_char c :: nat in n < 32 \<or> n = 127)"

definition ispunct :: "char \<Rightarrow> bool" where
  "ispunct c \<longleftrightarrow> (let n = of_char c :: nat in 32 < n \<and> n < 127 \<and> \<not> isalnum c)"

definition isxdigit :: "char \<Rightarrow> bool" where
  "isxdigit c \<longleftrightarrow> isdigit c \<or> (let n = of_char c :: nat in (65 \<le> n \<and> n \<le> 70) \<or> (97 \<le> n \<and> n \<le> 102))"

definition tolower :: "char \<Rightarrow> char" where
  "tolower c = (let n = of_char c :: nat in if 65 \<le> n \<and> n \<le> 90 then char_of (n + 32) else c)"

definition toupper :: "char \<Rightarrow> char" where
  "toupper c = (let n = of_char c :: nat in if 97 \<le> n \<and> n \<le> 122 then char_of (n - 32) else c)"

lemma c_str_append_NUL: "NUL \<notin> set s \<Longrightarrow> c_str (s @ NUL # r) = s"
  by (simp add: c_str_def takeWhile_append)

lemma c_str_id: "NUL \<notin> set s \<Longrightarrow> c_str s = s"
  unfolding c_str_def by (rule takeWhile_eq_all_conv [THEN iffD2]) auto

lemma strchr_None: "strchr s c = None \<longleftrightarrow> c \<notin> set s"
  by (induction s) auto

lemma strchr_Some: "strchr s c = Some r \<Longrightarrow> \<exists>p. s = p @ r \<and> c \<notin> set p \<and> (\<exists>r'. r = c # r')"
proof (induction s)
  case (Cons x xs)
  show ?case
  proof (cases "x = c")
    case True
    with Cons.prems have "r = c # xs" by simp
    with True show ?thesis by (intro exI [of _ "[]"]) simp
  next
    case False
    with Cons obtain p r' where "xs = p @ r" "c \<notin> set p" "r = c # r'" by auto
    with False show ?thesis by (intro exI [of _ "x # p"]) auto
  qed
qed simp

section \<open>Decimal digits\<close>

fun nat_str :: "nat \<Rightarrow> string" where
  "nat_str n = (if n < 10 then [char_of (48 + n)] else nat_str (n div 10) @ [char_of (48 + n mod 10)])"

declare nat_str.simps [simp del]

definition int_str :: "int \<Rightarrow> string" where
  "int_str k = (if k < 0 then CHR ''-'' # nat_str (nat (- k)) else nat_str (nat k))"

definition digit_val :: "char \<Rightarrow> nat" where
  "digit_val c =
     (let n = of_char c :: nat
      in if 48 \<le> n \<and> n \<le> 57 then n - 48
         else if 65 \<le> n \<and> n \<le> 90 then n - 55
         else if 97 \<le> n \<and> n \<le> 122 then n - 87
         else 255)"

text \<open>The longest run of digits of a base: its value, its length and the rest.\<close>

fun read_digits :: "nat \<Rightarrow> string \<Rightarrow> nat \<Rightarrow> nat \<Rightarrow> nat \<times> nat \<times> string" where
  "read_digits b [] v n = (v, n, [])"
| "read_digits b (c # cs) v n =
     (if digit_val c < b then read_digits b cs (v * b + digit_val c) (Suc n) else (v, n, c # cs))"

section \<open>Rationals and doubles\<close>

definition round_half_even :: "nat \<Rightarrow> nat \<Rightarrow> nat" where
  "round_half_even n d =
     (let q = n div d; r = n mod d
      in if 2 * r < d then q else if d < 2 * r then q + 1 else q + q mod 2)"

text \<open>The finite absolute value of a double as a fraction.\<close>

definition num_frac :: "lua_Number \<Rightarrow> nat \<times> nat" where
  "num_frac n =
     (let m = nat (num_mag n); e = m div 2 ^ 52; f = m mod 2 ^ 52;
          a = (if e = 0 then f else 2 ^ 52 + f); k = (if e = 0 then 1 else e)
      in if 1075 \<le> k then (a * 2 ^ (k - 1075), 1) else (a, 2 ^ (1075 - k)))"

definition num_isinf :: "lua_Number \<Rightarrow> bool" where
  "num_isinf n \<longleftrightarrow> num_mag n = 2047 * 2 ^ 52"

text \<open>The double nearest to \<open>num / den\<close>.\<close>

definition frac_num :: "bool \<Rightarrow> nat \<Rightarrow> nat \<Rightarrow> lua_Number" where
  "frac_num neg num den =
     (if num = 0 then word_of_int (if neg then 2 ^ 63 else 0)
      else let b = int (flog num) - int (flog den);
               ge = (if 0 \<le> b then den * 2 ^ nat b \<le> num else den \<le> num * 2 ^ nat (- b));
               e = max (if ge then b else b - 1) (- 1022);
               sig = (if e \<le> 52 then round_half_even (num * 2 ^ nat (52 - e)) den
                      else round_half_even num (den * 2 ^ nat (e - 52)));
               bits = (e + 1022) * 2 ^ 52 + int sig
           in word_of_int ((if neg then 2 ^ 63 else 0) + min bits (2047 * 2 ^ 52)))"

section \<open>sprintf with "%.14g"\<close>

function dec_up :: "nat \<Rightarrow> nat \<Rightarrow> nat" where
  "dec_up num den = (if den = 0 \<or> num < 10 * den then 0 else Suc (dec_up num (10 * den)))"
  by pat_completeness auto
termination by (relation "measure (\<lambda>(num, den). num - den)") auto

function dec_down :: "nat \<Rightarrow> nat \<Rightarrow> nat" where
  "dec_down num den = (if num = 0 \<or> den \<le> num then 0 else Suc (dec_down (10 * num) den))"
  by pat_completeness auto
termination by (relation "measure (\<lambda>(num, den). den - num)") auto

declare dec_up.simps [simp del] dec_down.simps [simp del]

definition strip_zeros :: "string \<Rightarrow> string" where
  "strip_zeros s = rev (dropWhile (\<lambda>c. c = CHR ''0'') (rev s))"

definition fmt_g14_frac :: "nat \<Rightarrow> nat \<Rightarrow> string" where
  "fmt_g14_frac num den =
     (let x0 = (if den \<le> num then int (dec_up num den) else - int (dec_down num den));
          q = 13 - x0;
          n0 = (if 0 \<le> q then round_half_even (num * 10 ^ nat q) den
                else round_half_even num (den * 10 ^ nat (- q)));
          n = (if n0 = 10 ^ 14 then 10 ^ 13 else n0);
          x = (if n0 = 10 ^ 14 then x0 + 1 else x0);
          ds = nat_str n
      in if x < - 4 \<or> 14 \<le> x then
           (let fr = strip_zeros (tl ds); a = nat_str (nat \<bar>x\<bar>)
            in take 1 ds @ (if fr = [] then [] else CHR ''.'' # fr) @
               [CHR ''e'', if x < 0 then CHR ''-'' else CHR ''+''] @
               (if length a < 2 then CHR ''0'' # a else a))
         else if 0 \<le> x then
           (let fr = strip_zeros (drop (nat x + 1) ds)
            in take (nat x + 1) ds @ (if fr = [] then [] else CHR ''.'' # fr))
         else CHR ''0'' # CHR ''.'' # replicate (nat (- x - 1)) (CHR ''0'') @ strip_zeros ds)"

definition lua_number2str :: "lua_Number \<Rightarrow> string" where
  "lua_number2str n =
     (if num_neg n then ''-'' else []) @
     (if num_isnan n then ''nan'' else if num_isinf n then ''inf''
      else case num_frac n of (num, den) \<Rightarrow> if num = 0 then ''0'' else fmt_g14_frac num den)"

section \<open>strtod and strtoul\<close>

definition eat_sign :: "string \<Rightarrow> bool \<times> string" where
  "eat_sign s =
     (case s of c # cs \<Rightarrow> if c = CHR ''-'' then (True, cs) else if c = CHR ''+'' then (False, cs) else (False, s)
      | [] \<Rightarrow> (False, s))"

text \<open>An exponent part is taken only when a digit follows; \<open>p\<close> is its letter.\<close>

definition read_exp :: "char \<Rightarrow> string \<Rightarrow> int \<times> string" where
  "read_exp p s =
     (case s of
        c # cs \<Rightarrow>
          if tolower c = p then
            case eat_sign cs of (neg, ds) \<Rightarrow>
            case read_digits 10 ds 0 0 of (v, n, r) \<Rightarrow>
              if n = 0 then (0, s) else (if neg then - int v else int v, r)
          else (0, s)
      | [] \<Rightarrow> (0, s))"

text \<open>Digits with an optional point: the value without the point, the digits after it, the number of
  digits and the rest. A point without any digit is not taken.\<close>

definition read_mantissa :: "nat \<Rightarrow> string \<Rightarrow> nat \<times> nat \<times> nat \<times> string" where
  "read_mantissa b s =
     (case read_digits b s 0 0 of (v, n, r) \<Rightarrow>
        case r of
          c # cs \<Rightarrow>
            if c = CHR ''.'' then
              case read_digits b cs v 0 of (v', k, r') \<Rightarrow>
                if n + k = 0 then (0, 0, 0, s) else (v', k, n + k, r')
            else (v, 0, n, r)
        | [] \<Rightarrow> (v, 0, n, r))"

definition scaled :: "bool \<Rightarrow> nat \<Rightarrow> nat \<Rightarrow> int \<Rightarrow> lua_Number" where
  "scaled neg v b e = (if 0 \<le> e then frac_num neg (v * b ^ nat e) 1 else frac_num neg v (b ^ nat (- e)))"

definition ci_prefix :: "string \<Rightarrow> string \<Rightarrow> bool" where
  "ci_prefix p s = is_prefix p (map tolower s)"

text \<open>The optional \<open>(chars)\<close> after nan.\<close>

definition skip_nan_seq :: "string \<Rightarrow> string" where
  "skip_nan_seq s =
     (case s of
        c # cs \<Rightarrow>
          if c = CHR ''('' then
            (let r = dropWhile (\<lambda>c. isalpha c \<or> isdigit c \<or> c = CHR ''_'') cs
             in if r \<noteq> [] \<and> hd r = CHR '')'' then tl r else s)
          else s
      | [] \<Rightarrow> s)"

text \<open>The number at the start of \<open>s\<close> and the rest after it; \<open>None\<close> when nothing is converted.\<close>

definition strtod :: "string \<Rightarrow> (lua_Number \<times> string) option" where
  "strtod s0 =
     (case eat_sign (dropWhile isspace s0) of (neg, s) \<Rightarrow>
        if ci_prefix ''infinity'' s then Some (word_of_int ((if neg then 2 ^ 63 else 0) + 2047 * 2 ^ 52), drop 8 s)
        else if ci_prefix ''inf'' s then Some (word_of_int ((if neg then 2 ^ 63 else 0) + 2047 * 2 ^ 52), drop 3 s)
        else if ci_prefix ''nan'' s then
          Some (word_of_int ((if neg then 2 ^ 63 else 0) + 2047 * 2 ^ 52 + 2 ^ 51), skip_nan_seq (drop 3 s))
        else if ci_prefix ''0x'' s \<and> (case read_mantissa 16 (drop 2 s) of (v, k, n, r) \<Rightarrow> 0 < n) then
          case read_mantissa 16 (drop 2 s) of (v, k, n, r) \<Rightarrow>
          case read_exp (CHR ''p'') r of (e, r') \<Rightarrow> Some (scaled neg v 2 (e - 4 * int k), r')
        else case read_mantissa 10 s of (v, k, n, r) \<Rightarrow>
          if n = 0 then None
          else case read_exp (CHR ''e'') r of (e, r') \<Rightarrow> Some (scaled neg v 10 (e - int k), r'))"

text \<open>\<open>strtoul (s, 16)\<close>: a 64 bit value, clamped when it does not fit, negated modulo \<open>2 ^ 64\<close>
  after a minus sign.\<close>

definition strtoul16 :: "string \<Rightarrow> nat \<times> string" where
  "strtoul16 s0 =
     (case eat_sign (dropWhile isspace s0) of (neg, s) \<Rightarrow>
        (let s' = (if ci_prefix ''0x'' s \<and> drop 2 s \<noteq> [] \<and> digit_val (hd (drop 2 s)) < 16 then drop 2 s else s)
         in case read_digits 16 s' 0 0 of (v, n, r) \<Rightarrow>
              if n = 0 then (0, s0)
              else if 2 ^ 64 \<le> v then (2 ^ 64 - 1, r)
              else ((if neg then (2 ^ 64 - v) mod 2 ^ 64 else v), r)))"

end
