(* ===== verification/Lua_Chunk.thy ===== *)
theory Lua_Chunk
  imports Lua_Verified C_Lib
begin

text \<open>
  Binary chunks: the input streams of src/lib/lua/lzio.c, saving a function (src/lib/lua/ldump.c) and
  loading one (src/lib/lua/lundump.c). The writer and the reader are functions of the caller and
  parameters here: a writer gets a block of bytes and returns a status, a reader returns the next
  block or the null pointer. The layout is that of the build's machine: little endian, four bytes
  to an \<^verbatim>\<open>int\<close> and to an instruction, eight to a \<^verbatim>\<open>size_t\<close> and to a number. An error of the
  loader is its message; memory does not run out.
\<close>

section \<open>Bytes of machine integers\<close>

fun le_bytes :: "nat \<Rightarrow> nat \<Rightarrow> string" where
  "le_bytes 0 v = []"
| "le_bytes (Suc n) v = char_of v # le_bytes n (v div 256)"

fun le_value :: "string \<Rightarrow> nat" where
  "le_value [] = 0"
| "le_value (c # cs) = of_char c + 256 * le_value cs"

section \<open>Saving: ldump.c\<close>

record 'd DumpState =
  wdata :: 'd
  strip :: bool
  status :: int

type_synonym 'd writer = "string \<Rightarrow> 'd \<Rightarrow> int \<times> 'd"
type_synonym 'd dumper = "'d DumpState \<Rightarrow> 'd DumpState"

definition DumpBlock :: "'d writer \<Rightarrow> string \<Rightarrow> 'd dumper" where
  "DumpBlock W b D =
     (if status D = 0 then let (s, d) = W b (wdata D) in D\<lparr>status := s, wdata := d\<rparr> else D)"

definition DumpChar :: "'d writer \<Rightarrow> nat \<Rightarrow> 'd dumper" where
  "DumpChar W y = DumpBlock W [char_of y]"

definition DumpInt :: "'d writer \<Rightarrow> int \<Rightarrow> 'd dumper" where
  "DumpInt W x = DumpBlock W (le_bytes 4 (nat (x mod 2 ^ 32)))"

definition DumpNumber :: "'d writer \<Rightarrow> lua_Number \<Rightarrow> 'd dumper" where
  "DumpNumber W x = DumpBlock W (le_bytes 8 (unat x))"

definition DumpSize :: "'d writer \<Rightarrow> nat \<Rightarrow> 'd dumper" where
  "DumpSize W x = DumpBlock W (le_bytes 8 x)"

text \<open>A vector is its length and then its elements as one block.\<close>

definition DumpVector :: "'d writer \<Rightarrow> ('a \<Rightarrow> string) \<Rightarrow> 'a list \<Rightarrow> 'd dumper" where
  "DumpVector W enc xs D = DumpBlock W (concat (map enc xs)) (DumpInt W (int (length xs)) D)"

definition DumpString :: "'d writer \<Rightarrow> string option \<Rightarrow> 'd dumper" where
  "DumpString W s D =
     (case s of
        None \<Rightarrow> DumpSize W 0 D
      | Some s \<Rightarrow> DumpBlock W (s @ [NUL]) (DumpSize W (length s + 1) D))"

definition DumpCode :: "'d writer \<Rightarrow> Proto \<Rightarrow> 'd dumper" where
  "DumpCode W f = DumpVector W (\<lambda>i. le_bytes 4 (unat i)) (pcode f)"

fun DumpConstant :: "'d writer \<Rightarrow> TValue option \<Rightarrow> 'd dumper" where
  "DumpConstant W None D = DumpString W None (DumpChar W 4 D)"
| "DumpConstant W (Some (TString s)) D = DumpString W (Some s) (DumpChar W 4 D)"
| "DumpConstant W (Some (TBoolean b)) D = DumpChar W (if b then 1 else 0) (DumpChar W 1 D)"
| "DumpConstant W (Some (TNumber n)) D = DumpNumber W n (DumpChar W 3 D)"
| "DumpConstant W (Some v) D = DumpChar W (nat (ttype v)) D"

text \<open>The nested functions are given as what dumps them.\<close>

definition DumpConstants :: "'d writer \<Rightarrow> Proto \<Rightarrow> 'd dumper list \<Rightarrow> 'd dumper" where
  "DumpConstants W f subs D =
     fold (\<lambda>m. m) subs (DumpInt W (sizep f) (fold (DumpConstant W) (kst f) (DumpInt W (sizek f) D)))"

definition DumpLocVar :: "'d writer \<Rightarrow> LocVar \<Rightarrow> 'd dumper" where
  "DumpLocVar W v D = DumpInt W (endpc v) (DumpInt W (startpc v) (DumpString W (varname v) D))"

definition DumpDebug :: "'d writer \<Rightarrow> Proto \<Rightarrow> 'd dumper" where
  "DumpDebug W f D =
     (let li = (if strip D then [] else plineinfo f);
          lv = (if strip D then [] else plocvars f);
          uv = (if strip D then [] else pupvalues f);
          D1 = DumpVector W (\<lambda>l. le_bytes 4 (nat (l mod 2 ^ 32))) li D;
          D2 = fold (DumpLocVar W) lv (DumpInt W (int (length lv)) D1)
      in fold (DumpString W) uv (DumpInt W (int (length uv)) D2))"

lemma size_protos: "q \<in> set (protos f) \<Longrightarrow> size q < size f"
  by (cases f) (auto dest: size_list_estimation' [of q _ "size q" size])

function DumpFunction :: "'d writer \<Rightarrow> Proto \<Rightarrow> string option \<Rightarrow> 'd dumper" where
  "DumpFunction W f p D =
     DumpDebug W f
      (DumpConstants W f (map (\<lambda>q. DumpFunction W q (psource f)) (protos f))
        (DumpCode W f
          (DumpChar W (unat (maxstacksize f)) (DumpChar W (unat (is_vararg f))
            (DumpChar W (unat (numparams f)) (DumpChar W (unat (nups f))
              (DumpInt W (lastlinedefined f) (DumpInt W (linedefined f)
                (DumpString W (if psource f = p \<or> strip D then None else psource f) D)))))))))"
  by pat_completeness auto

termination
  by (relation "measure (\<lambda>(W, f, p, D). size f)") (auto simp: size_protos)

declare DumpFunction.simps [simp del]

definition LUA_SIGNATURE :: string where "LUA_SIGNATURE = [CHR 0x1B] @ ''Lua''"
abbreviation (input) LUAC_VERSION :: nat where "LUAC_VERSION \<equiv> 81"
abbreviation (input) LUAC_FORMAT :: nat where "LUAC_FORMAT \<equiv> 0"
abbreviation (input) LUAC_HEADERSIZE :: nat where "LUAC_HEADERSIZE \<equiv> 12"

definition luaU_header :: string where
  "luaU_header = LUA_SIGNATURE @ map char_of [LUAC_VERSION, LUAC_FORMAT, 1, 4, 8, 4, 8, 0]"

definition DumpHeader :: "'d writer \<Rightarrow> 'd dumper" where
  "DumpHeader W = DumpBlock W luaU_header"

definition luaU_dump :: "Proto \<Rightarrow> 'd writer \<Rightarrow> 'd \<Rightarrow> bool \<Rightarrow> int \<times> 'd" where
  "luaU_dump f W d str =
     (let D = DumpFunction W f None (DumpHeader W \<lparr>wdata = d, strip = str, status = 0\<rparr>)
      in (status D, wdata D))"

section \<open>Streams: lzio.c\<close>

record 'd ZIO =
  zp :: string
  zdata :: 'd

type_synonym 'd reader = "'d \<Rightarrow> string option \<times> 'd"

definition luaZ_init :: "'d \<Rightarrow> 'd ZIO" where
  "luaZ_init d = \<lparr>zp = [], zdata = d\<rparr>"

text \<open>\<^verbatim>\<open>EOZ\<close> is \<open>None\<close>.\<close>

definition luaZ_fill :: "'d reader \<Rightarrow> 'd ZIO \<Rightarrow> char option \<times> 'd ZIO" where
  "luaZ_fill R z =
     (case R (zdata z) of
        (Some (c # cs), d) \<Rightarrow> (Some c, z\<lparr>zp := cs, zdata := d\<rparr>)
      | (_, d) \<Rightarrow> (None, z\<lparr>zdata := d\<rparr>))"

definition luaZ_lookahead :: "'d reader \<Rightarrow> 'd ZIO \<Rightarrow> char option \<times> 'd ZIO" where
  "luaZ_lookahead R z =
     (case zp z of
        c # cs \<Rightarrow> (Some c, z)
      | [] \<Rightarrow> (case luaZ_fill R z of
                (None, z') \<Rightarrow> (None, z')
              | (Some c, z') \<Rightarrow> (Some c, z'\<lparr>zp := c # zp z'\<rparr>)))"

lemma luaZ_lookahead_some: "luaZ_lookahead R z = (Some c, z') \<Longrightarrow> zp z' \<noteq> []"
  by (auto simp: luaZ_lookahead_def split: list.splits prod.splits option.splits)

text \<open>The number of missing bytes, and the bytes read.\<close>

function luaZ_read :: "'d reader \<Rightarrow> nat \<Rightarrow> 'd ZIO \<Rightarrow> nat \<times> string \<times> 'd ZIO" where
  "luaZ_read R n z =
     (if n = 0 then (0, [], z)
      else case luaZ_lookahead R z of
             (None, z') \<Rightarrow> (n, [], z')
           | (Some c, z') \<Rightarrow>
               (let m = min n (length (zp z'));
                    (r, bs, z'') = luaZ_read R (n - m) (z'\<lparr>zp := drop m (zp z')\<rparr>)
                in (r, take m (zp z') @ bs, z'')))"
  by pat_completeness auto
termination
proof -
  have "n - min n (length (zp z')) < n" if "n \<noteq> 0" "(Some c, z') = luaZ_lookahead R z" for R :: "'d reader" and n z c z'
    using that luaZ_lookahead_some [of R z c z'] by (cases "zp z'") auto
  then show ?thesis by (relation "measure (\<lambda>(R, n, z). n)") auto
qed

declare luaZ_read.simps [simp del]

section \<open>Loading: lundump.c\<close>

text \<open>\<open>S\<close> is the name of the chunk in messages; a failure is the message of the error.\<close>

type_synonym ('d, 'a) loader = "'d ZIO \<Rightarrow> string + 'a \<times> 'd ZIO"

definition bindL :: "('d, 'a) loader \<Rightarrow> ('a \<Rightarrow> ('d, 'b) loader) \<Rightarrow> ('d, 'b) loader" where
  "bindL m f z = (case m z of Inl e \<Rightarrow> Inl e | Inr (x, z') \<Rightarrow> f x z')"

definition retL :: "'a \<Rightarrow> ('d, 'a) loader" where
  "retL x z = Inr (x, z)"

definition load_error :: "string \<Rightarrow> string \<Rightarrow> ('d, 'a) loader" where
  "load_error S why z = Inl (S @ '': '' @ why @ '' in precompiled chunk'')"

definition LoadBlock :: "string \<Rightarrow> 'd reader \<Rightarrow> nat \<Rightarrow> ('d, string) loader" where
  "LoadBlock S R n z =
     (case luaZ_read R n z of (r, bs, z') \<Rightarrow>
        if r \<noteq> 0 then load_error S ''unexpected end'' z' else Inr (bs, z'))"

definition LoadChar :: "string \<Rightarrow> 'd reader \<Rightarrow> ('d, int) loader" where
  "LoadChar S R =
     bindL (LoadBlock S R 1) (\<lambda>bs. let c = int (le_value bs) in retL (if c < 128 then c else c - 256))"

definition LoadByte :: "string \<Rightarrow> 'd reader \<Rightarrow> ('d, 8 word) loader" where
  "LoadByte S R = bindL (LoadChar S R) (\<lambda>c. retL (word_of_int c))"

definition int_of_bytes :: "string \<Rightarrow> int" where
  "int_of_bytes bs = (let v = int (le_value bs) in if v < 2 ^ 31 then v else v - 2 ^ 32)"

definition LoadInt :: "string \<Rightarrow> 'd reader \<Rightarrow> ('d, int) loader" where
  "LoadInt S R =
     bindL (LoadBlock S R 4) (\<lambda>bs. let x = int_of_bytes bs in
       if x < 0 then load_error S ''bad integer'' else retL x)"

definition LoadNumber :: "string \<Rightarrow> 'd reader \<Rightarrow> ('d, lua_Number) loader" where
  "LoadNumber S R = bindL (LoadBlock S R 8) (\<lambda>bs. retL (of_nat (le_value bs)))"

text \<open>The last byte of the block is dropped, whatever it is.\<close>

definition LoadString :: "string \<Rightarrow> 'd reader \<Rightarrow> ('d, string option) loader" where
  "LoadString S R =
     bindL (LoadBlock S R 8) (\<lambda>bs. let size' = le_value bs in
       if size' = 0 then retL None
       else bindL (LoadBlock S R size') (\<lambda>s. retL (Some (take (size' - 1) s))))"

text \<open>A block of \<open>n\<close> elements of four bytes.\<close>

fun words_of :: "nat \<Rightarrow> string \<Rightarrow> string list" where
  "words_of 0 bs = []"
| "words_of (Suc n) bs = take 4 bs # words_of n (drop 4 bs)"

definition LoadVector :: "string \<Rightarrow> 'd reader \<Rightarrow> (string \<Rightarrow> 'a) \<Rightarrow> int \<Rightarrow> ('d, 'a list) loader" where
  "LoadVector S R dec n = bindL (LoadBlock S R (nat n * 4)) (\<lambda>bs. retL (map dec (words_of (nat n) bs)))"

fun load_times :: "('d, 'a) loader \<Rightarrow> nat \<Rightarrow> ('d, 'a list) loader" where
  "load_times m 0 = retL []"
| "load_times m (Suc n) = bindL m (\<lambda>x. bindL (load_times m n) (\<lambda>xs. retL (x # xs)))"

definition LoadCode :: "string \<Rightarrow> 'd reader \<Rightarrow> ('d, Instruction list) loader" where
  "LoadCode S R = bindL (LoadInt S R) (\<lambda>n. LoadVector S R (\<lambda>bs. of_nat (le_value bs)) n)"

definition LoadConstant :: "string \<Rightarrow> 'd reader \<Rightarrow> ('d, TValue option) loader" where
  "LoadConstant S R =
     bindL (LoadChar S R) (\<lambda>t.
       if t = LUA_TNIL then retL (Some TNil)
       else if t = LUA_TBOOLEAN then bindL (LoadChar S R) (\<lambda>c. retL (Some (TBoolean (c \<noteq> 0))))
       else if t = LUA_TNUMBER then bindL (LoadNumber S R) (\<lambda>n. retL (Some (TNumber n)))
       else if t = LUA_TSTRING then bindL (LoadString S R) (\<lambda>s. retL (map_option TString s))
       else load_error S ''bad constant'')"

definition LoadConstants ::
    "string \<Rightarrow> 'd reader \<Rightarrow> ('d, Proto) loader \<Rightarrow> ('d, TValue option list \<times> Proto list) loader" where
  "LoadConstants S R sub =
     bindL (LoadInt S R) (\<lambda>n. bindL (load_times (LoadConstant S R) (nat n)) (\<lambda>ks.
     bindL (LoadInt S R) (\<lambda>n. bindL (load_times sub (nat n)) (\<lambda>ps. retL (ks, ps)))))"

definition LoadLocVar :: "string \<Rightarrow> 'd reader \<Rightarrow> ('d, LocVar) loader" where
  "LoadLocVar S R =
     bindL (LoadString S R) (\<lambda>v. bindL (LoadInt S R) (\<lambda>a. bindL (LoadInt S R) (\<lambda>b.
     retL \<lparr>varname = v, startpc = a, endpc = b\<rparr>)))"

definition LoadDebug ::
    "string \<Rightarrow> 'd reader \<Rightarrow> ('d, int list \<times> LocVar list \<times> string option list) loader" where
  "LoadDebug S R =
     bindL (LoadInt S R) (\<lambda>n. bindL (LoadVector S R int_of_bytes n) (\<lambda>li.
     bindL (LoadInt S R) (\<lambda>n. bindL (load_times (LoadLocVar S R) (nat n)) (\<lambda>lv.
     bindL (LoadInt S R) (\<lambda>n. bindL (load_times (LoadString S R) (nat n)) (\<lambda>uv. retL (li, lv, uv)))))))"

text \<open>\<open>levels\<close> is how often \<^verbatim>\<open>nCcalls\<close> can still be incremented.\<close>

fun LoadFunction :: "string \<Rightarrow> 'd reader \<Rightarrow> nat \<Rightarrow> string option \<Rightarrow> ('d, Proto) loader" where
  "LoadFunction S R 0 p = load_error S ''code too deep''"
| "LoadFunction S R (Suc levels) p =
     bindL (LoadString S R) (\<lambda>s. let source = (if s = None then p else s) in
     bindL (LoadInt S R) (\<lambda>ld. bindL (LoadInt S R) (\<lambda>lld.
     bindL (LoadByte S R) (\<lambda>nu. bindL (LoadByte S R) (\<lambda>np. bindL (LoadByte S R) (\<lambda>va. bindL (LoadByte S R) (\<lambda>ms.
     bindL (LoadCode S R) (\<lambda>code.
     bindL (LoadConstants S R (LoadFunction S R levels source)) (\<lambda>(ks, ps).
     bindL (LoadDebug S R) (\<lambda>(li, lv, uv).
     let f = Proto ks code ps li lv uv source ld lld nu np va ms
     in if luaG_checkcode f \<noteq> Accepted True then load_error S ''bad code'' else retL f))))))))))"

definition LoadHeader :: "string \<Rightarrow> 'd reader \<Rightarrow> ('d, unit) loader" where
  "LoadHeader S R =
     bindL (LoadBlock S R LUAC_HEADERSIZE) (\<lambda>h.
       if h \<noteq> luaU_header then load_error S ''bad header'' else retL ())"

abbreviation (input) LUAI_MAXCCALLS :: nat where "LUAI_MAXCCALLS \<equiv> 200"

definition chunk_name :: "string \<Rightarrow> string" where
  "chunk_name name =
     (case name of
        [] \<Rightarrow> []
      | c # cs \<Rightarrow>
          if c = CHR ''@'' \<or> c = CHR ''='' then cs
          else if c = hd LUA_SIGNATURE then ''binary string''
          else name)"

definition luaU_undump :: "'d reader \<Rightarrow> nat \<Rightarrow> string \<Rightarrow> ('d, Proto) loader" where
  "luaU_undump R nCcalls name =
     (let S = chunk_name name in
      bindL (LoadHeader S R) (\<lambda>_. LoadFunction S R (LUAI_MAXCCALLS - nCcalls) (Some ''=?'')))"

end
