(* ===== verification/Lua_Chunk_Roundtrip.thy ===== *)
theory Lua_Chunk_Roundtrip
  imports Lua_Chunk
begin

text \<open>
  What \<^verbatim>\<open>luaU_dump\<close> writes is what \<^verbatim>\<open>luaU_undump\<close> reads: for each part of a function a law that
  relates its dumper to its loader, over a stream that may deliver the bytes in blocks of any size.
\<close>

section \<open>Bytes\<close>

lemma length_le_bytes [simp]: "length (le_bytes n v) = n"
  by (induction n arbitrary: v) simp_all

lemma le_value_bytes: "v < 256 ^ n \<Longrightarrow> le_value (le_bytes n v) = v"
  by (induction n arbitrary: v) (simp_all add: less_mult_imp_div_less mult.commute)

section \<open>Streams\<close>

text \<open>
  The reader at \<open>d\<close> delivers the bytes \<open>s\<close>, in some blocks that are not empty, and then, if \<open>E\<close>
  holds, says that there are no more.
\<close>

definition at_end :: "'d reader \<Rightarrow> 'd \<Rightarrow> bool" where
  "at_end R d \<longleftrightarrow> fst (R d) = None \<or> fst (R d) = Some []"

inductive delivers :: "'d reader \<Rightarrow> bool \<Rightarrow> 'd \<Rightarrow> string \<Rightarrow> bool" for R E where
  enough: "(E \<longrightarrow> at_end R d) \<Longrightarrow> delivers R E d []"
| block: "R d = (Some b, d') \<Longrightarrow> b \<noteq> [] \<Longrightarrow> delivers R E d' s \<Longrightarrow> delivers R E d (b @ s)"

definition stream :: "'d reader \<Rightarrow> bool \<Rightarrow> 'd ZIO \<Rightarrow> string \<Rightarrow> bool" where
  "stream R E z s \<longleftrightarrow> (\<exists>s'. s = zp z @ s' \<and> delivers R E (zdata z) s')"

lemma stream_lookahead:
  assumes "stream R E z s" "s \<noteq> []"
  obtains c z' where "luaZ_lookahead R z = (Some c, z')" "stream R E z' s" "zp z' \<noteq> []"
proof (cases "zp z")
  case Nil
  with assms have "delivers R E (zdata z) s" by (simp add: stream_def)
  then show thesis
  proof cases
    case (block b d' s')
    then obtain c cs where b: "b = c # cs" by (cases b) auto
    with block Nil show thesis
      by (intro that [of c "z\<lparr>zp := c # cs, zdata := d'\<rparr>"])
        (auto simp: luaZ_lookahead_def luaZ_fill_def stream_def)
  qed (use assms in simp)
next
  case (Cons c cs)
  with assms that [of c z] show thesis by (simp add: luaZ_lookahead_def)
qed

lemma stream_end: "stream R True z [] \<Longrightarrow> \<exists>z'. luaZ_lookahead R z = (None, z')"
  by (auto simp: stream_def luaZ_lookahead_def luaZ_fill_def at_end_def elim: delivers.cases
      split: option.splits list.splits prod.splits)

text \<open>One round of the loop of \<^verbatim>\<open>luaZ_read\<close> takes a block, or what is wanted of it.\<close>

lemma luaZ_read_round:
  assumes "stream R E z (bs @ rest)" "bs \<noteq> []" "length bs \<le> n" and c: "rest = [] \<or> length bs = n"
  obtains m z2 where "0 < m" "m \<le> length bs" "stream R E z2 (drop m bs @ rest)"
    "luaZ_read R n z = (case luaZ_read R (n - m) z2 of (r, bs', z') \<Rightarrow> (r, take m bs @ bs', z'))"
proof -
  obtain c z1 where z1: "luaZ_lookahead R z = (Some c, z1)" "stream R E z1 (bs @ rest)" "zp z1 \<noteq> []"
    using stream_lookahead [OF assms(1)] assms(2) by auto
  then obtain s' where s': "bs @ rest = zp z1 @ s'" "delivers R E (zdata z1) s'" by (auto simp: stream_def)
  let ?m = "min n (length (zp z1))"
  let ?z2 = "z1\<lparr>zp := drop ?m (zp z1)\<rparr>"
  have m: "?m \<le> length bs" using c
  proof
    assume "rest = []"
    then have "length (zp z1) \<le> length bs" using arg_cong [OF s'(1), of length] by simp
    then show ?thesis by simp
  qed simp
  have t: "take ?m (zp z1) = take ?m bs"
    using arg_cong [OF s'(1), of "take ?m"] m by simp
  have "drop ?m bs @ rest = drop ?m (zp z1) @ s'"
    using arg_cong [OF s'(1), of "drop ?m"] m by simp
  then have "stream R E ?z2 (drop ?m bs @ rest)" using s'(2) by (auto simp: stream_def)
  moreover have "luaZ_read R n z = (case luaZ_read R (n - ?m) ?z2 of (r, bs', z') \<Rightarrow> (r, take ?m bs @ bs', z'))"
    using z1(1) assms(2,3) t by (subst luaZ_read.simps) (auto simp: Let_def)
  moreover have "0 < ?m" using assms(2,3) z1(3) by (cases bs) auto
  ultimately show thesis using that [OF _ m] by blast
qed

lemma luaZ_read_stream:
  assumes "stream R E z (bs @ rest)"
  shows "\<exists>z'. luaZ_read R (length bs) z = (0, bs, z') \<and> stream R E z' rest"
  using assms
proof (induction "length bs" arbitrary: bs z rule: less_induct)
  case less
  show ?case
  proof (cases "bs = []")
    case False
    then obtain m z2 where m: "0 < m" "m \<le> length bs" "stream R E z2 (drop m bs @ rest)"
      "luaZ_read R (length bs) z = (case luaZ_read R (length bs - m) z2 of (r, bs', z') \<Rightarrow> (r, take m bs @ bs', z'))"
      using luaZ_read_round [OF less.prems, of "length bs"] by auto
    moreover have "length (drop m bs) < length bs" using False m(1) by simp
    ultimately show ?thesis using less.hyps [of "drop m bs" z2] by auto
  qed (use less.prems in \<open>simp add: luaZ_read.simps\<close>)
qed

lemma luaZ_read_short:
  assumes "stream R True z s" "length s < n"
  shows "\<exists>r bs z'. luaZ_read R n z = (r, bs, z') \<and> r \<noteq> 0"
  using assms
proof (induction "length s" arbitrary: s z n rule: less_induct)
  case less
  show ?case
  proof (cases "s = []")
    case True
    then show ?thesis using stream_end [of R z] less.prems by (subst luaZ_read.simps) auto
  next
    case False
    then obtain m z2 where m: "0 < m" "m \<le> length s" "stream R True z2 (drop m s @ [])"
      "luaZ_read R n z = (case luaZ_read R (n - m) z2 of (r, bs', z') \<Rightarrow> (r, take m s @ bs', z'))"
      using luaZ_read_round [of R True z s "[]" n] less.prems by auto
    moreover have "length (drop m s) < length s" "length (drop m s) < n - m" using False m less.prems(2) by auto
    ultimately show ?thesis using less.hyps [of "drop m s" z2 "n - m"] by auto
  qed
qed

section \<open>A loader reads what was written\<close>

text \<open>It reads the bytes \<open>bs\<close> as \<open>x\<close>, and fails when the input ends before them.\<close>

definition loads :: "'d reader \<Rightarrow> ('d, 'a) loader \<Rightarrow> string \<Rightarrow> 'a \<Rightarrow> bool" where
  "loads R m bs x \<longleftrightarrow>
     (\<forall>E z rest. stream R E z (bs @ rest) \<longrightarrow> (\<exists>z'. m z = Inr (x, z') \<and> stream R E z' rest)) \<and>
     (\<forall>z s t. stream R True z s \<and> s @ t = bs \<and> t \<noteq> [] \<longrightarrow> (\<exists>e. m z = Inl e))"

lemma loads_ret: "loads R (retL x) [] x"
  by (simp add: loads_def retL_def)

lemma loads_bind:
  assumes "loads R m b1 x" "loads R (f x) b2 y"
  shows "loads R (bindL m f) (b1 @ b2) y"
  unfolding loads_def
proof (intro conjI allI impI)
  fix E z rest assume "stream R E z ((b1 @ b2) @ rest)"
  then show "\<exists>z'. bindL m f z = Inr (y, z') \<and> stream R E z' rest"
    using assms unfolding loads_def bindL_def
    by (metis (no_types, lifting) append_assoc old.prod.case sum.case(2))
next
  fix z s t assume s: "stream R True z s \<and> s @ t = b1 @ b2 \<and> t \<noteq> []"
  then obtain u where "s = b1 @ u \<and> u @ t = b2 \<or> s @ u = b1 \<and> t = u @ b2"
    by (auto simp: append_eq_append_conv2)
  then consider "s @ u = b1" "u \<noteq> []" | u where "s = b1 @ u" "u @ t = b2"
    using append_Nil2 by (cases "u = []") fastforce+
  then show "\<exists>e. bindL m f z = Inl e"
  proof cases
    case 1
    then have "\<exists>e. m z = Inl e" using assms(1) s unfolding loads_def by blast
    then show ?thesis by (auto simp: bindL_def)
  next
    case 2
    then obtain z' where "m z = Inr (x, z')" "stream R True z' u" using assms(1) s unfolding loads_def by blast
    moreover have "\<exists>e. f x z' = Inl e" using assms(2) calculation(2) 2(2) s unfolding loads_def by blast
    ultimately show ?thesis by (simp add: bindL_def)
  qed
qed

lemma loads_bind_ret: "loads R m b x \<Longrightarrow> f x = retL y \<Longrightarrow> loads R (bindL m f) b y"
  using loads_bind [of R m b x f "[]" y] by (simp add: loads_ret)

lemma loads_block: "length bs = n \<Longrightarrow> loads R (LoadBlock S R n) bs bs"
proof -
  assume n: "length bs = n"
  have "\<exists>e. LoadBlock S R n z = Inl e" if "stream R True z s" "s @ t = bs" "t \<noteq> []" for z s t
    using luaZ_read_short [OF that(1), of n] that n by (fastforce simp: LoadBlock_def load_error_def)
  moreover have "\<exists>z'. LoadBlock S R n z = Inr (bs, z') \<and> stream R E z' rest" if "stream R E z (bs @ rest)" for E z rest
    using luaZ_read_stream [OF that] n by (auto simp: LoadBlock_def)
  ultimately show ?thesis unfolding loads_def by blast
qed

lemma loads_char:
  assumes "c < 128"
  shows "loads R (LoadChar S R) [char_of c] (int c)"
  unfolding LoadChar_def
  by (rule loads_bind_ret [OF loads_block]) (use assms in \<open>simp_all add: Let_def\<close>)

lemma loads_byte:
  fixes w :: "8 word"
  shows "loads R (LoadByte S R) [char_of (unat w)] w"
proof -
  have u: "unat w < 256" using uint_lt2p [of w] by (simp flip: nat_uint_eq add: nat_less_iff)
  have "loads R (LoadChar S R) [char_of (unat w)] (if uint w < 128 then uint w else uint w - 256)"
    unfolding LoadChar_def
    by (rule loads_bind_ret [OF loads_block]) (use u in \<open>simp_all add: Let_def\<close>)
  moreover have z: "w - 256 = w" by (simp add: word_eq_iff_unsigned)
  ultimately show ?thesis unfolding LoadByte_def
    by (intro loads_bind_ret [of _ _ _ "if uint w < 128 then uint w else uint w - 256"]) (simp_all add: z)
qed

lemma int_of_bytes: "- (2 ^ 31) \<le> x \<Longrightarrow> x < 2 ^ 31 \<Longrightarrow> int_of_bytes (le_bytes 4 (nat (x mod 2 ^ 32))) = x"
proof -
  assume x: "- (2 ^ 31) \<le> x" "x < 2 ^ 31"
  have "nat (x mod 2 ^ 32) < 256 ^ 4" by (simp add: nat_less_iff)
  then have "le_value (le_bytes 4 (nat (x mod 2 ^ 32))) = nat (x mod 2 ^ 32)" by (rule le_value_bytes)
  moreover have "x mod 2 ^ 32 = (if x < 0 then x + 2 ^ 32 else x)"
    using x mod_add_self2 [of x "2 ^ 32"] mod_pos_pos_trivial [of "x + 2 ^ 32" "2 ^ 32"] by simp
  ultimately show ?thesis using x by (simp add: int_of_bytes_def Let_def)
qed

lemma loads_int:
  assumes "0 \<le> x" "x < 2 ^ 31"
  shows "loads R (LoadInt S R) (le_bytes 4 (nat (x mod 2 ^ 32))) x"
  unfolding LoadInt_def
  by (rule loads_bind_ret [OF loads_block]) (use int_of_bytes [of x] assms in \<open>simp_all add: Let_def\<close>)

lemma loads_number: "loads R (LoadNumber S R) (le_bytes 8 (unat x)) x"
proof -
  have "unat x < 256 ^ 8" using uint_lt2p [of x] by (simp flip: nat_uint_eq add: nat_less_iff)
  then show ?thesis unfolding LoadNumber_def
    by (intro loads_bind_ret [OF loads_block]) (simp_all add: le_value_bytes)
qed

section \<open>A part that is written and read back\<close>

definition append_writer :: "string writer" where
  "append_writer b out = (0, out @ b)"

definition emits :: "bool \<Rightarrow> string dumper \<Rightarrow> string \<Rightarrow> bool" where
  "emits str m b \<longleftrightarrow> (\<forall>D. status D = 0 \<and> strip D = str \<longrightarrow> m D = D\<lparr>wdata := wdata D @ b\<rparr>)"

definition codec :: "bool \<Rightarrow> string dumper \<Rightarrow> ('d reader \<Rightarrow> ('d, 'a) loader) \<Rightarrow> 'a \<Rightarrow> bool" where
  "codec str d l x \<longleftrightarrow> (\<exists>bs. emits str d bs \<and> (\<forall>R. loads R (l R) bs x))"

definition seqD :: "'d dumper list \<Rightarrow> 'd dumper" where
  "seqD ds D = fold (\<lambda>m. m) ds D"

lemma emits_block: "emits str (DumpBlock append_writer b) b"
  by (simp add: emits_def DumpBlock_def append_writer_def)

lemma emits_Nil: "emits str (seqD []) []"
  by (simp add: emits_def seqD_def)

lemma emits_Cons: "emits str d b \<Longrightarrow> emits str (seqD ds) bs \<Longrightarrow> emits str (seqD (d # ds)) (b @ bs)"
  by (simp add: emits_def seqD_def)

lemma codec_block:
  "(\<And>R. loads R (l R) bs x) \<Longrightarrow> codec str (DumpBlock append_writer bs) l x"
  unfolding codec_def by (intro exI conjI allI) (rule emits_block, assumption)

lemma codec_ret: "codec str (seqD []) (\<lambda>R. retL x) x"
  unfolding codec_def by (intro exI conjI allI) (rule emits_Nil loads_ret)+

lemma codec_bind:
  assumes "codec str d l x" "codec str (seqD ds) (\<lambda>R. f R x) y"
  shows "codec str (seqD (d # ds)) (\<lambda>R. bindL (l R) (f R)) y"
  using assms unfolding codec_def by (meson emits_Cons loads_bind)

lemma codec_cong:
  assumes "\<And>D. status D = 0 \<Longrightarrow> strip D = str \<Longrightarrow> d D = d' D" "codec str d' l x"
  shows "codec str d l x"
proof -
  obtain bs where "emits str d' bs" "\<forall>R. loads R (l R) bs x" using assms(2) by (auto simp: codec_def)
  moreover from this(1) have "emits str d bs" by (simp add: emits_def assms(1))
  ultimately show ?thesis by (auto simp: codec_def)
qed

lemma codec_single: "codec str d l x \<Longrightarrow> codec str (seqD [d]) l x"
  by (rule codec_cong [of _ _ d]) (simp add: seqD_def)

lemma codec_times:
  assumes "\<And>i. i < length xs \<Longrightarrow> codec str (ds ! i) l (xs ! i)" "length ds = length xs"
  shows "codec str (seqD ds) (\<lambda>R. load_times (l R) (length xs)) xs"
  using assms
proof (induction xs arbitrary: ds)
  case (Cons x xs)
  then obtain d ds' where ds: "ds = d # ds'" by (cases ds) auto
  have 1: "codec str d l x" using Cons.prems(1) [of 0] ds by simp
  have 2: "codec str (seqD ds') (\<lambda>R. load_times (l R) (length xs)) xs"
  proof (rule Cons.IH)
    show "codec str (ds' ! i) l (xs ! i)" if "i < length xs" for i
      using Cons.prems(1) [of "Suc i"] ds that by simp
  qed (use Cons.prems(2) ds in simp)
  have 3: "codec str (seqD ds') (\<lambda>R. bindL (load_times (l R) (length xs)) (\<lambda>xs. retL (x # xs))) (x # xs)"
    using 2 unfolding codec_def by (metis loads_bind_ret)
  show ?case
    using codec_bind [where f = "\<lambda>R x. bindL (load_times (l R) (length xs)) (\<lambda>xs. retL (x # xs))", OF 1 3]
    by (simp add: ds)
qed (simp add: codec_ret)

section \<open>The parts\<close>

definition int_ok :: "int \<Rightarrow> bool" where "int_ok x \<longleftrightarrow> 0 \<le> x \<and> x < 2 ^ 31"
definition str_ok :: "string option \<Rightarrow> bool" where
  "str_ok s \<longleftrightarrow> (case s of None \<Rightarrow> True | Some s \<Rightarrow> length s + 1 < 2 ^ 64)"

lemma codec_int: "int_ok x \<Longrightarrow> codec str (DumpInt append_writer x) (LoadInt S) x"
  unfolding DumpInt_def by (rule codec_block [OF loads_int]) (simp_all add: int_ok_def)

lemma codec_char: "c < 128 \<Longrightarrow> codec str (DumpChar append_writer c) (LoadChar S) (int c)"
  unfolding DumpChar_def by (rule codec_block [OF loads_char])

lemma codec_byte: "codec str (DumpChar append_writer (unat w)) (LoadByte S) w"
  unfolding DumpChar_def by (rule codec_block [OF loads_byte])

lemma codec_number: "codec str (DumpNumber append_writer x) (LoadNumber S) x"
  unfolding DumpNumber_def by (rule codec_block [OF loads_number])

lemma loads_string:
  assumes "length s + 1 < 2 ^ 64"
  shows "loads R (LoadString S R) (le_bytes 8 (length s + 1) @ s @ [NUL]) (Some s)"
  unfolding LoadString_def
proof (rule loads_bind)
  show "loads R (LoadBlock S R 8) (le_bytes 8 (length s + 1)) (le_bytes 8 (length s + 1))"
    by (rule loads_block) simp
  have v: "le_value (le_bytes 8 (length s + 1)) = length s + 1"
    using assms by (intro le_value_bytes) simp
  have "loads R (bindL (LoadBlock S R (length s + 1)) (\<lambda>t. retL (Some (take (length s) t)))) (s @ [NUL]) (Some s)"
    by (rule loads_bind_ret [OF loads_block]) simp_all
  then show "loads R (let size' = le_value (le_bytes 8 (length s + 1)) in
      if size' = 0 then retL None
      else bindL (LoadBlock S R size') (\<lambda>s. retL (Some (take (size' - 1) s)))) (s @ [NUL]) (Some s)"
    by (simp add: v [simplified] Let_def)
qed

lemma loads_null: "loads R (LoadString S R) (le_bytes 8 0) None"
  unfolding LoadString_def
  by (rule loads_bind_ret [OF loads_block]) (simp_all add: le_value_bytes Let_def)

lemma codec_string:
  assumes "str_ok s"
  shows "codec str (DumpString append_writer s) (LoadString S) s"
proof (cases s)
  case None
  have "codec str (DumpSize append_writer 0) (LoadString S) None"
    unfolding DumpSize_def by (rule codec_block [OF loads_null])
  then show ?thesis unfolding None by (rule codec_cong [rotated]) (simp add: DumpString_def)
next
  case (Some t)
  have e: "emits str (seqD [DumpSize append_writer (length t + 1), DumpBlock append_writer (t @ [NUL])])
      (le_bytes 8 (length t + 1) @ (t @ [NUL]) @ [])"
    unfolding DumpSize_def by (intro emits_Cons emits_block emits_Nil)
  have "loads R (LoadString S R) (le_bytes 8 (length t + 1) @ (t @ [NUL]) @ []) (Some t)" for R :: "'d reader"
    using loads_string [of t R S] assms by (simp add: str_ok_def Some)
  with e have "codec str (seqD [DumpSize append_writer (length t + 1), DumpBlock append_writer (t @ [NUL])]) (LoadString S) (Some t)"
    unfolding codec_def by blast
  then show ?thesis unfolding Some by (rule codec_cong [rotated]) (simp add: DumpString_def seqD_def)
qed

text \<open>The dumper of a part is a sequence of dumpers when it gives what the sequence gives.\<close>

lemma codec_via: "codec str (seqD ds) l x \<Longrightarrow> (\<And>D. strip D = str \<Longrightarrow> d D = seqD ds D) \<Longrightarrow> codec str d l x"
  by (rule codec_cong) auto

lemma codec_last: "codec str d l x \<Longrightarrow> codec str (seqD [d]) l x"
  by (rule codec_cong [rotated]) (simp_all add: seqD_def)

lemma codec_map: "codec str d l x \<Longrightarrow> codec str d (\<lambda>R. bindL (l R) (\<lambda>x. retL (g x))) (g x)"
proof -
  assume "codec str d l x"
  then obtain bs where "emits str d bs" "\<forall>R. loads R (l R) bs x" by (auto simp: codec_def)
  moreover from this(2) have "\<forall>R. loads R (bindL (l R) (\<lambda>x. retL (g x))) bs (g x)"
    using loads_bind_ret [where y = "g x" and f = "\<lambda>x. retL (g x)"] by blast
  ultimately show ?thesis unfolding codec_def by blast
qed

lemma loads_words:
  assumes "\<And>x. x \<in> set xs \<Longrightarrow> length (enc x) = 4 \<and> dec (enc x) = x"
  shows "loads R (LoadVector S R dec (int (length xs))) (concat (map enc xs)) xs"
proof -
  have l: "length (concat (map enc xs)) = length xs * 4"
    using assms by (induction xs) auto
  have w: "words_of (length xs) (concat (map enc xs)) = map enc xs"
    using assms by (induction xs) auto
  have "map (dec \<circ> enc) xs = xs" using assms by (auto intro: map_idI)
  then show ?thesis unfolding LoadVector_def
    by (intro loads_bind_ret [OF loads_block]) (simp_all add: l w)
qed

definition len_ok :: "'a list \<Rightarrow> bool" where "len_ok xs \<longleftrightarrow> int (length xs) < 2 ^ 31"

lemma codec_len: "len_ok xs \<Longrightarrow> codec str (DumpInt append_writer (int (length xs))) (LoadInt S) (int (length xs))"
  by (rule codec_int) (simp add: int_ok_def len_ok_def)

lemma codec_vector:
  assumes "len_ok xs" "\<And>x. x \<in> set xs \<Longrightarrow> length (enc x) = 4 \<and> dec (enc x) = x"
  shows "codec str (DumpVector append_writer enc xs) (\<lambda>R. bindL (LoadInt S R) (\<lambda>n. LoadVector S R dec n)) xs"
proof (rule codec_via)
  show "codec str (seqD [DumpInt append_writer (int (length xs)), DumpBlock append_writer (concat (map enc xs))])
      (\<lambda>R. bindL (LoadInt S R) (\<lambda>n. LoadVector S R dec n)) xs"
    by (intro codec_bind [where f = "\<lambda>R n. LoadVector S R dec n" and x = "int (length xs)"] codec_len assms(1)
        codec_last codec_block loads_words assms(2))
qed (simp add: DumpVector_def seqD_def)

lemma codec_code: "len_ok (pcode f) \<Longrightarrow> codec str (DumpCode append_writer f) (LoadCode S) (pcode f)"
proof -
  have "unat i < 256 ^ 4" for i :: Instruction
    using uint_lt2p [of i] by (simp flip: nat_uint_eq add: nat_less_iff)
  then have "of_nat (le_value (le_bytes 4 (unat i))) = i" for i :: Instruction
    by (simp add: le_value_bytes)
  moreover assume "len_ok (pcode f)"
  ultimately show ?thesis unfolding DumpCode_def LoadCode_def by (intro codec_vector) simp_all
qed

lemma codec_lineinfo:
  assumes "len_ok xs" "\<And>l. l \<in> set xs \<Longrightarrow> - (2 ^ 31) \<le> l \<and> l < 2 ^ 31"
  shows "codec str (DumpVector append_writer (\<lambda>l. le_bytes 4 (nat (l mod 2 ^ 32))) xs)
    (\<lambda>R. bindL (LoadInt S R) (\<lambda>n. LoadVector S R int_of_bytes n)) xs"
  using assms int_of_bytes by (intro codec_vector) auto

definition const_ok :: "TValue option \<Rightarrow> bool" where
  "const_ok k \<longleftrightarrow> (case k of
       None \<Rightarrow> True | Some (TString s) \<Rightarrow> str_ok (Some s) | Some TNil \<Rightarrow> True | Some (TBoolean b) \<Rightarrow> True
     | Some (TNumber n) \<Rightarrow> True | _ \<Rightarrow> False)"

lemma codec_constant:
  assumes "const_ok k"
  shows "codec str (DumpConstant append_writer k) (LoadConstant S :: 'd reader \<Rightarrow> ('d, TValue option) loader) k"
proof -
  define l where "l = (LoadConstant S :: 'd reader \<Rightarrow> ('d, TValue option) loader)"
  define f :: "'d reader \<Rightarrow> int \<Rightarrow> ('d, TValue option) loader" where
    "f = (\<lambda>R t.
       if t = LUA_TNIL then retL (Some TNil)
       else if t = LUA_TBOOLEAN then bindL (LoadChar S R) (\<lambda>c. retL (Some (TBoolean (c \<noteq> 0))))
       else if t = LUA_TNUMBER then bindL (LoadNumber S R) (\<lambda>n. retL (Some (TNumber n)))
       else if t = LUA_TSTRING then bindL (LoadString S R) (\<lambda>s. retL (map_option TString s))
       else load_error S ''bad constant'')"
  have load: "l = (\<lambda>R. bindL (LoadChar S R) (f R))"
    by (simp add: fun_eq_iff l_def LoadConstant_def f_def)
  have f: "f R 0 = retL (Some TNil)" "f R 1 = bindL (LoadChar S R) (\<lambda>c. retL (Some (TBoolean (c \<noteq> 0))))"
    "f R 3 = bindL (LoadNumber S R) (\<lambda>n. retL (Some (TNumber n)))"
    "f R 4 = bindL (LoadString S R) (\<lambda>s. retL (map_option TString s))" for R
    by (simp_all add: f_def)
  have tag: "codec str (seqD (DumpChar append_writer t # ds)) l k"
    if "t < 128" "codec str (seqD ds) (\<lambda>R. f R (int t)) k" for t ds
    unfolding load by (rule codec_bind [where f = f, OF codec_char [OF that(1)] that(2)])
  have str: "codec str (DumpConstant append_writer k) l k"
    if "k = map_option TString s" "str_ok s" for s
  proof (rule codec_via)
    show "codec str (seqD [DumpChar append_writer 4, DumpString append_writer s]) l k"
      using codec_map [OF codec_string [OF that(2)], of str S "map_option TString"] that(1)
      by (intro tag codec_last) (simp_all add: f)
  qed (use that(1) in \<open>cases s; simp add: seqD_def\<close>)
  have "codec str (DumpConstant append_writer k) l k"
  proof (cases k)
    case None then show ?thesis using str [of None] by (simp add: str_ok_def)
  next
    case (Some v)
    show ?thesis
    proof (cases v)
      case TNil
      have "codec str (seqD [DumpChar append_writer 0]) l k"
        by (rule tag) (simp_all add: f codec_ret Some TNil)
      then show ?thesis by (rule codec_via) (simp add: Some TNil seqD_def)
    next
      case (TBoolean b)
      let ?c = "if b then 1 else 0 :: nat"
      have "(int ?c \<noteq> 0) = b" by simp
      then have "codec str (seqD [DumpChar append_writer 1, DumpChar append_writer ?c]) l k"
        using codec_map [OF codec_char [of ?c str S], of "\<lambda>c. Some (TBoolean (c \<noteq> 0))"]
        by (intro tag codec_last) (cases b; simp add: f Some TBoolean)+
      then show ?thesis by (rule codec_via) (simp add: Some TBoolean seqD_def)
    next
      case (TNumber n)
      have "codec str (seqD [DumpChar append_writer 3, DumpNumber append_writer n]) l k"
        using codec_map [OF codec_number [of str n S], of "\<lambda>n. Some (TNumber n)"]
        by (intro tag codec_last) (simp_all add: f Some TNumber)
      then show ?thesis by (rule codec_via) (simp add: Some TNumber seqD_def)
    next
      case (TString s)
      then show ?thesis using str [of "Some s"] assms by (simp add: const_ok_def Some)
    qed (use assms in \<open>simp_all add: const_ok_def Some\<close>)
  qed
  then show ?thesis by (simp add: l_def)
qed

section \<open>Counted lists and records\<close>

lemma codecE:
  assumes "codec str d l x"
  obtains bs where "emits str d bs" "\<forall>R. loads R (l R) bs x"
  using assms by (auto simp: codec_def)

lemma codecI: "emits str d bs \<Longrightarrow> (\<And>R. loads R (l R) bs x) \<Longrightarrow> codec str d l x"
  by (auto simp: codec_def)

lemma bindL_assoc: "bindL (bindL m f) g = bindL m (\<lambda>x. bindL (f x) g)"
  by (auto simp: bindL_def fun_eq_iff split: sum.splits)

definition counted :: "string \<Rightarrow> ('d reader \<Rightarrow> ('d, 'a) loader) \<Rightarrow> 'd reader \<Rightarrow> ('d, 'a list) loader" where
  "counted S l R = bindL (LoadInt S R) (\<lambda>n. load_times (l R) (nat n))"

lemma codec_counted:
  fixes l :: "'d reader \<Rightarrow> ('d, 'a) loader"
  assumes "len_ok xs" "\<And>i. i < length xs \<Longrightarrow> codec str (ds ! i) l (xs ! i)" "length ds = length xs"
  shows "codec str (seqD (DumpInt append_writer (int (length xs)) # ds)) (counted S l) xs"
proof -
  obtain b1 where 1: "emits str (DumpInt append_writer (int (length xs))) b1" "\<forall>R :: 'd reader. loads R (LoadInt S R) b1 (int (length xs))"
    using codec_len [OF assms(1)] by (rule codecE)
  obtain b2 where 2: "emits str (seqD ds) b2" "\<forall>R :: 'd reader. loads R (load_times (l R) (length xs)) b2 xs"
    using codec_times [of xs str ds l, OF assms(2,3)] by (rule codecE)
  show ?thesis
  proof (rule codecI)
    show "emits str (seqD (DumpInt append_writer (int (length xs)) # ds)) (b1 @ b2)"
      by (rule emits_Cons [OF 1(1) 2(1)])
    show "loads R (counted S l R) (b1 @ b2) xs" for R :: "'d reader"
      unfolding counted_def by (rule loads_bind [OF 1(2) [rule_format]]) (simp add: 2(2) [rule_format])
  qed
qed

lemma codec_counted_map:
  assumes "len_ok xs" "\<And>x. x \<in> set xs \<Longrightarrow> codec str (d x) l x"
  shows "codec str (seqD (DumpInt append_writer (int (length xs)) # map d xs)) (counted S l) xs"
  using assms by (intro codec_counted) simp_all

definition locvar_ok :: "LocVar \<Rightarrow> bool" where
  "locvar_ok v \<longleftrightarrow> str_ok (varname v) \<and> int_ok (startpc v) \<and> int_ok (endpc v)"

lemma codec_locvar:
  assumes "locvar_ok v"
  shows "codec str (DumpLocVar append_writer v) (LoadLocVar S :: 'd reader \<Rightarrow> ('d, LocVar) loader) v"
proof -
  let ?s = "LoadString S :: 'd reader \<Rightarrow> ('d, string option) loader" and ?i = "LoadInt S :: 'd reader \<Rightarrow> ('d, int) loader"
  have c: "codec str (DumpString append_writer (varname v)) ?s (varname v)"
    "codec str (DumpInt append_writer (startpc v)) ?i (startpc v)" "codec str (DumpInt append_writer (endpc v)) ?i (endpc v)"
    using assms by (simp_all add: locvar_ok_def codec_string codec_int)
  obtain b1 where 1: "emits str (DumpString append_writer (varname v)) b1" "\<forall>R. loads R (?s R) b1 (varname v)"
    using c(1) by (rule codecE)
  obtain b2 where 2: "emits str (DumpInt append_writer (startpc v)) b2" "\<forall>R. loads R (?i R) b2 (startpc v)"
    using c(2) by (rule codecE)
  obtain b3 where 3: "emits str (DumpInt append_writer (endpc v)) b3" "\<forall>R. loads R (?i R) b3 (endpc v)"
    using c(3) by (rule codecE)
  show ?thesis
  proof (rule codecI)
    have "emits str (seqD [DumpString append_writer (varname v), DumpInt append_writer (startpc v), DumpInt append_writer (endpc v)])
        (b1 @ b2 @ b3 @ [])"
      by (intro emits_Cons 1 2 3 emits_Nil)
    then show "emits str (DumpLocVar append_writer v) (b1 @ b2 @ b3 @ [])"
      by (simp add: emits_def seqD_def DumpLocVar_def)
    show "loads R (LoadLocVar S R) (b1 @ b2 @ b3 @ []) v" for R :: "'d reader"
      unfolding LoadLocVar_def
      by (rule loads_bind [OF 1(2) [rule_format]], rule loads_bind [OF 2(2) [rule_format]], rule loads_bind [OF 3(2) [rule_format]])
        (cases v, simp add: loads_ret)
  qed
qed

section \<open>A function\<close>

text \<open>What is saved with the debug information stripped, when loaded again.\<close>

function strip_proto :: "Proto \<Rightarrow> Proto" where
  "strip_proto f =
     Proto (kst f) (pcode f) (map strip_proto (protos f)) [] [] [] (Some ''=?'') (linedefined f) (lastlinedefined f)
       (nups f) (numparams f) (is_vararg f) (maxstacksize f)"
  by pat_completeness auto
termination
  by (relation "measure size") (auto simp: size_protos)

declare strip_proto.simps [simp del]

definition saved :: "bool \<Rightarrow> Proto \<Rightarrow> Proto" where
  "saved str f = (if str then strip_proto f else f)"

text \<open>What a prototype must satisfy to be loaded again: every loader allows these values, and
  functions are nested at most \<open>n\<close> deep.\<close>

fun savable :: "bool \<Rightarrow> nat \<Rightarrow> Proto \<Rightarrow> bool" where
  "savable str 0 f = False"
| "savable str (Suc n) f \<longleftrightarrow>
     luaG_checkcode (saved str f) = Accepted True \<and>
     int_ok (linedefined f) \<and> int_ok (lastlinedefined f) \<and>
     len_ok (pcode f) \<and> len_ok (kst f) \<and> (\<forall>k \<in> set (kst f). const_ok k) \<and>
     (\<not> str \<longrightarrow>
        psource f \<noteq> None \<and> str_ok (psource f) \<and>
        len_ok (plineinfo f) \<and> (\<forall>l \<in> set (plineinfo f). - (2 ^ 31) \<le> l \<and> l < 2 ^ 31) \<and>
        len_ok (plocvars f) \<and> (\<forall>v \<in> set (plocvars f). locvar_ok v) \<and>
        len_ok (pupvalues f) \<and> (\<forall>u \<in> set (pupvalues f). str_ok u)) \<and>
     len_ok (protos f) \<and> (\<forall>q \<in> set (protos f). savable str n q)"

lemma codec_debug:
  assumes "\<not> str \<longrightarrow>
        len_ok (plineinfo f) \<and> (\<forall>l \<in> set (plineinfo f). - (2 ^ 31) \<le> l \<and> l < 2 ^ 31) \<and>
        len_ok (plocvars f) \<and> (\<forall>v \<in> set (plocvars f). locvar_ok v) \<and>
        len_ok (pupvalues f) \<and> (\<forall>u \<in> set (pupvalues f). str_ok u)"
  defines "li \<equiv> if str then [] else plineinfo f" and "lv \<equiv> if str then [] else plocvars f"
    and "uv \<equiv> if str then [] else pupvalues f"
  shows "codec str (DumpDebug append_writer f) (LoadDebug S :: 'd reader \<Rightarrow> ('d, int list \<times> LocVar list \<times> string option list) loader) (li, lv, uv)"
proof -
  have ok: "len_ok li" "\<forall>l \<in> set li. - (2 ^ 31) \<le> l \<and> l < 2 ^ 31" "len_ok lv" "\<forall>v \<in> set lv. locvar_ok v"
    "len_ok uv" "\<forall>u \<in> set uv. str_ok u"
    using assms(1) by (auto simp: li_def lv_def uv_def len_ok_def)
  let ?d1 = "DumpVector append_writer (\<lambda>l. le_bytes 4 (nat (l mod 2 ^ 32))) li"
  let ?d2 = "seqD (DumpInt append_writer (int (length lv)) # map (DumpLocVar append_writer) lv)"
  let ?d3 = "seqD (DumpInt append_writer (int (length uv)) # map (DumpString append_writer) uv)"
  let ?l1 = "(\<lambda>R. bindL (LoadInt S R) (\<lambda>n. LoadVector S R int_of_bytes n)) :: 'd reader \<Rightarrow> ('d, int list) loader"
  let ?l2 = "LoadLocVar S :: 'd reader \<Rightarrow> ('d, LocVar) loader"
  let ?l3 = "LoadString S :: 'd reader \<Rightarrow> ('d, string option) loader"
  have c: "codec str ?d1 ?l1 li" "codec str ?d2 (counted S ?l2) lv" "codec str ?d3 (counted S ?l3) uv"
    by (rule codec_lineinfo; use ok in simp) (use ok in \<open>auto intro!: codec_counted_map codec_locvar codec_string\<close>)
  obtain b1 where 1: "emits str ?d1 b1" "\<forall>R. loads R (?l1 R) b1 li" using c(1) by (rule codecE)
  obtain b2 where 2: "emits str ?d2 b2" "\<forall>R. loads R (counted S ?l2 R) b2 lv" using c(2) by (rule codecE)
  obtain b3 where 3: "emits str ?d3 b3" "\<forall>R. loads R (counted S ?l3 R) b3 uv" using c(3) by (rule codecE)
  show ?thesis
  proof (rule codecI)
    have "emits str (seqD [?d1, ?d2, ?d3]) (b1 @ b2 @ b3 @ [])"
      by (intro emits_Cons 1 2 3 emits_Nil)
    then show "emits str (DumpDebug append_writer f) (b1 @ b2 @ b3 @ [])"
      by (simp add: emits_def seqD_def DumpDebug_def Let_def fold_map o_def li_def lv_def uv_def)
    have l: "LoadDebug S R = bindL (bindL (LoadInt S R) (\<lambda>n. LoadVector S R int_of_bytes n)) (\<lambda>li.
        bindL (counted S (LoadLocVar S) R) (\<lambda>lv. bindL (counted S (LoadString S) R) (\<lambda>uv. retL (li, lv, uv))))" for R :: "'d reader"
      by (simp add: LoadDebug_def counted_def bindL_assoc)
    show "loads R (LoadDebug S R) (b1 @ b2 @ b3 @ []) (li, lv, uv)" for R :: "'d reader"
      unfolding l by (rule loads_bind [OF 1(2) [rule_format]], rule loads_bind [OF 2(2) [rule_format]], rule loads_bind [OF 3(2) [rule_format]], rule loads_ret)
  qed
qed

text \<open>The source of the enclosing function, as it is and as it is loaded.\<close>

definition src_ok :: "bool \<Rightarrow> string option \<Rightarrow> string option \<Rightarrow> bool" where
  "src_ok str p q \<longleftrightarrow> (if str then q = Some ''=?'' else p = None \<or> q = p)"

lemma saved_eq:
  "saved str f = Proto (kst f) (pcode f) (map (saved str) (protos f))
     (if str then [] else plineinfo f) (if str then [] else plocvars f) (if str then [] else pupvalues f)
     (if str then Some ''=?'' else psource f) (linedefined f) (lastlinedefined f) (nups f) (numparams f) (is_vararg f) (maxstacksize f)"
  by (cases str) (simp_all add: saved_def [abs_def] strip_proto.simps [of f])

lemma codec_function:
  assumes "savable str n f" "src_ok str p q"
  shows "codec str (DumpFunction append_writer f p)
    ((\<lambda>R. LoadFunction S R n q) :: 'd reader \<Rightarrow> ('d, Proto) loader) (saved str f)"
  using assms
proof (induction n arbitrary: f p q)
  case (Suc n)
  note ok = Suc.prems(1) [simplified]
  define src where "src = (if str then Some ''=?'' else psource f)"
  let ?W = "append_writer"
  let ?name = "if psource f = p \<or> str then None else psource f"
  let ?ks = "seqD (DumpInt ?W (int (length (kst f))) # map (DumpConstant ?W) (kst f))"
  let ?sub = "(\<lambda>R. LoadFunction S R n src) :: 'd reader \<Rightarrow> ('d, Proto) loader"
  let ?ps = "map (saved str) (protos f)"
  let ?subs = "seqD (DumpInt ?W (int (length ?ps)) # map (\<lambda>q. DumpFunction ?W q (psource f)) (protos f))"
  let ?dbg = "(if str then [] else plineinfo f, if str then [] else plocvars f, if str then [] else pupvalues f)"
  let ?s = "LoadString S :: 'd reader \<Rightarrow> ('d, string option) loader" and ?i = "LoadInt S :: 'd reader \<Rightarrow> ('d, int) loader"
    and ?b = "LoadByte S :: 'd reader \<Rightarrow> ('d, 8 word) loader" and ?c = "LoadCode S :: 'd reader \<Rightarrow> ('d, Instruction list) loader"
    and ?k = "counted S (LoadConstant S) :: 'd reader \<Rightarrow> ('d, TValue option list) loader"
    and ?d = "LoadDebug S :: 'd reader \<Rightarrow> ('d, int list \<times> LocVar list \<times> string option list) loader"
  have name: "(if ?name = None then q else ?name) = src"
    using Suc.prems(2) ok by (auto simp: src_ok_def src_def)
  have subs: "codec str ?subs (counted S ?sub) ?ps"
  proof (rule codec_counted)
    show "len_ok ?ps" using ok by (simp add: len_ok_def)
    show "codec str (map (\<lambda>q. DumpFunction ?W q (psource f)) (protos f) ! i) ?sub (?ps ! i)" if "i < length ?ps" for i
      using Suc.IH [of "protos f ! i" "psource f" src] ok that by (simp add: src_ok_def src_def)
  qed simp
  have code: "codec str (DumpCode ?W f) ?c (pcode f)" using ok by (simp add: codec_code)
  have cst: "codec str ?ks ?k (kst f)" using ok by (intro codec_counted_map codec_constant) simp_all
  have dbg: "codec str (DumpDebug ?W f) ?d ?dbg" using ok by (intro codec_debug) simp
  have ints: "codec str (DumpInt ?W (linedefined f)) ?i (linedefined f)"
    "codec str (DumpInt ?W (lastlinedefined f)) ?i (lastlinedefined f)" using ok by (simp_all add: codec_int)
  have nm: "codec str (DumpString ?W ?name) ?s ?name" using ok by (intro codec_string) (auto simp: str_ok_def)
  obtain b1 where 1: "emits str (DumpString ?W ?name) b1" "\<forall>R. loads R (?s R) b1 ?name" using nm by (rule codecE)
  obtain b2 where 2: "emits str (DumpInt ?W (linedefined f)) b2" "\<forall>R. loads R (?i R) b2 (linedefined f)" using ints(1) by (rule codecE)
  obtain b3 where 3: "emits str (DumpInt ?W (lastlinedefined f)) b3" "\<forall>R. loads R (?i R) b3 (lastlinedefined f)" using ints(2) by (rule codecE)
  obtain b4 where 4: "emits str (DumpChar ?W (unat (nups f))) b4" "\<forall>R. loads R (?b R) b4 (nups f)" using codec_byte by (rule codecE)
  obtain b5 where 5: "emits str (DumpChar ?W (unat (numparams f))) b5" "\<forall>R. loads R (?b R) b5 (numparams f)" using codec_byte by (rule codecE)
  obtain b6 where 6: "emits str (DumpChar ?W (unat (is_vararg f))) b6" "\<forall>R. loads R (?b R) b6 (is_vararg f)" using codec_byte by (rule codecE)
  obtain b7 where 7: "emits str (DumpChar ?W (unat (maxstacksize f))) b7" "\<forall>R. loads R (?b R) b7 (maxstacksize f)" using codec_byte by (rule codecE)
  obtain b8 where 8: "emits str (DumpCode ?W f) b8" "\<forall>R. loads R (?c R) b8 (pcode f)" using code by (rule codecE)
  obtain b9 where 9: "emits str ?ks b9" "\<forall>R. loads R (?k R) b9 (kst f)" using cst by (rule codecE)
  obtain b10 where 10: "emits str ?subs b10" "\<forall>R. loads R (counted S ?sub R) b10 ?ps" using subs by (rule codecE)
  obtain b11 where 11: "emits str (DumpDebug ?W f) b11" "\<forall>R. loads R (?d R) b11 ?dbg" using dbg by (rule codecE)
  let ?bs = "b1 @ b2 @ b3 @ b4 @ b5 @ b6 @ b7 @ b8 @ (b9 @ b10 @ []) @ b11 @ []"
  show ?case
  proof (rule codecI)
    have "emits str (seqD [DumpString ?W ?name, DumpInt ?W (linedefined f), DumpInt ?W (lastlinedefined f),
        DumpChar ?W (unat (nups f)), DumpChar ?W (unat (numparams f)), DumpChar ?W (unat (is_vararg f)),
        DumpChar ?W (unat (maxstacksize f)), DumpCode ?W f, seqD [?ks, ?subs], DumpDebug ?W f]) ?bs"
      by (intro emits_Cons 1 2 3 4 5 6 7 8 9 10 11 emits_Nil)
    then show "emits str (DumpFunction ?W f p) ?bs"
      by (simp add: emits_def seqD_def DumpFunction.simps [of ?W f] DumpConstants_def fold_map o_def sizek_def sizep_def)
    show "loads R (LoadFunction S R (Suc n) q) ?bs (saved str f)" for R :: "'d reader"
    proof -
      have k: "LoadConstants S R (?sub R) = bindL (?k R) (\<lambda>ks. bindL (counted S ?sub R) (\<lambda>ps. retL (ks, ps)))"
        by (simp add: LoadConstants_def counted_def bindL_assoc)
      have kl: "loads R (LoadConstants S R (?sub R)) (b9 @ b10 @ []) (kst f, ?ps)"
        unfolding k by (rule loads_bind [OF 9(2) [rule_format]], rule loads_bind [OF 10(2) [rule_format]], rule loads_ret)
      have fin: "loads R (let g = Proto (kst f) (pcode f) ?ps (fst ?dbg) (fst (snd ?dbg)) (snd (snd ?dbg)) src (linedefined f)
          (lastlinedefined f) (nups f) (numparams f) (is_vararg f) (maxstacksize f)
          in if luaG_checkcode g \<noteq> Accepted True then load_error S ''bad code'' else retL g) [] (saved str f)"
        using ok loads_ret [of R "saved str f"] by (simp add: saved_eq [of str f, folded src_def, symmetric] Let_def)
      show ?thesis
        unfolding LoadFunction.simps Let_def
        by (rule loads_bind [OF 1(2) [rule_format]], unfold name, rule loads_bind [OF 2(2) [rule_format]],
            rule loads_bind [OF 3(2) [rule_format]], rule loads_bind [OF 4(2) [rule_format]],
            rule loads_bind [OF 5(2) [rule_format]], rule loads_bind [OF 6(2) [rule_format]],
            rule loads_bind [OF 7(2) [rule_format]], rule loads_bind [OF 8(2) [rule_format]],
            rule loads_bind [OF kl], unfold prod.case, rule loads_bind [OF 11(2) [rule_format]], unfold prod.case)
          (use fin in \<open>simp add: Let_def\<close>)
    qed
  qed
qed simp

section \<open>A chunk\<close>

lemma codec_header: "codec str (DumpHeader append_writer) (LoadHeader S) ()"
proof -
  have "length luaU_header = 12" by (simp add: luaU_header_def LUA_SIGNATURE_def)
  then show ?thesis unfolding DumpHeader_def LoadHeader_def
    by (intro codec_block loads_bind_ret [OF loads_block]) simp_all
qed

definition chunk_bytes :: "bool \<Rightarrow> Proto \<Rightarrow> string" where
  "chunk_bytes str f = snd (luaU_dump f append_writer [] str)"

lemma chunk_loads:
  fixes R :: "'d reader"
  assumes "savable str (LUAI_MAXCCALLS - nCcalls) f"
  shows "luaU_dump f append_writer [] str = (0, chunk_bytes str f)"
    and "loads R (luaU_undump R nCcalls name) (chunk_bytes str f) (saved str f)"
    and "0 < length (chunk_bytes str f)"
proof -
  let ?S = "chunk_name name" and ?n = "LUAI_MAXCCALLS - nCcalls"
  have c: "codec str (DumpHeader append_writer) (LoadHeader ?S :: 'd reader \<Rightarrow> ('d, unit) loader) ()"
    "codec str (DumpFunction append_writer f None)
      ((\<lambda>R. LoadFunction ?S R ?n (Some ''=?'')) :: 'd reader \<Rightarrow> ('d, Proto) loader) (saved str f)"
    by (rule codec_header) (rule codec_function [OF assms], simp add: src_ok_def)
  obtain b1 where 1: "emits str (DumpHeader append_writer) b1" "\<forall>R :: 'd reader. loads R (LoadHeader ?S R) b1 ()"
    using c(1) by (rule codecE)
  obtain b2 where 2: "emits str (DumpFunction append_writer f None) b2"
    "\<forall>R :: 'd reader. loads R (LoadFunction ?S R ?n (Some ''=?'')) b2 (saved str f)" using c(2) by (rule codecE)
  have d: "luaU_dump f append_writer [] str = (0, b1 @ b2)"
    using 1(1) 2(1) by (simp add: luaU_dump_def emits_def Let_def)
  then have b: "chunk_bytes str f = b1 @ b2" by (simp add: chunk_bytes_def)
  have "emits str (DumpHeader append_writer) luaU_header" by (simp add: DumpHeader_def emits_block)
  then have "b1 = luaU_header"
    using 1(1) unfolding emits_def
    by (metis (no_types, lifting) DumpState.select_convs(1) DumpState.select_convs(2) DumpState.select_convs(3)
        DumpState.update_convs(1) self_append_conv2)
  then show "0 < length (chunk_bytes str f)" by (simp add: b luaU_header_def)
  show "luaU_dump f append_writer [] str = (0, chunk_bytes str f)" using d b by simp
  show "loads R (luaU_undump R nCcalls name) (chunk_bytes str f) (saved str f)"
    unfolding b luaU_undump_def Let_def by (rule loads_bind [OF 1(2) [rule_format] 2(2) [rule_format]])
qed

section \<open>Properties\<close>

text \<open>C25: Loading what was saved gives the function back, for every function that the loader may accept (the
  checker accepts its code, its counts, lines and constants are of the widths of the file format, and its functions are
  nested no deeper than C calls may be): \<^verbatim>\<open>luaU_dump\<close> succeeds, and \<^verbatim>\<open>luaU_undump\<close>, from a
  reader that delivers the bytes in blocks of any size and any bytes after them, returns the
  same prototype with all its nested functions, constants (strings with zero bytes, numbers bit by bit)
  and debug information, or the stripped one, and leaves the bytes after it in the stream.\<close>

theorem luaU_dump_undump:
  assumes "savable str (LUAI_MAXCCALLS - nCcalls) f" "delivers R E d (chunk_bytes str f @ rest)"
  shows "luaU_dump f append_writer [] str = (0, chunk_bytes str f) \<and>
    (\<exists>z. luaU_undump R nCcalls name (luaZ_init d) = Inr (saved str f, z) \<and> stream R E z rest)"
proof -
  have "stream R E (luaZ_init d) (chunk_bytes str f @ rest)"
    using assms(2) by (simp add: stream_def luaZ_init_def)
  then show ?thesis
    using chunk_loads(1) [OF assms(1)] chunk_loads(2) [OF assms(1), of R name] unfolding loads_def by blast
qed

text \<open>C26: A chunk that was cut off anywhere is refused: when the reader ends inside the bytes of a saved
  function, \<^verbatim>\<open>luaU_undump\<close> raises an error and returns no function.\<close>

theorem luaU_undump_truncated:
  assumes "savable str (LUAI_MAXCCALLS - nCcalls) f" "delivers R True d (take n (chunk_bytes str f))"
    "n < length (chunk_bytes str f)"
  shows "\<exists>e. luaU_undump R nCcalls name (luaZ_init d) = Inl e"
proof -
  have "stream R True (luaZ_init d) (take n (chunk_bytes str f))"
    using assms(2) by (simp add: stream_def luaZ_init_def)
  moreover have "take n (chunk_bytes str f) @ drop n (chunk_bytes str f) = chunk_bytes str f" "drop n (chunk_bytes str f) \<noteq> []"
    using assms(3) by simp_all
  ultimately show ?thesis using chunk_loads(2) [OF assms(1), of R name] unfolding loads_def by blast
qed

text \<open>A reader that returns the given blocks one after the other.\<close>

fun list_reader :: "string list reader" where
  "list_reader [] = (None, [])"
| "list_reader (b # bs) = (Some b, bs)"

lemma list_reader_delivers: "[] \<notin> set bs \<Longrightarrow> delivers list_reader True bs (concat bs)"
  by (induction bs) (auto intro: delivers.intros simp: at_end_def)

lemma bytewise: "delivers list_reader True (map (\<lambda>c. [c]) s) s"
  using list_reader_delivers [of "map (\<lambda>c. [c]) s"] by (auto simp: image_iff)

lemma sample_savable: "savable False 200 (sample_proto sample_code)"
proof -
  have e: "(200 :: nat) = Suc 199" by simp
  show ?thesis unfolding e savable.simps using sample_accepted
    by (simp add: saved_def sample_proto_def sample_code_def int_ok_def len_ok_def const_ok_def str_ok_def)
qed

theorem luaU_dump_undump_witness:
  "\<exists>z. luaU_undump list_reader 0 ''=sample'' (luaZ_init (map (\<lambda>c. [c]) (chunk_bytes False (sample_proto sample_code)))) =
     Inr (sample_proto sample_code, z) \<and> stream list_reader True z []"
  using luaU_dump_undump [of False 0 "sample_proto sample_code" list_reader True _ "[]"] sample_savable bytewise
  by (simp add: saved_def)

theorem luaU_undump_truncated_witness:
  "\<exists>e. luaU_undump list_reader 0 ''=sample'' (luaZ_init (map (\<lambda>c. [c]) (take 0 (chunk_bytes False (sample_proto sample_code))))) = Inl e"
proof (rule luaU_undump_truncated)
  show "savable False (LUAI_MAXCCALLS - 0) (sample_proto sample_code)" using sample_savable by simp
  show "0 < length (chunk_bytes False (sample_proto sample_code))"
    using chunk_loads(3) [of False 0] sample_savable by simp
qed (rule bytewise)

end
