(* ===== verification/Lua_Chunk_Writer.thy ===== *)
theory Lua_Chunk_Writer
  imports Lua_Chunk
begin

text \<open>
  How \<^verbatim>\<open>luaU_dump\<close> (src/lib/lua/ldump.c) uses its writer: the blocks it hands over depend on the
  function only, and after the first block the writer refuses it is not called again.
\<close>

section \<open>What a writer gets\<close>

definition writes :: "bool \<Rightarrow> ('d writer \<Rightarrow> 'd dumper) \<Rightarrow> bool" where
  "writes str m \<longleftrightarrow> (\<exists>bs. \<forall>W D. strip D = str \<longrightarrow> m W D = fold (DumpBlock W) bs D)"

lemma strip_blocks [simp]: "strip (fold (DumpBlock W) bs D) = strip D"
  by (induction bs arbitrary: D) (auto simp: DumpBlock_def Let_def split: prod.splits)

lemma writes_id: "writes str (\<lambda>W D. D)"
  unfolding writes_def by (rule exI [of _ "[]"]) simp

lemma writes_id': "writes str (\<lambda>W. id)"
  unfolding writes_def by (rule exI [of _ "[]"]) simp

lemma writes_block: "writes str (\<lambda>W. DumpBlock W b)"
  unfolding writes_def by (rule exI [of _ "[b]"]) simp

lemma writes_comp:
  assumes "writes str m1" "writes str m2"
  shows "writes str (\<lambda>W D. m2 W (m1 W D))"
proof -
  obtain b1 b2 where "\<forall>W D. strip D = str \<longrightarrow> m1 W D = fold (DumpBlock W) b1 D"
    "\<forall>W D. strip D = str \<longrightarrow> m2 W D = fold (DumpBlock W) b2 D"
    using assms unfolding writes_def by blast
  then show ?thesis unfolding writes_def by (intro exI [of _ "b1 @ b2"]) simp
qed

lemma writes_fold: "(\<And>x. x \<in> set xs \<Longrightarrow> writes str (\<lambda>W. d W x)) \<Longrightarrow> writes str (\<lambda>W. fold (d W) xs)"
proof (induction xs)
  case (Cons x xs)
  then have "writes str (\<lambda>W. d W x)" "writes str (\<lambda>W. fold (d W) xs)" by auto
  from writes_comp [OF this] show ?case by (simp add: o_def)
qed (simp add: writes_id id_def)

lemma writes_seq:
  assumes "list_all (writes str) ms" "\<And>W D. strip D = str \<Longrightarrow> f W D = fold (\<lambda>m. m W) ms D"
  shows "writes str f"
proof -
  have "writes str (\<lambda>W. fold (\<lambda>m. m W) ms)" using assms(1) by (intro writes_fold) (simp add: list_all_iff)
  then show ?thesis using assms(2) by (simp add: writes_def)
qed

lemma writes_basic:
  "writes str (\<lambda>W. DumpInt W x)" "writes str (\<lambda>W. DumpChar W c)" "writes str (\<lambda>W. DumpNumber W v)" "writes str (\<lambda>W. DumpSize W n)"
  by (simp_all add: DumpInt_def DumpChar_def DumpNumber_def DumpSize_def writes_block)

lemma writes_vector: "writes str (\<lambda>W. DumpVector W enc xs)"
  unfolding DumpVector_def [abs_def]
  by (rule writes_comp [where ?m2.0 = "\<lambda>W. DumpBlock W (concat (map enc xs))", OF writes_basic(1) writes_block])

lemma writes_string: "writes str (\<lambda>W. DumpString W s)"
proof (cases s)
  case None
  then show ?thesis using writes_basic(4) [of str 0] by (simp add: DumpString_def [abs_def])
next
  case (Some t)
  have "writes str (\<lambda>W D. DumpBlock W (t @ [NUL]) (DumpSize W (length t + 1) D))"
    by (rule writes_comp [OF writes_basic(4) writes_block])
  then show ?thesis using Some by (simp add: DumpString_def [abs_def])
qed

lemma writes_constant: "writes str (\<lambda>W. DumpConstant W k)"
proof -
  note two = writes_comp [OF writes_basic(2) writes_basic(2)] writes_comp [OF writes_basic(2) writes_basic(3)]
    writes_comp [OF writes_basic(2) writes_string]
  have c: "(\<lambda>W. DumpConstant W None) = (\<lambda>W D. DumpString W None (DumpChar W 4 D))"
    "(\<lambda>W. DumpConstant W (Some (TString s))) = (\<lambda>W D. DumpString W (Some s) (DumpChar W 4 D))"
    "(\<lambda>W. DumpConstant W (Some (TBoolean b))) = (\<lambda>W D. DumpChar W (if b then 1 else 0) (DumpChar W 1 D))"
    "(\<lambda>W. DumpConstant W (Some (TNumber n))) = (\<lambda>W D. DumpNumber W n (DumpChar W 3 D))" for s b n
    by (intro ext, simp)+
  show ?thesis
  proof (cases k)
    case None
    then show ?thesis unfolding None c by (intro two)
  next
    case (Some v)
    show ?thesis
    proof (cases v)
      case (TString s) show ?thesis unfolding Some TString c by (rule two)
    next
      case (TBoolean b) show ?thesis unfolding Some TBoolean c by (rule two)
    next
      case (TNumber n) show ?thesis unfolding Some TNumber c by (rule two)
    qed (simp_all add: Some DumpConstant.simps [abs_def] writes_basic)
  qed
qed

lemma writes_locvar: "writes str (\<lambda>W. DumpLocVar W v)"
  by (rule writes_seq [where ms = "[\<lambda>W. DumpString W (varname v), \<lambda>W. DumpInt W (startpc v), \<lambda>W. DumpInt W (endpc v)]"])
    (auto simp: DumpLocVar_def writes_string writes_basic)

lemma writes_debug: "writes str (\<lambda>W. DumpDebug W f)"
proof -
  let ?li = "if str then [] else plineinfo f" and ?lv = "if str then [] else plocvars f" and ?uv = "if str then [] else pupvalues f"
  show ?thesis
    by (rule writes_seq [where ms = "[\<lambda>W. DumpVector W (\<lambda>l. le_bytes 4 (nat (l mod 2 ^ 32))) ?li, \<lambda>W. DumpInt W (int (length ?lv)),
          \<lambda>W. fold (DumpLocVar W) ?lv, \<lambda>W. DumpInt W (int (length ?uv)), \<lambda>W. fold (DumpString W) ?uv]"])
      (auto simp: DumpDebug_def Let_def writes_id' writes_vector writes_basic intro!: writes_fold writes_locvar writes_string)
qed

lemma writes_function: "writes str (\<lambda>W :: 'd writer. DumpFunction W f p)"
proof (induction "size f" arbitrary: f p rule: less_induct)
  case less
  let ?name = "if psource f = p \<or> str then None else psource f"
  have subs: "writes str (\<lambda>W :: 'd writer. fold (\<lambda>q. DumpFunction W q (psource f)) (protos f))"
    by (rule writes_fold) (rule less, rule size_protos)
  have ks: "writes str (\<lambda>W. fold (DumpConstant W) (kst f))" by (intro writes_fold writes_constant)
  show ?case
    by (rule writes_seq [where ms = "[\<lambda>W. DumpString W ?name, \<lambda>W. DumpInt W (linedefined f), \<lambda>W. DumpInt W (lastlinedefined f),
          \<lambda>W. DumpChar W (unat (nups f)), \<lambda>W. DumpChar W (unat (numparams f)), \<lambda>W. DumpChar W (unat (is_vararg f)),
          \<lambda>W. DumpChar W (unat (maxstacksize f)), \<lambda>W. DumpVector W (\<lambda>i. le_bytes 4 (unat i)) (pcode f),
          \<lambda>W. DumpInt W (sizek f), \<lambda>W. fold (DumpConstant W) (kst f), \<lambda>W. DumpInt W (sizep f),
          \<lambda>W. fold (\<lambda>q. DumpFunction W q (psource f)) (protos f), \<lambda>W. DumpDebug W f]"])
      (simp only: list.pred_inject writes_string writes_basic writes_vector subs writes_debug ks simp_thms,
        simp add: DumpFunction.simps [of _ f] DumpConstants_def DumpCode_def fold_map o_def)
qed

section \<open>Properties\<close>

text \<open>Feeding blocks to a writer until it refuses one.\<close>

fun feed :: "'d writer \<Rightarrow> string list \<Rightarrow> 'd \<Rightarrow> int \<times> 'd" where
  "feed W [] d = (0, d)"
| "feed W (b # bs) d = (case W b d of (s, d') \<Rightarrow> if s = 0 then feed W bs d' else (s, d'))"

lemma fold_feed:
  "status D = 0 \<Longrightarrow> (status (fold (DumpBlock W) bs D), wdata (fold (DumpBlock W) bs D)) = feed W bs (wdata D)"
proof (induction bs arbitrary: D)
  case (Cons b bs)
  obtain s d' where w: "W b (wdata D) = (s, d')" by fastforce
  have stuck: "status E \<noteq> 0 \<Longrightarrow> fold (DumpBlock W) bs E = E" for E :: "'a DumpState"
    by (induction bs) (auto simp: DumpBlock_def)
  show ?case
  proof (cases "s = 0")
    case True then show ?thesis using Cons w by (simp add: DumpBlock_def)
  next
    case False
    have e: "fold (DumpBlock W) (b # bs) D = fold (DumpBlock W) bs (D\<lparr>status := s, wdata := d'\<rparr>)"
      using Cons.prems w by (simp add: DumpBlock_def)
    also have "\<dots> = D\<lparr>status := s, wdata := d'\<rparr>" using False by (intro stuck) simp
    finally show ?thesis using w False by simp
  qed
qed simp

text \<open>C30: Saving hands its writer one sequence of blocks, the same for every writer, and stops at the first
  block the writer refuses: the status of that call is the result and the writer is not called again.\<close>

theorem luaU_dump_feeds:
  "\<exists>blocks. \<forall>(W :: 'd writer) d. luaU_dump f W d str = feed W blocks d"
proof -
  have "writes str (\<lambda>W :: 'd writer. DumpFunction W f None)" by (rule writes_function)
  then obtain bs where "\<forall>(W :: 'd writer) D. strip D = str \<longrightarrow> DumpFunction W f None D = fold (DumpBlock W) bs D"
    unfolding writes_def by blast
  then have b: "DumpFunction W f None (DumpHeader W \<lparr>wdata = d, strip = str, status = 0\<rparr>) =
      fold (DumpBlock W) (luaU_header # bs) \<lparr>wdata = d, strip = str, status = 0\<rparr>" for W :: "'d writer" and d
    using strip_blocks [of W "[luaU_header]" "\<lparr>wdata = d, strip = str, status = 0\<rparr>"] by (simp add: DumpHeader_def)
  show ?thesis
    unfolding luaU_dump_def Let_def b
    by (intro exI [of _ "luaU_header # bs"] allI, rule trans [OF fold_feed]) simp_all
qed

end
