(* ===== verification/Lua_Convert.thy ===== *)
theory Lua_Convert
  imports Lua_Object C_Lib
begin

text \<open>
  Conversions of src/lib/lua/lobject.c and src/lib/lua/lvm.c: string to number (\<open>luaO_str2d\<close>,
  \<open>luaV_tonumber\<close>), number to string (\<open>luaV_tostring\<close>), the name of a chunk in messages
  (\<open>luaO_chunkid\<close>) and the formatted strings of the interpreter (\<open>luaO_pushvfstring\<close>).
\<close>

section \<open>Numbers and strings: luaO_str2d, luaV_tonumber, luaV_tostring\<close>

text \<open>The C code reads the string up to its first zero byte.\<close>

definition luaO_str2d :: "string \<Rightarrow> lua_Number option" where
  "luaO_str2d s0 =
     (let s = c_str s0
      in case strtod s of
           None \<Rightarrow> None
         | Some (n, e) \<Rightarrow>
             (let (n', e') = (if e \<noteq> [] \<and> (hd e = CHR ''x'' \<or> hd e = CHR ''X'')
                              then case strtoul16 s of (v, r) \<Rightarrow> (frac_num False v 1, r)
                              else (n, e))
              in if e' = [] then Some n'
                 else if dropWhile isspace e' \<noteq> [] then None else Some n'))"

fun luaV_tonumber :: "TValue \<Rightarrow> lua_Number option" where
  "luaV_tonumber (TNumber n) = Some n"
| "luaV_tonumber (TString s) = luaO_str2d s"
| "luaV_tonumber _ = None"

text \<open>The value itself when it is a string already, its text when it is a number: the macro \<open>tostring\<close>.\<close>

fun luaV_tostring :: "TValue \<Rightarrow> string option" where
  "luaV_tostring (TNumber n) = Some (lua_number2str n)"
| "luaV_tostring _ = None"

fun tostring :: "TValue \<Rightarrow> string option" where
  "tostring (TString s) = Some s"
| "tostring v = luaV_tostring v"

section \<open>luaO_chunkid\<close>

definition strcspn_nl :: "string \<Rightarrow> nat" where
  "strcspn_nl s = length (takeWhile (\<lambda>c. c \<noteq> CHR 0x0A \<and> c \<noteq> CHR 0x0D) s)"

definition luaO_chunkid :: "string \<Rightarrow> nat \<Rightarrow> string" where
  "luaO_chunkid source bufflen =
     (if source \<noteq> [] \<and> hd source = CHR ''='' then take (bufflen - 1) (tl source)
      else if source \<noteq> [] \<and> hd source = CHR ''@'' then
        (let src = tl source; bl = bufflen - 8; l = length src
         in if bl < l then ''...'' @ drop (l - bl) src else src)
      else
        (let len0 = strcspn_nl source; bl = bufflen - 17; len = min len0 bl
         in ''[string '' @ [CHR 0x22] @
            (if len < length source then take len source @ ''...'' else source) @
            [CHR 0x22] @ '']''))"

abbreviation (input) LUA_IDSIZE :: nat where "LUA_IDSIZE \<equiv> 60"

lemma strcspn_nl_le: "strcspn_nl s \<le> length s"
  by (simp add: strcspn_nl_def length_takeWhile_le)

section \<open>luaO_pushvfstring\<close>

text \<open>The arguments of a format, and the pieces it is cut into; the pieces are then concatenated.
  A \<open>%\<close> at the very end of the format makes the C code read past its terminating zero: \<open>None\<close>.\<close>

datatype farg = FStr "string option" | FChr char | FInt int | FNum lua_Number | FPtr string

fun luaO_pushvfstring :: "string \<Rightarrow> farg list \<Rightarrow> string option" where
  "luaO_pushvfstring [] args = Some []"
| "luaO_pushvfstring (c # cs) args =
     (if c \<noteq> CHR ''%'' then map_option (\<lambda>r. c # r) (luaO_pushvfstring cs args)
      else case cs of
        [] \<Rightarrow> None
      | d # ds \<Rightarrow>
          if d = CHR ''%'' then map_option (\<lambda>r. CHR ''%'' # r) (luaO_pushvfstring ds args)
          else if d \<in> set ''scdfp'' then
            (case args of
               [] \<Rightarrow> None
             | a # as \<Rightarrow>
                 (case (d = CHR ''s'', d = CHR ''c'', d = CHR ''d'', d = CHR ''f'', a) of
                    (True, _, _, _, FStr None) \<Rightarrow> map_option (\<lambda>r. ''(null)'' @ r) (luaO_pushvfstring ds as)
                  | (True, _, _, _, FStr (Some s)) \<Rightarrow> map_option (\<lambda>r. c_str s @ r) (luaO_pushvfstring ds as)
                  | (_, True, _, _, FChr ch) \<Rightarrow> map_option (\<lambda>r. c_str [ch] @ r) (luaO_pushvfstring ds as)
                  | (_, _, True, _, FInt k) \<Rightarrow>
                      map_option (\<lambda>r. lua_number2str (cast_num k) @ r) (luaO_pushvfstring ds as)
                  | (_, _, _, True, FNum n) \<Rightarrow> map_option (\<lambda>r. lua_number2str n @ r) (luaO_pushvfstring ds as)
                  | (False, False, False, False, FPtr s) \<Rightarrow> map_option (\<lambda>r. s @ r) (luaO_pushvfstring ds as)
                  | _ \<Rightarrow> None))
          else map_option (\<lambda>r. [CHR ''%'', d] @ r) (luaO_pushvfstring ds args))"

section \<open>Bounds\<close>

text \<open>The name of a chunk fits the buffer of its caller, terminating zero included.\<close>

lemma luaO_chunkid_length:
  assumes "17 \<le> bufflen" shows "length (luaO_chunkid source bufflen) < bufflen"
proof -
  have "length (tl source) \<le> length source" by simp
  then show ?thesis
    using assms strcspn_nl_le [of source]
    by (auto simp: luaO_chunkid_def Let_def min_def)
qed

end
