(* ===== verification/Lua_State.thy ===== *)
theory Lua_State
  imports Lua_Convert Lua_Table_Spec
begin

text \<open>
  The state of the interpreter as a C function sees it (src/lib/lua/lstate.h) and the results of running
  code on it. \<open>lua_State\<close> holds the stack slots of the current C function, from its base to the top,
  the limit \<open>ci_top\<close> up to which it may push, the function itself and the error handler of the
  enclosing protected call; \<open>global_State\<close> holds the heap: tables, closures and userdata by
  reference, the registry, the globals and the metatables of the basic types. \<open>world\<close> is what
  lies outside the interpreter. Neither the collector nor coroutines are modelled.
\<close>

section \<open>State\<close>

type_synonym cfunction = string

datatype Closure =
    CClosure (cfun: cfunction) (cenv: addr) (upvalue: "TValue list")
  | LClosure (lproto: nat) (lenv: addr) (upvals: "addr list")

record Udata =
  ulen :: nat
  umeta :: "addr option"
  uenv :: addr

record 'w global_State =
  tables :: "addr \<Rightarrow> Table option"
  closures :: "addr \<Rightarrow> Closure option"
  udatas :: "addr \<Rightarrow> Udata option"
  next_ref :: addr
  l_registry :: TValue
  l_gt :: TValue
  mt :: "int \<Rightarrow> addr option"
  world :: 'w

text \<open>
  The active functions, the running one first: what the interpreter knows of each for
  \<open>lua_getstack\<close> and \<open>lua_getinfo\<close> (src/lib/lua/ldebug.c). A caller names the function it calls in
  its bytecode (\<open>namewhat\<close> and name); a script function has the name of its chunk and its lines.
\<close>

datatype frame =
    CFrame (namewhat: string) (fname: "string option")
  | LuaFrame (namewhat: string) (fname: "string option") (chunk: string) (linedefined: int) (line: int)
  | TailFrame

record 'w lua_State =
  stk :: "TValue list"
  ci_top :: nat
  func :: "addr option"
  errfunc :: "TValue option"
  nCcalls :: nat
  frames :: "frame list"
  gs :: "'w global_State"

abbreviation (input) LUA_MINSTACK :: nat where "LUA_MINSTACK \<equiv> 20"
abbreviation (input) LUAI_MAXCCALLS :: nat where "LUAI_MAXCCALLS \<equiv> 200"
abbreviation (input) LUAI_MAXCSTACK :: nat where "LUAI_MAXCSTACK \<equiv> 8000"
abbreviation (input) LUA_REGISTRYINDEX :: int where "LUA_REGISTRYINDEX \<equiv> - 10000"
abbreviation (input) LUA_ENVIRONINDEX :: int where "LUA_ENVIRONINDEX \<equiv> - 10001"
abbreviation (input) LUA_GLOBALSINDEX :: int where "LUA_GLOBALSINDEX \<equiv> - 10002"
abbreviation (input) LUA_MULTRET :: int where "LUA_MULTRET \<equiv> - 1"
abbreviation (input) LUA_ERRRUN :: int where "LUA_ERRRUN \<equiv> 2"
abbreviation (input) LUA_ERRSYNTAX :: int where "LUA_ERRSYNTAX \<equiv> 3"
abbreviation (input) LUA_ERRMEM :: int where "LUA_ERRMEM \<equiv> 4"
abbreviation (input) LUA_ERRERR :: int where "LUA_ERRERR \<equiv> 5"

section \<open>Results\<close>

text \<open>
  A run of C code ends normally, or by an error of the interpreter (a long jump with a status and
  the error object), or it leaves what C and the interpreter's interface define: a condition that
  \<open>api_check\<close> states is broken, a null pointer is read, or a called function does not return.
\<close>

datatype ('a, 'w) res = Ok 'a "'w lua_State" | Thrown int TValue "'w global_State" | Undefined

type_synonym ('a, 'w) M = "'w lua_State \<Rightarrow> ('a, 'w) res"

definition ret :: "'a \<Rightarrow> ('a, 'w) M" where
  "ret x = (\<lambda>L. Ok x L)"

definition bindM :: "('a, 'w) M \<Rightarrow> ('a \<Rightarrow> ('b, 'w) M) \<Rightarrow> ('b, 'w) M" where
  "bindM m f = (\<lambda>L. case m L of Ok x L' \<Rightarrow> f x L' | Thrown st v g \<Rightarrow> Thrown st v g | Undefined \<Rightarrow> Undefined)"

definition undefM :: "('a, 'w) M" where
  "undefM = (\<lambda>L. Undefined)"

definition getM :: "('w lua_State \<Rightarrow> 'a) \<Rightarrow> ('a, 'w) M" where
  "getM f = (\<lambda>L. Ok (f L) L)"

definition modM :: "('w lua_State \<Rightarrow> 'w lua_State) \<Rightarrow> (unit, 'w) M" where
  "modM f = (\<lambda>L. Ok () (f L))"

text \<open>\<open>api_check\<close>.\<close>

definition api_check :: "('w lua_State \<Rightarrow> bool) \<Rightarrow> (unit, 'w) M" where
  "api_check c = (\<lambda>L. if c L then Ok () L else Undefined)"

text \<open>Statements one after the other.\<close>

fun run :: "(unit, 'w) M list \<Rightarrow> (unit, 'w) M" where
  "run [] = ret ()"
| "run (m # ms) = bindM m (\<lambda>_. run ms)"

definition thenM :: "(unit, 'w) M \<Rightarrow> ('a, 'w) M \<Rightarrow> ('a, 'w) M" where
  "thenM m n = bindM m (\<lambda>_. n)"

text \<open>A pointer that must not be null.\<close>

definition nonnull :: "'a option \<Rightarrow> ('a, 'w) M" where
  "nonnull p = (\<lambda>L. case p of None \<Rightarrow> Undefined | Some x \<Rightarrow> Ok x L)"

lemma ret_apply [api_simps]: "ret x L = Ok x L"
  by (simp add: ret_def)

lemma bindM_exec [api_simps]:
  "bindM m f L = (case m L of Ok x L' \<Rightarrow> f x L' | Thrown st v g \<Rightarrow> Thrown st v g | Undefined \<Rightarrow> Undefined)"
  by (simp add: bindM_def)

lemma undefM_apply [api_simps]: "undefM L = Undefined"
  by (simp add: undefM_def)

lemma getM_apply [api_simps]: "getM f L = Ok (f L) L"
  by (simp add: getM_def)

lemma modM_apply [api_simps]: "modM f L = Ok () (f L)"
  by (simp add: modM_def)

lemma api_check_apply [api_simps]: "api_check c L = (if c L then Ok () L else Undefined)"
  by (simp add: api_check_def)

lemma nonnull_apply [api_simps]:
  "nonnull (Some x) L = Ok x L" "nonnull None L = Undefined"
  by (simp_all add: nonnull_def)

lemma thenM_apply [api_simps]: "thenM m n L = bindM m (\<lambda>_. n) L"
  by (simp add: thenM_def)

lemma bindM_assoc: "bindM (bindM m f) g = bindM m (\<lambda>x. bindM (f x) g)"
  by (rule ext) (simp add: bindM_def split: res.split)

lemma bindM_ret: "bindM (ret x) f = f x" "bindM m ret = m"
  by (auto simp: bindM_def ret_def split: res.split)

lemma bindM_Ok_iff: "bindM m f L = Ok y L'' \<longleftrightarrow> (\<exists>x L'. m L = Ok x L' \<and> f x L' = Ok y L'')"
  by (simp add: bindM_def split: res.split)

section \<open>Errors: luaG_errormsg, luaG_runerror\<close>

text \<open>
  What calling a function value does: \<open>calls h f args g\<close> is the run of \<open>f\<close> on \<open>args\<close> in the heap \<open>g\<close>,
  with \<open>h\<close> the error handler in force. It stands for the scripts the program is given, which are not
  part of the sources, and for the functions they call.
\<close>

datatype 'w callres = Returned "TValue list" "'w global_State" | Failed int TValue "'w global_State" | NoReturn

type_synonym 'w calls = "TValue option \<Rightarrow> addr \<Rightarrow> TValue list \<Rightarrow> 'w global_State \<Rightarrow> 'w callres"

definition luaG_errormsg :: "'w calls \<Rightarrow> TValue \<Rightarrow> ('a, 'w) M" where
  "luaG_errormsg B msg = (\<lambda>L.
     case errfunc L of
       None \<Rightarrow> Thrown LUA_ERRRUN msg (gs L)
     | Some (TFunction h) \<Rightarrow>
         (case B (errfunc L) h [msg] (gs L) of
            Returned rs g \<Rightarrow> Thrown LUA_ERRRUN (case rs of [] \<Rightarrow> TNil | r # _ \<Rightarrow> r) g
          | Failed st v g \<Rightarrow> Thrown st v g
          | NoReturn \<Rightarrow> Undefined)
     | Some _ \<Rightarrow> Thrown LUA_ERRERR (TString ''error in error handling'') (gs L))"

text \<open>A C function has no line information, so the message is the formatted text alone.\<close>

definition luaG_runerror :: "'w calls \<Rightarrow> string \<Rightarrow> ('a, 'w) M" where
  "luaG_runerror B msg = luaG_errormsg B (TString msg)"

fun terror_msg :: "terror \<Rightarrow> string" where
  "terror_msg TableOverflow = ''table overflow''"
| "terror_msg IndexIsNil = ''table index is nil''"
| "terror_msg IndexIsNaN = ''table index is NaN''"
| "terror_msg InvalidNextKey = ''invalid key to '' @ [CHR 0x27] @ ''next'' @ [CHR 0x27]"
| "terror_msg Unterminated = []"

definition table_op :: "'w calls \<Rightarrow> terror + 'a \<Rightarrow> ('a, 'w) M" where
  "table_op B r =
     (case r of Inr x \<Rightarrow> ret x
      | Inl e \<Rightarrow> if e = Unterminated then undefM else luaG_runerror B (terror_msg e))"

lemma table_op_Inr [api_simps]: "table_op B (Inr x) L = Ok x L"
  by (simp add: table_op_def ret_def)

section \<open>The heap\<close>

definition get_table :: "'w global_State \<Rightarrow> addr \<Rightarrow> Table option" where
  "get_table g a = tables g a"

definition set_table :: "addr \<Rightarrow> Table \<Rightarrow> ('w lua_State \<Rightarrow> 'w lua_State)" where
  "set_table a t L = L\<lparr>gs := (gs L)\<lparr>tables := (tables (gs L))(a \<mapsto> t)\<rparr>\<rparr>"

definition the_table :: "addr \<Rightarrow> (Table, 'w) M" where
  "the_table a = (\<lambda>L. case tables (gs L) a of None \<Rightarrow> Undefined | Some t \<Rightarrow> Ok t L)"

definition new_table :: "Table \<Rightarrow> (addr, 'w) M" where
  "new_table t = (\<lambda>L.
     Ok (next_ref (gs L))
        (L\<lparr>gs := (gs L)\<lparr>tables := (tables (gs L))(next_ref (gs L) \<mapsto> t), next_ref := Suc (next_ref (gs L))\<rparr>\<rparr>))"

definition new_closure :: "Closure \<Rightarrow> (addr, 'w) M" where
  "new_closure c = (\<lambda>L.
     Ok (next_ref (gs L))
        (L\<lparr>gs := (gs L)\<lparr>closures := (closures (gs L))(next_ref (gs L) \<mapsto> c), next_ref := Suc (next_ref (gs L))\<rparr>\<rparr>))"

lemma the_table_apply [api_simps]: "tables (gs L) a = Some t \<Longrightarrow> the_table a L = Ok t L"
  by (simp add: the_table_def)

end
