(* ===== verification/Lua_VM.thy ===== *)
theory Lua_VM
  imports Lua_State
begin

unbundle bit_operations_syntax

text \<open>
  Tag methods (src/lib/lua/ltm.c), calls as a C function makes them (src/lib/lua/ldo.c: \<open>luaD_call\<close>,
  \<open>luaD_precall\<close>, \<open>tryfuncTM\<close>, \<open>luaD_poscall\<close>, \<open>luaD_pcall\<close>) and the operations of the virtual machine the
  interface of C offers (src/lib/lua/lvm.c: \<open>luaV_gettable\<close>, \<open>luaV_settable\<close>, comparison, concatenation).
  The parameter \<open>B\<close> is the behaviour of the called functions. Hooks and stack reallocation are
  not modelled: they change nothing a C function sees.
\<close>

section \<open>Tag methods\<close>

datatype TMS = TM_INDEX | TM_NEWINDEX | TM_GC | TM_MODE | TM_EQ | TM_ADD | TM_SUB | TM_MUL | TM_DIV
  | TM_MOD | TM_POW | TM_UNM | TM_LEN | TM_LT | TM_LE | TM_CONCAT | TM_CALL

fun tm_bit :: "TMS \<Rightarrow> nat" where
  "tm_bit TM_INDEX = 0" | "tm_bit TM_NEWINDEX = 1" | "tm_bit TM_GC = 2" | "tm_bit TM_MODE = 3"
| "tm_bit TM_EQ = 4" | "tm_bit TM_ADD = 5" | "tm_bit TM_SUB = 6" | "tm_bit TM_MUL = 7"
| "tm_bit TM_DIV = 8" | "tm_bit TM_MOD = 9" | "tm_bit TM_POW = 10" | "tm_bit TM_UNM = 11"
| "tm_bit TM_LEN = 12" | "tm_bit TM_LT = 13" | "tm_bit TM_LE = 14" | "tm_bit TM_CONCAT = 15"
| "tm_bit TM_CALL = 16"

fun luaT_eventname :: "TMS \<Rightarrow> string" where
  "luaT_eventname TM_INDEX = ''__index''" | "luaT_eventname TM_NEWINDEX = ''__newindex''"
| "luaT_eventname TM_GC = ''__gc''" | "luaT_eventname TM_MODE = ''__mode''"
| "luaT_eventname TM_EQ = ''__eq''" | "luaT_eventname TM_ADD = ''__add''"
| "luaT_eventname TM_SUB = ''__sub''" | "luaT_eventname TM_MUL = ''__mul''"
| "luaT_eventname TM_DIV = ''__div''" | "luaT_eventname TM_MOD = ''__mod''"
| "luaT_eventname TM_POW = ''__pow''" | "luaT_eventname TM_UNM = ''__unm''"
| "luaT_eventname TM_LEN = ''__len''" | "luaT_eventname TM_LT = ''__lt''"
| "luaT_eventname TM_LE = ''__le''" | "luaT_eventname TM_CONCAT = ''__concat''"
| "luaT_eventname TM_CALL = ''__call''"

fun luaT_typenames :: "int \<Rightarrow> string" where
  "luaT_typenames t =
     (if t = LUA_TNIL then ''nil'' else if t = LUA_TBOOLEAN then ''boolean''
      else if t = LUA_TLIGHTUSERDATA then ''userdata'' else if t = LUA_TNUMBER then ''number''
      else if t = LUA_TSTRING then ''string'' else if t = LUA_TTABLE then ''table''
      else if t = LUA_TFUNCTION then ''function'' else if t = LUA_TUSERDATA then ''userdata''
      else if t = LUA_TTHREAD then ''thread'' else if t = 9 then ''proto'' else ''upval'')"

text \<open>The result, and the table with the absence of the method cached in its flags.\<close>

definition luaT_gettm :: "Table \<Rightarrow> TMS \<Rightarrow> terror + TValue option \<times> Table" where
  "luaT_gettm events event =
     bindE (luaH_getstr events (luaT_eventname event)) (\<lambda>p.
       let tm = deref events p
       in if tm = TNil then Inr (None, events\<lparr>flags := flags events OR push_bit (tm_bit event) 1\<rparr>)
          else Inr (Some tm, events))"

definition fasttm :: "'w calls \<Rightarrow> addr option \<Rightarrow> TMS \<Rightarrow> (TValue option, 'w) M" where
  "fasttm B et e =
     (case et of
        None \<Rightarrow> ret None
      | Some a \<Rightarrow>
          bindM (the_table a) (\<lambda>t.
            if bit (flags t) (tm_bit e) then ret None
            else bindM (table_op B (luaT_gettm t e)) (\<lambda>(tm, t').
                   bindM (modM (set_table a t')) (\<lambda>_. ret tm))))"

definition the_udata :: "addr \<Rightarrow> (Udata, 'w) M" where
  "the_udata a = (\<lambda>L. case udatas (gs L) a of None \<Rightarrow> Undefined | Some u \<Rightarrow> Ok u L)"

definition metatable_of :: "TValue \<Rightarrow> (addr option, 'w) M" where
  "metatable_of v =
     (case v of
        TTable a \<Rightarrow> bindM (the_table a) (\<lambda>t. ret (metatable t))
      | TUserdata a \<Rightarrow> bindM (the_udata a) (\<lambda>u. ret (umeta u))
      | _ \<Rightarrow> getM (\<lambda>L. mt (gs L) (ttype v)))"

definition luaT_gettmbyobj :: "'w calls \<Rightarrow> TValue \<Rightarrow> TMS \<Rightarrow> (TValue, 'w) M" where
  "luaT_gettmbyobj B v event =
     bindM (metatable_of v) (\<lambda>m.
       case m of
         None \<Rightarrow> ret TNil
       | Some a \<Rightarrow> bindM (the_table a) (\<lambda>t.
           table_op B (bindE (luaH_getstr t (luaT_eventname event)) (\<lambda>p. Inr (deref t p)))))"

definition luaG_typeerror :: "'w calls \<Rightarrow> TValue \<Rightarrow> string \<Rightarrow> ('a, 'w) M" where
  "luaG_typeerror B v op =
     luaG_runerror B (''attempt to '' @ op @ '' a '' @ luaT_typenames (ttype v) @ '' value'')"

definition luaG_ordererror :: "'w calls \<Rightarrow> TValue \<Rightarrow> TValue \<Rightarrow> ('a, 'w) M" where
  "luaG_ordererror B p1 p2 =
     (let t1 = luaT_typenames (ttype p1); t2 = luaT_typenames (ttype p2)
      in if t1 ! 2 = t2 ! 2 then luaG_runerror B (''attempt to compare two '' @ t1 @ '' values'')
         else luaG_runerror B (''attempt to compare '' @ t1 @ '' with '' @ t2))"

section \<open>Calls\<close>

definition adjust :: "int \<Rightarrow> TValue list \<Rightarrow> TValue list" where
  "adjust wanted rs = (if wanted = LUA_MULTRET then rs else take (nat wanted) (rs @ replicate (nat wanted) TNil))"

text \<open>The function value to call and its arguments, after the tag method \<open>__call\<close> of a value that is
  not a function has been put in front.\<close>

definition tryfuncTM :: "'w calls \<Rightarrow> TValue \<Rightarrow> TValue list \<Rightarrow> (addr \<times> TValue list, 'w) M" where
  "tryfuncTM B f args =
     (case f of
        TFunction a \<Rightarrow> ret (a, args)
      | _ \<Rightarrow> bindM (luaT_gettmbyobj B f TM_CALL) (\<lambda>tm.
               case tm of TFunction a \<Rightarrow> ret (a, f # args) | _ \<Rightarrow> luaG_typeerror B f ''call''))"

definition enter_call :: "'w calls \<Rightarrow> (unit, 'w) M" where
  "enter_call B = (\<lambda>L.
     let n = Suc (nCcalls L); L' = L\<lparr>nCcalls := n\<rparr>
     in if n = LUAI_MAXCCALLS then luaG_runerror B ''C stack overflow'' L'
        else if LUAI_MAXCCALLS + LUAI_MAXCCALLS div 8 \<le> n
             then Thrown LUA_ERRERR (TString ''error in error handling'') (gs L')
        else Ok () L')"

definition call_value :: "'w calls \<Rightarrow> addr \<Rightarrow> TValue list \<Rightarrow> (TValue list, 'w) M" where
  "call_value B a args = (\<lambda>L.
     case B (errfunc L) a args (gs L) of
       Returned rs g \<Rightarrow> Ok rs (L\<lparr>gs := g\<rparr>)
     | Failed st v g \<Rightarrow> Thrown st v g
     | NoReturn \<Rightarrow> Undefined)"

text \<open>The function is below its \<open>nargs\<close> arguments on the top of the stack; the results replace them.\<close>

definition luaD_call :: "'w calls \<Rightarrow> nat \<Rightarrow> int \<Rightarrow> (unit, 'w) M" where
  "luaD_call B nargs wanted = (\<lambda>L.
     let pos = length (stk L) - Suc nargs; f = stk L ! pos; args = drop (Suc pos) (stk L)
     in bindM (enter_call B) (\<lambda>_.
        bindM (tryfuncTM B f args) (\<lambda>(a, args').
        bindM (call_value B a args') (\<lambda>rs.
        modM (\<lambda>L'. L'\<lparr>stk := take pos (stk L') @ adjust wanted rs, nCcalls := nCcalls L' - 1\<rparr>)))) L)"

definition callTMres :: "'w calls \<Rightarrow> TValue \<Rightarrow> TValue \<Rightarrow> TValue \<Rightarrow> (TValue, 'w) M" where
  "callTMres B f p1 p2 =
     bindM (modM (\<lambda>L. L\<lparr>stk := stk L @ [f, p1, p2]\<rparr>)) (\<lambda>_.
     bindM (luaD_call B 2 1) (\<lambda>_.
     bindM (getM (\<lambda>L. last (stk L))) (\<lambda>r.
     bindM (modM (\<lambda>L. L\<lparr>stk := butlast (stk L)\<rparr>)) (\<lambda>_. ret r))))"

definition callTM :: "'w calls \<Rightarrow> TValue \<Rightarrow> TValue \<Rightarrow> TValue \<Rightarrow> TValue \<Rightarrow> (unit, 'w) M" where
  "callTM B f p1 p2 p3 =
     bindM (modM (\<lambda>L. L\<lparr>stk := stk L @ [f, p1, p2, p3]\<rparr>)) (\<lambda>_. luaD_call B 3 0)"

text \<open>
  A protected run (\<open>luaD_pcall\<close>, \<open>luaD_rawrunprotected\<close>): an error restores the frame of the caller,
  cuts its stack at \<open>old_top\<close> and puts the error object there.
\<close>

definition luaD_pcall :: "(unit, 'w) M \<Rightarrow> nat \<Rightarrow> TValue option \<Rightarrow> (int, 'w) M" where
  "luaD_pcall f old_top ef = (\<lambda>L.
     case f (L\<lparr>errfunc := ef\<rparr>) of
       Ok _ L' \<Rightarrow> Ok 0 (L'\<lparr>errfunc := errfunc L\<rparr>)
     | Thrown st v g \<Rightarrow> Ok st (L\<lparr>stk := take old_top (stk L) @ [v], gs := g\<rparr>)
     | Undefined \<Rightarrow> Undefined)"

section \<open>luaV_gettable and luaV_settable\<close>

abbreviation (input) MAXTAGLOOP :: nat where "MAXTAGLOOP \<equiv> 100"

fun gettable_loop :: "'w calls \<Rightarrow> nat \<Rightarrow> TValue \<Rightarrow> TValue \<Rightarrow> (TValue, 'w) M" where
  "gettable_loop B 0 t key = luaG_runerror B ''loop in gettable''"
| "gettable_loop B (Suc loop) t key =
     (let use_tm = (\<lambda>tm. case tm of TFunction _ \<Rightarrow> callTMres B tm t key | _ \<Rightarrow> gettable_loop B loop tm key)
      in case t of
           TTable a \<Rightarrow>
             bindM (the_table a) (\<lambda>h.
             bindM (table_op B (rawget h key)) (\<lambda>res.
               if res \<noteq> TNil then ret res
               else bindM (fasttm B (metatable h) TM_INDEX) (\<lambda>tm.
                      case tm of None \<Rightarrow> ret res | Some tm \<Rightarrow> use_tm tm)))
         | _ \<Rightarrow> bindM (luaT_gettmbyobj B t TM_INDEX) (\<lambda>tm.
                  if tm = TNil then luaG_typeerror B t ''index'' else use_tm tm))"

definition luaV_gettable :: "'w calls \<Rightarrow> TValue \<Rightarrow> TValue \<Rightarrow> (TValue, 'w) M" where
  "luaV_gettable B t key = gettable_loop B MAXTAGLOOP t key"

fun settable_loop :: "'w calls \<Rightarrow> nat \<Rightarrow> TValue \<Rightarrow> TValue \<Rightarrow> TValue \<Rightarrow> (unit, 'w) M" where
  "settable_loop B 0 t key val = luaG_runerror B ''loop in settable''"
| "settable_loop B (Suc loop) t key val =
     (let use_tm = (\<lambda>tm. case tm of TFunction _ \<Rightarrow> callTM B tm t key val | _ \<Rightarrow> settable_loop B loop tm key val)
      in case t of
           TTable a \<Rightarrow>
             bindM (the_table a) (\<lambda>h.
             bindM (table_op B (luaH_set h key)) (\<lambda>(p, h').
             bindM (modM (set_table a h')) (\<lambda>_.
             let put = bindM (the_table a) (\<lambda>h''. modM (set_table a ((store h'' p val)\<lparr>flags := 0\<rparr>)))
             in if deref h' p \<noteq> TNil then put
                else bindM (fasttm B (metatable h') TM_NEWINDEX) (\<lambda>tm.
                       case tm of None \<Rightarrow> put | Some tm \<Rightarrow> use_tm tm))))
         | _ \<Rightarrow> bindM (luaT_gettmbyobj B t TM_NEWINDEX) (\<lambda>tm.
                  if tm = TNil then luaG_typeerror B t ''index'' else use_tm tm))"

definition luaV_settable :: "'w calls \<Rightarrow> TValue \<Rightarrow> TValue \<Rightarrow> TValue \<Rightarrow> (unit, 'w) M" where
  "luaV_settable B t key val = settable_loop B MAXTAGLOOP t key val"

section \<open>Comparison\<close>

text \<open>In the locale "C", which the program never changes, \<open>strcoll\<close> compares bytes: \<open>cmp_bytes\<close>.
  \<open>l_strcmp\<close> compares the parts of the strings between zero bytes.\<close>

fun cmp_bytes :: "string \<Rightarrow> string \<Rightarrow> int" where
  "cmp_bytes [] [] = 0"
| "cmp_bytes [] (y # ys) = - 1"
| "cmp_bytes (x # xs) [] = 1"
| "cmp_bytes (x # xs) (y # ys) =
     (if x = y then cmp_bytes xs ys else if (of_char x :: nat) < of_char y then - 1 else 1)"

function l_strcmp :: "string \<Rightarrow> string \<Rightarrow> int" where
  "l_strcmp l r =
     (let t = cmp_bytes (c_str l) (c_str r)
      in if t \<noteq> 0 then t
         else let len = length (c_str l)
              in if len = length r then (if len = length l then 0 else 1)
                 else if len = length l then - 1
                 else l_strcmp (drop (Suc len) l) (drop (Suc len) r))"
  by pat_completeness auto
termination
proof (relation "measure (\<lambda>(l, r). length l)")
  fix l r :: string and t :: int and len :: nat
  assume "len = length (c_str l)" "len \<noteq> length l"
  then have "l \<noteq> []" by (auto simp: c_str_def)
  then show "((drop (Suc len) l, drop (Suc len) r), l, r) \<in> measure (\<lambda>(l, r). length l)" by simp
qed simp

declare l_strcmp.simps [simp del]

definition call_orderTM :: "'w calls \<Rightarrow> TValue \<Rightarrow> TValue \<Rightarrow> TMS \<Rightarrow> (bool option, 'w) M" where
  "call_orderTM B p1 p2 event =
     bindM (luaT_gettmbyobj B p1 event) (\<lambda>tm1.
       if tm1 = TNil then ret None
       else bindM (luaT_gettmbyobj B p2 event) (\<lambda>tm2.
              if \<not> luaO_rawequalObj tm1 tm2 then ret None
              else bindM (callTMres B tm1 p1 p2) (\<lambda>r. ret (Some (\<not> l_isfalse r)))))"

definition luaV_lessthan :: "'w calls \<Rightarrow> TValue \<Rightarrow> TValue \<Rightarrow> (bool, 'w) M" where
  "luaV_lessthan B l r =
     (if ttype l \<noteq> ttype r then luaG_ordererror B l r
      else case (l, r) of
        (TNumber a, TNumber b) \<Rightarrow> ret (luai_numlt a b)
      | (TString a, TString b) \<Rightarrow> ret (l_strcmp a b < 0)
      | _ \<Rightarrow> bindM (call_orderTM B l r TM_LT) (\<lambda>res.
               case res of Some b \<Rightarrow> ret b | None \<Rightarrow> luaG_ordererror B l r))"

definition lessequal :: "'w calls \<Rightarrow> TValue \<Rightarrow> TValue \<Rightarrow> (bool, 'w) M" where
  "lessequal B l r =
     (if ttype l \<noteq> ttype r then luaG_ordererror B l r
      else case (l, r) of
        (TNumber a, TNumber b) \<Rightarrow> ret (luai_numle a b)
      | (TString a, TString b) \<Rightarrow> ret (l_strcmp a b \<le> 0)
      | _ \<Rightarrow> bindM (call_orderTM B l r TM_LE) (\<lambda>res.
               case res of Some b \<Rightarrow> ret b
               | None \<Rightarrow> bindM (call_orderTM B r l TM_LT) (\<lambda>res'.
                   case res' of Some b \<Rightarrow> ret (\<not> b) | None \<Rightarrow> luaG_ordererror B l r)))"

definition get_compTM :: "'w calls \<Rightarrow> addr option \<Rightarrow> addr option \<Rightarrow> TMS \<Rightarrow> (TValue option, 'w) M" where
  "get_compTM B mt1 mt2 event =
     bindM (fasttm B mt1 event) (\<lambda>tm1.
       case tm1 of None \<Rightarrow> ret None
       | Some m1 \<Rightarrow>
           if mt1 = mt2 then ret (Some m1)
           else bindM (fasttm B mt2 event) (\<lambda>tm2.
                  case tm2 of None \<Rightarrow> ret None
                  | Some m2 \<Rightarrow> ret (if luaO_rawequalObj m1 m2 then Some m1 else None)))"

definition luaV_equalval :: "'w calls \<Rightarrow> TValue \<Rightarrow> TValue \<Rightarrow> (bool, 'w) M" where
  "luaV_equalval B t1 t2 =
     (let use = (\<lambda>mt1 mt2. bindM (get_compTM B mt1 mt2 TM_EQ) (\<lambda>tm.
            case tm of None \<Rightarrow> ret False
            | Some f \<Rightarrow> bindM (callTMres B f t1 t2) (\<lambda>r. ret (\<not> l_isfalse r))))
      in case (t1, t2) of
           (TNumber a, TNumber b) \<Rightarrow> ret (luai_numeq a b)
         | (TUserdata a, TUserdata b) \<Rightarrow>
             if a = b then ret True
             else bindM (the_udata a) (\<lambda>u. bindM (the_udata b) (\<lambda>u'. use (umeta u) (umeta u')))
         | (TTable a, TTable b) \<Rightarrow>
             if a = b then ret True
             else bindM (the_table a) (\<lambda>h. bindM (the_table b) (\<lambda>h'. use (metatable h) (metatable h')))
         | _ \<Rightarrow> ret (t1 = t2))"

definition equalobj :: "'w calls \<Rightarrow> TValue \<Rightarrow> TValue \<Rightarrow> (bool, 'w) M" where
  "equalobj B o1 o2 = (if ttype o1 = ttype o2 then luaV_equalval B o1 o2 else ret False)"

section \<open>Concatenation\<close>

definition call_binTM :: "'w calls \<Rightarrow> TValue \<Rightarrow> TValue \<Rightarrow> TMS \<Rightarrow> (TValue option, 'w) M" where
  "call_binTM B p1 p2 event =
     bindM (luaT_gettmbyobj B p1 event) (\<lambda>tm1.
     bindM (if tm1 = TNil then luaT_gettmbyobj B p2 event else ret tm1) (\<lambda>tm.
       if tm = TNil then ret None else bindM (callTMres B tm p1 p2) (\<lambda>r. ret (Some r))))"

definition luaG_concaterror :: "'w calls \<Rightarrow> TValue \<Rightarrow> TValue \<Rightarrow> ('a, 'w) M" where
  "luaG_concaterror B p1 p2 =
     luaG_typeerror B (if tostring p1 \<noteq> None then p2 else p1) ''concatenate''"

text \<open>The values convertible to strings at the front of the list, joined in front of \<open>acc\<close>, and the rest.\<close>

fun collect_strings :: "TValue list \<Rightarrow> string \<Rightarrow> string \<times> TValue list" where
  "collect_strings [] acc = (acc, [])"
| "collect_strings (v # vs) acc =
     (case tostring v of None \<Rightarrow> (acc, v # vs) | Some s \<Rightarrow> collect_strings vs (s @ acc))"

lemma collect_strings_length: "length (snd (collect_strings vs acc)) \<le> length vs"
  by (induction vs acc rule: collect_strings.induct) (auto split: option.splits)

text \<open>The loop of \<open>luaV_concat\<close> on the values from the top of the stack downwards.\<close>

function concat_loop :: "'w calls \<Rightarrow> TValue list \<Rightarrow> (TValue, 'w) M" where
  "concat_loop B [] = undefM"
| "concat_loop B [v] = ret v"
| "concat_loop B (x1 # x2 # rest) =
     (if tostring x2 = None \<or> tostring x1 = None then
        bindM (call_binTM B x2 x1 TM_CONCAT) (\<lambda>r.
          case r of None \<Rightarrow> luaG_concaterror B x2 x1 | Some v \<Rightarrow> concat_loop B (v # rest))
      else if tostring x1 = Some [] then concat_loop B (TString (the (tostring x2)) # rest)
      else case collect_strings rest (the (tostring x2) @ the (tostring x1)) of
             (s, rest') \<Rightarrow> concat_loop B (TString s # rest'))"
  by pat_completeness auto
termination
proof (relation "measure (\<lambda>(B, vs). length vs)")
  show "\<And>B x1 x2 rest x y.
       \<not> (tostring x2 = None \<or> tostring x1 = None) \<Longrightarrow> tostring x1 \<noteq> Some [] \<Longrightarrow>
       (x, y) = collect_strings rest (the (tostring x2) @ the (tostring x1)) \<Longrightarrow>
       ((B, TString x # y), B, x1 # x2 # rest) \<in> measure (\<lambda>(B, vs). length vs)"
    using collect_strings_length by (metis (no_types, lifting) case_prod_conv in_measure length_Cons
        less_Suc_eq_le nat_less_le not_less snd_conv)
qed auto

definition luaV_concat :: "'w calls \<Rightarrow> TValue list \<Rightarrow> (TValue, 'w) M" where
  "luaV_concat B vs = concat_loop B (rev vs)"

end
