(* ===== verification/Lua_Api.thy ===== *)
theory Lua_Api
  imports Lua_VM
begin

text \<open>
  The interface of the interpreter to C: src/lib/lua/lapi.c. Every function is one definition on
  the frame of the calling C function; its \<open>api_check\<close> conditions are kept, and breaking one is
  \<open>Undefined\<close>. A \<open>const char *\<close> that may be null is an option. Coroutines, the control of the
  collector and the allocator are not modelled.
\<close>

section \<open>Stack positions: index2adr\<close>

text \<open>Where an index points: the constant nil object, a slot of the frame, or a pseudo-index.\<close>

datatype loc = NilObj | Slot nat | RegLoc | EnvLoc | GlobLoc | UpLoc nat

definition curr_func :: "'w lua_State \<Rightarrow> Closure option" where
  "curr_func L = (case func L of None \<Rightarrow> None | Some a \<Rightarrow> closures (gs L) a)"

fun closure_env :: "Closure \<Rightarrow> addr" where
  "closure_env (CClosure f e us) = e"
| "closure_env (LClosure p e us) = e"

fun with_env :: "Closure \<Rightarrow> addr \<Rightarrow> Closure" where
  "with_env (CClosure f _ us) e = CClosure f e us"
| "with_env (LClosure p _ us) e = LClosure p e us"

definition index2adr :: "'w lua_State \<Rightarrow> int \<Rightarrow> loc option" where
  "index2adr L idx =
     (if 0 < idx then
        if idx \<le> int (ci_top L) then Some (if int (length (stk L)) < idx then NilObj else Slot (nat (idx - 1)))
        else None
      else if LUA_REGISTRYINDEX < idx then
        if idx \<noteq> 0 \<and> - idx \<le> int (length (stk L)) then Some (Slot (nat (int (length (stk L)) + idx))) else None
      else if idx = LUA_REGISTRYINDEX then Some RegLoc
      else if idx = LUA_ENVIRONINDEX then (if curr_func L = None then None else Some EnvLoc)
      else if idx = LUA_GLOBALSINDEX then Some GlobLoc
      else case curr_func L of
             Some (CClosure f e us) \<Rightarrow>
               Some (if LUA_GLOBALSINDEX - idx \<le> int (length us) then UpLoc (nat (LUA_GLOBALSINDEX - idx - 1)) else NilObj)
           | _ \<Rightarrow> None)"

definition load_loc :: "'w lua_State \<Rightarrow> loc \<Rightarrow> TValue" where
  "load_loc L l =
     (case l of
        NilObj \<Rightarrow> TNil
      | Slot i \<Rightarrow> stk L ! i
      | RegLoc \<Rightarrow> l_registry (gs L)
      | EnvLoc \<Rightarrow> (case curr_func L of Some c \<Rightarrow> TTable (closure_env c) | None \<Rightarrow> TNil)
      | GlobLoc \<Rightarrow> l_gt (gs L)
      | UpLoc i \<Rightarrow> (case curr_func L of Some c \<Rightarrow> upvalue c ! i | None \<Rightarrow> TNil))"

definition adr :: "int \<Rightarrow> (loc, 'w) M" where
  "adr idx = (\<lambda>L. case index2adr L idx of None \<Rightarrow> Undefined | Some l \<Rightarrow> Ok l L)"

text \<open>The value at an index, and at an index that must be valid.\<close>

definition at_index :: "int \<Rightarrow> (TValue, 'w) M" where
  "at_index idx = bindM (adr idx) (\<lambda>l. getM (\<lambda>L. load_loc L l))"

definition at_valid :: "int \<Rightarrow> (TValue, 'w) M" where
  "at_valid idx = bindM (adr idx) (\<lambda>l. if l = NilObj then undefM else getM (\<lambda>L. load_loc L l))"

definition store_loc :: "loc \<Rightarrow> TValue \<Rightarrow> 'w lua_State \<Rightarrow> 'w lua_State" where
  "store_loc l v L =
     (case l of
        Slot i \<Rightarrow> L\<lparr>stk := (stk L)[i := v]\<rparr>
      | RegLoc \<Rightarrow> L\<lparr>gs := (gs L)\<lparr>l_registry := v\<rparr>\<rparr>
      | GlobLoc \<Rightarrow> L\<lparr>gs := (gs L)\<lparr>l_gt := v\<rparr>\<rparr>
      | UpLoc i \<Rightarrow>
          (case (func L, curr_func L) of
             (Some a, Some (CClosure f e us)) \<Rightarrow>
               L\<lparr>gs := (gs L)\<lparr>closures := (closures (gs L))(a \<mapsto> CClosure f e (us[i := v]))\<rparr>\<rparr>
           | _ \<Rightarrow> L)
      | _ \<Rightarrow> L)"

definition getcurrenv :: "'w lua_State \<Rightarrow> TValue" where
  "getcurrenv L = (case curr_func L of None \<Rightarrow> l_gt (gs L) | Some c \<Rightarrow> TTable (closure_env c))"

definition top_value :: "(TValue, 'w) M" where
  "top_value = bindM (api_check (\<lambda>L. stk L \<noteq> [])) (\<lambda>_. getM (\<lambda>L. last (stk L)))"

definition drop_top :: "nat \<Rightarrow> (unit, 'w) M" where
  "drop_top n = modM (\<lambda>L. L\<lparr>stk := take (length (stk L) - n) (stk L)\<rparr>)"

definition checknelems :: "nat \<Rightarrow> (unit, 'w) M" where
  "checknelems n = api_check (\<lambda>L. n \<le> length (stk L))"

definition the_tableV :: "TValue \<Rightarrow> (addr, 'w) M" where
  "the_tableV v = (case v of TTable a \<Rightarrow> ret a | _ \<Rightarrow> undefM)"

section \<open>Basic stack manipulation\<close>

definition luaA_pushobject :: "TValue \<Rightarrow> (unit, 'w) M" where
  "luaA_pushobject v =
     bindM (api_check (\<lambda>L. length (stk L) < ci_top L)) (\<lambda>_. modM (\<lambda>L. L\<lparr>stk := stk L @ [v]\<rparr>))"

definition lua_checkstack :: "int \<Rightarrow> (bool, 'w) M" where
  "lua_checkstack sz = (\<lambda>L.
     if int LUAI_MAXCSTACK < sz \<or> int LUAI_MAXCSTACK < int (length (stk L)) + sz then Ok False L
     else if 0 < sz then Ok True (L\<lparr>ci_top := max (ci_top L) (length (stk L) + nat sz)\<rparr>)
     else Ok True L)"

definition lua_gettop :: "(int, 'w) M" where
  "lua_gettop = getM (\<lambda>L. int (length (stk L)))"

definition lua_settop :: "int \<Rightarrow> (unit, 'w) M" where
  "lua_settop idx =
     (if 0 \<le> idx then
        bindM (api_check (\<lambda>L. idx \<le> int (ci_top L))) (\<lambda>_.
        modM (\<lambda>L. L\<lparr>stk := take (nat idx) (stk L @ replicate (nat idx - length (stk L)) TNil)\<rparr>))
      else
        bindM (api_check (\<lambda>L. - (idx + 1) \<le> int (length (stk L)))) (\<lambda>_. drop_top (nat (- (idx + 1)))))"

definition lua_pop :: "int \<Rightarrow> (unit, 'w) M" where
  "lua_pop n = lua_settop (- n - 1)"

text \<open>The loops that shift slots up and down work on the slots of the frame only.\<close>

definition lua_remove :: "int \<Rightarrow> (unit, 'w) M" where
  "lua_remove idx =
     bindM (adr idx) (\<lambda>l.
       case l of
         Slot i \<Rightarrow> modM (\<lambda>L. L\<lparr>stk := take i (stk L) @ drop (Suc i) (stk L)\<rparr>)
       | _ \<Rightarrow> undefM)"

definition lua_insert :: "int \<Rightarrow> (unit, 'w) M" where
  "lua_insert idx =
     bindM (adr idx) (\<lambda>l.
       case l of
         Slot i \<Rightarrow> modM (\<lambda>L. L\<lparr>stk := take i (stk L) @ last (stk L) # butlast (drop i (stk L))\<rparr>)
       | _ \<Rightarrow> undefM)"

definition lua_replace :: "'w calls \<Rightarrow> int \<Rightarrow> (unit, 'w) M" where
  "lua_replace B idx = (\<lambda>L0.
     if idx = LUA_ENVIRONINDEX \<and> func L0 = None then luaG_runerror B ''no calling environment'' L0
     else bindM (checknelems 1) (\<lambda>_.
          bindM (adr idx) (\<lambda>l.
            if l = NilObj then undefM
            else bindM top_value (\<lambda>v.
              bindM (if l = EnvLoc then
                       bindM (the_tableV v) (\<lambda>e. modM (\<lambda>L.
                         case (func L, curr_func L) of
                           (Some a, Some c) \<Rightarrow>
                             L\<lparr>gs := (gs L)\<lparr>closures := (closures (gs L))(a \<mapsto> with_env c e)\<rparr>\<rparr>
                         | _ \<Rightarrow> L))
                     else modM (store_loc l v)) (\<lambda>_. drop_top 1)))) L0)"

definition lua_pushvalue :: "int \<Rightarrow> (unit, 'w) M" where
  "lua_pushvalue idx = bindM (at_index idx) luaA_pushobject"

section \<open>Access functions\<close>

definition lua_type :: "int \<Rightarrow> (int, 'w) M" where
  "lua_type idx = bindM (adr idx) (\<lambda>l. if l = NilObj then ret LUA_TNONE else getM (\<lambda>L. ttype (load_loc L l)))"

definition lua_typename :: "int \<Rightarrow> string" where
  "lua_typename t = (if t = LUA_TNONE then ''no value'' else luaT_typenames t)"

definition lua_isnil :: "int \<Rightarrow> (bool, 'w) M" where
  "lua_isnil idx = bindM (lua_type idx) (\<lambda>t. ret (t = LUA_TNIL))"
definition lua_isboolean :: "int \<Rightarrow> (bool, 'w) M" where
  "lua_isboolean idx = bindM (lua_type idx) (\<lambda>t. ret (t = LUA_TBOOLEAN))"
definition lua_istable :: "int \<Rightarrow> (bool, 'w) M" where
  "lua_istable idx = bindM (lua_type idx) (\<lambda>t. ret (t = LUA_TTABLE))"
definition lua_isfunction :: "int \<Rightarrow> (bool, 'w) M" where
  "lua_isfunction idx = bindM (lua_type idx) (\<lambda>t. ret (t = LUA_TFUNCTION))"
definition lua_isnoneornil :: "int \<Rightarrow> (bool, 'w) M" where
  "lua_isnoneornil idx = bindM (lua_type idx) (\<lambda>t. ret (t \<le> 0))"

definition lua_iscfunction :: "int \<Rightarrow> (bool, 'w) M" where
  "lua_iscfunction idx =
     bindM (at_index idx) (\<lambda>v. case v of
       TFunction a \<Rightarrow> getM (\<lambda>L. case closures (gs L) a of Some (CClosure f e us) \<Rightarrow> True | _ \<Rightarrow> False)
     | _ \<Rightarrow> ret False)"

definition lua_isnumber :: "int \<Rightarrow> (bool, 'w) M" where
  "lua_isnumber idx = bindM (at_index idx) (\<lambda>v. ret (luaV_tonumber v \<noteq> None))"

definition lua_isstring :: "int \<Rightarrow> (bool, 'w) M" where
  "lua_isstring idx = bindM (lua_type idx) (\<lambda>t. ret (t = LUA_TSTRING \<or> t = LUA_TNUMBER))"

definition lua_isuserdata :: "int \<Rightarrow> (bool, 'w) M" where
  "lua_isuserdata idx = bindM (at_index idx) (\<lambda>v. ret (ttype v = LUA_TUSERDATA \<or> ttype v = LUA_TLIGHTUSERDATA))"

definition two_valid :: "int \<Rightarrow> int \<Rightarrow> (TValue \<Rightarrow> TValue \<Rightarrow> (bool, 'w) M) \<Rightarrow> (bool, 'w) M" where
  "two_valid i1 i2 f =
     bindM (adr i1) (\<lambda>l1. bindM (adr i2) (\<lambda>l2.
       if l1 = NilObj \<or> l2 = NilObj then ret False
       else bindM (getM (\<lambda>L. (load_loc L l1, load_loc L l2))) (\<lambda>(v1, v2). f v1 v2)))"

definition lua_rawequal :: "int \<Rightarrow> int \<Rightarrow> (bool, 'w) M" where
  "lua_rawequal i1 i2 = two_valid i1 i2 (\<lambda>v1 v2. ret (luaO_rawequalObj v1 v2))"

definition lua_equal :: "'w calls \<Rightarrow> int \<Rightarrow> int \<Rightarrow> (bool, 'w) M" where
  "lua_equal B i1 i2 = two_valid i1 i2 (equalobj B)"

definition lua_lessthan :: "'w calls \<Rightarrow> int \<Rightarrow> int \<Rightarrow> (bool, 'w) M" where
  "lua_lessthan B i1 i2 = two_valid i1 i2 (luaV_lessthan B)"

definition lua_tonumber :: "int \<Rightarrow> (lua_Number, 'w) M" where
  "lua_tonumber idx = bindM (at_index idx) (\<lambda>v. ret (case luaV_tonumber v of Some n \<Rightarrow> n | None \<Rightarrow> 0))"

text \<open>\<open>lua_Integer\<close> is a ptrdiff_t of 64 bits.\<close>

definition lua_number2integer :: "lua_Number \<Rightarrow> int" where
  "lua_number2integer n =
     (if num_isnan n \<or> num_isinf n then - (2 ^ 63)
      else case num_frac n of (a, d) \<Rightarrow>
        (let k = int (a div d) in if 2 ^ 63 \<le> k then - (2 ^ 63) else if num_neg n then - k else k))"

definition lua_tointeger :: "int \<Rightarrow> (int, 'w) M" where
  "lua_tointeger idx =
     bindM (at_index idx) (\<lambda>v. ret (case luaV_tonumber v of Some n \<Rightarrow> lua_number2integer n | None \<Rightarrow> 0))"

definition lua_toboolean :: "int \<Rightarrow> (bool, 'w) M" where
  "lua_toboolean idx = bindM (at_index idx) (\<lambda>v. ret (\<not> l_isfalse v))"

text \<open>A number is converted in place, in the slot or the place the index names.\<close>

definition lua_tolstring :: "int \<Rightarrow> (string option, 'w) M" where
  "lua_tolstring idx =
     bindM (adr idx) (\<lambda>l.
     bindM (getM (\<lambda>L. load_loc L l)) (\<lambda>v.
       case v of
         TString s \<Rightarrow> ret (Some s)
       | _ \<Rightarrow> (case luaV_tostring v of
                 None \<Rightarrow> ret None
               | Some s \<Rightarrow> bindM (modM (store_loc l (TString s))) (\<lambda>_. ret (Some s)))))"

text \<open>The pointer as a C string: the bytes up to the first zero.\<close>

definition lua_tostring :: "int \<Rightarrow> (string option, 'w) M" where
  "lua_tostring idx = bindM (lua_tolstring idx) (\<lambda>p. ret (map_option c_str p))"

text \<open>The result is a size_t; the length of a table is the int \<open>luaH_getn\<close> gives.\<close>

definition lua_objlen :: "'w calls \<Rightarrow> int \<Rightarrow> (int, 'w) M" where
  "lua_objlen B idx =
     bindM (adr idx) (\<lambda>l.
     bindM (getM (\<lambda>L. load_loc L l)) (\<lambda>v.
       case v of
         TString s \<Rightarrow> ret (int (length s))
       | TUserdata a \<Rightarrow> bindM (the_udata a) (\<lambda>u. ret (int (ulen u)))
       | TTable a \<Rightarrow> bindM (the_table a) (\<lambda>t.
           case luaH_getn t of None \<Rightarrow> undefM | Some r \<Rightarrow> table_op B r)
       | TNumber n \<Rightarrow> bindM (modM (store_loc l (TString (lua_number2str n)))) (\<lambda>_.
           ret (int (length (lua_number2str n))))
       | _ \<Rightarrow> ret 0))"

definition lua_tocfunction :: "int \<Rightarrow> (cfunction option, 'w) M" where
  "lua_tocfunction idx =
     bindM (at_index idx) (\<lambda>v. case v of
       TFunction a \<Rightarrow> getM (\<lambda>L. case closures (gs L) a of Some (CClosure f e us) \<Rightarrow> Some f | _ \<Rightarrow> None)
     | _ \<Rightarrow> ret None)"

text \<open>The pointer is the reference of the userdata's memory, or the light pointer itself.\<close>

definition lua_touserdata :: "int \<Rightarrow> (addr option, 'w) M" where
  "lua_touserdata idx =
     bindM (at_index idx) (\<lambda>v. ret (case v of TUserdata a \<Rightarrow> Some a | TLightUserdata p \<Rightarrow> Some p | _ \<Rightarrow> None))"

definition lua_tothread :: "int \<Rightarrow> (addr option, 'w) M" where
  "lua_tothread idx = bindM (at_index idx) (\<lambda>v. ret (case v of TThread a \<Rightarrow> Some a | _ \<Rightarrow> None))"

definition lua_topointer :: "int \<Rightarrow> (addr option, 'w) M" where
  "lua_topointer idx =
     bindM (at_index idx) (\<lambda>v. case v of
       TTable a \<Rightarrow> ret (Some a) | TFunction a \<Rightarrow> ret (Some a) | TThread a \<Rightarrow> ret (Some a)
     | TUserdata a \<Rightarrow> lua_touserdata idx | TLightUserdata p \<Rightarrow> lua_touserdata idx
     | _ \<Rightarrow> ret None)"

section \<open>Push functions\<close>

definition lua_pushnil :: "(unit, 'w) M" where
  "lua_pushnil = luaA_pushobject TNil"

definition lua_pushnumber :: "lua_Number \<Rightarrow> (unit, 'w) M" where
  "lua_pushnumber n = luaA_pushobject (TNumber n)"

definition lua_pushinteger :: "int \<Rightarrow> (unit, 'w) M" where
  "lua_pushinteger k = luaA_pushobject (TNumber (frac_num (k < 0) (nat \<bar>k\<bar>) 1))"

definition lua_pushlstring :: "string \<Rightarrow> (unit, 'w) M" where
  "lua_pushlstring s = luaA_pushobject (TString s)"

definition lua_pushstring :: "string option \<Rightarrow> (unit, 'w) M" where
  "lua_pushstring s = (case s of None \<Rightarrow> lua_pushnil | Some s \<Rightarrow> lua_pushlstring (c_str s))"

definition lua_pushfstring :: "string \<Rightarrow> farg list \<Rightarrow> (string, 'w) M" where
  "lua_pushfstring fmt args =
     bindM (nonnull (luaO_pushvfstring fmt args)) (\<lambda>s. bindM (luaA_pushobject (TString s)) (\<lambda>_. ret s))"

definition lua_pushcclosure :: "cfunction \<Rightarrow> nat \<Rightarrow> (unit, 'w) M" where
  "lua_pushcclosure fn n =
     bindM (checknelems n) (\<lambda>_.
     bindM (getM getcurrenv) (\<lambda>e.
     bindM (the_tableV e) (\<lambda>env.
     bindM (getM (\<lambda>L. drop (length (stk L) - n) (stk L))) (\<lambda>us.
     bindM (new_closure (CClosure fn env us)) (\<lambda>a.
     bindM (drop_top n) (\<lambda>_. luaA_pushobject (TFunction a)))))))"

definition lua_pushcfunction :: "cfunction \<Rightarrow> (unit, 'w) M" where
  "lua_pushcfunction fn = lua_pushcclosure fn 0"

definition lua_pushboolean :: "int \<Rightarrow> (unit, 'w) M" where
  "lua_pushboolean b = luaA_pushobject (TBoolean (b \<noteq> 0))"

definition lua_pushlightuserdata :: "addr \<Rightarrow> (unit, 'w) M" where
  "lua_pushlightuserdata p = luaA_pushobject (TLightUserdata p)"

section \<open>Get functions\<close>

text \<open>A key given as a C string.\<close>

definition str_key :: "string \<Rightarrow> TValue" where
  "str_key k = TString (c_str k)"

definition lua_gettable :: "'w calls \<Rightarrow> int \<Rightarrow> (unit, 'w) M" where
  "lua_gettable B idx =
     bindM (at_valid idx) (\<lambda>t.
     bindM top_value (\<lambda>k.
     bindM (luaV_gettable B t k) (\<lambda>v.
     modM (\<lambda>L. L\<lparr>stk := butlast (stk L) @ [v]\<rparr>))))"

definition lua_getfield :: "'w calls \<Rightarrow> int \<Rightarrow> string \<Rightarrow> (unit, 'w) M" where
  "lua_getfield B idx k =
     bindM (at_valid idx) (\<lambda>t. bindM (luaV_gettable B t (str_key k)) luaA_pushobject)"

definition lua_rawget :: "'w calls \<Rightarrow> int \<Rightarrow> (unit, 'w) M" where
  "lua_rawget B idx =
     bindM (bindM (at_index idx) the_tableV) (\<lambda>a.
     bindM top_value (\<lambda>k.
     bindM (the_table a) (\<lambda>h.
     bindM (table_op B (rawget h k)) (\<lambda>v.
     modM (\<lambda>L. L\<lparr>stk := butlast (stk L) @ [v]\<rparr>)))))"

definition lua_rawgeti :: "'w calls \<Rightarrow> int \<Rightarrow> int \<Rightarrow> (unit, 'w) M" where
  "lua_rawgeti B idx n =
     bindM (bindM (at_index idx) the_tableV) (\<lambda>a.
     bindM (the_table a) (\<lambda>h.
     bindM (table_op B (bindE (luaH_getnum h n) (\<lambda>p. Inr (deref h p)))) luaA_pushobject))"

definition lua_createtable :: "'w calls \<Rightarrow> nat \<Rightarrow> nat \<Rightarrow> (unit, 'w) M" where
  "lua_createtable B narray nrec =
     bindM (table_op B (luaH_new narray nrec)) (\<lambda>t.
     bindM (new_table t) (\<lambda>a. luaA_pushobject (TTable a)))"

definition lua_newtable :: "'w calls \<Rightarrow> (unit, 'w) M" where
  "lua_newtable B = lua_createtable B 0 0"

definition lua_getmetatable :: "int \<Rightarrow> (bool, 'w) M" where
  "lua_getmetatable objindex =
     bindM (at_index objindex) (\<lambda>v.
     bindM (metatable_of v) (\<lambda>m.
       case m of
         None \<Rightarrow> ret False
       | Some a \<Rightarrow> bindM (luaA_pushobject (TTable a)) (\<lambda>_. ret True)))"

text \<open>There is one thread, so the environment of a thread is the table of globals.\<close>

definition the_closure :: "addr \<Rightarrow> (Closure, 'w) M" where
  "the_closure a = (\<lambda>L. case closures (gs L) a of None \<Rightarrow> Undefined | Some c \<Rightarrow> Ok c L)"

definition lua_getfenv :: "int \<Rightarrow> (unit, 'w) M" where
  "lua_getfenv idx =
     bindM (at_valid idx) (\<lambda>v.
     bindM (case v of
              TFunction a \<Rightarrow> bindM (the_closure a) (\<lambda>c. ret (TTable (closure_env c)))
            | TUserdata a \<Rightarrow> bindM (the_udata a) (\<lambda>u. ret (TTable (uenv u)))
            | TThread a \<Rightarrow> getM (\<lambda>L. l_gt (gs L))
            | _ \<Rightarrow> ret TNil) luaA_pushobject)"

section \<open>Set functions\<close>

definition lua_settable :: "'w calls \<Rightarrow> int \<Rightarrow> (unit, 'w) M" where
  "lua_settable B idx =
     bindM (checknelems 2) (\<lambda>_.
     bindM (at_valid idx) (\<lambda>t.
     bindM (getM (\<lambda>L. (stk L ! (length (stk L) - 2), last (stk L)))) (\<lambda>(k, v).
     bindM (luaV_settable B t k v) (\<lambda>_. drop_top 2))))"

definition lua_setfield :: "'w calls \<Rightarrow> int \<Rightarrow> string \<Rightarrow> (unit, 'w) M" where
  "lua_setfield B idx k =
     bindM (checknelems 1) (\<lambda>_.
     bindM (at_valid idx) (\<lambda>t.
     bindM top_value (\<lambda>v.
     bindM (luaV_settable B t (str_key k) v) (\<lambda>_. drop_top 1))))"

definition lua_rawset :: "'w calls \<Rightarrow> int \<Rightarrow> (unit, 'w) M" where
  "lua_rawset B idx =
     bindM (checknelems 2) (\<lambda>_.
     bindM (bindM (at_index idx) the_tableV) (\<lambda>a.
     bindM (getM (\<lambda>L. (stk L ! (length (stk L) - 2), last (stk L)))) (\<lambda>(k, v).
     bindM (the_table a) (\<lambda>h.
     bindM (table_op B (rawset h k v)) (\<lambda>h'.
     bindM (modM (set_table a h')) (\<lambda>_. drop_top 2))))))"

definition lua_rawseti :: "'w calls \<Rightarrow> int \<Rightarrow> int \<Rightarrow> (unit, 'w) M" where
  "lua_rawseti B idx n =
     bindM (checknelems 1) (\<lambda>_.
     bindM (bindM (at_index idx) the_tableV) (\<lambda>a.
     bindM top_value (\<lambda>v.
     bindM (the_table a) (\<lambda>h.
     bindM (table_op B (luaH_setnum h n)) (\<lambda>(p, h').
     bindM (modM (set_table a (store h' p v))) (\<lambda>_. drop_top 1))))))"

definition lua_setmetatable :: "int \<Rightarrow> (unit, 'w) M" where
  "lua_setmetatable objindex =
     bindM (checknelems 1) (\<lambda>_.
     bindM (at_valid objindex) (\<lambda>v.
     bindM top_value (\<lambda>w.
     bindM (if w = TNil then ret None else bindM (the_tableV w) (\<lambda>a. ret (Some a))) (\<lambda>m.
     bindM (case v of
              TTable a \<Rightarrow> bindM (the_table a) (\<lambda>t. modM (set_table a (t\<lparr>metatable := m\<rparr>)))
            | TUserdata a \<Rightarrow> bindM (the_udata a) (\<lambda>u.
                modM (\<lambda>L. L\<lparr>gs := (gs L)\<lparr>udatas := (udatas (gs L))(a \<mapsto> u\<lparr>umeta := m\<rparr>)\<rparr>\<rparr>))
            | _ \<Rightarrow> modM (\<lambda>L. L\<lparr>gs := (gs L)\<lparr>mt := (mt (gs L))(ttype v := m)\<rparr>\<rparr>)) (\<lambda>_. drop_top 1)))))"

definition lua_setfenv :: "int \<Rightarrow> (bool, 'w) M" where
  "lua_setfenv idx =
     bindM (checknelems 1) (\<lambda>_.
     bindM (at_valid idx) (\<lambda>v.
     bindM (bindM top_value the_tableV) (\<lambda>e.
     bindM (case v of
              TFunction a \<Rightarrow> bindM (the_closure a) (\<lambda>c. bindM (modM (\<lambda>L.
                L\<lparr>gs := (gs L)\<lparr>closures := (closures (gs L))(a \<mapsto> with_env c e)\<rparr>\<rparr>)) (\<lambda>_. ret True))
            | TUserdata a \<Rightarrow> bindM (the_udata a) (\<lambda>u. bindM (modM (\<lambda>L.
                L\<lparr>gs := (gs L)\<lparr>udatas := (udatas (gs L))(a \<mapsto> u\<lparr>uenv := e\<rparr>)\<rparr>\<rparr>)) (\<lambda>_. ret True))
            | TThread a \<Rightarrow> bindM (modM (\<lambda>L. L\<lparr>gs := (gs L)\<lparr>l_gt := TTable e\<rparr>\<rparr>)) (\<lambda>_. ret True)
            | _ \<Rightarrow> ret False) (\<lambda>res. bindM (drop_top 1) (\<lambda>_. ret res)))))"

definition lua_getglobal :: "'w calls \<Rightarrow> string \<Rightarrow> (unit, 'w) M" where
  "lua_getglobal B s = lua_getfield B LUA_GLOBALSINDEX s"

definition lua_setglobal :: "'w calls \<Rightarrow> string \<Rightarrow> (unit, 'w) M" where
  "lua_setglobal B s = lua_setfield B LUA_GLOBALSINDEX s"

definition luaL_getmetatable :: "'w calls \<Rightarrow> string \<Rightarrow> (unit, 'w) M" where
  "luaL_getmetatable B n = lua_getfield B LUA_REGISTRYINDEX n"

section \<open>Calls\<close>

definition adjustresults :: "int \<Rightarrow> (unit, 'w) M" where
  "adjustresults nres =
     modM (\<lambda>L. if nres = LUA_MULTRET \<and> ci_top L \<le> length (stk L) then L\<lparr>ci_top := length (stk L)\<rparr> else L)"

definition checkresults :: "nat \<Rightarrow> int \<Rightarrow> (unit, 'w) M" where
  "checkresults na nr =
     api_check (\<lambda>L. nr = LUA_MULTRET \<or> nr - int na \<le> int (ci_top L) - int (length (stk L)))"

definition lua_call :: "'w calls \<Rightarrow> nat \<Rightarrow> int \<Rightarrow> (unit, 'w) M" where
  "lua_call B nargs nresults =
     run [checknelems (nargs + 1), checkresults nargs nresults, luaD_call B nargs nresults,
          adjustresults nresults]"

definition lua_pcall :: "'w calls \<Rightarrow> nat \<Rightarrow> int \<Rightarrow> int \<Rightarrow> (int, 'w) M" where
  "lua_pcall B nargs nresults ef =
     bindM (checknelems (nargs + 1)) (\<lambda>_.
     bindM (checkresults nargs nresults) (\<lambda>_.
     bindM (if ef = 0 then ret None else bindM (at_valid ef) (\<lambda>h. ret (Some h))) (\<lambda>h.
     bindM (getM (\<lambda>L. length (stk L) - (nargs + 1))) (\<lambda>old_top.
     bindM (luaD_pcall (luaD_call B nargs nresults) old_top h) (\<lambda>status.
     bindM (adjustresults nresults) (\<lambda>_. ret status))))))"

definition f_Ccall :: "'w calls \<Rightarrow> cfunction \<Rightarrow> addr \<Rightarrow> (unit, 'w) M" where
  "f_Ccall B fn ud = run [lua_pushcclosure fn 0, lua_pushlightuserdata ud, luaD_call B 1 0]"

definition lua_cpcall :: "'w calls \<Rightarrow> cfunction \<Rightarrow> addr \<Rightarrow> (int, 'w) M" where
  "lua_cpcall B fn ud =
     bindM (getM (\<lambda>L. length (stk L))) (\<lambda>old_top. luaD_pcall (f_Ccall B fn ud) old_top None)"

section \<open>Miscellaneous functions\<close>

definition lua_error :: "'w calls \<Rightarrow> ('a, 'w) M" where
  "lua_error B = bindM top_value (luaG_errormsg B)"

definition lua_next :: "'w calls \<Rightarrow> int \<Rightarrow> (bool, 'w) M" where
  "lua_next B idx =
     bindM (bindM (at_index idx) the_tableV) (\<lambda>a.
     bindM top_value (\<lambda>k.
     bindM (the_table a) (\<lambda>h.
     bindM (table_op B (luaH_next h k)) (\<lambda>r.
       case r of
         None \<Rightarrow> bindM (drop_top 1) (\<lambda>_. ret False)
       | Some (k', v) \<Rightarrow>
           bindM (modM (\<lambda>L. L\<lparr>stk := butlast (stk L) @ [k']\<rparr>)) (\<lambda>_.
           bindM (luaA_pushobject v) (\<lambda>_. ret True))))))"

definition lua_concat :: "'w calls \<Rightarrow> nat \<Rightarrow> (unit, 'w) M" where
  "lua_concat B n =
     bindM (checknelems n) (\<lambda>_.
       if 2 \<le> n then
         bindM (getM (\<lambda>L. drop (length (stk L) - n) (stk L))) (\<lambda>vs.
         bindM (luaV_concat B vs) (\<lambda>v.
         modM (\<lambda>L. L\<lparr>stk := take (length (stk L) - n) (stk L) @ [v]\<rparr>)))
       else if n = 0 then luaA_pushobject (TString [])
       else ret ())"

definition lua_newuserdata :: "nat \<Rightarrow> (addr, 'w) M" where
  "lua_newuserdata sz =
     bindM (bindM (getM getcurrenv) the_tableV) (\<lambda>e.
     bindM (\<lambda>L. Ok (next_ref (gs L)) (L\<lparr>gs := (gs L)\<lparr>
              udatas := (udatas (gs L))(next_ref (gs L) \<mapsto> \<lparr>ulen = sz, umeta = None, uenv = e\<rparr>),
              next_ref := Suc (next_ref (gs L))\<rparr>\<rparr>)) (\<lambda>a.
     bindM (luaA_pushobject (TUserdata a)) (\<lambda>_. ret a)))"

text \<open>The upvalues of C functions; the names of a script function's upvalues are in its prototype.\<close>

definition aux_upvalue :: "TValue \<Rightarrow> int \<Rightarrow> ((addr \<times> nat) option, 'w) M" where
  "aux_upvalue fi n =
     (case fi of
        TFunction a \<Rightarrow> bindM (the_closure a) (\<lambda>c.
          case c of
            CClosure f e us \<Rightarrow> ret (if 1 \<le> n \<and> n \<le> int (length us) then Some (a, nat (n - 1)) else None)
          | LClosure p e us \<Rightarrow> undefM)
      | _ \<Rightarrow> ret None)"

definition lua_getupvalue :: "int \<Rightarrow> int \<Rightarrow> (string option, 'w) M" where
  "lua_getupvalue funcindex n =
     bindM (bindM (at_index funcindex) (\<lambda>v. aux_upvalue v n)) (\<lambda>p.
       case p of
         None \<Rightarrow> ret None
       | Some (a, i) \<Rightarrow> bindM (the_closure a) (\<lambda>c.
           bindM (luaA_pushobject (upvalue c ! i)) (\<lambda>_. ret (Some []))))"

definition lua_setupvalue :: "int \<Rightarrow> int \<Rightarrow> (string option, 'w) M" where
  "lua_setupvalue funcindex n =
     bindM (at_index funcindex) (\<lambda>fi.
     bindM (checknelems 1) (\<lambda>_.
     bindM (aux_upvalue fi n) (\<lambda>p.
       case p of
         None \<Rightarrow> ret None
       | Some (a, i) \<Rightarrow>
           bindM (the_closure a) (\<lambda>c.
           bindM top_value (\<lambda>v.
           bindM (drop_top 1) (\<lambda>_.
           bindM (case c of
                    CClosure f e us \<Rightarrow> modM (\<lambda>L.
                      L\<lparr>gs := (gs L)\<lparr>closures := (closures (gs L))(a \<mapsto> CClosure f e (us[i := v]))\<rparr>\<rparr>)
                  | LClosure _ _ _ \<Rightarrow> undefM) (\<lambda>_. ret (Some []))))))))"

end
