(* ===== verification/Lua_Exec.thy ===== *)
theory Lua_Exec
  imports Lua_Api
begin

text \<open>
  Rules that run the functions of the interface on a frame whose stack is known, as conditional
  equations of the collection \<open>api_simps\<close>; the proofs of the components above the interface rest on
  them. Nothing in this theory models a line of the program.
\<close>

section \<open>Stack positions\<close>

lemma index2adr_neg:
  assumes "0 < n" "n \<le> length (stk L)" "n < 10000"
  shows "index2adr L (- int n) = Some (Slot (length (stk L) - n))"
  using assms by (simp add: index2adr_def nat_diff_distrib')

lemma index2adr_pos:
  assumes "0 < n" "n \<le> length (stk L)" "n \<le> ci_top L"
  shows "index2adr L (int n) = Some (Slot (n - 1))"
  using assms by (simp add: index2adr_def nat_diff_distrib')

lemma index2adr_neg_simps [api_simps]:
  "stk L \<noteq> [] \<Longrightarrow> index2adr L (- 1) = Some (Slot (length (stk L) - 1))"
  "numeral k \<le> length (stk L) \<Longrightarrow> (numeral k :: nat) < 10000 \<Longrightarrow>
     index2adr L (- numeral k) = Some (Slot (length (stk L) - numeral k))"
  using index2adr_neg [of 1 L] index2adr_neg [of "numeral k" L] by (cases "stk L"; simp)+

lemma index2adr_pos_simps [api_simps]:
  "stk L \<noteq> [] \<Longrightarrow> 1 \<le> ci_top L \<Longrightarrow> index2adr L 1 = Some (Slot 0)"
  "numeral k \<le> length (stk L) \<Longrightarrow> numeral k \<le> ci_top L \<Longrightarrow>
     index2adr L (numeral k) = Some (Slot (numeral k - 1))"
  using index2adr_pos [of 1 L] index2adr_pos [of "numeral k" L] by (cases "stk L"; simp)+

lemma index2adr_pseudo [api_simps]:
  "index2adr L LUA_GLOBALSINDEX = Some GlobLoc" "index2adr L LUA_REGISTRYINDEX = Some RegLoc"
  by (simp_all add: index2adr_def)

lemma adr_exec [api_simps]: "adr i L = (case index2adr L i of None \<Rightarrow> Undefined | Some l \<Rightarrow> Ok l L)"
  by (simp add: adr_def)

lemma load_exec [api_simps]:
  "load_loc L (Slot i) = stk L ! i" "load_loc L GlobLoc = l_gt (gs L)" "load_loc L RegLoc = l_registry (gs L)"
  "load_loc L NilObj = TNil"
  by (simp_all add: load_loc_def)

lemma at_index_exec [api_simps]:
  "at_index i L = (case index2adr L i of None \<Rightarrow> Undefined | Some l \<Rightarrow> Ok (load_loc L l) L)"
  by (simp add: at_index_def api_simps split: option.split)

lemma at_valid_exec [api_simps]:
  "at_valid i L = (case index2adr L i of None \<Rightarrow> Undefined
                   | Some l \<Rightarrow> if l = NilObj then Undefined else Ok (load_loc L l) L)"
  by (simp add: at_valid_def api_simps split: option.split)

lemma store_exec [api_simps]: "store_loc (Slot i) v L = L\<lparr>stk := (stk L)[i := v]\<rparr>"
  by (simp add: store_loc_def)

lemma top_value_exec [api_simps]: "stk L \<noteq> [] \<Longrightarrow> top_value L = Ok (last (stk L)) L"
  by (simp add: top_value_def api_simps)

lemma drop_top_exec [api_simps]: "drop_top n L = Ok () (L\<lparr>stk := take (length (stk L) - n) (stk L)\<rparr>)"
  by (simp add: drop_top_def api_simps)

lemma checknelems_exec [api_simps]: "n \<le> length (stk L) \<Longrightarrow> checknelems n L = Ok () L"
  by (simp add: checknelems_def api_simps)

lemma the_tableV_exec [api_simps]: "the_tableV (TTable a) L = Ok a L"
  by (simp add: the_tableV_def api_simps)

lemma run_exec [api_simps]: "run [] L = Ok () L" "run (m # ms) L = bindM m (\<lambda>_. run ms) L"
  by (simp_all add: api_simps)

section \<open>The functions of the interface\<close>

lemma push_exec [api_simps]:
  "length (stk L) < ci_top L \<Longrightarrow> luaA_pushobject v L = Ok () (L\<lparr>stk := stk L @ [v]\<rparr>)"
  by (simp add: luaA_pushobject_def api_simps)

lemmas push_defs [api_simps] =
  lua_pushnil_def lua_pushnumber_def lua_pushlstring_def lua_pushboolean_def lua_pushlightuserdata_def

lemma lua_pushstring_exec [api_simps]:
  "lua_pushstring None = luaA_pushobject TNil" "lua_pushstring (Some s) = luaA_pushobject (TString (c_str s))"
  by (simp_all add: lua_pushstring_def api_simps)

lemma lua_pushvalue_exec [api_simps]:
  "lua_pushvalue i L = bindM (at_index i) luaA_pushobject L"
  by (simp add: lua_pushvalue_def)

lemma lua_gettop_exec [api_simps]: "lua_gettop L = Ok (int (length (stk L))) L"
  by (simp add: lua_gettop_def api_simps)

lemma lua_pop_exec:
  assumes "n \<le> length (stk L)"
  shows "lua_pop (int n) L = Ok () (L\<lparr>stk := take (length (stk L) - n) (stk L)\<rparr>)"
  using assms by (simp add: lua_pop_def lua_settop_def api_simps)

lemma lua_pop_simps [api_simps]:
  "stk L \<noteq> [] \<Longrightarrow> lua_pop 1 L = Ok () (L\<lparr>stk := butlast (stk L)\<rparr>)"
  "numeral k \<le> length (stk L) \<Longrightarrow>
     lua_pop (numeral k) L = Ok () (L\<lparr>stk := take (length (stk L) - numeral k) (stk L)\<rparr>)"
  using lua_pop_exec [of 1 L] lua_pop_exec [of "numeral k" L]
  by (cases "stk L"; simp add: butlast_conv_take)+

lemma lua_settop_exec [api_simps]:
  "n \<le> length (stk L) \<Longrightarrow> n \<le> ci_top L \<Longrightarrow> lua_settop (int n) L = Ok () (L\<lparr>stk := take n (stk L)\<rparr>)"
  by (simp add: lua_settop_def api_simps)

lemma lua_type_exec [api_simps]:
  "lua_type i L = (case index2adr L i of None \<Rightarrow> Undefined
     | Some l \<Rightarrow> Ok (if l = NilObj then LUA_TNONE else ttype (load_loc L l)) L)"
  by (simp add: lua_type_def api_simps split: option.split)

lemmas type_tests [api_simps] =
  lua_isnil_def lua_isboolean_def lua_istable_def lua_isfunction_def lua_isnoneornil_def lua_isstring_def

lemma lua_toboolean_exec [api_simps]:
  "lua_toboolean i L = bindM (at_index i) (\<lambda>v. ret (\<not> l_isfalse v)) L"
  by (simp add: lua_toboolean_def)

lemma lua_remove_exec [api_simps]:
  "index2adr L i = Some (Slot j) \<Longrightarrow> lua_remove i L = Ok () (L\<lparr>stk := take j (stk L) @ drop (Suc j) (stk L)\<rparr>)"
  by (simp add: lua_remove_def api_simps)

lemma lua_insert_exec [api_simps]:
  "index2adr L i = Some (Slot j) \<Longrightarrow>
     lua_insert i L = Ok () (L\<lparr>stk := take j (stk L) @ last (stk L) # butlast (drop j (stk L))\<rparr>)"
  by (simp add: lua_insert_def api_simps)

lemma lua_objlen_string:
  "index2adr L i = Some l \<Longrightarrow> load_loc L l = TString s \<Longrightarrow> lua_objlen B i L = Ok (int (length s)) L"
  by (simp add: lua_objlen_def api_simps)

lemma lua_tolstring_string:
  "index2adr L i = Some l \<Longrightarrow> load_loc L l = TString s \<Longrightarrow> lua_tolstring i L = Ok (Some s) L"
  by (simp add: lua_tolstring_def api_simps)

section \<open>A small state\<close>

text \<open>The states on which the properties are instantiated: an interpreter at its base level with one table.\<close>

definition sample_state :: "Table \<Rightarrow> TValue list \<Rightarrow> 'w \<Rightarrow> 'w lua_State" where
  "sample_state t s w =
     \<lparr>stk = s, ci_top = 20, func = None, errfunc = None, nCcalls = 0, frames = [],
      gs = \<lparr>tables = [2 \<mapsto> t], closures = (\<lambda>_. None), udatas = (\<lambda>_. None), next_ref = 3, l_registry = TNil,
            l_gt = TTable 2, mt = (\<lambda>_. None), world = w\<rparr>\<rparr>"

lemma sample_simps [simp]:
  "stk (sample_state t xs w) = xs" "ci_top (sample_state t xs w) = 20" "nCcalls (sample_state t xs w) = 0"
  "l_gt (gs (sample_state t xs w)) = TTable 2" "next_ref (gs (sample_state t xs w)) = 3"
  "world (gs (sample_state t xs w)) = w" "tables (gs (sample_state t xs w)) = [2 \<mapsto> t]"
  "errfunc (sample_state t xs w) = None" "func (sample_state t xs w) = None" "frames (sample_state t xs w) = []"
  by (simp_all add: sample_state_def)

end
