(* ===== verification/Lua_Auxlib.thy ===== *)
theory Lua_Auxlib
  imports Lua_Exec
begin

text \<open>
  The auxiliary library: src/lib/lua/lauxlib.c, with the part of src/lib/lua/ldebug.c it asks for the
  names of running functions. All of it is written over the functions of the interface. The
  loading of chunks from files and buffers and \<open>luaL_newstate\<close> are not modelled.
\<close>

section \<open>lua_getstack and lua_getinfo\<close>

record lua_Debug =
  ar_name :: "string option"
  ar_namewhat :: string
  ar_what :: string
  ar_source :: string
  ar_short_src :: string
  ar_linedefined :: int
  ar_currentline :: int

text \<open>A negative level counts as a lost tail call.\<close>

definition lua_getstack :: "int \<Rightarrow> (frame option, 'w) M" where
  "lua_getstack level =
     getM (\<lambda>L. if level < 0 then Some TailFrame
               else if level < int (length (frames L)) then Some (frames L ! nat level) else None)"

definition funcinfo :: "frame \<Rightarrow> string \<times> int \<times> string \<times> string" where
  "funcinfo f =
     (case f of
        LuaFrame nw nm src ld ln \<Rightarrow>
          (src, ld, if ld = 0 then ''main'' else ''Lua'', luaO_chunkid src LUA_IDSIZE)
      | _ \<Rightarrow> (''=[C]'', - 1, ''C'', luaO_chunkid ''=[C]'' LUA_IDSIZE))"

definition info_tailcall :: lua_Debug where
  "info_tailcall =
     \<lparr>ar_name = Some [], ar_namewhat = [], ar_what = ''tail'', ar_source = ''=(tail call)'',
      ar_short_src = luaO_chunkid ''=(tail call)'' LUA_IDSIZE, ar_linedefined = - 1, ar_currentline = - 1\<rparr>"

text \<open>What \<open>lua_getinfo\<close> writes for the options \<open>n\<close>, \<open>S\<close> and \<open>l\<close> together.\<close>

definition auxgetinfo :: "frame \<Rightarrow> lua_Debug" where
  "auxgetinfo f =
     (case f of
        TailFrame \<Rightarrow> info_tailcall
      | _ \<Rightarrow>
        (case funcinfo f of (src, ld, wh, short) \<Rightarrow>
           \<lparr>ar_name = (if namewhat f = [] then None else fname f), ar_namewhat = namewhat f, ar_what = wh,
            ar_source = src, ar_short_src = short, ar_linedefined = ld,
            ar_currentline = (case f of LuaFrame _ _ _ _ ln \<Rightarrow> ln | _ \<Rightarrow> - 1)\<rparr>))"

section \<open>Error reports\<close>

definition quoted :: "string \<Rightarrow> string" where
  "quoted s = [CHR 0x27] @ s @ [CHR 0x27]"

definition luaL_where :: "int \<Rightarrow> (unit, 'w) M" where
  "luaL_where level =
     bindM (lua_getstack level) (\<lambda>f.
       case f of
         None \<Rightarrow> lua_pushlstring []
       | Some f \<Rightarrow>
           let ar = auxgetinfo f
           in if 0 < ar_currentline ar then
                bindM (lua_pushfstring ''%s:%d: '' [FStr (Some (ar_short_src ar)), FInt (ar_currentline ar)])
                  (\<lambda>_. ret ())
              else lua_pushlstring [])"

definition luaL_error :: "'w calls \<Rightarrow> string \<Rightarrow> farg list \<Rightarrow> ('a, 'w) M" where
  "luaL_error B fmt args =
     thenM (luaL_where 1)
       (bindM (lua_pushfstring fmt args) (\<lambda>_. thenM (lua_concat B 2) (lua_error B)))"

definition luaL_argerror :: "'w calls \<Rightarrow> int \<Rightarrow> string \<Rightarrow> ('a, 'w) M" where
  "luaL_argerror B narg extramsg =
     bindM (lua_getstack 0) (\<lambda>f.
       case f of
         None \<Rightarrow> luaL_error B ''bad argument #%d (%s)'' [FInt narg, FStr (Some extramsg)]
       | Some f \<Rightarrow>
           let ar = auxgetinfo f; narg' = (if ar_namewhat ar = ''method'' then narg - 1 else narg)
           in if ar_namewhat ar = ''method'' \<and> narg' = 0 then
                luaL_error B (''calling '' @ quoted ''%s'' @ '' on bad self (%s)'')
                  [FStr (ar_name ar), FStr (Some extramsg)]
              else
                luaL_error B (''bad argument #%d to '' @ quoted ''%s'' @ '' (%s)'')
                  [FInt narg', FStr (Some (case ar_name ar of None \<Rightarrow> ''?'' | Some n \<Rightarrow> n)), FStr (Some extramsg)])"

definition luaL_typename :: "int \<Rightarrow> (string, 'w) M" where
  "luaL_typename i = bindM (lua_type i) (\<lambda>t. ret (lua_typename t))"

definition luaL_typerror :: "'w calls \<Rightarrow> int \<Rightarrow> string \<Rightarrow> ('a, 'w) M" where
  "luaL_typerror B narg tname =
     bindM (luaL_typename narg) (\<lambda>n.
     bindM (lua_pushfstring ''%s expected, got %s'' [FStr (Some tname), FStr (Some n)]) (\<lambda>msg.
     luaL_argerror B narg (c_str msg)))"

definition tag_error :: "'w calls \<Rightarrow> int \<Rightarrow> int \<Rightarrow> ('a, 'w) M" where
  "tag_error B narg tag = luaL_typerror B narg (lua_typename tag)"

section \<open>Checks of arguments\<close>

definition luaL_checkstack :: "'w calls \<Rightarrow> int \<Rightarrow> string \<Rightarrow> (unit, 'w) M" where
  "luaL_checkstack B space mes =
     bindM (lua_checkstack space) (\<lambda>ok.
       if ok then ret () else luaL_error B ''stack overflow (%s)'' [FStr (Some mes)])"

definition luaL_checktype :: "'w calls \<Rightarrow> int \<Rightarrow> int \<Rightarrow> (unit, 'w) M" where
  "luaL_checktype B narg t = bindM (lua_type narg) (\<lambda>t'. if t' \<noteq> t then tag_error B narg t else ret ())"

definition luaL_checkany :: "'w calls \<Rightarrow> int \<Rightarrow> (unit, 'w) M" where
  "luaL_checkany B narg =
     bindM (lua_type narg) (\<lambda>t. if t = LUA_TNONE then luaL_argerror B narg ''value expected'' else ret ())"

definition luaL_checklstring :: "'w calls \<Rightarrow> int \<Rightarrow> (string, 'w) M" where
  "luaL_checklstring B narg =
     bindM (lua_tolstring narg) (\<lambda>s. case s of None \<Rightarrow> tag_error B narg LUA_TSTRING | Some s \<Rightarrow> ret s)"

definition luaL_optlstring :: "'w calls \<Rightarrow> int \<Rightarrow> string option \<Rightarrow> (string option, 'w) M" where
  "luaL_optlstring B narg def =
     bindM (lua_isnoneornil narg) (\<lambda>none.
       if none then ret def else bindM (luaL_checklstring B narg) (\<lambda>s. ret (Some s)))"

definition luaL_checknumber :: "'w calls \<Rightarrow> int \<Rightarrow> (lua_Number, 'w) M" where
  "luaL_checknumber B narg =
     bindM (lua_tonumber narg) (\<lambda>d.
       if luai_numeq d 0 then
         bindM (lua_isnumber narg) (\<lambda>ok. if ok then ret d else tag_error B narg LUA_TNUMBER)
       else ret d)"

definition luaL_optnumber :: "'w calls \<Rightarrow> int \<Rightarrow> lua_Number \<Rightarrow> (lua_Number, 'w) M" where
  "luaL_optnumber B narg def =
     bindM (lua_isnoneornil narg) (\<lambda>none. if none then ret def else luaL_checknumber B narg)"

definition luaL_checkinteger :: "'w calls \<Rightarrow> int \<Rightarrow> (int, 'w) M" where
  "luaL_checkinteger B narg =
     bindM (lua_tointeger narg) (\<lambda>d.
       if d = 0 then
         bindM (lua_isnumber narg) (\<lambda>ok. if ok then ret d else tag_error B narg LUA_TNUMBER)
       else ret d)"

definition luaL_optinteger :: "'w calls \<Rightarrow> int \<Rightarrow> int \<Rightarrow> (int, 'w) M" where
  "luaL_optinteger B narg def =
     bindM (lua_isnoneornil narg) (\<lambda>none. if none then ret def else luaL_checkinteger B narg)"

fun option_index :: "string list \<Rightarrow> string \<Rightarrow> nat \<Rightarrow> nat option" where
  "option_index [] name i = None"
| "option_index (s # ss) name i = (if s = name then Some i else option_index ss name (Suc i))"

definition luaL_checkoption :: "'w calls \<Rightarrow> int \<Rightarrow> string option \<Rightarrow> string list \<Rightarrow> (nat, 'w) M" where
  "luaL_checkoption B narg def lst =
     bindM (case def of None \<Rightarrow> luaL_checklstring B narg
            | Some d \<Rightarrow> bindM (luaL_optlstring B narg (Some d)) nonnull) (\<lambda>s.
       case option_index lst (c_str s) 0 of
         Some i \<Rightarrow> ret i
       | None \<Rightarrow> bindM (lua_pushfstring (''invalid option '' @ quoted ''%s'') [FStr (Some s)])
                   (\<lambda>msg. luaL_argerror B narg (c_str msg)))"

section \<open>Metatables\<close>

definition luaL_newmetatable :: "'w calls \<Rightarrow> string \<Rightarrow> (bool, 'w) M" where
  "luaL_newmetatable B tname =
     thenM (lua_getfield B LUA_REGISTRYINDEX tname)
       (bindM (lua_isnil (- 1)) (\<lambda>nil.
          if \<not> nil then ret False
          else thenM (run [lua_pop 1, lua_newtable B, lua_pushvalue (- 1), lua_setfield B LUA_REGISTRYINDEX tname])
                 (ret True)))"

definition luaL_checkudata :: "'w calls \<Rightarrow> int \<Rightarrow> string \<Rightarrow> (addr, 'w) M" where
  "luaL_checkudata B ud tname =
     bindM (lua_touserdata ud) (\<lambda>p.
       case p of
         None \<Rightarrow> luaL_typerror B ud tname
       | Some p \<Rightarrow>
           if p = 0 then luaL_typerror B ud tname
           else bindM (lua_getmetatable ud) (\<lambda>has.
             if \<not> has then luaL_typerror B ud tname
             else thenM (lua_getfield B LUA_REGISTRYINDEX tname)
               (bindM (lua_rawequal (- 1) (- 2)) (\<lambda>eq.
                  if eq then thenM (lua_pop 2) (ret p) else luaL_typerror B ud tname))))"

definition abs_index :: "int \<Rightarrow> (int, 'w) M" where
  "abs_index i =
     (if 0 < i \<or> i \<le> LUA_REGISTRYINDEX then ret i else bindM lua_gettop (\<lambda>t. ret (t + i + 1)))"

definition luaL_getmetafield :: "'w calls \<Rightarrow> int \<Rightarrow> string \<Rightarrow> (bool, 'w) M" where
  "luaL_getmetafield B obj event =
     bindM (lua_getmetatable obj) (\<lambda>has.
       if \<not> has then ret False
       else thenM (run [lua_pushstring (Some event), lua_rawget B (- 2)])
         (bindM (lua_isnil (- 1)) (\<lambda>nil.
            if nil then thenM (lua_pop 2) (ret False) else thenM (lua_remove (- 2)) (ret True))))"

definition luaL_callmeta :: "'w calls \<Rightarrow> int \<Rightarrow> string \<Rightarrow> (bool, 'w) M" where
  "luaL_callmeta B obj0 event =
     bindM (abs_index obj0) (\<lambda>obj.
     bindM (luaL_getmetafield B obj event) (\<lambda>has.
       if \<not> has then ret False
       else thenM (run [lua_pushvalue obj, lua_call B 1 1]) (ret True)))"

section \<open>Libraries\<close>

text \<open>
  The result is the part of the name whose field is not a table, if there is one. A part of the
  name ends at a dot, the last one at the end of the name.
\<close>

function findtable_loop :: "'w calls \<Rightarrow> string \<Rightarrow> nat \<Rightarrow> (string option, 'w) M" where
  "findtable_loop B fn szhint =
     (let part = takeWhile (\<lambda>c. c \<noteq> CHR ''.'') fn; e = dropWhile (\<lambda>c. c \<noteq> CHR ''.'') fn;
          next_part = thenM (lua_remove (- 2)) (if e = [] then ret None else findtable_loop B (tl e) szhint)
      in thenM (run [lua_pushlstring part, lua_rawget B (- 2)])
           (bindM (lua_isnil (- 1)) (\<lambda>nil.
              if nil then
                thenM (run [lua_pop 1, lua_createtable B 0 (if e = [] then szhint else 1),
                            lua_pushlstring part, lua_pushvalue (- 2), lua_settable B (- 4)]) next_part
              else bindM (lua_istable (- 1)) (\<lambda>tab.
                     if \<not> tab then thenM (lua_pop 2) (ret (Some fn)) else next_part))))"
  by pat_completeness auto
termination
proof (relation "measure (\<lambda>(B, fn, sz). length fn)")
  fix fn e :: string
  assume e: "e = dropWhile (\<lambda>c. c \<noteq> CHR ''.'') fn" "e \<noteq> []"
  have "length (tl e) < length e" using e(2) by (cases e) simp_all
  also have "length e \<le> length fn" unfolding e(1) by (rule length_dropWhile_le)
  finally show "\<And>B :: 'a calls. \<And>sz :: nat. ((B, tl e, sz), B, fn, sz) \<in> measure (\<lambda>(B, fn, sz). length fn)"
    by simp
qed simp

declare findtable_loop.simps [simp del]

definition luaL_findtable :: "'w calls \<Rightarrow> int \<Rightarrow> string \<Rightarrow> nat \<Rightarrow> (string option, 'w) M" where
  "luaL_findtable B i fn szhint = thenM (lua_pushvalue i) (findtable_loop B (c_str fn) szhint)"

type_synonym luaL_Reg = "(string \<times> cfunction) list"

definition libsize :: "luaL_Reg \<Rightarrow> nat" where
  "libsize l = length l"

fun reg_functions :: "'w calls \<Rightarrow> luaL_Reg \<Rightarrow> nat \<Rightarrow> (unit, 'w) M" where
  "reg_functions B [] nup = ret ()"
| "reg_functions B ((name, fn) # l) nup =
     thenM (run (replicate nup (lua_pushvalue (- int nup)) @
                 [lua_pushcclosure fn nup, lua_setfield B (- (int nup + 2)) name]))
       (reg_functions B l nup)"

definition luaI_openlib :: "'w calls \<Rightarrow> string option \<Rightarrow> luaL_Reg \<Rightarrow> nat \<Rightarrow> (unit, 'w) M" where
  "luaI_openlib B libname l nup =
     thenM
       (case libname of
          None \<Rightarrow> ret ()
        | Some lib \<Rightarrow>
            bindM (luaL_findtable B LUA_REGISTRYINDEX ''_LOADED'' 1) (\<lambda>_.
            thenM (lua_getfield B (- 1) lib)
              (bindM (lua_istable (- 1)) (\<lambda>tab.
                 thenM
                   (if tab then ret ()
                    else thenM (lua_pop 1)
                      (bindM (luaL_findtable B LUA_GLOBALSINDEX lib (libsize l)) (\<lambda>conflict.
                         if conflict \<noteq> None then
                           luaL_error B (''name conflict for module '' @ quoted ''%s'') [FStr (Some lib)]
                         else run [lua_pushvalue (- 1), lua_setfield B (- 3) lib])))
                   (run [lua_remove (- 2), lua_insert (- (int nup + 1))])))))
       (thenM (reg_functions B l nup) (lua_pop (int nup)))"

definition luaL_register :: "'w calls \<Rightarrow> string \<Rightarrow> luaL_Reg \<Rightarrow> (unit, 'w) M" where
  "luaL_register B libname l = luaI_openlib B (Some libname) l 0"

text \<open>\<open>LUA_COMPAT_GETN\<close> is not defined, so the macro \<open>luaL_getn\<close> is the length as an int.\<close>

definition luaL_getn :: "'w calls \<Rightarrow> int \<Rightarrow> (int, 'w) M" where
  "luaL_getn B i = bindM (lua_objlen B i) (\<lambda>n. ret (signed_take_bit 31 n))"

section \<open>References\<close>

abbreviation (input) LUA_REFNIL :: int where "LUA_REFNIL \<equiv> - 1"
abbreviation (input) FREELIST_REF :: int where "FREELIST_REF \<equiv> 0"

definition luaL_ref :: "'w calls \<Rightarrow> int \<Rightarrow> (int, 'w) M" where
  "luaL_ref B t0 =
     bindM (abs_index t0) (\<lambda>t.
     bindM (lua_isnil (- 1)) (\<lambda>nil.
       if nil then thenM (lua_pop 1) (ret LUA_REFNIL)
       else thenM (lua_rawgeti B t FREELIST_REF)
         (bindM (lua_tointeger (- 1)) (\<lambda>n.
          let ref = signed_take_bit 31 n
          in thenM (lua_pop 1)
               (if ref \<noteq> 0 then
                  thenM (run [lua_rawgeti B t ref, lua_rawseti B t FREELIST_REF, lua_rawseti B t ref]) (ret ref)
                else bindM (luaL_getn B t) (\<lambda>len.
                       thenM (lua_rawseti B t (len + 1)) (ret (len + 1))))))))"

definition luaL_unref :: "'w calls \<Rightarrow> int \<Rightarrow> int \<Rightarrow> (unit, 'w) M" where
  "luaL_unref B t0 ref =
     (if 0 \<le> ref then
        bindM (abs_index t0) (\<lambda>t.
          run [lua_rawgeti B t FREELIST_REF, lua_rawseti B t ref, lua_pushinteger ref,
               lua_rawseti B t FREELIST_REF])
      else ret ())"

end
