(* ===== verification/Lua_Buffer.thy ===== *)
theory Lua_Buffer
  imports Lua_Auxlib
begin

text \<open>
  The string buffers of src/lib/lua/lauxlib.c: \<open>luaL_Buffer\<close>, its operations and \<open>luaL_gsub\<close>. A buffer
  keeps its last bytes in an array of \<open>LUAL_BUFFERSIZE\<close> and the earlier pieces as strings on the
  stack, fewer than ten of them. The lemmas show that whatever is added, the pieces and the
  array together hold exactly that, and that the stack room every C function has is enough.
\<close>

section \<open>The buffer and its operations\<close>

record luaL_Buffer =
  buf :: string
  lvl :: nat

definition LUAL_BUFFERSIZE :: nat where
  "LUAL_BUFFERSIZE = 8192"

abbreviation (input) LIMIT :: nat where "LIMIT \<equiv> LUA_MINSTACK div 2"

definition bufffree :: "luaL_Buffer \<Rightarrow> nat" where
  "bufffree b = LUAL_BUFFERSIZE - length (buf b)"

definition luaL_buffinit :: luaL_Buffer where
  "luaL_buffinit = \<lparr>buf = [], lvl = 0\<rparr>"

definition emptybuffer :: "luaL_Buffer \<Rightarrow> (bool \<times> luaL_Buffer, 'w) M" where
  "emptybuffer b =
     (if length (buf b) = 0 then ret (False, b)
      else thenM (lua_pushlstring (buf b)) (ret (True, b\<lparr>buf := [], lvl := Suc (lvl b)\<rparr>)))"

text \<open>How many of the topmost pieces to join; \<open>toplen\<close> is the length of those taken so far.\<close>

function toget_loop :: "'w calls \<Rightarrow> nat \<Rightarrow> nat \<Rightarrow> int \<Rightarrow> (nat, 'w) M" where
  "toget_loop B level toget toplen =
     bindM (lua_objlen B (- (int toget + 1))) (\<lambda>l.
       if LIMIT \<le> level - toget + 1 \<or> l < toplen then
         if toget + 1 < level then toget_loop B level (toget + 1) (toplen + l) else ret (toget + 1)
       else ret toget)"
  by pat_completeness auto
termination by (relation "measure (\<lambda>(B, level, toget, toplen). level - toget)") auto

declare toget_loop.simps [simp del]

definition adjuststack :: "'w calls \<Rightarrow> luaL_Buffer \<Rightarrow> (luaL_Buffer, 'w) M" where
  "adjuststack B b =
     (if 1 < lvl b then
        bindM (lua_objlen B (- 1)) (\<lambda>toplen.
        bindM (toget_loop B (lvl b) 1 toplen) (\<lambda>toget.
        thenM (lua_concat B toget) (ret (b\<lparr>lvl := lvl b - toget + 1\<rparr>))))
      else ret b)"

definition luaL_prepbuffer :: "'w calls \<Rightarrow> luaL_Buffer \<Rightarrow> (luaL_Buffer, 'w) M" where
  "luaL_prepbuffer B b = bindM (emptybuffer b) (\<lambda>(pushed, b'). if pushed then adjuststack B b' else ret b')"

definition luaL_addchar :: "'w calls \<Rightarrow> char \<Rightarrow> luaL_Buffer \<Rightarrow> (luaL_Buffer, 'w) M" where
  "luaL_addchar B c b =
     bindM (if length (buf b) < LUAL_BUFFERSIZE then ret b else luaL_prepbuffer B b) (\<lambda>b'.
     ret (b'\<lparr>buf := buf b' @ [c]\<rparr>))"

fun luaL_addlstring :: "'w calls \<Rightarrow> string \<Rightarrow> luaL_Buffer \<Rightarrow> (luaL_Buffer, 'w) M" where
  "luaL_addlstring B [] b = ret b"
| "luaL_addlstring B (c # cs) b = bindM (luaL_addchar B c b) (luaL_addlstring B cs)"

definition luaL_addstring :: "'w calls \<Rightarrow> string \<Rightarrow> luaL_Buffer \<Rightarrow> (luaL_Buffer, 'w) M" where
  "luaL_addstring B s = luaL_addlstring B (c_str s)"

definition luaL_pushresult :: "'w calls \<Rightarrow> luaL_Buffer \<Rightarrow> (luaL_Buffer, 'w) M" where
  "luaL_pushresult B b =
     bindM (emptybuffer b) (\<lambda>(_, b'). thenM (lua_concat B (lvl b')) (ret (b'\<lparr>lvl := 1\<rparr>)))"

text \<open>A value with no text leaves \<open>vl\<close> zero and is dropped.\<close>

definition luaL_addvalue :: "'w calls \<Rightarrow> luaL_Buffer \<Rightarrow> (luaL_Buffer, 'w) M" where
  "luaL_addvalue B b =
     bindM (lua_tolstring (- 1)) (\<lambda>p.
     let s = (case p of None \<Rightarrow> [] | Some s \<Rightarrow> s)
     in if length s \<le> bufffree b then thenM (lua_pop 1) (ret (b\<lparr>buf := buf b @ s\<rparr>))
        else bindM (emptybuffer b) (\<lambda>(pushed, b').
             thenM (if pushed then lua_insert (- 2) else ret ())
               (adjuststack B (b'\<lparr>lvl := Suc (lvl b')\<rparr>))))"

section \<open>luaL_gsub\<close>

text \<open>An empty pattern is found again and again at the same place: the loop does not end.\<close>

lemma strstr_length: "strstr s p = Some w \<Longrightarrow> length w \<le> length s \<and> is_prefix p w"
  by (induction s) (auto split: if_splits)

lemma is_prefix_length: "is_prefix p s \<Longrightarrow> length p \<le> length s"
  by (induction p s rule: is_prefix.induct) auto

function gsub_loop :: "'w calls \<Rightarrow> string \<Rightarrow> string \<Rightarrow> string \<Rightarrow> luaL_Buffer \<Rightarrow> (luaL_Buffer, 'w) M" where
  "gsub_loop B s p r b =
     (case strstr s p of
        None \<Rightarrow> luaL_addstring B s b
      | Some wild \<Rightarrow>
          if p = [] then undefM
          else bindM (luaL_addlstring B (take (length s - length wild) s) b) (\<lambda>b'.
               bindM (luaL_addstring B r b') (\<lambda>b''.
               gsub_loop B (drop (length p) wild) p r b'')))"
  by pat_completeness auto
termination
proof (relation "measure (\<lambda>(B, s, p, r, b). length s)")
  fix s p w :: string
  assume "strstr s p = Some w" "p \<noteq> []"
  then have "length (drop (length p) w) < length s"
    using strstr_length [of s p w] is_prefix_length [of p w] by (cases p) auto
  then show "\<And>B :: 'a calls. \<And>r b b' b''.
      ((B, drop (length p) w, p, r, b''), B, s, p, r, b) \<in> measure (\<lambda>(B, s, p, r, b). length s)"
    by simp
qed simp

declare gsub_loop.simps [simp del]

definition luaL_gsub :: "'w calls \<Rightarrow> string \<Rightarrow> string \<Rightarrow> string \<Rightarrow> (string option, 'w) M" where
  "luaL_gsub B s p r =
     bindM (gsub_loop B (c_str s) (c_str p) r luaL_buffinit) (\<lambda>b.
     bindM (luaL_pushresult B b) (\<lambda>_. lua_tostring (- 1)))"

section \<open>What a buffer holds\<close>

text \<open>Below the pieces is the stack \<open>base\<close> of the caller, which no operation touches.\<close>

definition holds :: "TValue list \<Rightarrow> luaL_Buffer \<Rightarrow> string \<Rightarrow> 'w lua_State \<Rightarrow> bool" where
  "holds base b s L \<longleftrightarrow>
     (\<exists>ss. stk L = base @ map TString ss \<and> length ss = lvl b \<and> lvl b < LIMIT \<and>
           length (buf b) \<le> LUAL_BUFFERSIZE \<and> concat ss @ buf b = s)"

lemma holdsI:
  assumes "stk L = base @ map TString ss" "length ss = lvl b" "lvl b < LIMIT"
    "length (buf b) \<le> LUAL_BUFFERSIZE" "concat ss @ buf b = s"
  shows "holds base b s L"
  using assms by (auto simp: holds_def)

lemma concat_loop_strings:
  "rs \<noteq> [] \<Longrightarrow> concat_loop B (map TString rs) L = Ok (TString (concat (rev rs))) L"
proof (induction "length rs" arbitrary: rs rule: less_induct)
  case less
  have collect: "collect_strings (map TString xs) acc = (concat (rev xs) @ acc, [])" for xs acc
    by (induction xs arbitrary: acc) simp_all
  consider x where "rs = [x]" | x y zs where "rs = x # y # zs"
    using less.prems by (metis neq_Nil_conv)
  then show ?case
  proof cases
    case 1
    then show ?thesis by (simp add: ret_def)
  next
    case 2
    have IH: "concat_loop B (map TString (y # zs)) L = Ok (TString (concat (rev (y # zs)))) L"
      by (rule less.hyps) (simp_all add: 2)
    show ?thesis
      using IH by (simp add: 2 collect ret_def)
  qed
qed

lemma luaV_concat_strings:
  "ss \<noteq> [] \<Longrightarrow> luaV_concat B (map TString ss) L = Ok (TString (concat ss)) L"
  using concat_loop_strings [of "rev ss" B L] by (simp add: luaV_concat_def rev_map)

lemma emptybuffer_exec:
  assumes "stk L = base @ map TString ss" "length ss = lvl b" "length base + lvl b < ci_top L"
  obtains ss' b' pushed where "emptybuffer b L = Ok (pushed, b') (L\<lparr>stk := base @ map TString ss'\<rparr>)"
    "length ss' = lvl b'" "buf b' = []" "concat ss' = concat ss @ buf b"
    "lvl b' = lvl b + (if pushed then 1 else 0)" "pushed \<longleftrightarrow> buf b \<noteq> []"
proof (cases "buf b = []")
  case True
  then show ?thesis using assms that [of False b ss] by (simp add: emptybuffer_def ret_def)
next
  case False
  then show ?thesis
    using assms that [of True "b\<lparr>buf := [], lvl := Suc (lvl b)\<rparr>" "ss @ [buf b]"]
    by (simp add: emptybuffer_def api_simps)
qed

lemma nth_piece:
  assumes "stk L = base @ map TString ss" "0 < n" "n \<le> length ss" "n < 10000"
  shows "lua_objlen B (- int n) L = Ok (int (length (ss ! (length ss - n)))) L"
proof -
  have "stk L ! (length (stk L) - n) = TString (ss ! (length ss - n))"
    using assms by (auto simp: nth_append)
  then show ?thesis
    using assms by (intro lua_objlen_string [OF index2adr_neg]) (simp_all add: api_simps)
qed

lemma toget_loop_exec:
  assumes "stk L = base @ map TString ss" "length ss = level" "level < 10000" "1 \<le> toget" "toget < level"
  shows "\<exists>n. toget_loop B level toget toplen L = Ok n L \<and> 1 \<le> n \<and> n \<le> level \<and> (n = level \<or> level - n + 1 < LIMIT)"
  using assms
proof (induction "level - toget" arbitrary: toget toplen rule: less_induct)
  case less
  have len: "lua_objlen B (- int toget - 1) L = Ok (int (length (ss ! (length ss - Suc toget)))) L"
  proof -
    have "lua_objlen B (- int (Suc toget)) L = Ok (int (length (ss ! (length ss - Suc toget)))) L"
      by (rule nth_piece) (use less.prems in simp_all)
    moreover have "- int (Suc toget) = - int toget - 1" by simp
    ultimately show ?thesis by (rule subst [rotated])
  qed
  have "\<exists>n. toget_loop B level (toget + 1) t L = Ok n L \<and> 1 \<le> n \<and> n \<le> level \<and> (n = level \<or> level - n + 1 < LIMIT)"
    if "toget + 1 < level" for t
    using less.hyps [of "toget + 1" t] less.prems that by simp
  then show ?case
    using less.prems by (subst toget_loop.simps) (auto simp: api_simps len)
qed

lemma lua_concat_pieces:
  assumes "stk L = base @ map TString ss" "n \<le> length ss" "0 < n"
  shows "lua_concat B n L = Ok () (L\<lparr>stk := base @ map TString (take (length ss - n) ss @ [concat (drop (length ss - n) ss)])\<rparr>)"
proof (cases "n = 1")
  case True
  have "ss \<noteq> []" using assms by auto
  then have "drop (length ss - n) ss = [last ss]"
    using True by (cases ss rule: rev_cases) simp_all
  moreover have "take (length ss - n) ss = butlast ss" using True by (simp add: butlast_conv_take)
  ultimately show ?thesis using assms True \<open>ss \<noteq> []\<close> by (simp add: lua_concat_def api_simps)
next
  case False
  then have n: "2 \<le> n" using assms by simp
  have "drop (length (stk L) - n) (stk L) = map TString (drop (length ss - n) ss)"
    using assms by (simp add: drop_map)
  moreover have "drop (length ss - n) ss \<noteq> []" using assms by simp
  ultimately show ?thesis
    using assms n by (simp add: lua_concat_def api_simps luaV_concat_strings take_map)
qed

lemma adjuststack_exec:
  assumes st: "stk L = base @ map TString ss" "length ss = lvl b" "lvl b < 10000"
  obtains ss' b' where "adjuststack B b L = Ok b' (L\<lparr>stk := base @ map TString ss'\<rparr>)"
    "length ss' = lvl b'" "lvl b' < LIMIT" "buf b' = buf b" "concat ss' = concat ss"
proof (cases "1 < lvl b")
  case False
  then show ?thesis using assms that [of b ss] by (simp add: adjuststack_def ret_def)
next
  case True
  let ?top = "int (length (ss ! (length ss - 1)))"
  have top: "lua_objlen B (- 1) L = Ok ?top L"
    using nth_piece [OF st(1), of 1] st True by simp
  obtain n where n: "toget_loop B (lvl b) 1 ?top L = Ok n L" "1 \<le> n" "n \<le> lvl b" "n = lvl b \<or> lvl b - n + 1 < LIMIT"
    using toget_loop_exec [OF st(1,2,3), of 1] True by auto
  let ?ss = "take (length ss - n) ss @ [concat (drop (length ss - n) ss)]"
  have "adjuststack B b L = Ok (b\<lparr>lvl := lvl b - n + 1\<rparr>) (L\<lparr>stk := base @ map TString ?ss\<rparr>)"
    using True n lua_concat_pieces [OF st(1), of n B] st by (simp add: adjuststack_def api_simps top)
  moreover have "concat ?ss = concat ss"
    by (metis append_take_drop_id concat.simps concat_append append_Nil2)
  moreover have "length ?ss = lvl b - n + 1" using st n by simp
  ultimately show ?thesis
    using n by (intro that [of "b\<lparr>lvl := lvl b - n + 1\<rparr>" ?ss]) auto
qed

section \<open>What the operations add\<close>

text \<open>Running \<open>m\<close> leaves a buffer that holds \<open>s\<close>, and changes nothing but the stack above \<open>base\<close>.\<close>

definition builds :: "TValue list \<Rightarrow> 'w lua_State \<Rightarrow> (luaL_Buffer, 'w) res \<Rightarrow> string \<Rightarrow> bool" where
  "builds base L r s \<longleftrightarrow> (\<exists>b xs. r = Ok b (L\<lparr>stk := xs\<rparr>) \<and> holds base b s (L\<lparr>stk := xs\<rparr>))"

definition room :: "TValue list \<Rightarrow> 'w lua_State \<Rightarrow> bool" where
  "room base L \<longleftrightarrow> length base + LIMIT \<le> ci_top L"

lemma builds_ret: "holds base b s L \<Longrightarrow> builds base L (ret b L) s"
  unfolding builds_def ret_def by (metis lua_State.surjective lua_State.update_convs(1))

lemma builds_bind:
  assumes "builds base L (m L) s"
    and "\<And>b L'. holds base b s L' \<Longrightarrow> room base L' \<Longrightarrow> builds base L' (f b L') s'"
    and "room base L"
  shows "builds base L (bindM m f L) s'"
proof -
  obtain b xs where m: "m L = Ok b (L\<lparr>stk := xs\<rparr>)" "holds base b s (L\<lparr>stk := xs\<rparr>)"
    using assms(1) by (auto simp: builds_def)
  then have "builds base (L\<lparr>stk := xs\<rparr>) (f b (L\<lparr>stk := xs\<rparr>)) s'"
    using assms(2,3) by (simp add: room_def)
  then show ?thesis using m by (auto simp: builds_def bindM_exec)
qed

lemma luaL_prepbuffer_builds:
  assumes "holds base b s L" "room base L" "buf b \<noteq> []"
  shows "\<exists>b' xs. luaL_prepbuffer B b L = Ok b' (L\<lparr>stk := xs\<rparr>) \<and> holds base b' s (L\<lparr>stk := xs\<rparr>) \<and> buf b' = []"
proof -
  obtain ss where ss: "stk L = base @ map TString ss" "length ss = lvl b" "lvl b < LIMIT" "concat ss @ buf b = s"
    using assms by (auto simp: holds_def)
  obtain ss' b' pushed where e: "emptybuffer b L = Ok (pushed, b') (L\<lparr>stk := base @ map TString ss'\<rparr>)"
    "length ss' = lvl b'" "buf b' = []" "concat ss' = s" "lvl b' = Suc (lvl b)" pushed
    by (rule emptybuffer_exec [OF ss(1,2)]) (use ss assms in \<open>auto simp: room_def\<close>)
  obtain ss'' b'' where a: "adjuststack B b' (L\<lparr>stk := base @ map TString ss'\<rparr>) = Ok b'' (L\<lparr>stk := base @ map TString ss''\<rparr>)"
    "length ss'' = lvl b''" "lvl b'' < LIMIT" "buf b'' = buf b'" "concat ss'' = concat ss'"
    by (rule adjuststack_exec [of "L\<lparr>stk := base @ map TString ss'\<rparr>" base ss' b' B])
       (use e ss in auto)
  have "luaL_prepbuffer B b L = Ok b'' (L\<lparr>stk := base @ map TString ss''\<rparr>)"
    using e a by (simp add: luaL_prepbuffer_def api_simps)
  moreover have "holds base b'' s (L\<lparr>stk := base @ map TString ss''\<rparr>)"
    using a e by (intro holdsI [of _ base ss'']) auto
  ultimately show ?thesis using a(4) e(3) by auto
qed

lemma luaL_addchar_builds:
  assumes "holds base b s L" "room base L"
  shows "builds base L (luaL_addchar B c b L) (s @ [c])"
proof (cases "length (buf b) < LUAL_BUFFERSIZE")
  case True
  then have "holds base (b\<lparr>buf := buf b @ [c]\<rparr>) (s @ [c]) L"
    using assms by (auto simp: holds_def)
  then show ?thesis using True by (simp add: luaL_addchar_def bindM_ret builds_ret)
next
  case False
  then have "buf b \<noteq> []" by (auto simp: LUAL_BUFFERSIZE_def)
  then obtain b' xs where p: "luaL_prepbuffer B b L = Ok b' (L\<lparr>stk := xs\<rparr>)"
    "holds base b' s (L\<lparr>stk := xs\<rparr>)" "buf b' = []"
    using luaL_prepbuffer_builds [OF assms] by blast
  have "holds base (b'\<lparr>buf := buf b' @ [c]\<rparr>) (s @ [c]) (L\<lparr>stk := xs\<rparr>)"
    using p(2,3) by (auto simp: holds_def LUAL_BUFFERSIZE_def)
  then show ?thesis using False p by (auto simp: luaL_addchar_def builds_def api_simps)
qed

lemma luaL_addlstring_builds:
  "holds base b s L \<Longrightarrow> room base L \<Longrightarrow> builds base L (luaL_addlstring B t b L) (s @ t)"
proof (induction t arbitrary: b s L)
  case Nil
  then show ?case by (simp add: builds_ret)
next
  case (Cons c t)
  show ?case
    unfolding luaL_addlstring.simps
  proof (rule builds_bind [where s = "s @ [c]"])
    show "builds base L (luaL_addchar B c b L) (s @ [c])" using Cons.prems by (rule luaL_addchar_builds)
    show "builds base L' (luaL_addlstring B t b' L') (s @ c # t)"
      if "holds base b' (s @ [c]) L'" "room base L'" for b' L'
      using Cons.IH [OF that] by simp
  qed (rule Cons.prems)
qed

lemma luaL_addstring_builds:
  "holds base b s L \<Longrightarrow> room base L \<Longrightarrow> builds base L (luaL_addstring B t b L) (s @ c_str t)"
  by (simp add: luaL_addstring_def luaL_addlstring_builds)

lemma luaL_buffinit_holds: "stk L = base \<Longrightarrow> holds base luaL_buffinit [] L"
  by (rule holdsI [of _ _ "[]"]) (simp_all add: luaL_buffinit_def)

lemma luaL_pushresult_exec:
  assumes "holds base b s L" "room base L"
  shows "\<exists>b'. luaL_pushresult B b L = Ok b' (L\<lparr>stk := base @ [TString s]\<rparr>)"
proof -
  obtain ss where ss: "stk L = base @ map TString ss" "length ss = lvl b" "lvl b < LIMIT" "concat ss @ buf b = s"
    using assms by (auto simp: holds_def)
  obtain ss' b' pushed where e: "emptybuffer b L = Ok (pushed, b') (L\<lparr>stk := base @ map TString ss'\<rparr>)"
    "length ss' = lvl b'" "concat ss' = s"
    by (rule emptybuffer_exec [OF ss(1,2)]) (use ss assms in \<open>auto simp: room_def\<close>)
  have "lua_concat B (lvl b') (L\<lparr>stk := base @ map TString ss'\<rparr>) = Ok () (L\<lparr>stk := base @ [TString s]\<rparr>)"
  proof (cases "lvl b' = 0")
    case True
    then show ?thesis using e assms by (simp add: lua_concat_def api_simps room_def)
  next
    case False
    then show ?thesis
      using lua_concat_pieces [of "L\<lparr>stk := base @ map TString ss'\<rparr>" base ss' "lvl b'" B] e by simp
  qed
  then show ?thesis using e by (simp add: luaL_pushresult_def api_simps)
qed

text \<open>Any strings, added one after the other.\<close>

fun add_strings :: "'w calls \<Rightarrow> string list \<Rightarrow> luaL_Buffer \<Rightarrow> (luaL_Buffer, 'w) M" where
  "add_strings B [] b = ret b"
| "add_strings B (s # ss) b = bindM (luaL_addlstring B s b) (add_strings B ss)"

lemma add_strings_builds:
  "holds base b s L \<Longrightarrow> room base L \<Longrightarrow> builds base L (add_strings B ss b L) (s @ concat ss)"
proof (induction ss arbitrary: b s L)
  case Nil
  then show ?case by (simp add: builds_ret)
next
  case (Cons t ss)
  show ?case
    unfolding add_strings.simps
  proof (rule builds_bind [where s = "s @ t"])
    show "builds base L (luaL_addlstring B t b L) (s @ t)" using Cons.prems by (rule luaL_addlstring_builds)
    show "builds base L' (add_strings B ss b' L') (s @ concat (t # ss))"
      if "holds base b' (s @ t) L'" "room base L'" for b' L'
      using Cons.IH [OF that] by simp
  qed (rule Cons.prems)
qed

text \<open>C14: adding any strings to a fresh buffer and pushing the result pushes exactly their
  concatenation, whatever their number and their lengths are, when ten slots of the stack are free (C
  functions have twenty). A push without a free slot is undefined in the model, so there are never more
  than ten pieces on the stack: they are joined in time.\<close>

theorem luaL_Buffer_concatenates:
  assumes "length (stk L) + LIMIT \<le> ci_top L"
  shows "\<exists>b. bindM (add_strings B ss luaL_buffinit) (luaL_pushresult B) L =
             Ok b (L\<lparr>stk := stk L @ [TString (concat ss)]\<rparr>)"
proof -
  have room: "room (stk L) L" using assms by (simp add: room_def)
  obtain b xs where a: "add_strings B ss luaL_buffinit L = Ok b (L\<lparr>stk := xs\<rparr>)"
    "holds (stk L) b (concat ss) (L\<lparr>stk := xs\<rparr>)"
    using add_strings_builds [OF luaL_buffinit_holds [OF refl] room, of B ss] by (auto simp: builds_def)
  show ?thesis using luaL_pushresult_exec [OF a(2)] room a(1) by (auto simp: room_def api_simps)
qed

theorem luaL_Buffer_concatenates_witness:
  "\<exists>b. bindM (add_strings (\<lambda>_ _ _ _. NoReturn) [''ab'', ''c''] luaL_buffinit) (luaL_pushresult (\<lambda>_ _ _ _. NoReturn))
      (sample_state sample_table [] ()) = Ok b ((sample_state sample_table [] ())\<lparr>stk := [TString ''abc'']\<rparr>)"
  using luaL_Buffer_concatenates [of "sample_state sample_table [] ()" "\<lambda>_ _ _ _. NoReturn" "[''ab'', ''c'']"] by simp

section \<open>luaL_gsub replaces every occurrence\<close>

text \<open>The reference: from left to right, each occurrence of \<open>p\<close> is replaced and skipped.\<close>

function replace_all :: "string \<Rightarrow> string \<Rightarrow> string \<Rightarrow> string" where
  "replace_all [] p r = []"
| "replace_all (x # xs) p r =
     (if p \<noteq> [] \<and> is_prefix p (x # xs) then r @ replace_all (drop (length p) (x # xs)) p r
      else x # replace_all xs p r)"
  by pat_completeness auto
termination by (relation "measure (\<lambda>(s, p, r). length s)") auto

declare replace_all.simps [simp del]

lemma replace_all_strstr:
  assumes "p \<noteq> []"
  shows "replace_all s p r =
    (case strstr s p of None \<Rightarrow> s
     | Some w \<Rightarrow> take (length s - length w) s @ r @ replace_all (drop (length p) w) p r)"
proof (induction s)
  case Nil
  then show ?case using assms by (simp add: replace_all.simps)
next
  case (Cons x xs)
  show ?case
  proof (cases "is_prefix p (x # xs)")
    case True
    then show ?thesis using assms by (simp add: replace_all.simps)
  next
    case False
    then show ?thesis
      using Cons assms strstr_length [of xs p]
      by (auto simp: replace_all.simps Suc_diff_le split: option.splits)
  qed
qed

lemma c_str_no_NUL: "NUL \<notin> set (c_str s)"
  by (auto simp: c_str_def dest: set_takeWhileD)

lemma strstr_suffix: "strstr s p = Some w \<Longrightarrow> set w \<subseteq> set s"
  by (induction s) (auto split: if_splits)

lemma gsub_loop_builds:
  assumes "p \<noteq> []" "NUL \<notin> set s" "holds base b acc L" "room base L"
  shows "builds base L (gsub_loop B s p r b L) (acc @ replace_all s p (c_str r))"
  using assms(2-)
proof (induction s arbitrary: b acc L rule: measure_induct_rule [of length])
  case (less s)
  show ?case
  proof (cases "strstr s p")
    case None
    then have "gsub_loop B s p r b = luaL_addstring B s b" by (subst gsub_loop.simps) simp
    moreover have "replace_all s p (c_str r) = c_str s"
      using assms None less.prems by (simp add: replace_all_strstr c_str_id)
    ultimately show ?thesis using luaL_addstring_builds less.prems by metis
  next
    case (Some w)
    let ?pre = "take (length s - length w) s" and ?post = "drop (length p) w"
    have post: "length ?post < length s" "NUL \<notin> set ?post"
      using strstr_length [OF Some] is_prefix_length [of p w] assms(1) strstr_suffix [OF Some] less.prems(1)
      by (cases p; auto dest: in_set_dropD)+
    have "builds base L (bindM (luaL_addlstring B ?pre b) (\<lambda>b'. bindM (luaL_addstring B r b')
            (gsub_loop B ?post p r)) L) (acc @ ?pre @ c_str r @ replace_all ?post p (c_str r))"
    proof (rule builds_bind)
      show "builds base L (luaL_addlstring B ?pre b L) (acc @ ?pre)"
        using less.prems(2,3) by (rule luaL_addlstring_builds)
      show "room base L" by (rule less.prems(3))
      fix b' and L' :: "'a lua_State" assume h: "holds base b' (acc @ ?pre) L'" "room base L'"
      show "builds base L' (bindM (luaL_addstring B r b') (gsub_loop B ?post p r) L')
              (acc @ ?pre @ c_str r @ replace_all ?post p (c_str r))"
      proof (rule builds_bind)
        show "builds base L' (luaL_addstring B r b' L') ((acc @ ?pre) @ c_str r)"
          using h by (rule luaL_addstring_builds)
        show "room base L'" by (rule h(2))
        fix b'' and L'' :: "'a lua_State" assume h: "holds base b'' ((acc @ ?pre) @ c_str r) L''" "room base L''"
        show "builds base L'' (gsub_loop B ?post p r b'' L'') (acc @ ?pre @ c_str r @ replace_all ?post p (c_str r))"
          using less.IH [OF post h] by simp
      qed
    qed
    then show ?thesis
      using assms(1) Some by (subst gsub_loop.simps) (simp add: replace_all_strstr [OF assms(1), of s])
  qed
qed

text \<open>C13: \<open>luaL_gsub\<close> with a pattern that is not empty returns and pushes the subject with every occurrence
  of the pattern replaced from left to right, as the reference \<open>replace_all\<close> computes it; it changes
  nothing else and needs ten slots, whatever the lengths of the strings are.\<close>

theorem luaL_gsub_replaces:
  assumes "c_str p \<noteq> []" "length (stk L) + LIMIT \<le> ci_top L"
  shows "luaL_gsub B s p r L =
     Ok (Some (c_str (replace_all (c_str s) (c_str p) (c_str r))))
        (L\<lparr>stk := stk L @ [TString (replace_all (c_str s) (c_str p) (c_str r))]\<rparr>)"
proof -
  have room: "room (stk L) L" using assms by (simp add: room_def)
  let ?res = "replace_all (c_str s) (c_str p) (c_str r)"
  obtain b xs where g: "gsub_loop B (c_str s) (c_str p) r luaL_buffinit L = Ok b (L\<lparr>stk := xs\<rparr>)"
    "holds (stk L) b ?res (L\<lparr>stk := xs\<rparr>)"
    using gsub_loop_builds [OF assms(1) c_str_no_NUL luaL_buffinit_holds [OF refl] room, of B s r]
    by (auto simp: builds_def)
  obtain b' where "luaL_pushresult B b (L\<lparr>stk := xs\<rparr>) = Ok b' (L\<lparr>stk := stk L @ [TString ?res]\<rparr>)"
    using luaL_pushresult_exec [OF g(2)] room by (auto simp: room_def)
  then show ?thesis
    using g(1) by (simp add: luaL_gsub_def api_simps lua_tostring_def lua_tolstring_def)
qed

theorem luaL_gsub_replaces_witness:
  "luaL_gsub (\<lambda>_ _ _ _. NoReturn) ''a.b'' ''.'' ''/'' (sample_state sample_table [] ()) =
     Ok (Some ''a/b'') ((sample_state sample_table [] ())\<lparr>stk := [TString ''a/b'']\<rparr>)"
  using luaL_gsub_replaces [of "''.''" "sample_state sample_table [] ()" "\<lambda>_ _ _ _. NoReturn" "''a.b''" "''/''"]
  by (simp add: c_str_def NUL_def replace_all.simps)

end
