(* ===== verification/Lua_Heap.thy ===== *)
theory Lua_Heap
  imports Lua_Exec
begin

text \<open>
  The tables of the heap as the virtual machine uses them: the cache of absent tag methods in the
  flags of a table (src/lib/lua/ltm.c), what \<open>luaV_gettable\<close> and \<open>luaV_settable\<close> do on a table with no
  metatable, and the predicate \<open>has_table\<close> under which the components above reason about one table.
\<close>

declare butlast_append [api_simps]

section \<open>The flags of a table\<close>

text \<open>Operations that leave the flags alone or clear them.\<close>

definition keeps_flags :: "(Table \<Rightarrow> TValue \<Rightarrow> terror + tvptr \<times> Table) \<Rightarrow> bool" where
  "keeps_flags setk \<longleftrightarrow> (\<forall>t k p t'. setk t k = Inr (p, t') \<longrightarrow> flags t' = flags t \<or> flags t' = 0)"

lemma store_flags [simp]: "flags (store t p v) = flags t" "metatable (store t p v) = metatable t"
  by (cases p; simp add: store_def)+

lemma reinsert_flags:
  "reinsert setk kvs t = Inr t' \<Longrightarrow> keeps_flags setk \<Longrightarrow> flags t' = flags t \<or> flags t' = 0"
proof (induction setk kvs t rule: reinsert.induct)
  case (2 setk k v kvs t)
  show ?case
  proof (cases "v = TNil")
    case True
    then show ?thesis using 2 by simp
  next
    case False
    then obtain p t1 where t1: "setk t k = Inr (p, t1)" "reinsert setk kvs (store t1 p v) = Inr t'"
      using "2.prems"(1) by (auto simp: bindE_Inr_iff)
    then have "flags t' = flags t1 \<or> flags t' = 0"
      using "2.IH"(2) False t1(2) "2.prems"(2) by (metis store_flags(1))
    moreover have "flags t1 = flags t \<or> flags t1 = 0"
      using t1(1) "2.prems"(2) unfolding keeps_flags_def by blast
    ultimately show ?thesis by auto
  qed
qed simp

lemma setnodevector_flags: "setnodevector t sz = Inr t' \<Longrightarrow> flags t' = flags t"
  by (auto simp: setnodevector_def Let_def split: if_splits)

lemma resize_with_flags:
  assumes "keeps_flags setnum" "keeps_flags setk" "resize_with setnum setk t nasize nhsize = Inr t'"
  shows "flags t' = flags t \<or> flags t' = 0"
proof -
  let ?t1 = "if sizearray t < nasize then setarrayvector t nasize else t"
  have t1: "flags ?t1 = flags t" by (simp add: setarrayvector_def)
  obtain t2 t3 where "setnodevector ?t1 nhsize = Inr t2"
    and t3: "(if nasize < sizearray t then reinsert setnum (slice_entries (arr t) nasize) (t2\<lparr>arr := take nasize (arr t2)\<rparr>)
         else Inr t2) = Inr t3"
    and t': "reinsert setk (map (\<lambda>n. (i_key n, i_val n)) (rev (nodes t))) t3 = Inr t'"
    using assms(3) by (auto simp: resize_with_def Let_def bindE_Inr_iff)
  then have "flags t2 = flags t" using setnodevector_flags t1 by metis
  moreover have "flags t3 = flags t2 \<or> flags t3 = 0"
    using t3 reinsert_flags [OF _ assms(1)] by (cases "nasize < sizearray t") fastforce+
  ultimately show ?thesis using reinsert_flags [OF t' assms(2)] by auto
qed

lemma set_with_flags:
  assumes "keeps_flags nk" "set_with nk t k = Inr (p, t')" shows "flags t' = 0"
proof -
  obtain q where q: "luaH_get t k = Inr q" using assms(2) by (auto simp: set_with_def bindE_Inr_iff)
  show ?thesis
  proof (cases "q = NilObject")
    case True
    then have "nk (t\<lparr>flags := 0\<rparr>) k = Inr (p, t')"
      using assms(2) q by (auto simp: set_with_def Let_def split: if_splits)
    then have "flags t' = flags (t\<lparr>flags := 0\<rparr>) \<or> flags t' = 0"
      using assms(1) unfolding keeps_flags_def by blast
    then show ?thesis by simp
  next
    case False
    then show ?thesis using assms(2) q by (auto simp: set_with_def Let_def)
  qed
qed

lemma set_with_keeps: "keeps_flags nk \<Longrightarrow> keeps_flags (set_with nk)"
  using set_with_flags by (auto simp: keeps_flags_def [of "set_with nk"])

lemma setnum_key_keeps: "keeps_flags nk \<Longrightarrow> keeps_flags (setnum_key nk)"
  unfolding keeps_flags_def setnum_key_def setnum_with_def
  by (fastforce simp: bindE_Inr_iff split: if_splits)

lemma newkey_keeps: "keeps_flags (newkey n)"
proof (induction n)
  case 0
  then show ?case by (simp add: keeps_flags_def)
next
  case (Suc n)
  note R = set_with_keeps [OF Suc] setnum_key_keeps [OF Suc]
  show ?case
    unfolding keeps_flags_def
  proof (intro allI impI)
    fix t k p t' assume nk: "newkey (Suc n) t k = Inr (p, t')"
    obtain r lf where g: "getfreepos t = (r, t\<lparr>lastfree := lf\<rparr>)"
      by (cases "getfreepos_loop (nodes t) (lastfree t)") (auto simp: getfreepos_def)
    show "flags t' = flags t \<or> flags t' = 0"
      using nk set_with_flags [OF Suc]
      by (auto simp: Let_def g put_key_def set_nodes_def bindE_Inr_iff split: if_splits option.splits)
  qed
qed

lemma luaH_set_flags: "luaH_set t k = Inr (p, t') \<Longrightarrow> flags t' = 0"
  unfolding luaH_set_def by (rule set_with_flags [OF newkey_keeps])

lemma rawset_flags: "rawset t k v = Inr t' \<Longrightarrow> flags t' = 0"
  using luaH_set_flags by (auto simp: rawset_def bindE_Inr_iff)

section \<open>The cache of absent tag methods\<close>

text \<open>A set bit of the flags says that the table has no such field.\<close>

definition flags_ok :: "Table \<Rightarrow> bool" where
  "flags_ok t \<longleftrightarrow> (\<forall>e. tm_bit e \<le> tm_bit TM_EQ \<longrightarrow> bit (flags t) (tm_bit e) \<longrightarrow>
     tabs t (TString (luaT_eventname e)) = TNil)"

lemma tm_bit_inj: "tm_bit e = tm_bit e' \<Longrightarrow> e = e'"
  by (cases e; cases e'; simp)

lemma flags_ok_0: "flags t = 0 \<Longrightarrow> flags_ok t"
  by (simp add: flags_ok_def)

lemma flags_ok_empty: "tabs t = (\<lambda>_. TNil) \<Longrightarrow> flags_ok t"
  by (simp add: flags_ok_def)

lemma tabs_flags [simp]: "tabs (t\<lparr>flags := f\<rparr>) = tabs t"
  by (simp add: tabs_def fun_eq_iff in_array_def sizearray_def nodes_def)

lemma table_inv_flags [simp]: "table_inv (t\<lparr>flags := f\<rparr>) = table_inv t"
proof -
  have mp: "mainposition (t\<lparr>flags := f\<rparr>) k = mainposition t k" for k
    by (cases k) (simp_all add: hashnum_def hashmod_def hashpow2_def hashpointer_def sizenode_def)
  then have "mainposition (t\<lparr>flags := f\<rparr>) = mainposition t" by blast
  moreover have "nx (t\<lparr>flags := f\<rparr>) = nx t" "ky (t\<lparr>flags := f\<rparr>) = ky t" "vl (t\<lparr>flags := f\<rparr>) = vl t"
    by (simp_all add: fun_eq_iff nx_def ky_def vl_def nodes_def)
  ultimately show ?thesis
    by (simp add: table_inv_def wf_sizes_def free_ok_def sizenode_def sizearray_def nodes_def in_array_def
        split: option.split)
qed

lemma luaH_getstr_tabs:
  assumes "table_inv t"
  obtains p where "luaH_getstr t s = Inr p" "deref t p = tabs t (TString s)"
  using rawget_tabs [OF assms, of "TString s"] by (auto simp: rawget_def bindE_Inr_iff)

lemma luaT_gettm_ok:
  assumes "table_inv t" "flags_ok t" "tm_bit e \<le> tm_bit TM_EQ"
  defines "tm \<equiv> tabs t (TString (luaT_eventname e))"
  shows "\<exists>f. luaT_gettm t e = Inr (if tm = TNil then None else Some tm, t\<lparr>flags := f\<rparr>) \<and> flags_ok (t\<lparr>flags := f\<rparr>)"
proof -
  obtain p where p: "luaH_getstr t (luaT_eventname e) = Inr p" "deref t p = tm"
    using luaH_getstr_tabs [OF assms(1)] unfolding tm_def by blast
  show ?thesis
  proof (cases "tm = TNil")
    case True
    let ?f = "flags t OR push_bit (tm_bit e) 1"
    have "flags_ok (t\<lparr>flags := ?f\<rparr>)"
      using assms(2) True unfolding flags_ok_def tm_def
      by (auto simp: bit_or_iff bit_exp_iff dest!: tm_bit_inj)
    then show ?thesis using p True by (intro exI [of _ ?f]) (simp add: luaT_gettm_def)
  next
    case False
    then show ?thesis using p assms(2) by (intro exI [of _ "flags t"]) (simp add: luaT_gettm_def)
  qed
qed

text \<open>What does not depend on the flags of the tables.\<close>

lemma fasttm_exec:
  assumes a: "tables (gs L) a = Some t" "table_inv t" "flags_ok t" and e: "tm_bit e \<le> tm_bit TM_EQ"
  defines "tm \<equiv> tabs t (TString (luaT_eventname e))"
  shows "\<exists>f. fasttm B (Some a) e L =
      Ok (if tm = TNil then None else Some tm) (set_table a (t\<lparr>flags := f\<rparr>) L) \<and> flags_ok (t\<lparr>flags := f\<rparr>)"
proof (cases "bit (flags t) (tm_bit e)")
  case True
  then have "tm = TNil" using a(3) e by (simp add: flags_ok_def tm_def)
  moreover have "set_table a (t\<lparr>flags := flags t\<rparr>) L = L"
    using a(1) by (simp add: set_table_def fun_upd_idem)
  ultimately show ?thesis
    using True a by (intro exI [of _ "flags t"]) (simp add: fasttm_def api_simps)
next
  case False
  obtain f where "luaT_gettm t e = Inr (if tm = TNil then None else Some tm, t\<lparr>flags := f\<rparr>)"
    "flags_ok (t\<lparr>flags := f\<rparr>)"
    using luaT_gettm_ok [OF a(2,3) e] unfolding tm_def by blast
  then show ?thesis
    using False a(1) by (intro exI [of _ f]) (auto simp: fasttm_def api_simps)
qed

lemma fasttm_None [api_simps]: "fasttm B None e L = Ok None L"
  by (simp add: fasttm_def api_simps)

text \<open>C31: The cache of absent tag methods is sound: where the flags of a metatable are right, the cached lookup gives
  what a lookup of the field gives, leaves the table as it is but for its flags, and leaves those right;
  an assignment to the table leaves them right as well.\<close>

theorem tag_method_cache_sound:
  assumes "tables (gs L) a = Some t" "table_inv t" "flags_ok t" "tm_bit e \<le> tm_bit TM_EQ"
  defines "tm \<equiv> tabs t (TString (luaT_eventname e))"
  shows "(\<exists>fl. fasttm B (Some a) e L = Ok (if tm = TNil then None else Some tm) (set_table a (t\<lparr>flags := fl\<rparr>) L) \<and>
      flags_ok (t\<lparr>flags := fl\<rparr>) \<and> tabs (t\<lparr>flags := fl\<rparr>) = tabs t) \<and>
    (\<forall>k v t'. rawset t k v = Inr t' \<longrightarrow> flags_ok t')"
  unfolding tm_def using fasttm_exec [OF assms(1-4), of B] rawset_flags flags_ok_0 tabs_flags by blast

section \<open>One table of the heap\<close>

text \<open>At \<open>a\<close> is a well-formed table that holds the map \<open>f\<close> and has no metatable.\<close>

definition has_table :: "'w global_State \<Rightarrow> addr \<Rightarrow> (TValue \<Rightarrow> TValue) \<Rightarrow> bool" where
  "has_table g a f \<longleftrightarrow>
     (\<exists>t. tables g a = Some t \<and> table_inv t \<and> tabs t = f \<and> metatable t = None \<and> flags_ok t)"

text \<open>A map whose keys are strings, fewer than the largest hash part has nodes, never overfills it.\<close>

definition small_map :: "(TValue \<Rightarrow> TValue) \<Rightarrow> bool" where
  "small_map f \<longleftrightarrow> (\<exists>S. finite S \<and> card S < 2 ^ MAXBITS \<and> (\<forall>k. f k \<noteq> TNil \<longrightarrow> k \<in> TString ` S))"

lemma live_slots_entries: "length (live (slots t)) = length (live (entries t))"
  by (simp add: live_def slots_def entries_def rev_map [symmetric] rev_filter [symmetric])

lemma small_not_overfull:
  assumes inv: "table_inv t" and small: "small_map (tabs t)"
  shows "\<not> overfull t"
proof -
  obtain S where S: "finite S" "card S < 2 ^ MAXBITS" "\<forall>k. tabs t k \<noteq> TNil \<longrightarrow> k \<in> TString ` S"
    using small by (auto simp: small_map_def)
  let ?es = "live (slots t)"
  have key: "fst (?es ! i) \<in> TString ` S" if "i < length ?es" for i
  proof -
    obtain k v where kv: "?es ! i = (k, v)" by fastforce
    then have "(k, v) \<in> set ?es" using nth_mem [OF that] by simp
    then have "(k, v) \<in> set (live (entries t))" "v \<noteq> TNil"
      unfolding slots_entries by (simp_all add: live_def)
    then have "tabs t k = v"
      using entry_tabs [OF inv] rawequal_refl_iff [of k] by (auto simp: valid_key_def)
    then show ?thesis using S(3) kv \<open>v \<noteq> TNil\<close> by simp
  qed
  have "distinct (map fst ?es)"
  proof (rule distinct_conv_nth [THEN iffD2], intro allI impI)
    fix i j assume ij: "i < length (map fst ?es)" "j < length (map fst ?es)" "i \<noteq> j"
    then have "\<not> luaO_rawequalObj (fst (?es ! i)) (fst (?es ! j))"
      using live_slots_distinct [OF inv] by auto
    moreover obtain s where "fst (?es ! i) = TString s" using key [of i] ij by auto
    ultimately have "fst (?es ! i) \<noteq> fst (?es ! j)" by (auto simp: rawequal_not_number obj_simps)
    then show "map fst ?es ! i \<noteq> map fst ?es ! j" using ij by simp
  qed
  then have "length ?es = card (set (map fst ?es))" by (metis distinct_card length_map)
  moreover have "set (map fst ?es) \<subseteq> TString ` S"
  proof
    fix x assume "x \<in> set (map fst ?es)"
    then obtain i where "i < length ?es" "x = fst (?es ! i)" by (force simp: in_set_conv_nth)
    then show "x \<in> TString ` S" using key by simp
  qed
  ultimately have "length ?es \<le> card (TString ` S)"
    using S(1) by (simp add: card_mono)
  also have "\<dots> \<le> card S" by (rule card_image_le [OF S(1)])
  finally show ?thesis using S(2) by (simp add: overfull_def live_slots_entries)
qed

text \<open>The keys of a map that are known to be strings of \<open>S\<close>.\<close>

definition keys_in :: "string set \<Rightarrow> (TValue \<Rightarrow> TValue) \<Rightarrow> bool" where
  "keys_in S f \<longleftrightarrow> finite S \<and> (\<forall>k. f k \<noteq> TNil \<longrightarrow> k \<in> TString ` S)"

lemma keys_in_small: "keys_in S f \<Longrightarrow> card S < 2 ^ MAXBITS \<Longrightarrow> small_map f"
  by (auto simp: keys_in_def small_map_def)

lemma keys_in_empty: "keys_in {} (\<lambda>_. TNil)"
  by (simp add: keys_in_def)

lemma keys_in_upd: "keys_in S f \<Longrightarrow> keys_in (insert s S) (upd f (TString s) v)"
  by (auto simp: keys_in_def upd_def rawequal_not_number obj_simps)

lemma has_table_rawset:
  assumes t: "tables g a = Some t" "table_inv t" "metatable t = None"
    and k: "k \<noteq> TNil" "\<not> isnan_value k" "\<not> overfull t"
  shows "\<exists>t'. rawset t k v = Inr t' \<and> has_table (g\<lparr>tables := (tables g)(a \<mapsto> t')\<rparr>) a (upd (tabs t) k v)"
proof -
  obtain t' where "rawset t k v = Inr t'" using rawset_total [OF t(2) k] by blast
  with rawset_ok [OF t(2)] rawset_flags show ?thesis
    using t(3) by (auto simp: has_table_def intro!: exI [of _ t'] flags_ok_0)
qed

lemma luaV_gettable_has_table:
  assumes "has_table (gs L) a f"
  shows "luaV_gettable B (TTable a) k L = Ok (f k) L"
proof -
  obtain n where loop: "MAXTAGLOOP = Suc n" by (metis numeral_eq_Suc)
  show ?thesis
    using assms unfolding luaV_gettable_def loop
    by (auto simp: has_table_def api_simps rawget_tabs)
qed

lemma set_table_fields [simp]:
  "stk (set_table a t L) = stk L" "ci_top (set_table a t L) = ci_top L" "func (set_table a t L) = func L"
  "errfunc (set_table a t L) = errfunc L" "frames (set_table a t L) = frames L"
  "tables (gs (set_table a t L)) = (tables (gs L))(a \<mapsto> t)" "closures (gs (set_table a t L)) = closures (gs L)"
  "l_gt (gs (set_table a t L)) = l_gt (gs L)" "l_registry (gs (set_table a t L)) = l_registry (gs L)"
  "next_ref (gs (set_table a t L)) = next_ref (gs L)" "world (gs (set_table a t L)) = world (gs L)"
  by (simp_all add: set_table_def)

lemma set_table_set_table [simp]: "set_table a t (set_table a t' L) = set_table a t L"
  by (simp add: set_table_def)

lemma has_table_set_other: "b \<noteq> a \<Longrightarrow> has_table (gs (set_table b t L)) a f = has_table (gs L) a f"
  by (simp add: has_table_def)

lemma has_table_stk [simp]: "has_table (gs L) a f \<Longrightarrow> has_table (gs (L\<lparr>stk := s\<rparr>)) a f"
  by simp

lemma luaV_settable_has_table:
  assumes t: "has_table (gs L) a f" and k: "k \<noteq> TNil" "\<not> isnan_value k" and small: "small_map f"
  shows "\<exists>t'. luaV_settable B (TTable a) k v L = Ok () (set_table a t' L) \<and>
    has_table (gs (set_table a t' L)) a (upd f k v)"
proof -
  obtain n where loop: "MAXTAGLOOP = Suc n" by (metis numeral_eq_Suc)
  obtain t where t: "tables (gs L) a = Some t" "table_inv t" "tabs t = f" "metatable t = None"
    using assms by (auto simp: has_table_def)
  obtain p h' where s: "luaH_set t k = Inr (p, h')" and r: "rawset t k v = Inr (store h' p v)"
    using rawset_total [OF t(2) k small_not_overfull [OF t(2)]] small t(3)
    by (auto simp: rawset_def bindE_Inr_iff)
  have flags: "flags h' = 0" by (rule luaH_set_flags [OF s])
  have inv: "table_inv (store h' p v)" "tabs (store h' p v) = upd f k v" "metatable (store h' p v) = None"
    using rawset_ok [OF t(2) r] t(3,4) by simp_all
  then have "metatable h' = None" by simp
  moreover have "(store h' p v)\<lparr>flags := 0\<rparr> = store h' p v"
    using flags by (simp add: store_flags(1) [of h' p v, symmetric] del: store_flags)
  ultimately have "luaV_settable B (TTable a) k v L = Ok () (set_table a (store h' p v) L)"
    unfolding luaV_settable_def loop using t(1) s by (simp add: api_simps Let_def)
  moreover have "has_table (gs (set_table a (store h' p v) L)) a (upd f k v)"
    using inv flags by (auto simp: has_table_def intro: flags_ok_0)
  ultimately show ?thesis by blast
qed

lemma rawset_has_table:
  assumes "has_table g a f" "k \<noteq> TNil" "\<not> isnan_value k" "small_map f"
  obtains t t' where "tables g a = Some t" "rawset t k v = Inr t'"
    "table_inv t'" "tabs t' = upd f k v" "metatable t' = None" "flags_ok t'"
proof -
  obtain t where t: "tables g a = Some t" "table_inv t" "tabs t = f" "metatable t = None"
    using assms by (auto simp: has_table_def)
  then obtain t' where "rawset t k v = Inr t'"
    using rawset_total assms(2-4) small_not_overfull [OF t(2)] by blast
  then show ?thesis
    using that rawset_ok [OF t(2)] t rawset_flags flags_ok_0 by metis
qed

lemma lua_rawset_has_table:
  assumes st: "stk L = S @ [k, v]" and i: "index2adr L i = Some (Slot j)" "stk L ! j = TTable a"
    and t: "has_table (gs L) a f" "k \<noteq> TNil" "\<not> isnan_value k" "small_map f"
  shows "\<exists>t'. lua_rawset B i L = Ok () ((set_table a t' L)\<lparr>stk := S\<rparr>) \<and>
    has_table (gs (set_table a t' L)) a (upd f k v)"
proof -
  obtain t0 t' where t': "tables (gs L) a = Some t0" "rawset t0 k v = Inr t'" "table_inv t'" "tabs t' = upd f k v"
    "metatable t' = None" "flags_ok t'"
    by (rule rawset_has_table [OF t])
  have "(S @ [k, v]) ! (length S) = k" by (simp add: nth_append)
  then have "lua_rawset B i L = Ok () ((set_table a t' L)\<lparr>stk := S\<rparr>)"
    using st i t'(1,2) by (simp add: lua_rawset_def api_simps)
  moreover have "has_table (gs (set_table a t' L)) a (upd f k v)"
    using t' by (simp add: has_table_def)
  ultimately show ?thesis by blast
qed

lemma lua_rawget_has_table:
  assumes "stk L = S @ [k]" "index2adr L i = Some (Slot j)" "stk L ! j = TTable a" "has_table (gs L) a f"
  shows "lua_rawget B i L = Ok () (L\<lparr>stk := S @ [f k]\<rparr>)"
  using assms by (auto simp: lua_rawget_def api_simps has_table_def rawget_tabs)

lemma lua_getfield_has_table:
  assumes "index2adr L i = Some l" "l \<noteq> NilObj" "load_loc L l = TTable a" "has_table (gs L) a f"
    "length (stk L) < ci_top L"
  shows "lua_getfield B i s L = Ok () (L\<lparr>stk := stk L @ [f (str_key s)]\<rparr>)"
  using assms by (simp add: lua_getfield_def api_simps luaV_gettable_has_table)

lemma lua_setfield_has_table:
  assumes st: "stk L = S @ [v]" and i: "index2adr L i = Some l" "l \<noteq> NilObj" "load_loc L l = TTable a"
    and t: "has_table (gs L) a f" "small_map f"
  shows "\<exists>t'. lua_setfield B i s L = Ok () ((set_table a t' L)\<lparr>stk := S\<rparr>) \<and>
    has_table (gs (set_table a t' L)) a (upd f (str_key s) v)"
proof -
  obtain t' where "luaV_settable B (TTable a) (str_key s) v L = Ok () (set_table a t' L)"
    "has_table (gs (set_table a t' L)) a (upd f (str_key s) v)"
    using luaV_settable_has_table [OF t(1) _ _ t(2), of "str_key s" B v] by (auto simp: str_key_def)
  then show ?thesis
    using st i by (intro exI [of _ t']) (simp add: lua_setfield_def api_simps)
qed

lemma lua_createtable_has_table:
  assumes "na \<le> MAXASIZE" "nh \<le> 2 ^ MAXBITS" "length (stk L) < ci_top L"
  shows "\<exists>t. lua_createtable B na nh L =
      Ok () (L\<lparr>stk := stk L @ [TTable (next_ref (gs L))],
              gs := (gs L)\<lparr>tables := (tables (gs L))(next_ref (gs L) \<mapsto> t), next_ref := Suc (next_ref (gs L))\<rparr>\<rparr>) \<and>
    table_inv t \<and> tabs t = (\<lambda>_. TNil) \<and> metatable t = None \<and> flags_ok t"
proof -
  obtain t where t: "luaH_new na nh = Inr t" "table_inv t" "tabs t = (\<lambda>_. TNil)" "metatable t = None"
    using luaH_new_blank [OF assms(1,2)] by blast
  then have "lua_createtable B na nh L =
      Ok () (L\<lparr>stk := stk L @ [TTable (next_ref (gs L))],
              gs := (gs L)\<lparr>tables := (tables (gs L))(next_ref (gs L) \<mapsto> t), next_ref := Suc (next_ref (gs L))\<rparr>\<rparr>)"
    using assms(3) by (simp add: lua_createtable_def api_simps new_table_def)
  then show ?thesis using t flags_ok_empty by blast
qed

section \<open>Traversal\<close>

text \<open>From \<open>key\<close> on, a traversal of \<open>t\<close> still gives the entries \<open>es\<close>.\<close>

definition rest_of :: "Table \<Rightarrow> TValue \<Rightarrow> (TValue \<times> TValue) list \<Rightarrow> bool" where
  "rest_of t key es \<longleftrightarrow> (\<exists>i. findindex t key = Inr (int i - 1) \<and> live (drop i (slots t)) = es)"

lemma rest_of_nil: "rest_of t TNil (live (slots t))"
  unfolding rest_of_def by (rule exI [of _ 0]) (simp add: findindex_def)

lemma rest_of_next:
  assumes "table_inv t" "rest_of t key es"
  shows "luaH_next t key = Inr (first es)" "es = (k, v) # es' \<Longrightarrow> rest_of t k es'"
proof -
  obtain i where i: "findindex t key = Inr (int i - 1)" "live (drop i (slots t)) = es"
    using assms(2) by (auto simp: rest_of_def)
  show "luaH_next t key = Inr (first es)"
    using i by (simp add: luaH_next_def next_entry_eq [OF assms(1)])
  assume "es = (k, v) # es'"
  then obtain j where j: "j < length (slots t)" "slots t ! j = (k, v)" "v \<noteq> TNil" "live (drop (Suc j) (slots t)) = es'"
    using first_live_drop [of i "slots t" "(k, v)" es'] i(2) by auto
  then have "findindex t k = Inr (int (Suc j) - 1)"
    using findindex_slot [OF assms(1) j(1)] by simp
  then show "rest_of t k es'" unfolding rest_of_def using j(4) by blast
qed

lemma lua_next_exec:
  assumes "stk L = S @ [key]" "index2adr L i = Some (Slot j)" "stk L ! j = TTable a" "tables (gs L) a = Some t"
    "table_inv t" "rest_of t key es"
  shows "es = [] \<Longrightarrow> lua_next B i L = Ok False (L\<lparr>stk := S\<rparr>)"
    and "es = (k, v) # es' \<Longrightarrow> length S + 2 \<le> ci_top L \<Longrightarrow> lua_next B i L = Ok True (L\<lparr>stk := S @ [k, v]\<rparr>)"
  using assms rest_of_next(1) [OF assms(5,6)] by (simp_all add: lua_next_def api_simps)

lemma lua_objlen_table:
  assumes "index2adr L i = Some l" "load_loc L l = TTable a" "tables (gs L) a = Some t" "table_inv t"
  shows "\<exists>r. lua_objlen B i L = Ok r L \<and> luaH_getn t = Some (Inr r) \<and> 0 \<le> r \<and> r < INT_MAX"
  using luaH_getn_border [OF assms(4)] assms by (auto simp: lua_objlen_def api_simps border_def)


section \<open>Calls\<close>

lemma luaD_call_exec:
  assumes "stk L = S @ TFunction fa # args" "length args = n" "nCcalls L < 199"
  shows "luaD_call B n wanted L =
    (case B (errfunc L) fa args (gs L) of
       Returned rs g \<Rightarrow> Ok () (L\<lparr>stk := S @ adjust wanted rs, gs := g\<rparr>)
     | Failed st v g \<Rightarrow> Thrown st v g
     | NoReturn \<Rightarrow> Undefined)"
proof -
  have "length (stk L) - Suc n = length S" using assms by simp
  then show ?thesis
    using assms
    by (simp add: luaD_call_def Let_def enter_call_def tryfuncTM_def call_value_def api_simps nth_append
        split: callres.split)
qed

text \<open>The top of the frame grows with results that pass it.\<close>

definition grown :: "'w lua_State \<Rightarrow> 'w lua_State" where
  "grown L = (if ci_top L \<le> length (stk L) then L\<lparr>ci_top := length (stk L)\<rparr> else L)"

lemma grown_simps [simp]: "stk (grown L) = stk L" "gs (grown L) = gs L" "frames (grown L) = frames L"
  by (simp_all add: grown_def)

lemma lua_pcall_exec:
  assumes "stk L = S @ TFunction fa # args" "length args = n" "nCcalls L < 199"
  shows "lua_pcall B n LUA_MULTRET 0 L =
    (case B None fa args (gs L) of
       Returned rs g \<Rightarrow> Ok 0 (grown (L\<lparr>stk := S @ rs, gs := g\<rparr>))
     | Failed st v g \<Rightarrow> Ok st (grown (L\<lparr>stk := S @ [v], gs := g\<rparr>))
     | NoReturn \<Rightarrow> Undefined)"
proof -
  have call: "luaD_call B n LUA_MULTRET (L\<lparr>errfunc := None\<rparr>) =
    (case B None fa args (gs L) of
       Returned rs g \<Rightarrow> Ok () (L\<lparr>errfunc := None, stk := S @ rs, gs := g\<rparr>)
     | Failed st v g \<Rightarrow> Thrown st v g
     | NoReturn \<Rightarrow> Undefined)"
    using luaD_call_exec [of "L\<lparr>errfunc := None\<rparr>" S fa args n B LUA_MULTRET] assms
    by (simp add: adjust_def split: callres.split)
  show ?thesis
    using assms
    by (simp add: lua_pcall_def checkresults_def api_simps luaD_pcall_def call adjustresults_def grown_def
        split: callres.split)
qed

section \<open>A small state\<close>

text \<open>A table with one field, for the states on which the properties are instantiated.\<close>

definition one_field :: "string \<Rightarrow> TValue \<Rightarrow> Table" where
  "one_field s v =
     \<lparr>flags = 0, lsizenode = 0, metatable = None, arr = [],
      node = Some [\<lparr>i_val = v, i_key = TString s, gnext = None\<rparr>], lastfree = 0\<rparr>"

lemma one_field_inv: "table_inv (one_field s v)"
proof -
  let ?t = "one_field s v"
  have mp: "mainposition ?t k = 0" for k
    using mainposition_less [of ?t k] by (simp add: one_field_def sizenode_def)
  have n: "sizenode ?t = 1" "nx ?t 0 = None" "ky ?t 0 = TString s" "vl ?t 0 = v"
    by (simp_all add: one_field_def sizenode_def nodes_def nx_def ky_def vl_def)
  have "scatter (sizenode ?t) (mainposition ?t) (nx ?t) (ky ?t) (vl ?t)"
    by (simp add: scatter_def links_ok_def next_inj_def ranked_def keys_ok_def homes_ok_def n mp
        del: mainposition.simps)
  moreover have "wf_sizes ?t" "free_ok ?t"
    by (simp_all add: wf_sizes_def free_ok_def n sizenode_def sizearray_def one_field_def nodes_def ky_def)
  ultimately show ?thesis by (simp add: table_inv_def n in_array_def)
qed

lemma one_field_tabs: "tabs (one_field s v) k = (if k = TString s then v else TNil)"
  by (cases k) (auto simp: tabs_def one_field_def in_array_def sizearray_def nodes_def rawequal_not_number obj_simps)

lemma sample_has_table: "has_table (gs (sample_state (one_field s v) xs w)) 2 (\<lambda>k. if k = TString s then v else TNil)"
  using one_field_inv [of s v] one_field_tabs [of s v]
  by (auto simp: has_table_def sample_state_def fun_eq_iff one_field_def flags_ok_0)

theorem tag_method_cache_sound_witness:
  "\<exists>fl. fasttm (\<lambda>_ _ _ _. NoReturn) (Some 2) TM_INDEX (sample_state (one_field ''__index'' (TTable 2)) [] ()) =
      Ok (Some (TTable 2)) (set_table 2 ((one_field ''__index'' (TTable 2))\<lparr>flags := fl\<rparr>)
        (sample_state (one_field ''__index'' (TTable 2)) [] ()))"
proof -
  let ?L = "sample_state (one_field ''__index'' (TTable 2)) [] ()"
  have "flags_ok (one_field ''__index'' (TTable 2))" by (rule flags_ok_0) (simp add: one_field_def)
  then have "\<exists>fl. fasttm (\<lambda>_ _ _ _. NoReturn) (Some 2) TM_INDEX ?L =
      Ok (Some (TTable 2)) (set_table 2 ((one_field ''__index'' (TTable 2))\<lparr>flags := fl\<rparr>) ?L) \<and>
      flags_ok ((one_field ''__index'' (TTable 2))\<lparr>flags := fl\<rparr>)"
    using tag_method_cache_sound [of ?L 2 "one_field ''__index'' (TTable 2)" TM_INDEX "\<lambda>_ _ _ _. NoReturn", OF _ one_field_inv]
    by (simp add: one_field_tabs)
  then show ?thesis by blast
qed

end
