(* ===== verification/World.thy ===== *)
theory World
  imports Lua_Exec
begin

text \<open>
  What surrounds the interpreter: the calls the program makes to the C library, libevent and APR, none
  of which is part of the sources, and the static variables of its modules. A call appends itself to
  the \<open>trace\<close>; its answer is given by the environment \<open>E\<close>, an argument of the model, which may depend on
  everything called before. Function pointers are the names of the functions, pointers are
  numbers, the null pointer is zero.
\<close>

section \<open>Calls to the libraries\<close>

type_synonym ptr = nat

datatype cval = CInt int | CPtr ptr | CStr "string option"

datatype ccall = Call (callee: string) (cargs: "cval list")

text \<open>A call with its answer.\<close>

type_synonym event = "ccall \<times> cval"

type_synonym env = "event list \<Rightarrow> ccall \<Rightarrow> cval"

fun as_ptr :: "cval \<Rightarrow> ptr" where
  "as_ptr (CPtr p) = p"
| "as_ptr _ = 0"

fun as_int :: "cval \<Rightarrow> int" where
  "as_int (CInt i) = i"
| "as_int _ = 0"

fun as_str :: "cval \<Rightarrow> string option" where
  "as_str (CStr s) = s"
| "as_str _ = None"

abbreviation (input) cstr :: "string \<Rightarrow> cval" where "cstr s \<equiv> CStr (Some s)"

section \<open>The static variables\<close>

text \<open>
  \<open>struct lua_callback_info_t\<close> (src/src/program/httpd/httpd.c): the pool it lives in and the names of
  the script function to call back.
\<close>

record lua_callback_info_t =
  pool :: ptr
  cb_table :: string
  cb_function :: string

record world =
  trace :: "event list"
  dt_buffer :: string
  dt_last_time :: int
  httpd_base :: ptr
  httpd_http :: ptr
  infos :: "ptr \<Rightarrow> lua_callback_info_t option"
  echo_base :: ptr
  clients_con :: ptr
  hash_pool :: ptr
  test_base :: ptr
  total_size :: "64 word"

definition start_world :: world where
  "start_world =
     \<lparr>trace = [], dt_buffer = [], dt_last_time = 0, httpd_base = 0, httpd_http = 0, infos = (\<lambda>_. None),
      echo_base = 0, clients_con = 0, hash_pool = 0, test_base = 0, total_size = 0\<rparr>"

section \<open>Code outside the interpreter\<close>

text \<open>It returns, or it ends the program, or it reads through a null pointer.\<close>

datatype 'a wres = WOk 'a world | WExit int world | WUndef

type_synonym 'a W = "world \<Rightarrow> 'a wres"

definition retW :: "'a \<Rightarrow> 'a W" where
  "retW x = (\<lambda>w. WOk x w)"

definition bindW :: "'a W \<Rightarrow> ('a \<Rightarrow> 'b W) \<Rightarrow> 'b W" where
  "bindW m f = (\<lambda>w. case m w of WOk x w' \<Rightarrow> f x w' | WExit c w' \<Rightarrow> WExit c w' | WUndef \<Rightarrow> WUndef)"

definition undefW :: "'a W" where
  "undefW = (\<lambda>w. WUndef)"

definition exitW :: "int \<Rightarrow> 'a W" where
  "exitW c = (\<lambda>w. WExit c w)"

definition getW :: "(world \<Rightarrow> 'a) \<Rightarrow> 'a W" where
  "getW f = (\<lambda>w. WOk (f w) w)"

definition modW :: "(world \<Rightarrow> world) \<Rightarrow> unit W" where
  "modW f = (\<lambda>w. WOk () (f w))"

fun runW :: "unit W list \<Rightarrow> unit W" where
  "runW [] = retW ()"
| "runW (m # ms) = bindW m (\<lambda>_. runW ms)"

definition thenW :: "unit W \<Rightarrow> 'a W \<Rightarrow> 'a W" where
  "thenW m n = bindW m (\<lambda>_. n)"

definition nonnullW :: "'a option \<Rightarrow> 'a W" where
  "nonnullW p = (case p of None \<Rightarrow> undefW | Some x \<Rightarrow> retW x)"

definition ext :: "env \<Rightarrow> string \<Rightarrow> cval list \<Rightarrow> cval W" where
  "ext E f args = (\<lambda>w. let a = E (trace w) (Call f args) in WOk a (w\<lparr>trace := (Call f args, a) # trace w\<rparr>))"

definition extU :: "env \<Rightarrow> string \<Rightarrow> cval list \<Rightarrow> unit W" where
  "extU E f args = bindW (ext E f args) (\<lambda>_. retW ())"

definition ext_ptr :: "env \<Rightarrow> string \<Rightarrow> cval list \<Rightarrow> ptr W" where
  "ext_ptr E f args = bindW (ext E f args) (\<lambda>v. retW (as_ptr v))"

definition ext_int :: "env \<Rightarrow> string \<Rightarrow> cval list \<Rightarrow> int W" where
  "ext_int E f args = bindW (ext E f args) (\<lambda>v. retW (as_int v))"

definition ext_str :: "env \<Rightarrow> string \<Rightarrow> cval list \<Rightarrow> string option W" where
  "ext_str E f args = bindW (ext E f args) (\<lambda>v. retW (as_str v))"

text \<open>Library code called from a C function of the interpreter.\<close>

definition liftW :: "'a W \<Rightarrow> ('a, world) M" where
  "liftW m = (\<lambda>L. case m (world (gs L)) of
     WOk x w \<Rightarrow> Ok x (L\<lparr>gs := (gs L)\<lparr>world := w\<rparr>\<rparr>)
   | _ \<Rightarrow> Undefined)"

section \<open>Running it\<close>

lemma W_exec [api_simps]:
  "retW x w = WOk x w" "getW q w = WOk (q w) w" "modW g w = WOk () (g w)" "exitW c w = WExit c w"
  "undefW w = WUndef"
  "bindW m h w = (case m w of WOk x w' \<Rightarrow> h x w' | WExit c w' \<Rightarrow> WExit c w' | WUndef \<Rightarrow> WUndef)"
  "thenW p n w = (case p w of WOk x w' \<Rightarrow> n w' | WExit c w' \<Rightarrow> WExit c w' | WUndef \<Rightarrow> WUndef)"
  "runW [] w = WOk () w" "runW (p # ps) w = (case p w of WOk x w' \<Rightarrow> runW ps w' | WExit c w' \<Rightarrow> WExit c w' | WUndef \<Rightarrow> WUndef)"
  "ext E f args w = WOk (E (trace w) (Call f args)) (w\<lparr>trace := (Call f args, E (trace w) (Call f args)) # trace w\<rparr>)"
  "extU E f args w = WOk () (w\<lparr>trace := (Call f args, E (trace w) (Call f args)) # trace w\<rparr>)"
  "ext_ptr E f args w = WOk (as_ptr (E (trace w) (Call f args))) (w\<lparr>trace := (Call f args, E (trace w) (Call f args)) # trace w\<rparr>)"
  "ext_int E f args w = WOk (as_int (E (trace w) (Call f args))) (w\<lparr>trace := (Call f args, E (trace w) (Call f args)) # trace w\<rparr>)"
  "ext_str E f args w = WOk (as_str (E (trace w) (Call f args))) (w\<lparr>trace := (Call f args, E (trace w) (Call f args)) # trace w\<rparr>)"
  by (simp_all add: retW_def getW_def modW_def exitW_def undefW_def bindW_def thenW_def ext_def extU_def
      ext_ptr_def ext_int_def ext_str_def Let_def split: wres.split)

lemma nonnullW_exec [api_simps]: "nonnullW (Some x) w = WOk x w" "nonnullW None w = WUndef"
  by (simp_all add: nonnullW_def api_simps)

lemma liftW_exec [api_simps]:
  "liftW m L = (case m (world (gs L)) of WOk x w \<Rightarrow> Ok x (L\<lparr>gs := (gs L)\<lparr>world := w\<rparr>\<rparr>) | _ \<Rightarrow> Undefined)"
  by (simp add: liftW_def)


section \<open>Resources\<close>

named_theorems shifts_rules \<open>how code changes the count of a resource\<close>

text \<open>
  What a trace amounts to, one number per event: \<open>owned acq rel p\<close> counts how often \<open>acq\<close> has given \<open>p\<close>,
  less how often \<open>rel\<close> has been called on it; \<open>called f args\<close> counts the calls of \<open>f\<close> with these arguments.
\<close>

fun owned :: "string \<Rightarrow> string \<Rightarrow> ptr \<Rightarrow> event \<Rightarrow> int" where
  "owned acq rel p (Call f args, a) =
     (if f = acq \<and> a = CPtr p then 1 else 0) - (if f = rel \<and> args = [CPtr p] then 1 else 0)"

fun called :: "string \<Rightarrow> cval list \<Rightarrow> event \<Rightarrow> int" where
  "called f args (c, a) = (if c = Call f args then 1 else 0)"

definition count :: "(event \<Rightarrow> int) \<Rightarrow> event list \<Rightarrow> int" where
  "count \<mu> tr = sum_list (map \<mu> tr)"

lemma count_simps [simp]: "count \<mu> [] = 0" "count \<mu> (e # tr) = \<mu> e + count \<mu> tr"
  by (simp_all add: count_def)

text \<open>Code that, when it comes back, has changed the count by \<open>d\<close>.\<close>

definition shifts :: "(event \<Rightarrow> int) \<Rightarrow> int \<Rightarrow> 'a W \<Rightarrow> bool" where
  "shifts \<mu> d m \<longleftrightarrow> (\<forall>w x w'. m w = WOk x w' \<longrightarrow> count \<mu> (trace w') = count \<mu> (trace w) + d)"

lemma shiftsD: "shifts \<mu> d m \<Longrightarrow> m w = WOk x w' \<Longrightarrow> count \<mu> (trace w') = count \<mu> (trace w) + d"
  by (simp add: shifts_def)

lemma shifts_simple [shifts_rules]:
  "shifts \<mu> 0 (retW x)" "shifts \<mu> 0 (getW q)" "shifts \<mu> d (exitW c)" "shifts \<mu> d undefW"
  "(\<And>w. trace (g w) = trace w) \<Longrightarrow> shifts \<mu> 0 (modW g)"
  by (simp_all add: shifts_def api_simps)

lemma shifts_nonnull [shifts_rules]: "shifts \<mu> 0 (nonnullW v)"
  by (cases v) (simp_all add: shifts_def api_simps)

lemma shifts_bind [shifts_rules]:
  assumes "shifts \<mu> 0 m" "\<And>x. shifts \<mu> d (f x)"
  shows "shifts \<mu> d (bindW m f)"
  using assms unfolding shifts_def bindW_def by (auto split: wres.splits)

lemma shifts_then [shifts_rules]: "shifts \<mu> 0 m \<Longrightarrow> shifts \<mu> d n \<Longrightarrow> shifts \<mu> d (thenW m n)"
  unfolding thenW_def by (rule shifts_bind)

lemma shifts_run [shifts_rules]:
  "shifts \<mu> 0 (runW [])"
  "shifts \<mu> 0 m \<Longrightarrow> shifts \<mu> d (runW (m' # ms)) \<Longrightarrow> shifts \<mu> d (runW (m # m' # ms))"
  "shifts \<mu> d m \<Longrightarrow> shifts \<mu> d (runW [m])"
  by (auto simp: shifts_def api_simps split: wres.splits)

lemma shifts_if [shifts_rules]:
  "(c \<Longrightarrow> shifts \<mu> d m) \<Longrightarrow> (\<not> c \<Longrightarrow> shifts \<mu> d n) \<Longrightarrow> shifts \<mu> d (if c then m else n)"
  by simp

lemma shifts_call:
  assumes "\<And>a. \<mu> (Call fn args, a) = d"
  shows "shifts \<mu> d (ext E fn args)" "shifts \<mu> d (extU E fn args)"
    "shifts \<mu> d (ext_ptr E fn args)" "shifts \<mu> d (ext_int E fn args)" "shifts \<mu> d (ext_str E fn args)"
  using assms by (simp_all add: shifts_def api_simps)

lemmas shifts_other [shifts_rules] = shifts_call [where d = 0]

lemma shifts_then_first: "shifts \<mu> d m \<Longrightarrow> shifts \<mu> 0 n \<Longrightarrow> shifts \<mu> d (thenW m n)"
  by (fastforce simp: shifts_def api_simps split: wres.splits)

lemma shifts_answer:
  assumes "bindW (ext_ptr E fn args) f w = WOk x w'" "\<And>q. shifts \<mu> (d q) (f q)" "\<And>a. \<mu> (Call fn args, a) = 0"
  shows "count \<mu> (trace w') = count \<mu> (trace w) + d (as_ptr (E (trace w) (Call fn args)))"
  using assms(1) shiftsD [OF assms(2)] assms(3) by (fastforce simp: api_simps)

text \<open>A resource taken, and given to the code that follows.\<close>

lemma shifts_acquire:
  assumes "acq \<noteq> rel" "p \<noteq> 0" "\<And>q. shifts (owned acq rel p) (d - (if q = p then 1 else 0)) (f q)"
  shows "shifts (owned acq rel p) d (bindW (ext_ptr E acq args) f)"
proof -
  have "count (owned acq rel p) (trace w') = count (owned acq rel p) (trace w) + d"
    if "bindW (ext_ptr E acq args) f w = WOk x w'" for w x w'
  proof -
    define a where "a = E (trace w) (Call acq args)"
    have "f (as_ptr a) (w\<lparr>trace := (Call acq args, a) # trace w\<rparr>) = WOk x w'"
      using that by (simp add: api_simps a_def)
    from shiftsD [OF assms(3) this] show ?thesis
      using assms(1,2) by (cases a) auto
  qed
  then show ?thesis by (simp add: shifts_def)
qed

lemma as_ptr_eq: "as_ptr v \<noteq> 0 \<Longrightarrow> v = CPtr (as_ptr v)"
  by (cases v) auto

end
