(* ===== verification/Engine.thy ===== *)
theory Engine
  imports World
begin

text \<open>
  The modules of src/src/module that use no script: the log (log.c), writing a buffer to a file
  (buffer_util.c), directories (filesystem.c), pools (memory.c), listening and connecting (event_util.c)
  and the start of the engine (init_engine.c). The properties say what the log writes and that files
  and buffers are released on every path.
\<close>

section \<open>memory.c\<close>

definition init_mm :: "unit W" where
  "init_mm = retW ()"

definition engine_mm_free :: "env \<Rightarrow> ptr \<Rightarrow> unit W" where
  "engine_mm_free E p = extU E ''free'' [CPtr p]"

text \<open>The new pool is written through the pointer argument: the answer of the call.\<close>

definition pool_new :: "env \<Rightarrow> ptr W" where
  "pool_new E = ext_ptr E ''apr_pool_create'' [CPtr 0]"

definition pool_free :: "env \<Rightarrow> ptr \<Rightarrow> unit W" where
  "pool_free E p = extU E ''apr_pool_destroy'' [CPtr p]"

definition pool_palloc :: "env \<Rightarrow> ptr \<Rightarrow> int \<Rightarrow> ptr W" where
  "pool_palloc E p sz = ext_ptr E ''apr_palloc'' [CPtr p, CInt sz]"

section \<open>filesystem.c\<close>

abbreviation (input) APR_SUCCESS :: int where "APR_SUCCESS \<equiv> 0"
abbreviation (input) APR_EEXIST :: int where "APR_EEXIST \<equiv> 17"
abbreviation (input) APR_OS_DEFAULT :: int where "APR_OS_DEFAULT \<equiv> 4095"

definition make_dir :: "env \<Rightarrow> string \<Rightarrow> bool W" where
  "make_dir E path =
     bindW (pool_new E) (\<lambda>p.
     bindW (ext_int E ''apr_dir_make'' [cstr path, CInt APR_OS_DEFAULT, CPtr p]) (\<lambda>rv.
     thenW (pool_free E p) (retW (\<not> (APR_SUCCESS \<noteq> rv \<and> rv \<noteq> APR_EEXIST)))))"

section \<open>buffer_util.c\<close>

definition evbuffer_write_to_file :: "env \<Rightarrow> string \<Rightarrow> ptr \<Rightarrow> string \<Rightarrow> unit W" where
  "evbuffer_write_to_file E file b mode =
     bindW (ext_ptr E ''fopen'' [cstr file, cstr mode]) (\<lambda>fd.
     thenW
       (if fd = 0 then retW ()
        else thenW (extU E ''evbuffer_lock'' [CPtr b])
          (bindW (ext_int E ''evbuffer_get_length'' [CPtr b]) (\<lambda>n.
           let len = signed_take_bit 31 n
           in bindW (ext_ptr E ''evbuffer_pullup'' [CPtr b, CInt len]) (\<lambda>file_buf.
              if file_buf = 0 then retW ()
              else extU E ''fwrite'' [CPtr file_buf, CInt len, CInt 1, CPtr fd]))))
       (thenW (extU E ''evbuffer_unlock'' [CPtr b])
          (if fd \<noteq> 0 then runW [extU E ''fflush'' [CPtr fd], extU E ''fclose'' [CPtr fd]] else retW ())))"

section \<open>log.c\<close>

text \<open>
  The text of a time is made once a second and kept in a static buffer of 32 bytes. \<open>localtime\<close> and
  \<open>strftime\<close> are one call: it gives what the buffer then holds, for the format and the time.
\<close>

definition datetime_format :: string where
  "datetime_format = ''%Y-%m-%d %X''"

definition make_datetime_text :: "env \<Rightarrow> string W" where
  "make_datetime_text E =
     bindW (ext_int E ''time'' []) (\<lambda>now.
     bindW (getW dt_last_time) (\<lambda>last_time.
     thenW
       (if last_time \<noteq> now then
          bindW (bindW (ext_str E ''strftime'' [cstr datetime_format, CInt now]) nonnullW) (\<lambda>s.
            modW (\<lambda>w. w\<lparr>dt_buffer := c_str s, dt_last_time := now\<rparr>))
        else retW ())
       (getW dt_buffer)))"

definition make_datetime :: "env \<Rightarrow> ptr \<Rightarrow> unit W" where
  "make_datetime E b =
     bindW (make_datetime_text E) (\<lambda>s. extU E ''evbuffer_add_printf'' [CPtr b, cstr ''[%s] '', cstr s])"

definition newline :: string where
  "newline = [CHR 0x0A]"

definition log_print :: "env \<Rightarrow> string \<Rightarrow> cval list \<Rightarrow> unit W" where
  "log_print E fmt args =
     bindW (make_datetime_text E) (\<lambda>s.
     runW [extU E ''printf'' [cstr ''[%s] '', cstr s], extU E ''vprintf'' (cstr fmt # args),
           extU E ''printf'' [cstr newline]])"

definition log_file :: "env \<Rightarrow> string \<Rightarrow> string \<Rightarrow> cval list \<Rightarrow> unit W" where
  "log_file E file fmt args =
     bindW (ext_ptr E ''evbuffer_new'' []) (\<lambda>b.
       if b = 0 then retW ()
       else runW [extU E ''evbuffer_add_vprintf'' (CPtr b # cstr fmt # args),
                  extU E ''evbuffer_add_printf'' [CPtr b, cstr newline],
                  evbuffer_write_to_file E file b ''a+'',
                  extU E ''evbuffer_free'' [CPtr b]])"

definition log_file_with_time :: "env \<Rightarrow> string \<Rightarrow> string \<Rightarrow> cval list \<Rightarrow> unit W" where
  "log_file_with_time E file fmt args =
     bindW (ext_ptr E ''evbuffer_new'' []) (\<lambda>b.
       if b = 0 then retW ()
       else runW [make_datetime E b,
                  extU E ''evbuffer_add_vprintf'' (CPtr b # cstr fmt # args),
                  extU E ''evbuffer_add_printf'' [CPtr b, cstr newline],
                  evbuffer_write_to_file E file b ''a+'',
                  extU E ''evbuffer_free'' [CPtr b]])"

definition log_debug :: "env \<Rightarrow> string \<Rightarrow> cval list \<Rightarrow> unit W" where
  "log_debug E fmt args = runW [log_print E fmt args, log_file_with_time E ''log/debug.log'' fmt args]"

definition init_log :: "env \<Rightarrow> unit W" where
  "init_log E =
     bindW (make_dir E ''log'') (\<lambda>ok.
       if \<not> ok then thenW (log_print E ''make dir log fail'' []) (exitW 1) else retW ())"

section \<open>init_engine.c\<close>

definition init_engine :: "env \<Rightarrow> unit W" where
  "init_engine E = runW [extU E ''apr_initialize'' [], init_mm, init_log E]"

definition close_engine :: "env \<Rightarrow> unit W" where
  "close_engine E = extU E ''apr_terminate'' []"

section \<open>event_util.c\<close>

definition init_event :: "env \<Rightarrow> ptr W" where
  "init_event E = ext_ptr E ''event_base_new'' []"

text \<open>The answer of the parser is its status; the address it writes is the text it was given. The port
  is overwritten by \<open>htons (port)\<close>: sixteen bits.\<close>

definition htons :: "int \<Rightarrow> int" where
  "htons p = (let q = p mod 65536 in (q mod 256) * 256 + q div 256)"

definition event_listener :: "env \<Rightarrow> ptr \<Rightarrow> string \<Rightarrow> int \<Rightarrow> string option \<Rightarrow> ptr \<Rightarrow> string option \<Rightarrow> ptr W" where
  "event_listener E base address port accept_cb args errorcb =
     (if base = 0 then retW 0
      else if accept_cb = None \<or> errorcb = None then retW 0
      else bindW (ext_int E ''evutil_parse_sockaddr_port'' [cstr address]) (\<lambda>rv.
        if rv \<noteq> 0 then retW 0
        else bindW (ext_ptr E ''evconnlistener_new_bind''
                      [CPtr base, CStr accept_cb, CPtr args, CInt 10, CInt (- 1), cstr address, CInt (htons port)])
          (\<lambda>listener.
             if listener = 0 then retW 0
             else thenW (extU E ''evconnlistener_set_error_cb'' [CPtr listener, CStr errorcb]) (retW listener))))"

definition event_connect :: "env \<Rightarrow> ptr \<Rightarrow> string \<Rightarrow> ptr W" where
  "event_connect E base address =
     (if base = 0 then retW 0
      else bindW (ext_int E ''evutil_parse_sockaddr_port'' [cstr address]) (\<lambda>rv.
        if rv \<noteq> 0 then retW 0
        else bindW (ext_ptr E ''bufferevent_socket_new'' [CPtr base, CInt (- 1), CInt 1]) (\<lambda>b.
          if b = 0 then retW 0
          else bindW (ext_int E ''bufferevent_socket_connect'' [CPtr b, cstr address]) (\<lambda>rv.
            if rv \<noteq> 0 then thenW (extU E ''bufferevent_free'' [CPtr b]) (retW 0) else retW b))))"

section \<open>The time in the log is never stale\<close>

text \<open>The text of a time depends on the time only.\<close>

definition strftime_gives :: "env \<Rightarrow> (int \<Rightarrow> string) \<Rightarrow> bool" where
  "strftime_gives E f \<longleftrightarrow> (\<forall>h t. E h (Call ''strftime'' [cstr datetime_format, CInt t]) = cstr (f t))"

definition datetime_ok :: "(int \<Rightarrow> string) \<Rightarrow> world \<Rightarrow> bool" where
  "datetime_ok f w \<longleftrightarrow> dt_last_time w \<noteq> 0 \<longrightarrow> dt_buffer w = c_str (f (dt_last_time w))"

text \<open>C18: The text cached from an earlier second is never shown: where \<open>strftime\<close> is a function of the time and
  the clock is past the first second of 1970, the text is the one of the current time, as if it were
  made anew at every call, and the cache stays right.\<close>

theorem make_datetime_is_current:
  assumes "strftime_gives E f"
    and "datetime_ok f w" and "E (trace w) (Call ''time'' []) = CInt now" and "now \<noteq> 0"
  shows "\<exists>w'. make_datetime_text E w = WOk (c_str (f now)) w' \<and> datetime_ok f w' \<and> dt_last_time w' = now"
  using assms by (auto simp: make_datetime_text_def api_simps datetime_ok_def strftime_gives_def)

theorem make_datetime_is_current_witness:
  "\<exists>w'. make_datetime_text (\<lambda>h c. if callee c = ''time'' then CInt 1343000000 else cstr ''2012-07-22 23:33:20'') start_world =
     WOk (c_str ''2012-07-22 23:33:20'') w' \<and> datetime_ok (\<lambda>_. ''2012-07-22 23:33:20'') w' \<and> dt_last_time w' = 1343000000"
  by (rule make_datetime_is_current) (simp_all add: datetime_ok_def start_world_def strftime_gives_def)

section \<open>The log releases what it takes\<close>

lemma make_datetime_text_shifts [shifts_rules]:
  assumes "\<And>args a. \<mu> (Call ''time'' args, a) = 0" "\<And>args a. \<mu> (Call ''strftime'' args, a) = 0"
  shows "shifts \<mu> 0 (make_datetime_text E)"
  unfolding make_datetime_text_def by (intro shifts_rules) (simp_all add: assms)

lemma make_datetime_shifts [shifts_rules]:
  assumes "\<And>args a. \<mu> (Call ''time'' args, a) = 0" "\<And>args a. \<mu> (Call ''strftime'' args, a) = 0" "\<And>args a. \<mu> (Call ''evbuffer_add_printf'' args, a) = 0"
  shows "shifts \<mu> 0 (make_datetime E b)"
  unfolding make_datetime_def by (intro shifts_rules) (simp_all add: assms)

lemma write_to_file_closes [shifts_rules]:
  "p \<noteq> 0 \<Longrightarrow> shifts (owned ''fopen'' ''fclose'' p) 0 (evbuffer_write_to_file E file b mode)"
  unfolding evbuffer_write_to_file_def Let_def
  by (rule shifts_acquire, simp, assumption, intro shifts_rules shifts_call) (simp_all add: shifts_simple)

lemma write_to_file_buffers [shifts_rules]:
  "shifts (owned ''evbuffer_new'' ''evbuffer_free'' p) 0 (evbuffer_write_to_file E file b mode)"
  unfolding evbuffer_write_to_file_def Let_def by (intro shifts_rules) simp_all

lemma make_datetime_text_returns:
  assumes "strftime_gives E f"
  obtains s w' where "make_datetime_text E w = WOk s w'"
proof -
  have "\<exists>s w'. make_datetime_text E w = WOk s w'"
    using assms by (simp add: make_datetime_text_def api_simps strftime_gives_def)
  then show ?thesis using that by blast
qed

lemma evbuffer_write_to_file_returns: "\<exists>w'. evbuffer_write_to_file E file b mode w = WOk () w'"
  by (simp add: evbuffer_write_to_file_def api_simps Let_def)

text \<open>Between \<open>w\<close> and \<open>w'\<close> every file opened was closed and every buffer made was freed, once each.\<close>

definition releases :: "world \<Rightarrow> world \<Rightarrow> bool" where
  "releases w w' \<longleftrightarrow> (\<forall>p. p \<noteq> 0 \<longrightarrow>
     count (owned ''fopen'' ''fclose'' p) (trace w') = count (owned ''fopen'' ''fclose'' p) (trace w) \<and>
     count (owned ''evbuffer_new'' ''evbuffer_free'' p) (trace w') = count (owned ''evbuffer_new'' ''evbuffer_free'' p) (trace w))"

lemma releasesI:
  assumes "\<And>p. p \<noteq> 0 \<Longrightarrow> shifts (owned ''fopen'' ''fclose'' p) 0 m"
    "\<And>p. p \<noteq> 0 \<Longrightarrow> shifts (owned ''evbuffer_new'' ''evbuffer_free'' p) 0 m" "m w = WOk x w'"
  shows "releases w w'"
  using shiftsD [OF assms(1) assms(3)] shiftsD [OF assms(2) assms(3)] by (simp add: releases_def)

lemma log_print_shifts [shifts_rules]:
  assumes "\<And>args a. \<mu> (Call ''time'' args, a) = 0" "\<And>args a. \<mu> (Call ''strftime'' args, a) = 0" "\<And>args a. \<mu> (Call ''printf'' args, a) = 0" "\<And>args a. \<mu> (Call ''vprintf'' args, a) = 0"
  shows "shifts \<mu> 0 (log_print E fmt args)"
  unfolding log_print_def by (intro shifts_rules) (simp_all add: assms)

lemma log_file_closes [shifts_rules]:
  "p \<noteq> 0 \<Longrightarrow> shifts (owned ''fopen'' ''fclose'' p) 0 (log_file E file fmt args)"
  "p \<noteq> 0 \<Longrightarrow> shifts (owned ''fopen'' ''fclose'' p) 0 (log_file_with_time E file fmt args)"
  unfolding log_file_def log_file_with_time_def by (intro shifts_rules; simp)+

lemma log_file_frees [shifts_rules]:
  "p \<noteq> 0 \<Longrightarrow> shifts (owned ''evbuffer_new'' ''evbuffer_free'' p) 0 (log_file E file fmt args)"
  "p \<noteq> 0 \<Longrightarrow> shifts (owned ''evbuffer_new'' ''evbuffer_free'' p) 0 (log_file_with_time E file fmt args)"
  unfolding log_file_def log_file_with_time_def
  by (rule shifts_acquire, simp, assumption, intro shifts_rules shifts_call; simp add: shifts_simple)+

lemma log_debug_shifts [shifts_rules]:
  "p \<noteq> 0 \<Longrightarrow> shifts (owned ''fopen'' ''fclose'' p) 0 (log_debug E fmt args)"
  "p \<noteq> 0 \<Longrightarrow> shifts (owned ''evbuffer_new'' ''evbuffer_free'' p) 0 (log_debug E fmt args)"
  unfolding log_debug_def by (intro shifts_rules; simp)+

lemma log_returns:
  assumes "strftime_gives E f"
  shows "\<exists>w'. log_print E fmt args w = WOk () w'" "\<exists>w'. log_file_with_time E file fmt args w = WOk () w'"
proof -
  show "\<exists>w'. log_print E fmt args w = WOk () w'"
    by (rule make_datetime_text_returns [OF assms, of w]) (simp add: log_print_def api_simps)
  define b where "b = E (trace w) (Call ''evbuffer_new'' [])"
  define w1 where "w1 = w\<lparr>trace := (Call ''evbuffer_new'' [], b) # trace w\<rparr>"
  obtain s w2 where d: "make_datetime_text E w1 = WOk s w2" by (rule make_datetime_text_returns [OF assms, of w1])
  have wf: "\<And>w3. \<exists>w'. evbuffer_write_to_file E file (as_ptr b) ''a+'' w3 = WOk () w'"
    by (rule evbuffer_write_to_file_returns)
  show "\<exists>w'. log_file_with_time E file fmt args w = WOk () w'"
    using d wf
    by (auto simp: log_file_with_time_def make_datetime_def api_simps b_def w1_def split: wres.split)
       (metis wres.distinct(1,3) wres.inject(1))+
qed

lemma log_debug_comes_back:
  assumes "strftime_gives E f"
  shows "\<exists>w'. log_debug E fmt args w = WOk () w' \<and> releases w w'"
proof -
  obtain w1 where w1: "log_print E fmt args w = WOk () w1" using log_returns(1) [OF assms] by blast
  obtain w2 where w2: "log_file_with_time E ''log/debug.log'' fmt args w1 = WOk () w2"
    using log_returns(2) [OF assms] by blast
  then have "log_debug E fmt args w = WOk () w2" using w1 by (simp add: log_debug_def api_simps)
  with releasesI [OF log_debug_shifts] show ?thesis by blast
qed

text \<open>C15: Whatever the libraries answer, a message written to the log comes back, and every file it opened has
  been closed and every buffer it made has been freed exactly once, when the file cannot be opened
  or the buffer not made as well.\<close>

theorem log_debug_releases:
  assumes "strftime_gives E f"
  shows "\<exists>w'. log_debug E fmt args w = WOk () w' \<and> releases w w'"
  by (rule log_debug_comes_back [OF assms])

theorem log_debug_releases_witness:
  "\<exists>w'. log_debug (\<lambda>h c. cstr ''12:00:00'') ''initing script vm......'' [] start_world = WOk () w' \<and> releases start_world w'"
  by (rule log_debug_releases [of _ "\<lambda>_. ''12:00:00''"]) (simp add: strftime_gives_def)

text \<open>C21: The buffer of a message is unlocked once, but locked only when the file could be opened: a failed
  \<open>fopen\<close> unlocks a buffer that was not locked.\<close>

theorem evbuffer_write_to_file_locks:
  assumes "evbuffer_write_to_file E file b mode w = WOk () w'"
  shows "count (called ''evbuffer_unlock'' [CPtr b]) (trace w') = count (called ''evbuffer_unlock'' [CPtr b]) (trace w) + 1 \<and>
    count (called ''evbuffer_lock'' [CPtr b]) (trace w') = count (called ''evbuffer_lock'' [CPtr b]) (trace w) +
      (if as_ptr (E (trace w) (Call ''fopen'' [cstr file, cstr mode])) = 0 then 0 else 1)"
proof -
  have "count (called ''evbuffer_unlock'' [CPtr b]) (trace w') = count (called ''evbuffer_unlock'' [CPtr b]) (trace w) + 1"
    using assms unfolding evbuffer_write_to_file_def Let_def
  proof (rule shifts_answer [where d = "\<lambda>_. 1"], goal_cases)
    case (1 fd)
    show ?case by (rule shifts_then [OF _ shifts_then_first]; intro shifts_rules shifts_call; simp)
  qed simp
  moreover have "count (called ''evbuffer_lock'' [CPtr b]) (trace w') = count (called ''evbuffer_lock'' [CPtr b]) (trace w) +
      (if as_ptr (E (trace w) (Call ''fopen'' [cstr file, cstr mode])) = 0 then 0 else 1)"
    using assms unfolding evbuffer_write_to_file_def Let_def
  proof (rule shifts_answer [where d = "\<lambda>fd. if fd = 0 then 0 else 1"], goal_cases)
    case (1 fd)
    show ?case
    proof (cases "fd = 0")
      case True
      then show ?thesis by (simp, intro shifts_rules; simp)
    next
      case False
      then show ?thesis
        by (simp, intro shifts_then_first [OF shifts_then_first]; intro shifts_rules shifts_call; simp)
    qed
  qed simp
  ultimately show ?thesis by simp
qed

theorem evbuffer_write_to_file_locks_witness:
  "\<exists>w'. evbuffer_write_to_file (\<lambda>h c. CPtr 0) ''log/debug.log'' 7 ''a+'' start_world = WOk () w' \<and>
     count (called ''evbuffer_unlock'' [CPtr 7]) (trace w') = 1 \<and> count (called ''evbuffer_lock'' [CPtr 7]) (trace w') = 0"
proof -
  obtain w' where w': "evbuffer_write_to_file (\<lambda>h c. CPtr 0) ''log/debug.log'' 7 ''a+'' start_world = WOk () w'"
    using evbuffer_write_to_file_returns by blast
  show ?thesis using evbuffer_write_to_file_locks [OF w'] w' by (simp add: start_world_def)
qed

text \<open>C19: Connecting gives a new connection that the caller owns, or gives none and frees what it made; nothing
  that existed before is freed.\<close>

theorem event_connect_owns:
  assumes "event_connect E base address w = WOk c w'" "p \<noteq> 0"
  shows "count (owned ''bufferevent_socket_new'' ''bufferevent_free'' p) (trace w') =
    count (owned ''bufferevent_socket_new'' ''bufferevent_free'' p) (trace w) + (if c = p then 1 else 0)"
  using assms as_ptr_eq
  by (fastforce simp: event_connect_def api_simps split: if_splits)

theorem event_connect_owns_witness:
  "\<exists>c w'. event_connect (\<lambda>h k. if callee k = ''bufferevent_socket_new'' then CPtr 5 else CInt 0) 1 ''127.0.0.1:80'' start_world = WOk c w' \<and>
     count (owned ''bufferevent_socket_new'' ''bufferevent_free'' 5) (trace w') = 1 \<and> c = 5"
proof -
  let ?E = "\<lambda>h k. if callee k = ''bufferevent_socket_new'' then CPtr 5 else CInt 0"
  obtain w' where w': "event_connect ?E 1 ''127.0.0.1:80'' start_world = WOk 5 w'"
    by (auto simp: event_connect_def api_simps)
  show ?thesis using event_connect_owns [OF w', of 5] w' by (simp add: start_world_def)
qed

text \<open>What the log calls.\<close>

definition log_calls :: "string set" where
  "log_calls = {''time'', ''strftime'', ''printf'', ''vprintf'', ''evbuffer_new'', ''evbuffer_add_printf'', ''evbuffer_add_vprintf'',
     ''fopen'', ''evbuffer_lock'', ''evbuffer_get_length'', ''evbuffer_pullup'', ''fwrite'', ''evbuffer_unlock'', ''fflush'', ''fclose'',
     ''evbuffer_free''}"

lemma log_debug_other:
  assumes "\<And>fn args a. fn \<in> log_calls \<Longrightarrow> \<mu> (Call fn args, a) = 0"
  shows "shifts \<mu> 0 (log_debug E fmt args)"
  unfolding log_debug_def log_file_with_time_def evbuffer_write_to_file_def Let_def
  by (intro shifts_rules) (simp_all add: assms log_calls_def)

end
