(* ===== verification/Echo.thy ===== *)
theory Echo
  imports Engine
begin

unbundle bit_operations_syntax

text \<open>
  The programs without scripts: the table of connections (src/src/program/echo/net_manager.c), the echo
  client (src/src/program/echo/echo.c) and the test server (src/src/program/test_server/test_server.c).
  The event loop calls the callbacks for the events it sees; these are an argument of the model.
\<close>

section \<open>net_manager.c\<close>

text \<open>
  The key passed to the hash table is the address \<open>fd_addr\<close> of the parameter, with the descriptor it
  points to during the call.
\<close>

definition init_net_manager :: "env \<Rightarrow> unit W" where
  "init_net_manager E =
     bindW (ext_ptr E ''apr_pool_create'' [CPtr 0]) (\<lambda>p.
     thenW (modW (\<lambda>w. w\<lparr>hash_pool := p\<rparr>))
       (bindW (ext_ptr E ''apr_hash_make'' [CPtr p]) (\<lambda>h. modW (\<lambda>w. w\<lparr>clients_con := h\<rparr>))))"

definition close_net_manager :: "env \<Rightarrow> unit W" where
  "close_net_manager E = bindW (getW hash_pool) (\<lambda>p. extU E ''apr_pool_destroy'' [CPtr p])"

definition net_add_connect :: "env \<Rightarrow> ptr \<Rightarrow> int \<Rightarrow> ptr \<Rightarrow> unit W" where
  "net_add_connect E fd_addr fd con =
     bindW (getW clients_con) (\<lambda>h.
     runW [extU E ''apr_hash_set'' [CPtr h, CPtr fd_addr, CInt fd, CInt 4, CPtr con],
           log_debug E ''new a con %d'' [CInt fd]])"

definition net_del_connect :: "env \<Rightarrow> ptr \<Rightarrow> int \<Rightarrow> unit W" where
  "net_del_connect E fd_addr fd =
     bindW (getW clients_con) (\<lambda>h.
     runW [extU E ''apr_hash_set'' [CPtr h, CPtr fd_addr, CInt fd, CInt 4, CPtr 0],
           log_debug E ''close a con %d'' [CInt fd]])"

definition net_get_connect :: "env \<Rightarrow> ptr \<Rightarrow> int \<Rightarrow> ptr W" where
  "net_get_connect E fd_addr fd =
     bindW (getW clients_con) (\<lambda>h. ext_ptr E ''apr_hash_get'' [CPtr h, CPtr fd_addr, CInt fd, CInt 4])"

section \<open>echo.c\<close>

definition BEV_EVENT_EOF :: "16 word" where "BEV_EVENT_EOF = 0x10"
definition BEV_EVENT_ERROR :: "16 word" where "BEV_EVENT_ERROR = 0x20"

definition echo_read_cb :: "env \<Rightarrow> ptr \<Rightarrow> unit W" where
  "echo_read_cb E bev =
     bindW (ext_ptr E ''bufferevent_get_input'' [CPtr bev]) (\<lambda>input.
     bindW (ext_ptr E ''bufferevent_get_output'' [CPtr bev]) (\<lambda>output.
     extU E ''evbuffer_add_buffer'' [CPtr output, CPtr input]))"

definition echo_event_cb :: "env \<Rightarrow> ptr \<Rightarrow> ptr \<Rightarrow> 16 word \<Rightarrow> unit W" where
  "echo_event_cb E fd_addr bev events =
     runW [if events AND BEV_EVENT_ERROR \<noteq> 0 then extU E ''perror'' [cstr ''Error from bufferevent''] else retW (),
           if events AND (BEV_EVENT_EOF OR BEV_EVENT_ERROR) \<noteq> 0 then
             bindW (ext_int E ''bufferevent_getfd'' [CPtr bev]) (\<lambda>fd.
             runW [net_del_connect E fd_addr fd, extU E ''bufferevent_free'' [CPtr bev]])
           else retW ()]"

text \<open>\<open>EV_READ|EV_WRITE\<close> is 6, \<open>BEV_OPT_CLOSE_ON_FREE\<close> is 1.\<close>

definition accept_conn_cb :: "env \<Rightarrow> ptr \<Rightarrow> ptr \<Rightarrow> int \<Rightarrow> unit W" where
  "accept_conn_cb E fd_addr listener fd =
     bindW (ext_ptr E ''evconnlistener_get_base'' [CPtr listener]) (\<lambda>base.
     bindW (ext_ptr E ''bufferevent_socket_new'' [CPtr base, CInt fd, CInt 1]) (\<lambda>bev.
     runW [extU E ''bufferevent_setcb'' [CPtr bev, cstr ''echo_read_cb'', CStr None, cstr ''echo_event_cb'', CPtr 0],
           extU E ''bufferevent_enable'' [CPtr bev, CInt 6],
           net_add_connect E fd_addr fd bev]))"

definition accept_error_cb :: "env \<Rightarrow> ptr \<Rightarrow> unit W" where
  "accept_error_cb E listener =
     bindW (ext_ptr E ''evconnlistener_get_base'' [CPtr listener]) (\<lambda>base.
     bindW (ext_int E ''EVUTIL_SOCKET_ERROR'' []) (\<lambda>err.
     bindW (ext_str E ''evutil_socket_error_to_string'' [CInt err]) (\<lambda>msg.
     runW [extU E ''fprintf'' [cstr ''stderr'',
             cstr (''Got an error %d (%s) on the listener. Shutting down.'' @ newline), CInt err, CStr msg],
           extU E ''event_base_loopexit'' [CPtr base, CPtr 0]])))"

datatype echo_event = EchoRead ptr | EchoEvent ptr ptr "16 word"

fun echo_handler :: "env \<Rightarrow> echo_event \<Rightarrow> unit W" where
  "echo_handler E (EchoRead bev) = echo_read_cb E bev"
| "echo_handler E (EchoEvent fd_addr bev events) = echo_event_cb E fd_addr bev events"

text \<open>The loop ends when no event is left.\<close>

definition event_loop :: "env \<Rightarrow> ptr \<Rightarrow> ('e \<Rightarrow> unit W) \<Rightarrow> 'e list \<Rightarrow> unit W" where
  "event_loop E base handler evs =
     thenW (extU E ''event_base_dispatch'' [CPtr base]) (runW (map handler evs))"

definition init_echo :: "env \<Rightarrow> echo_event list \<Rightarrow> string list \<Rightarrow> unit W" where
  "init_echo E evs argv =
     (if length argv < 3 then thenW (log_print E ''echo server:connect to bad ip:port'' []) (exitW 1)
      else
        thenW (init_net_manager E)
          (bindW (init_event E) (\<lambda>base.
           thenW (modW (\<lambda>w. w\<lparr>echo_base := base\<rparr>))
             (let ip = argv ! 2
              in bindW (event_connect E base ip) (\<lambda>con.
                   if con = 0 then thenW (log_debug E ''connect to %s fail'' [cstr ip]) (exitW 1)
                   else runW [log_debug E ''connect to %s ok'' [cstr ip],
                              extU E ''bufferevent_setcb''
                                [CPtr con, cstr ''echo_read_cb'', CStr None, cstr ''echo_event_cb'', CPtr 0],
                              extU E ''bufferevent_enable'' [CPtr con, CInt 6],
                              event_loop E base (echo_handler E) evs])))))"

definition close_echo :: "env \<Rightarrow> unit W" where
  "close_echo E = bindW (getW echo_base) (\<lambda>base. extU E ''event_base_free'' [CPtr base])"

section \<open>test_server.c\<close>

text \<open>The sizes are \<open>size_t\<close>: 64 bits.\<close>

definition add_timeout :: "env \<Rightarrow> unit W" where
  "add_timeout E =
     bindW (getW test_base) (\<lambda>base.
     bindW (ext_ptr E ''evtimer_new'' [CPtr base, cstr ''timeout_cb'', CPtr 0]) (\<lambda>timeout.
     extU E ''evtimer_add'' [CPtr timeout, CInt 5]))"

definition timeout_cb :: "env \<Rightarrow> unit W" where
  "timeout_cb E =
     bindW (getW total_size) (\<lambda>diff0.
     thenW (modW (\<lambda>w. w\<lparr>total_size := 0\<rparr>))
       (let diff = diff0 div 1024
        in thenW
             (if diff \<le> 1024 then
                log_print E '' total %d kb, %d kb/s'' [CInt (uint diff), CInt (uint (diff div 5))]
              else let diff = diff div 1024
                   in log_print E '' total %d mb, %d mb/s'' [CInt (uint diff), CInt (uint (diff div 5))])
             (add_timeout E)))"

definition test_read_cb :: "env \<Rightarrow> ptr \<Rightarrow> unit W" where
  "test_read_cb E bev =
     bindW (ext_ptr E ''bufferevent_get_input'' [CPtr bev]) (\<lambda>input.
     bindW (ext_int E ''evbuffer_get_length'' [CPtr input]) (\<lambda>n.
     thenW (modW (\<lambda>w. w\<lparr>total_size := total_size w + word_of_int n\<rparr>))
       (bindW (ext_ptr E ''bufferevent_get_output'' [CPtr bev]) (\<lambda>output.
        extU E ''evbuffer_add_buffer'' [CPtr output, CPtr input]))))"

definition test_event_cb :: "env \<Rightarrow> ptr \<Rightarrow> 16 word \<Rightarrow> unit W" where
  "test_event_cb E bev events =
     runW [if events AND BEV_EVENT_ERROR \<noteq> 0 then extU E ''perror'' [cstr ''Error from bufferevent''] else retW (),
           if events AND (BEV_EVENT_EOF OR BEV_EVENT_ERROR) \<noteq> 0 then extU E ''bufferevent_free'' [CPtr bev]
           else retW ()]"

definition test_accept_cb :: "env \<Rightarrow> ptr \<Rightarrow> int \<Rightarrow> unit W" where
  "test_accept_cb E listener fd =
     bindW (ext_ptr E ''evconnlistener_get_base'' [CPtr listener]) (\<lambda>base.
     bindW (ext_ptr E ''bufferevent_socket_new'' [CPtr base, CInt fd, CInt 1]) (\<lambda>bev.
     runW [extU E ''bufferevent_setcb'' [CPtr bev, cstr ''echo_read_cb'', CStr None, cstr ''echo_event_cb'', CPtr 0],
           extU E ''bufferevent_enable'' [CPtr bev, CInt 6],
           bindW (ext_ptr E ''bufferevent_get_output'' [CPtr bev]) (\<lambda>output.
             runW (replicate 100 (extU E ''evbuffer_add_printf'' [CPtr output, cstr ''zhejiushidiyicideceshi''])))]))"

definition test_accept_error_cb :: "env \<Rightarrow> ptr \<Rightarrow> unit W" where
  "test_accept_error_cb E listener =
     bindW (ext_ptr E ''evconnlistener_get_base'' [CPtr listener]) (\<lambda>base.
     bindW (ext_int E ''EVUTIL_SOCKET_ERROR'' []) (\<lambda>err.
     bindW (ext_str E ''evutil_socket_error_to_string'' [CInt err]) (\<lambda>msg.
     runW [extU E ''fprintf'' [cstr ''stderr'',
             cstr (''Got an error %d (%s) on the listener. Shutting down.'' @ newline), CInt err, CStr msg],
           extU E ''event_base_loopexit'' [CPtr base, CPtr 0]])))"

datatype test_event = TestAccept ptr int | TestAcceptError ptr | TestRead ptr | TestEvent ptr "16 word" | TestTimeout

fun test_handler :: "env \<Rightarrow> test_event \<Rightarrow> unit W" where
  "test_handler E (TestAccept listener fd) = test_accept_cb E listener fd"
| "test_handler E (TestAcceptError listener) = test_accept_error_cb E listener"
| "test_handler E (TestRead bev) = test_read_cb E bev"
| "test_handler E (TestEvent bev events) = test_event_cb E bev events"
| "test_handler E TestTimeout = timeout_cb E"

definition init_test_server :: "env \<Rightarrow> test_event list \<Rightarrow> string list \<Rightarrow> unit W" where
  "init_test_server E evs argv =
     bindW (init_event E) (\<lambda>base.
     thenW (modW (\<lambda>w. w\<lparr>test_base := base\<rparr>))
       (bindW (event_listener E base ''127.0.0.1'' 3000 (Some ''accept_conn_cb'') 0 (Some ''accept_error_cb'')) (\<lambda>l.
          if l = 0 then
            thenW (log_debug E ''listen fail %s:%d'' [cstr ''127.0.0.1'', CInt 3000]) (exitW 1)
          else
            runW [log_debug E ''listening %s:%d'' [cstr ''127.0.0.1'', CInt 3000],
                  add_timeout E, event_loop E base (test_handler E) evs])))"

definition close_test_server :: "env \<Rightarrow> unit W" where
  "close_test_server E = bindW (getW test_base) (\<lambda>base. extU E ''event_base_free'' [CPtr base])"

section \<open>Properties\<close>

lemma make_datetime_text_size: "make_datetime_text E w = WOk s w' \<Longrightarrow> total_size w' = total_size w"
  by (auto simp: make_datetime_text_def api_simps nonnullW_def split: if_splits option.splits)

lemma log_print_size: "log_print E fmt args w = WOk () w' \<Longrightarrow> total_size w' = total_size w"
  by (auto simp: log_print_def api_simps split: wres.splits dest!: make_datetime_text_size)

text \<open>The bytes read since the last report: what each read event adds, in the order of the events.\<close>

definition read_length :: "env \<Rightarrow> world \<Rightarrow> ptr \<Rightarrow> int" where
  "read_length E w bev =
     (let input = E (trace w) (Call ''bufferevent_get_input'' [CPtr bev])
      in as_int (E ((Call ''bufferevent_get_input'' [CPtr bev], input) # trace w)
                   (Call ''evbuffer_get_length'' [CPtr (as_ptr input)])))"

text \<open>C20: The counter of the test server: a read adds the length of its input modulo 2 to the 64, a report
  takes what was counted and starts from zero, and no other event changes it.\<close>

theorem test_server_counts:
  assumes "test_handler E e w = WOk () w'"
  shows "total_size w' =
    (case e of TestRead bev \<Rightarrow> total_size w + word_of_int (read_length E w bev) | TestTimeout \<Rightarrow> 0 | _ \<Rightarrow> total_size w)"
proof -
  have replicate: "runW (replicate n (extU E f args)) v = WOk () v' \<Longrightarrow> total_size v' = total_size v" for n f args v v'
    by (induction n arbitrary: v) (auto simp: api_simps dest!: meta_spec)
  show ?thesis
    using assms
    by (cases e)
       (auto simp: test_accept_cb_def test_accept_error_cb_def test_read_cb_def test_event_cb_def timeout_cb_def
          add_timeout_def read_length_def Let_def api_simps split: if_splits wres.splits
          dest!: replicate log_print_size)
qed

theorem test_server_counts_witness:
  "\<exists>w'. test_handler (\<lambda>h c. if callee c = ''evbuffer_get_length'' then CInt 10 else CPtr 4) (TestRead 3) start_world =
     WOk () w' \<and> total_size w' = 10"
proof -
  let ?E = "\<lambda>h c. if callee c = ''evbuffer_get_length'' then CInt 10 else CPtr 4"
  obtain w' where w': "test_handler ?E (TestRead 3) start_world = WOk () w'"
    by (simp add: test_read_cb_def api_simps)
  have "total_size w' = 10"
    using test_server_counts [OF w'] by (simp add: read_length_def Let_def start_world_def)
  then show ?thesis using w' by blast
qed

end
