(* ===== verification/Lua_Util.thy ===== *)
theory Lua_Util
  imports Engine Lua_Buffer Lua_Heap
begin

text \<open>
  Scripts in the engine: src/src/module/lua_util.c and src/src/module/rpc_util.c. \<open>E\<close> answers the calls to the
  libraries, \<open>B\<close> is what the functions of the scripts do. A fresh interpreter (\<open>luaL_newstate\<close>) and the
  opening of its standard libraries (\<open>luaL_openlibs\<close>) are arguments.
\<close>

type_synonym lstate = "world lua_State"
type_synonym 'a L = "('a, world) M"
type_synonym scripts = "world calls"

definition log_debugM :: "env \<Rightarrow> string \<Rightarrow> cval list \<Rightarrow> unit L" where
  "log_debugM E fmt args = liftW (log_debug E fmt args)"

section \<open>traceback, lua_table_is_array\<close>

definition traceback :: "scripts \<Rightarrow> int L" where
  "traceback B =
     bindM (lua_isstring 1) (\<lambda>s.
       if \<not> s then ret 1
       else thenM (lua_getfield B LUA_GLOBALSINDEX ''debug'')
         (bindM (lua_istable (- 1)) (\<lambda>tab.
            if \<not> tab then thenM (lua_pop 1) (ret 1)
            else thenM (lua_getfield B (- 1) ''traceback'')
              (bindM (lua_isfunction (- 1)) (\<lambda>fn.
                 if \<not> fn then thenM (lua_pop 2) (ret 1)
                 else thenM (run [lua_pushvalue 1, lua_pushinteger 2, lua_call B 2 1]) (ret 1))))))"

text \<open>The loop over the keys; it ends because a traversal does, and the fuel is the number of slots.\<close>

fun is_array_loop :: "scripts \<Rightarrow> int \<Rightarrow> int \<Rightarrow> nat \<Rightarrow> int \<Rightarrow> bool L" where
  "is_array_loop B base sz 0 cnt = undefM"
| "is_array_loop B base sz (Suc fuel) cnt =
     bindM (lua_next B base) (\<lambda>more.
       if \<not> more then thenM (lua_settop base) (ret (cnt = sz))
       else thenM (lua_pop 1)
         (bindM (lua_isnumber (- 1)) (\<lambda>num.
            if \<not> num then ret False
            else bindM (lua_tonumber (- 1)) (\<lambda>n.
                   if luai_numlt (cast_num sz) n then ret False
                   else is_array_loop B base sz fuel (cnt + 1)))))"

definition lua_table_is_array :: "scripts \<Rightarrow> nat \<Rightarrow> bool L" where
  "lua_table_is_array B fuel =
     bindM lua_gettop (\<lambda>base.
       if base < 1 then ret False
       else bindM (lua_istable base) (\<lambda>tab.
         if \<not> tab then ret False
         else bindM (luaL_getn B (- 1)) (\<lambda>sz.
              thenM lua_pushnil (is_array_loop B base sz fuel 0))))"

section \<open>Finding functions: load_lua_library, find_lua_function, find_lua_global_function\<close>

definition load_lua_library :: "scripts \<Rightarrow> string \<Rightarrow> bool L" where
  "load_lua_library B module_name =
     bindM lua_gettop (\<lambda>base.
     thenM (run [lua_pushcfunction ''traceback'', lua_getglobal B ''require'', lua_pushstring (Some module_name)])
       (bindM (lua_pcall B 1 1 (base + 1)) (\<lambda>status.
          if status \<noteq> 0 then thenM (lua_settop base) (ret False)
          else thenM (lua_remove (base + 1)) (ret True))))"

text \<open>\<open>strlen\<close> of a null pointer is undefined.\<close>

definition find_lua_function :: "scripts \<Rightarrow> string option \<Rightarrow> string option \<Rightarrow> bool L" where
  "find_lua_function B module_p func_p =
     bindM (nonnull module_p) (\<lambda>module.
       if length (c_str module) < 1 then ret False
       else bindM (nonnull func_p) (\<lambda>fn.
         if length (c_str fn) < 1 then ret False
         else bindM lua_gettop (\<lambda>base.
              thenM (lua_pushstring (Some module))
              (bindM lua_gettop (\<lambda>module_index.
               bindM (luaL_findtable B LUA_GLOBALSINDEX ''package.loaded'' 1) (\<lambda>_.
               let give_up = thenM (lua_settop base) (ret False);
                   check = bindM (lua_isfunction (- 1)) (\<lambda>is_fn.
                     if is_fn then thenM (run [lua_replace B module_index, lua_settop module_index]) (ret True)
                     else give_up);
                   pick = bindM (lua_istable (- 1)) (\<lambda>tab.
                     if tab then thenM (run [lua_pushstring (Some fn), lua_rawget B (- 2)]) check
                     else bindM (lua_isboolean (- 1)) (\<lambda>bool.
                       if \<not> bool then give_up
                       else bindM (lua_toboolean (- 1)) (\<lambda>istrue.
                            thenM (lua_pop 1)
                              (if istrue then thenM (lua_getglobal B fn) check else give_up))))
               in thenM (run [lua_pushvalue module_index, lua_rawget B (- 2)])
                    (bindM (lua_isnil (- 1)) (\<lambda>nil.
                       if nil then
                         bindM (load_lua_library B module) (\<lambda>ok. if \<not> ok then give_up else pick)
                       else pick))))))))"

definition find_lua_global_function :: "scripts \<Rightarrow> string \<Rightarrow> bool L" where
  "find_lua_global_function B fn =
     thenM (lua_getglobal B fn)
       (bindM (lua_isfunction (- 1)) (\<lambda>is_fn.
          if is_fn then ret True else thenM (lua_pop 1) (ret False)))"

section \<open>call_lua_script\<close>

definition call_lua_script :: "env \<Rightarrow> scripts \<Rightarrow> int \<Rightarrow> int L" where
  "call_lua_script E B args0 =
     (let args = (if args0 < 0 then 0 else args0)
      in bindM lua_gettop (\<lambda>top.
         let base = top - 1 - args
         in if base < 0 then ret 0
            else bindM (lua_pcall B (nat args) LUA_MULTRET 0) (\<lambda>status.
              if status \<noteq> 0 then
                bindM (lua_tostring (- 1)) (\<lambda>msg. thenM (log_debugM E ''%s'' [CStr msg]) (ret 0))
              else bindM lua_gettop (\<lambda>top'. let r = top' - base in ret (if r < 0 then 0 else r)))))"

section \<open>The functions given to scripts\<close>

definition lua_root :: "int L" where
  "lua_root = thenM (lua_pushvalue LUA_GLOBALSINDEX) (ret 1)"

definition lua_catch :: "env \<Rightarrow> scripts \<Rightarrow> int L" where
  "lua_catch E B =
     thenM (run [lua_pushcfunction ''traceback'', lua_insert 1])
       (bindM lua_gettop (\<lambda>top.
        let args = (if top - 2 < 0 then 0 else top - 2)
        in bindM (lua_pcall B (nat args) LUA_MULTRET 1) (\<lambda>status.
           thenM (if status \<noteq> 0 then
                    bindM (lua_tostring (- 1)) (\<lambda>msg. log_debugM E ''lua catch: %s'' [CStr msg])
                  else ret ())
             (thenM (lua_remove 1) (ret 0)))))"

text \<open>Converting a number to an int is defined only when its integral part fits.\<close>

definition number_to_int :: "lua_Number \<Rightarrow> int L" where
  "number_to_int n =
     (let k = lua_number2integer n
      in if num_isnan n \<or> num_isinf n \<or> k < - (2 ^ 31) \<or> 2 ^ 31 \<le> k then undefM else ret k)"

fun add_name_chars :: "scripts \<Rightarrow> string \<Rightarrow> luaL_Buffer \<Rightarrow> luaL_Buffer L" where
  "add_name_chars B [] b = ret b"
| "add_name_chars B (c # cs) b =
     bindM (luaL_addchar B (if c = CHR 0x5C \<or> c = CHR ''/'' then CHR ''.'' else c) b) (add_name_chars B cs)"

text \<open>The name without its extension; \<open>strstr\<close> finds no dot in a name without one, and the length computed
  from the null pointer is then out of range.\<close>

definition lua_this :: "scripts \<Rightarrow> int L" where
  "lua_this B =
     (let push_G = thenM (lua_pushstring (Some ''_G'')) (ret 1)
      in bindM lua_gettop (\<lambda>top.
         bindM (if 0 < top then bindM (lua_tonumber 1) number_to_int else ret 0) (\<lambda>level0.
         let level = (if level0 < 1 then 1 else level0)
         in bindM (lua_getstack level) (\<lambda>f.
            case f of
              None \<Rightarrow> push_G
            | Some f \<Rightarrow>
                let ar = auxgetinfo f; s = ar_short_src ar;
                    start = (if s \<noteq> [] \<and> hd s = CHR ''.'' then
                               if 1 < length s \<and> (s ! 1 = CHR ''/'' \<or> s ! 1 = CHR 0x5C) then drop 2 s else drop 1 s
                             else s)
                in if (ar_source ar = [] \<or> hd (ar_source ar) \<noteq> CHR ''@'') \<and> ar_what ar \<noteq> ''Lua'' then push_G
                   else case strstr start ''.'' of
                     None \<Rightarrow> push_G
                   | Some e \<Rightarrow>
                       let len = length start - length e
                       in if len < 1 \<or> LUA_IDSIZE < len then push_G
                          else bindM (add_name_chars B (take len start) luaL_buffinit) (\<lambda>b.
                               bindM (luaL_pushresult B b) (\<lambda>_. ret 1))))))"

definition lua_call_script :: "env \<Rightarrow> scripts \<Rightarrow> int L" where
  "lua_call_script E B =
     bindM lua_gettop (\<lambda>top.
       if top < 2 then ret 0
       else thenM (run [lua_pushcfunction ''traceback'', lua_insert 1])
         (bindM lua_gettop (\<lambda>top.
          let args = (if top - 3 < 0 then 0 else top - 3)
          in bindM (lua_tostring 3) (\<lambda>fn.
             bindM (lua_tostring 2) (\<lambda>module.
             bindM (find_lua_function B module fn) (\<lambda>found.
               if found then
                 thenM (lua_replace B 3)
                   (bindM (lua_pcall B (nat args) LUA_MULTRET 1) (\<lambda>status.
                      if status \<noteq> 0 then ret 0
                      else bindM lua_gettop (\<lambda>top. let r = top - 2 in ret (if r < 0 then 0 else r))))
               else bindM (lua_tostring 3) (\<lambda>fn. bindM (lua_tostring 2) (\<lambda>module.
                    thenM (log_debugM E ''lua call_script: cannot find %s:%s'' [CStr module, CStr fn]) (ret 0)))))))))"

definition lua_write_file :: "env \<Rightarrow> int L" where
  "lua_write_file E =
     (let push_false = thenM (lua_pushboolean 0) (ret 1)
      in bindM lua_gettop (\<lambda>top.
         if top < 3 then push_false
         else bindM (lua_tolstring 1) (\<lambda>file_p.
           case file_p of
             None \<Rightarrow> push_false
           | Some file \<Rightarrow>
               if length file < 1 then push_false
               else bindM (lua_toboolean 2) (\<lambda>is_with_time.
                    bindM (lua_tolstring 3) (\<lambda>msg_p.
                    case msg_p of
                      None \<Rightarrow> push_false
                    | Some msg \<Rightarrow>
                        if length msg < 1 then push_false
                        else thenM
                          (liftW (if is_with_time then log_file_with_time E (c_str file) (c_str msg) []
                                  else log_file E (c_str file) (c_str msg) []))
                          (thenM (lua_pushboolean 1) (ret 1)))))))"

definition lua_common_function :: luaL_Reg where
  "lua_common_function =
     [(''root'', ''lua_root''), (''catch'', ''lua_catch''), (''this'', ''lua_this''),
      (''call_script'', ''lua_call_script''), (''write_file'', ''lua_write_file'')]"

definition reg_lua_common_function :: "scripts \<Rightarrow> unit L" where
  "reg_lua_common_function B = luaL_register B ''_G'' lua_common_function"

section \<open>init_lua, close_lua\<close>

text \<open>
  Code that has no interpreter yet runs one here. An error that no protected call catches reaches
  the panic function, and the program exits.
\<close>

definition in_lua :: "'a L \<Rightarrow> lstate \<Rightarrow> ('a \<times> lstate) W" where
  "in_lua m L = (\<lambda>w.
     case m (L\<lparr>gs := (gs L)\<lparr>world := w\<rparr>\<rparr>) of
       Ok x L' \<Rightarrow> WOk (x, L') (world (gs L'))
     | Thrown st v g \<Rightarrow> WExit 1 (world g)
     | Undefined \<Rightarrow> WUndef)"

definition close_lua :: "env \<Rightarrow> lstate option \<Rightarrow> unit W" where
  "close_lua E L = (if L \<noteq> None then extU E ''lua_close'' [] else retW ())"

definition init_lua :: "env \<Rightarrow> scripts \<Rightarrow> lstate option \<Rightarrow> unit L \<Rightarrow> lstate option W" where
  "init_lua E B newstate openlibs =
     thenW (log_debug E ''initing script vm......'' [])
       (case newstate of
          None \<Rightarrow> thenW (log_debug E ''init script vm fail......'' []) (retW None)
        | Some L0 \<Rightarrow>
            bindW (in_lua (thenM (run [openlibs, reg_lua_common_function B]) (load_lua_library B ''init'')) L0)
              (\<lambda>(ok, L).
                if \<not> ok then thenW (close_lua E (Some L)) (retW None)
                else bindW (in_lua (bindM lua_gettop lua_pop) L) (\<lambda>(_, L).
                     thenW (log_debug E ''script vm init ok......'' []) (retW (Some L)))))"

section \<open>rpc_util.c\<close>

definition rpc_dispatch :: "env \<Rightarrow> scripts \<Rightarrow> unit L" where
  "rpc_dispatch E B =
     bindM (find_lua_function B (Some ''rpc'') (Some ''dispatch'')) (\<lambda>found.
       if found then
         bindM lua_gettop (\<lambda>base.
         bindM lua_gettop (\<lambda>top.
         let args = (if top - base < 0 then 0 else top - base)
         in bindM (call_lua_script E B args) (\<lambda>_. ret ())))
       else ret ())"

definition lua_rpc_pack :: "int L" where
  "lua_rpc_pack = bindM lua_gettop (\<lambda>top. if top < 2 then ret 0 else ret 0)"

definition lua_rpc_function :: luaL_Reg where
  "lua_rpc_function = [(''rpc_pack'', ''lua_rpc_pack'')]"

definition reg_lua_rpc :: "scripts \<Rightarrow> unit L" where
  "reg_lua_rpc B = luaL_register B ''_G'' lua_rpc_function"

section \<open>lua_table_is_array decides whether the keys are the first numbers\<close>

text \<open>Every key is a number, or a string that reads as one, not above \<open>n\<close>, and there are \<open>n\<close> of them.\<close>

definition array_keys :: "int \<Rightarrow> (TValue \<times> TValue) list \<Rightarrow> bool" where
  "array_keys n es \<longleftrightarrow>
     (\<forall>(k, v) \<in> set es. \<exists>x. luaV_tonumber k = Some x \<and> \<not> luai_numlt (cast_num n) x) \<and> int (length es) = n"

lemma is_array_loop_exec:
  assumes "table_inv t" "length S + 2 \<le> ci_top L" "stk L = S @ [key]" "S ! (length S - 1) = TTable a" "S \<noteq> []"
    "tables (gs L) a = Some t" "rest_of t key es" "length es < fuel"
  shows "\<exists>xs. is_array_loop B (int (length S)) n fuel cnt L =
    Ok ((\<forall>(k, v) \<in> set es. \<exists>x. luaV_tonumber k = Some x \<and> \<not> luai_numlt (cast_num n) x) \<and> cnt + int (length es) = n)
      (L\<lparr>stk := xs\<rparr>)"
  using assms(2-)
proof (induction es arbitrary: L key fuel cnt)
  case Nil
  then obtain f where f: "fuel = Suc f" by (cases fuel) auto
  have i: "index2adr L (int (length S)) = Some (Slot (length S - 1))"
    using Nil.prems by (intro index2adr_pos) auto
  have "stk L ! (length S - 1) = TTable a" using Nil.prems by (simp add: nth_append)
  from lua_next_exec(1) [OF Nil.prems(2) i this Nil.prems(5) assms(1) Nil.prems(6) refl, of B] Nil.prems
  show ?case by (auto simp: f api_simps)
next
  case (Cons e es)
  obtain k v where e: "e = (k, v)" by fastforce
  obtain f where f: "fuel = Suc f" using Cons.prems by (cases fuel) auto
  have i: "index2adr L (int (length S)) = Some (Slot (length S - 1))"
    using Cons.prems by (intro index2adr_pos) auto
  have sl: "stk L ! (length S - 1) = TTable a" using Cons.prems by (simp add: nth_append)
  have n: "lua_next B (int (length S)) L = Ok True (L\<lparr>stk := S @ [k, v]\<rparr>)"
    using lua_next_exec(2) [OF Cons.prems(2) i sl Cons.prems(5) assms(1) Cons.prems(6), of k v es B] e Cons.prems
    by simp
  let ?L = "L\<lparr>stk := S @ [k]\<rparr>"
  have IH: "\<exists>xs. is_array_loop B (int (length S)) n f (cnt + 1) ?L =
      Ok ((\<forall>(k, v) \<in> set es. \<exists>x. luaV_tonumber k = Some x \<and> \<not> luai_numlt (cast_num n) x) \<and>
          cnt + 1 + int (length es) = n) (?L\<lparr>stk := xs\<rparr>)"
    using Cons.prems rest_of_next(2) [OF assms(1) Cons.prems(6), of k v es] e f by (intro Cons.IH) auto
  show ?case
    using n IH
    by (auto simp: f e api_simps lua_isnumber_def lua_tonumber_def algebra_simps split: option.splits)
qed

text \<open>C16: \<open>lua_table_is_array\<close> on a table on top of the stack says whether its keys are exactly as many numbers as
  its length, none above it (a string that reads as a number counts as one); it always ends, and
  changes nothing but the stack.\<close>

theorem lua_table_is_array_decides:
  assumes "table_inv t" "tables (gs L) a = Some t" "stk L = S @ [TTable a]" "length S + 3 \<le> ci_top L"
    "length (live (slots t)) < fuel" "length S < 9000"
  shows "\<exists>n xs. luaH_getn t = Some (Inr n) \<and>
    lua_table_is_array B fuel L = Ok (array_keys n (live (slots t))) (L\<lparr>stk := xs\<rparr>)"
proof -
  have top: "index2adr L (- 1) = Some (Slot (length S))" "index2adr L (int (Suc (length S))) = Some (Slot (length S))"
    using index2adr_neg [of 1 L] index2adr_pos [of "Suc (length S)" L] assms by simp_all
  obtain n where n: "lua_objlen B (- 1) L = Ok n L" "luaH_getn t = Some (Inr n)" "0 \<le> n" "n < INT_MAX"
    using lua_objlen_table [OF top(1) _ assms(2,1)] assms(3) by (auto simp: api_simps)
  have sz: "signed_take_bit 31 n = n"
    using n(3,4) by (simp add: signed_take_bit_int_eq_self)
  let ?L = "L\<lparr>stk := stk L @ [TNil]\<rparr>"
  have "\<exists>xs. is_array_loop B (int (length (S @ [TTable a]))) n fuel 0 ?L =
    Ok ((\<forall>(k, v) \<in> set (live (slots t)). \<exists>x. luaV_tonumber k = Some x \<and> \<not> luai_numlt (cast_num n) x) \<and>
        0 + int (length (live (slots t))) = n) (?L\<lparr>stk := xs\<rparr>)"
    using assms by (intro is_array_loop_exec [OF assms(1)]) (auto simp: nth_append rest_of_nil)
  then have "\<exists>xs. lua_table_is_array B fuel L = Ok (array_keys n (live (slots t))) (L\<lparr>stk := xs\<rparr>)"
    using n(1) top assms(3,4) sz
    by (auto simp: lua_table_is_array_def api_simps luaL_getn_def array_keys_def nth_append)
  then show ?thesis using n(2) by blast
qed

theorem lua_table_is_array_decides_witness:
  "\<exists>n xs. luaH_getn sample_table = Some (Inr n) \<and>
    lua_table_is_array (\<lambda>_ _ _ _. NoReturn) 10 (sample_state sample_table [TTable 2] start_world) =
      Ok (array_keys n (live (slots sample_table))) ((sample_state sample_table [TTable 2] start_world)\<lparr>stk := xs\<rparr>)"
  by (rule lua_table_is_array_decides [OF sample_inv, of _ 2 "[]"])
     (simp_all add: slots_def live_def slice_entries_def sample_table_def nodes_def)

section \<open>find_lua_global_function and call_lua_script\<close>

lemma find_global_exec:
  assumes "l_gt (gs L) = TTable a" "has_table (gs L) a f" "length (stk L) < ci_top L"
  shows "find_lua_global_function B fn L =
    (if ttype (f (str_key fn)) = LUA_TFUNCTION then Ok True (L\<lparr>stk := stk L @ [f (str_key fn)]\<rparr>) else Ok False L)"
proof -
  have "lua_getfield B LUA_GLOBALSINDEX fn L = Ok () (L\<lparr>stk := stk L @ [f (str_key fn)]\<rparr>)"
    using assms by (intro lua_getfield_has_table [where l = GlobLoc]) (simp_all add: api_simps)
  then show ?thesis
    by (simp add: find_lua_global_function_def lua_getglobal_def api_simps nth_append)
qed

lemma call_script_returned:
  assumes "stk L = S @ TFunction fa # args" "length args = n" "nCcalls L < 199"
    and "B None fa args (gs L) = Returned rs g"
  shows "call_lua_script E B (int n) L = Ok (int (length rs)) (grown (L\<lparr>stk := S @ rs, gs := g\<rparr>))"
  using assms lua_pcall_exec [OF assms(1-3), of B] by (simp add: call_lua_script_def Let_def api_simps)

lemma call_script_failed:
  assumes "stk L = S @ TFunction fa # args" "length args = n" "nCcalls L < 199"
    and "B None fa args (gs L) = Failed st (TString s) g" "st \<noteq> 0"
    and "log_debug E ''%s'' [cstr (c_str s)] (world g) = WOk () w"
  shows "call_lua_script E B (int n) L = Ok 0 (grown (L\<lparr>stk := S @ [TString s], gs := g\<lparr>world := w\<rparr>\<rparr>))"
  using assms lua_pcall_exec [OF assms(1-3), of B]
  by (simp add: call_lua_script_def Let_def api_simps lua_tostring_def lua_tolstring_def log_debugM_def grown_def)

text \<open>C5: A script function called through \<open>call_lua_script\<close> with its arguments on the stack is replaced by its
  results, and their number is the result; an error in it does not leave the call: the message is
  written to the log, the result is zero, and the message stays on the stack in place of the function
  and its arguments.\<close>

theorem call_lua_script_result:
  assumes "stk L = S @ TFunction fa # args" "length args = n" "nCcalls L < 199" "strftime_gives E f"
  shows "(\<forall>rs g. B None fa args (gs L) = Returned rs g \<longrightarrow>
      call_lua_script E B (int n) L = Ok (int (length rs)) (grown (L\<lparr>stk := S @ rs, gs := g\<rparr>))) \<and>
    (\<forall>st s g. B None fa args (gs L) = Failed st (TString s) g \<longrightarrow> st \<noteq> 0 \<longrightarrow>
      (\<exists>w. log_debug E ''%s'' [cstr (c_str s)] (world g) = WOk () w \<and> releases (world g) w \<and>
        call_lua_script E B (int n) L = Ok 0 (grown (L\<lparr>stk := S @ [TString s], gs := g\<lparr>world := w\<rparr>\<rparr>))))"
proof (intro conjI allI impI)
  show "call_lua_script E B (int n) L = Ok (int (length rs)) (grown (L\<lparr>stk := S @ rs, gs := g\<rparr>))"
    if "B None fa args (gs L) = Returned rs g" for rs g
    by (rule call_script_returned [where B = B, OF assms(1-3) that])
  fix st s g assume b: "B None fa args (gs L) = Failed st (TString s) g" "st \<noteq> 0"
  obtain w where w: "log_debug E ''%s'' [cstr (c_str s)] (world g) = WOk () w" "releases (world g) w"
    using log_debug_comes_back [OF assms(4)] by blast
  from w call_script_failed [where B = B and E = E, OF assms(1-3) b w(1)]
  show "\<exists>w. log_debug E ''%s'' [cstr (c_str s)] (world g) = WOk () w \<and> releases (world g) w \<and>
      call_lua_script E B (int n) L = Ok 0 (grown (L\<lparr>stk := S @ [TString s], gs := g\<lparr>world := w\<rparr>\<rparr>))"
    by blast
qed

theorem call_lua_script_result_witness:
  "call_lua_script (\<lambda>h c. cstr ''12:00:00'') (\<lambda>_ fa args g. Returned [TString ''r''] g) 1
     (sample_state sample_table [TFunction 5, TNil] start_world) =
   Ok 1 ((sample_state sample_table [TFunction 5, TNil] start_world)\<lparr>stk := [TString ''r'']\<rparr>)"
  using call_lua_script_result [of "sample_state sample_table [TFunction 5, TNil] start_world" "[]" 5 "[TNil]" 1
      "\<lambda>h c. cstr ''12:00:00''" "\<lambda>_. ''12:00:00''" "\<lambda>_ fa args g. Returned [TString ''r''] g"]
  by (simp add: strftime_gives_def grown_def)

text \<open>C22: A global is found as a function exactly when its value is one, and then it is pushed; otherwise nothing
  changes.\<close>

theorem find_lua_global_function_finds:
  assumes "l_gt (gs L) = TTable a" "has_table (gs L) a f" "length (stk L) < ci_top L"
  shows "find_lua_global_function B fn L =
    (if ttype (f (str_key fn)) = LUA_TFUNCTION then Ok True (L\<lparr>stk := stk L @ [f (str_key fn)]\<rparr>) else Ok False L)"
  by (rule find_global_exec [OF assms])

theorem find_lua_global_function_finds_witness:
  "find_lua_global_function (\<lambda>_ _ _ _. NoReturn) ''f'' (sample_state (one_field ''f'' (TFunction 5)) [] start_world) =
     Ok True ((sample_state (one_field ''f'' (TFunction 5)) [] start_world)\<lparr>stk := [TFunction 5]\<rparr>)"
  using find_lua_global_function_finds [OF _ sample_has_table, of "''f''" "TFunction 5" "[]" start_world]
  by (simp add: str_key_def c_str_def NUL_def)

end
