(* ===== verification/Http_Util.thy ===== *)
theory Http_Util
  imports Lua_Util
begin

text \<open>
  HTTP for scripts: src/src/module/http_util.c. Requests, connections and headers belong to libevent;
  they are pointers here, and what the library does with them is answered by \<open>E\<close>.
\<close>

section \<open>init_http, http_request_new\<close>

definition init_http :: "env \<Rightarrow> ptr \<Rightarrow> string option \<Rightarrow> ptr \<Rightarrow> ptr W" where
  "init_http E base cb args =
     (if base = 0 \<or> cb = None then retW 0
      else bindW (ext_ptr E ''evhttp_new'' [CPtr base]) (\<lambda>http.
        if http = 0 then retW 0
        else thenW (extU E ''evhttp_set_gencb'' [CPtr http, CStr cb, CPtr args]) (retW http)))"

definition http_request_new ::
    "env \<Rightarrow> ptr \<Rightarrow> string \<Rightarrow> int \<Rightarrow> string option \<Rightarrow> ptr \<Rightarrow> string option \<Rightarrow> ptr \<Rightarrow> int \<Rightarrow> string option \<Rightarrow> ptr W" where
  "http_request_new E base address port cb request_arg conn_close_cb close_args ty uri =
     (if cb = None then retW 0
      else bindW (ext_ptr E ''evhttp_connection_base_new'' [CPtr base, CPtr 0, cstr address, CInt (port mod 65536)])
        (\<lambda>evcon.
           if evcon = 0 then retW 0
           else thenW
             (if conn_close_cb \<noteq> None
              then extU E ''evhttp_connection_set_closecb'' [CPtr evcon, CStr conn_close_cb, CPtr close_args]
              else retW ())
             (bindW (ext_ptr E ''evhttp_request_new'' [CStr cb, CPtr request_arg]) (\<lambda>req.
                if req = 0 then thenW (extU E ''evhttp_connection_free'' [CPtr evcon]) (retW 0)
                else bindW (ext_int E ''evhttp_make_request'' [CPtr evcon, CPtr req, CInt ty, CStr uri]) (\<lambda>rv.
                  if rv \<noteq> 0 then
                    thenW (runW [extU E ''evhttp_request_free'' [CPtr req], extU E ''evhttp_connection_free'' [CPtr evcon]])
                      (retW 0)
                  else retW req)))))"

section \<open>Requests as tables\<close>

definition set_string_field :: "scripts \<Rightarrow> string \<Rightarrow> string option W \<Rightarrow> unit L" where
  "set_string_field B name get =
     thenM (lua_pushstring (Some name))
       (bindM (liftW get) (\<lambda>s. run [lua_pushstring s, lua_rawset B (- 3)]))"

definition set_number_field :: "scripts \<Rightarrow> string \<Rightarrow> int W \<Rightarrow> unit L" where
  "set_number_field B name get =
     thenM (lua_pushstring (Some name))
       (bindM (liftW get) (\<lambda>n. run [lua_pushnumber (cast_num n), lua_rawset B (- 3)]))"

definition http_request_to_lua_table :: "env \<Rightarrow> scripts \<Rightarrow> ptr \<Rightarrow> unit L" where
  "http_request_to_lua_table E B req =
     bindM (liftW (ext_ptr E ''evhttp_request_get_evhttp_uri'' [CPtr req])) (\<lambda>uri.
       if uri = 0 then ret ()
       else run
         [lua_createtable B 0 5,
          set_string_field B ''path'' (ext_str E ''evhttp_uri_get_path'' [CPtr uri]),
          set_string_field B ''query'' (ext_str E ''evhttp_uri_get_query'' [CPtr uri]),
          set_string_field B ''host'' (ext_str E ''evhttp_request_get_host'' [CPtr req]),
          set_number_field B ''code'' (ext_int E ''evhttp_request_get_response_code'' [CPtr req]),
          set_number_field B ''command'' (ext_int E ''evhttp_request_get_command'' [CPtr req])])"

text \<open>The traversals of scripts' tables have the number of slots as fuel, as in \<open>lua_table_is_array\<close>.\<close>

fun add_header_loop :: "env \<Rightarrow> scripts \<Rightarrow> int \<Rightarrow> ptr \<Rightarrow> nat \<Rightarrow> bool L" where
  "add_header_loop E B base headers 0 = undefM"
| "add_header_loop E B base headers (Suc fuel) =
     bindM (lua_next B base) (\<lambda>more.
       if \<not> more then thenM (lua_settop base) (ret True)
       else bindM (lua_tostring (- 1)) (\<lambda>value.
            bindM (lua_tostring (- 2)) (\<lambda>key.
            thenM (liftW (extU E ''evhttp_add_header'' [CPtr headers, CStr key, CStr value]))
              (thenM (lua_pop 1) (add_header_loop E B base headers fuel)))))"

definition add_http_request_header :: "env \<Rightarrow> scripts \<Rightarrow> nat \<Rightarrow> ptr \<Rightarrow> bool L" where
  "add_http_request_header E B fuel req =
     bindM lua_gettop (\<lambda>base.
       if base < 1 then ret False
       else bindM (lua_istable base) (\<lambda>tab.
         if \<not> tab then ret False
         else bindM (liftW (ext_ptr E ''evhttp_request_get_output_headers'' [CPtr req])) (\<lambda>headers.
              thenM lua_pushnil (add_header_loop E B base headers fuel))))"

section \<open>The functions given to scripts\<close>

definition push_empty :: "int L" where
  "push_empty = thenM (lua_pushstring (Some [])) (ret 1)"

definition lua_http_uri_encode :: "env \<Rightarrow> int L" where
  "lua_http_uri_encode E =
     bindM lua_gettop (\<lambda>top.
       if top < 1 then push_empty
       else bindM (lua_isstring 1) (\<lambda>s.
         if \<not> s then push_empty
         else bindM (lua_tolstring 1) (\<lambda>uri_p.
           case uri_p of
             None \<Rightarrow> push_empty
           | Some uri \<Rightarrow>
               if length uri < 1 then push_empty
               else bindM (liftW (ext_str E ''evhttp_uriencode'' [cstr uri, CInt (int (length uri)), CInt 1])) (\<lambda>encode.
                 case encode of
                   None \<Rightarrow> push_empty
                 | Some e \<Rightarrow>
                     thenM (run [lua_pushstring (Some e), liftW (extU E ''free'' [cstr e])]) (ret 1)))))"

definition lua_http_uri_decode :: "env \<Rightarrow> int L" where
  "lua_http_uri_decode E =
     bindM lua_gettop (\<lambda>top.
       if top < 1 then push_empty
       else bindM (lua_isstring 1) (\<lambda>s.
         if \<not> s then push_empty
         else bindM (lua_tolstring 1) (\<lambda>uri_p.
           case uri_p of
             None \<Rightarrow> push_empty
           | Some uri \<Rightarrow>
               if length uri < 1 then push_empty
               else bindM (liftW (ext_str E ''evhttp_uridecode'' [cstr (c_str uri), CInt 1])) (\<lambda>decode.
                 case decode of
                   None \<Rightarrow> push_empty
                 | Some d \<Rightarrow> thenM (run [lua_pushlstring d, liftW (extU E ''free'' [cstr d])]) (ret 1)))))"

fun header_encode_loop :: "scripts \<Rightarrow> int \<Rightarrow> nat \<Rightarrow> bool \<Rightarrow> luaL_Buffer \<Rightarrow> luaL_Buffer L" where
  "header_encode_loop B base 0 is_head b = undefM"
| "header_encode_loop B base (Suc fuel) is_head b =
     bindM (lua_next B base) (\<lambda>more.
       if \<not> more then ret b
       else bindM (if is_head then ret b else luaL_addstring B ''&'' b) (\<lambda>b1.
            thenM (lua_pushvalue (- 2))
              (bindM (luaL_addvalue B b1) (\<lambda>b2.
               bindM (luaL_addstring B ''='' b2) (\<lambda>b3.
               bindM (luaL_addvalue B b3) (\<lambda>b4.
               header_encode_loop B base fuel False b4))))))"

definition lua_http_uri_header_encode :: "scripts \<Rightarrow> nat \<Rightarrow> int L" where
  "lua_http_uri_header_encode B fuel =
     bindM lua_gettop (\<lambda>base.
       if base < 1 then push_empty
       else bindM (lua_istable base) (\<lambda>tab.
         if \<not> tab then push_empty
         else thenM lua_pushnil
           (bindM (header_encode_loop B base fuel True luaL_buffinit) (\<lambda>b.
            bindM (luaL_pushresult B b) (\<lambda>_.
            thenM (run [lua_replace B base, lua_settop base]) (ret 1))))))"

definition lua_http_uri_header_decode :: "int L" where
  "lua_http_uri_header_decode = ret 0"

definition lua_common_http_lib :: luaL_Reg where
  "lua_common_http_lib =
     [(''encode_uri'', ''lua_http_uri_encode''), (''decode_uri'', ''lua_http_uri_decode''),
      (''encode_header'', ''lua_http_uri_header_encode''), (''decode_header'', ''lua_http_uri_header_decode'')]"

definition reg_lua_http :: "scripts \<Rightarrow> unit L" where
  "reg_lua_http B = luaL_register B ''http'' lua_common_http_lib"

section \<open>The table of a request\<close>

text \<open>The interpreter after only the table at \<open>a\<close> and the world have changed.\<close>

definition table_world :: "addr \<Rightarrow> Table \<Rightarrow> world \<Rightarrow> lstate \<Rightarrow> lstate" where
  "table_world a t w L = L\<lparr>gs := (gs L)\<lparr>tables := (tables (gs L))(a \<mapsto> t), world := w\<rparr>\<rparr>"

lemma table_world_simps [simp]:
  "stk (table_world a t w L) = stk L" "ci_top (table_world a t w L) = ci_top L"
  "world (gs (table_world a t w L)) = w" "table_world a t w (table_world a t' w' L) = table_world a t w L"
  by (simp_all add: table_world_def)

lemma set_field_exec:
  assumes st: "stk L = S @ [TTable a]" "length (stk L) + 2 \<le> ci_top L"
    and t: "has_table (gs L) a f" "keys_in K f" "card K < 1000"
    and m: "m (world (gs L)) = WOk x w" and p: "\<And>L. length (stk L) < ci_top L \<Longrightarrow> push x L = Ok () (L\<lparr>stk := stk L @ [v]\<rparr>)"
    and n: "NUL \<notin> set name"
  shows "\<exists>t'. thenM (lua_pushstring (Some name)) (bindM (liftW m) (\<lambda>x. run [push x, lua_rawset B (- 3)])) L =
      Ok () (table_world a t' w L) \<and> has_table (gs (table_world a t' w L)) a (upd f (TString name) v)"
proof -
  let ?L1 = "L\<lparr>stk := stk L @ [TString name], gs := (gs L)\<lparr>world := w\<rparr>\<rparr>"
  let ?L2 = "?L1\<lparr>stk := stk L @ [TString name, v]\<rparr>"
  have i: "index2adr ?L2 (- 3) = Some (Slot (length S))" and j: "stk ?L2 ! length S = TTable a"
    using index2adr_neg [of 3 ?L2] st by (simp_all add: nth_append)
  have h: "has_table (gs ?L2) a f" using t(1) by (simp add: has_table_def)
  have "card K < 2 ^ MAXBITS" using t(3) by simp
  then have "small_map f" by (rule keys_in_small [OF t(2)])
  then obtain t' where t': "lua_rawset B (- 3) ?L2 = Ok () ((set_table a t' ?L2)\<lparr>stk := stk L\<rparr>)"
    "has_table (gs (set_table a t' ?L2)) a (upd f (TString name) v)"
    using lua_rawset_has_table [of ?L2 "stk L" "TString name" v "- 3", OF _ i j h] by auto
  have "thenM (lua_pushstring (Some name)) (bindM (liftW m) (\<lambda>x. run [push x, lua_rawset B (- 3)])) L =
      Ok () (table_world a t' w L)"
    using st m t'(1) p [of ?L1] n
    by (simp add: api_simps c_str_id table_world_def set_table_def)
  moreover have "has_table (gs (table_world a t' w L)) a (upd f (TString name) v)"
    using t'(2) by (simp add: has_table_def table_world_def)
  ultimately show ?thesis by blast
qed

definition opt_str :: "string option \<Rightarrow> TValue" where
  "opt_str s = (case s of None \<Rightarrow> TNil | Some s \<Rightarrow> TString (c_str s))"

lemma push_opt_str: "length (stk L) < ci_top L \<Longrightarrow> lua_pushstring s L = Ok () (L\<lparr>stk := stk L @ [opt_str s]\<rparr>)"
  by (cases s) (simp_all add: opt_str_def api_simps)

text \<open>What the library knows of a request: the documented results of its accessors.\<close>

record request =
  r_uri :: ptr
  r_path :: "string option"
  r_query :: "string option"
  r_host :: "string option"
  r_code :: int
  r_command :: int

definition describes :: "env \<Rightarrow> ptr \<Rightarrow> request \<Rightarrow> bool" where
  "describes E req r \<longleftrightarrow> (\<forall>h.
     E h (Call ''evhttp_request_get_evhttp_uri'' [CPtr req]) = CPtr (r_uri r) \<and>
     E h (Call ''evhttp_uri_get_path'' [CPtr (r_uri r)]) = CStr (r_path r) \<and>
     E h (Call ''evhttp_uri_get_query'' [CPtr (r_uri r)]) = CStr (r_query r) \<and>
     E h (Call ''evhttp_request_get_host'' [CPtr req]) = CStr (r_host r) \<and>
     E h (Call ''evhttp_request_get_response_code'' [CPtr req]) = CInt (r_code r) \<and>
     E h (Call ''evhttp_request_get_command'' [CPtr req]) = CInt (r_command r))"

definition request_map :: "request \<Rightarrow> TValue \<Rightarrow> TValue" where
  "request_map r k =
     (if k = TString ''path'' then opt_str (r_path r) else if k = TString ''query'' then opt_str (r_query r)
      else if k = TString ''host'' then opt_str (r_host r)
      else if k = TString ''code'' then TNumber (cast_num (r_code r))
      else if k = TString ''command'' then TNumber (cast_num (r_command r)) else TNil)"

lemma set_string_field_exec:
  assumes "stk L = S @ [TTable a]" "length (stk L) + 2 \<le> ci_top L" "has_table (gs L) a f" "keys_in K f" "card K < 1000"
    and "get (world (gs L)) = WOk s w" "NUL \<notin> set name"
  shows "\<exists>t'. set_string_field B name get L = Ok () (table_world a t' w L) \<and>
    has_table (gs (table_world a t' w L)) a (upd f (TString name) (opt_str s))"
  using set_field_exec [where push = lua_pushstring and v = "opt_str s" and m = get, OF assms(1-6)] push_opt_str assms(7)
  unfolding set_string_field_def by blast

lemma set_number_field_exec:
  assumes "stk L = S @ [TTable a]" "length (stk L) + 2 \<le> ci_top L" "has_table (gs L) a f" "keys_in K f" "card K < 1000"
    and "get (world (gs L)) = WOk n w" "NUL \<notin> set name"
  shows "\<exists>t'. set_number_field B name get L = Ok () (table_world a t' w L) \<and>
    has_table (gs (table_world a t' w L)) a (upd f (TString name) (TNumber (cast_num n)))"
  using set_field_exec [where push = "\<lambda>n. lua_pushnumber (cast_num n)" and v = "TNumber (cast_num n)" and m = get, OF assms(1-6)]
    push_exec assms(7)
  unfolding set_number_field_def lua_pushnumber_def by blast

text \<open>The state while the table \<open>a\<close> on top of the stack of \<open>L0\<close> is being filled: it holds \<open>f\<close>, and the world is \<open>w\<close>.\<close>

definition request_keys :: "string set" where
  "request_keys = {''path'', ''query'', ''host'', ''code'', ''command''}"

definition filling :: "lstate \<Rightarrow> addr \<Rightarrow> world \<Rightarrow> (TValue \<Rightarrow> TValue) \<Rightarrow> lstate \<Rightarrow> bool" where
  "filling L0 a w f L \<longleftrightarrow>
     (\<exists>t. L = table_world a t w L0) \<and> has_table (gs L) a f \<and> keys_in request_keys f \<and>
     (\<exists>S. stk L0 = S @ [TTable a]) \<and> length (stk L0) + 2 \<le> ci_top L0"

lemma request_keys_NUL: "name \<in> request_keys \<Longrightarrow> NUL \<notin> set name"
  by (auto simp: request_keys_def) (simp_all add: NUL_def)

lemma filling_keys:
  assumes "filling L0 a w f L" "name \<in> request_keys"
  shows "keys_in request_keys (upd f (TString name) v)"
  using keys_in_upd [of request_keys f name v] assms by (simp add: filling_def insert_absorb)

lemma filling_string:
  assumes f: "filling L0 a w f L" "get w = WOk s w'" "name \<in> request_keys"
  obtains L' where "set_string_field B name get L = Ok () L'" "filling L0 a w' (upd f (TString name) (opt_str s)) L'"
proof -
  obtain t S where t: "L = table_world a t w L0" "stk L0 = S @ [TTable a]" using f(1) by (auto simp: filling_def)
  have "card request_keys < 1000" by (simp add: request_keys_def card_insert_if)
  then have "\<exists>t'. set_string_field B name get L = Ok () (table_world a t' w' L) \<and>
      has_table (gs (table_world a t' w' L)) a (upd f (TString name) (opt_str s))"
    using f t request_keys_NUL by (intro set_string_field_exec) (auto simp: filling_def)
  then show ?thesis using that t f filling_keys [OF f(1,3)] by (auto simp: filling_def)
qed

lemma filling_number:
  assumes f: "filling L0 a w f L" "get w = WOk n w'" "name \<in> request_keys"
  obtains L' where "set_number_field B name get L = Ok () L'" "filling L0 a w' (upd f (TString name) (TNumber (cast_num n))) L'"
proof -
  obtain t S where t: "L = table_world a t w L0" "stk L0 = S @ [TTable a]" using f(1) by (auto simp: filling_def)
  have "card request_keys < 1000" by (simp add: request_keys_def card_insert_if)
  then have "\<exists>t'. set_number_field B name get L = Ok () (table_world a t' w' L) \<and>
      has_table (gs (table_world a t' w' L)) a (upd f (TString name) (TNumber (cast_num n)))"
    using f t request_keys_NUL by (intro set_number_field_exec) (auto simp: filling_def)
  then show ?thesis using that t f filling_keys [OF f(1,3)] by (auto simp: filling_def)
qed

text \<open>What the accessors add to the trace, in the order they are called.\<close>

definition logged :: "string \<Rightarrow> ptr \<Rightarrow> cval \<Rightarrow> world \<Rightarrow> world" where
  "logged f p a w = w\<lparr>trace := (Call f [CPtr p], a) # trace w\<rparr>"

definition request_log :: "ptr \<Rightarrow> request \<Rightarrow> world \<Rightarrow> world" where
  "request_log req r =
     logged ''evhttp_request_get_command'' req (CInt (r_command r)) \<circ>
     logged ''evhttp_request_get_response_code'' req (CInt (r_code r)) \<circ>
     logged ''evhttp_request_get_host'' req (CStr (r_host r)) \<circ>
     logged ''evhttp_uri_get_query'' (r_uri r) (CStr (r_query r)) \<circ>
     logged ''evhttp_uri_get_path'' (r_uri r) (CStr (r_path r)) \<circ>
     logged ''evhttp_request_get_evhttp_uri'' req (CPtr (r_uri r))"

lemma describes_exec:
  assumes "describes E req r"
  shows "ext_ptr E ''evhttp_request_get_evhttp_uri'' [CPtr req] w = WOk (r_uri r) (logged ''evhttp_request_get_evhttp_uri'' req (CPtr (r_uri r)) w)"
    "ext_str E ''evhttp_uri_get_path'' [CPtr (r_uri r)] w = WOk (r_path r) (logged ''evhttp_uri_get_path'' (r_uri r) (CStr (r_path r)) w)"
    "ext_str E ''evhttp_uri_get_query'' [CPtr (r_uri r)] w = WOk (r_query r) (logged ''evhttp_uri_get_query'' (r_uri r) (CStr (r_query r)) w)"
    "ext_str E ''evhttp_request_get_host'' [CPtr req] w = WOk (r_host r) (logged ''evhttp_request_get_host'' req (CStr (r_host r)) w)"
    "ext_int E ''evhttp_request_get_response_code'' [CPtr req] w = WOk (r_code r) (logged ''evhttp_request_get_response_code'' req (CInt (r_code r)) w)"
    "ext_int E ''evhttp_request_get_command'' [CPtr req] w = WOk (r_command r) (logged ''evhttp_request_get_command'' req (CInt (r_command r)) w)"
  using assms by (simp_all add: describes_def api_simps logged_def)

lemma request_to_table:
  assumes d: "describes E req r" "r_uri r \<noteq> 0" and room: "length (stk L) + 3 \<le> ci_top L"
  shows "\<exists>t. http_request_to_lua_table E B req L = Ok ()
      (L\<lparr>stk := stk L @ [TTable (next_ref (gs L))],
         gs := (gs L)\<lparr>tables := (tables (gs L))(next_ref (gs L) \<mapsto> t), next_ref := Suc (next_ref (gs L)),
           world := request_log req r (world (gs L))\<rparr>\<rparr>) \<and>
    table_inv t \<and> tabs t = request_map r \<and> metatable t = None \<and> flags_ok t"
proof -
  let ?a = "next_ref (gs L)"
  define w0 where "w0 = logged ''evhttp_request_get_evhttp_uri'' req (CPtr (r_uri r)) (world (gs L))"
  define L0 where "L0 = L\<lparr>gs := (gs L)\<lparr>world := w0\<rparr>\<rparr>"
  obtain t where c: "lua_createtable B 0 5 L0 =
      Ok () (L0\<lparr>stk := stk L0 @ [TTable ?a], gs := (gs L0)\<lparr>tables := (tables (gs L0))(?a \<mapsto> t), next_ref := Suc ?a\<rparr>\<rparr>)"
    "table_inv t" "tabs t = (\<lambda>_. TNil)" "metatable t = None" "flags_ok t"
    using lua_createtable_has_table [of 0 5 L0 B] room by (auto simp: L0_def)
  define L1 where "L1 = L0\<lparr>stk := stk L0 @ [TTable ?a], gs := (gs L0)\<lparr>tables := (tables (gs L0))(?a \<mapsto> t), next_ref := Suc ?a\<rparr>\<rparr>"
  have 1: "filling L1 ?a w0 (\<lambda>_. TNil) L1"
    using c room
    by (auto simp: filling_def has_table_def keys_in_def request_keys_def table_world_def L1_def L0_def intro!: exI [of _ t])
  note ok = describes_exec [OF d(1)]
  define w1 f1 where "w1 = logged ''evhttp_uri_get_path'' (r_uri r) (CStr (r_path r)) w0"
    and "f1 = upd (\<lambda>_. TNil) (TString ''path'') (opt_str (r_path r))"
  obtain L2 where 2: "set_string_field B ''path'' (ext_str E ''evhttp_uri_get_path'' [CPtr (r_uri r)]) L1 = Ok () L2"
    "filling L1 ?a w1 f1 L2"
    using filling_string [where get = "ext_str E ''evhttp_uri_get_path'' [CPtr (r_uri r)]" and name = "''path''" and B = B, OF 1 ok(2)] unfolding w1_def f1_def request_keys_def by blast
  define w2 f2 where "w2 = logged ''evhttp_uri_get_query'' (r_uri r) (CStr (r_query r)) w1"
    and "f2 = upd f1 (TString ''query'') (opt_str (r_query r))"
  obtain L3 where 3: "set_string_field B ''query'' (ext_str E ''evhttp_uri_get_query'' [CPtr (r_uri r)]) L2 = Ok () L3"
    "filling L1 ?a w2 f2 L3"
    using filling_string [where get = "ext_str E ''evhttp_uri_get_query'' [CPtr (r_uri r)]" and name = "''query''" and B = B, OF 2(2) ok(3)] unfolding w2_def f2_def request_keys_def by blast
  define w3 f3 where "w3 = logged ''evhttp_request_get_host'' req (CStr (r_host r)) w2"
    and "f3 = upd f2 (TString ''host'') (opt_str (r_host r))"
  obtain L4 where 4: "set_string_field B ''host'' (ext_str E ''evhttp_request_get_host'' [CPtr req]) L3 = Ok () L4"
    "filling L1 ?a w3 f3 L4"
    using filling_string [where get = "ext_str E ''evhttp_request_get_host'' [CPtr req]" and name = "''host''" and B = B, OF 3(2) ok(4)] unfolding w3_def f3_def request_keys_def by blast
  define w4 f4 where "w4 = logged ''evhttp_request_get_response_code'' req (CInt (r_code r)) w3"
    and "f4 = upd f3 (TString ''code'') (TNumber (cast_num (r_code r)))"
  obtain L5 where 5: "set_number_field B ''code'' (ext_int E ''evhttp_request_get_response_code'' [CPtr req]) L4 = Ok () L5"
    "filling L1 ?a w4 f4 L5"
    using filling_number [where get = "ext_int E ''evhttp_request_get_response_code'' [CPtr req]" and name = "''code''" and B = B, OF 4(2) ok(5)] unfolding w4_def f4_def request_keys_def by blast
  define w5 f5 where "w5 = logged ''evhttp_request_get_command'' req (CInt (r_command r)) w4"
    and "f5 = upd f4 (TString ''command'') (TNumber (cast_num (r_command r)))"
  obtain L6 where 6: "set_number_field B ''command'' (ext_int E ''evhttp_request_get_command'' [CPtr req]) L5 = Ok () L6"
    "filling L1 ?a w5 f5 L6"
    using filling_number [where get = "ext_int E ''evhttp_request_get_command'' [CPtr req]" and name = "''command''" and B = B, OF 5(2) ok(6)] unfolding w5_def f5_def request_keys_def by blast
  have f: "f5 = request_map r"
    by (auto simp: f1_def f2_def f3_def f4_def f5_def fun_eq_iff upd_def rawequal_not_number obj_simps request_map_def)
  obtain t' where L6: "L6 = table_world ?a t' w5 L1" "has_table (gs L6) ?a (request_map r)"
    using 6(2) by (auto simp: filling_def f)
  have w: "w5 = request_log req r (world (gs L))"
    by (simp add: w0_def w1_def w2_def w3_def w4_def w5_def request_log_def)
  have "http_request_to_lua_table E B req L = Ok () L6"
    using c(1) 2(1) 3(1) 4(1) 5(1) 6(1) d(2)
    by (simp add: http_request_to_lua_table_def bindM_exec liftW_exec run_exec ret_apply ok w0_def [symmetric] L0_def [symmetric] L1_def [symmetric])
  moreover have "table_inv t' \<and> tabs t' = request_map r \<and> metatable t' = None \<and> flags_ok t'"
    using L6 by (simp add: has_table_def table_world_def)
  ultimately show ?thesis by (intro exI [of _ t']) (simp add: L6(1) w table_world_def L1_def L0_def)
qed

section \<open>Properties\<close>

text \<open>C6: A request that has a parsed URI becomes one new table on top of the stack, with the path, the query,
  the host, the status code and the command the library reports and no other field (a part the
  URI lacks is absent), in the state the table's operations need; the rest of the interpreter is as
  before, and the library was asked nothing else.\<close>

theorem http_request_to_lua_table_fields:
  assumes "describes E req r" "r_uri r \<noteq> 0" "length (stk L) + 3 \<le> ci_top L"
  shows "\<exists>t. http_request_to_lua_table E B req L = Ok ()
      (L\<lparr>stk := stk L @ [TTable (next_ref (gs L))],
         gs := (gs L)\<lparr>tables := (tables (gs L))(next_ref (gs L) \<mapsto> t), next_ref := Suc (next_ref (gs L)),
           world := request_log req r (world (gs L))\<rparr>\<rparr>) \<and>
    table_inv t \<and> tabs t = request_map r \<and> metatable t = None \<and> flags_ok t"
  by (rule request_to_table [OF assms])

text \<open>An environment that knows one request.\<close>

definition sample_request :: request where
  "sample_request =
     \<lparr>r_uri = 8, r_path = Some ''/nihao'', r_query = None, r_host = Some ''localhost'', r_code = 0, r_command = 1\<rparr>"

fun sample_env :: env where
  "sample_env h (Call f args) =
     (if f = ''evhttp_request_get_evhttp_uri'' then CPtr 8
      else if f = ''evhttp_uri_get_path'' then cstr ''/nihao'' else if f = ''evhttp_uri_get_query'' then CStr None
      else if f = ''evhttp_request_get_host'' then cstr ''localhost''
      else if f = ''evhttp_request_get_response_code'' then CInt 0
      else if f = ''evhttp_request_get_command'' then CInt 1
      else if f = ''strftime'' then cstr ''12:00:00'' else CInt 0)"

lemma sample_describes: "describes sample_env 7 sample_request"
  by (simp add: describes_def sample_request_def)

theorem http_request_to_lua_table_fields_witness:
  "\<exists>t. http_request_to_lua_table sample_env (\<lambda>_ _ _ _. NoReturn) 7 (sample_state sample_table [] start_world) = Ok ()
      ((sample_state sample_table [] start_world)\<lparr>stk := [TTable 3],
         gs := (gs (sample_state sample_table [] start_world))\<lparr>tables := [2 \<mapsto> sample_table, 3 \<mapsto> t], next_ref := 4,
           world := request_log 7 sample_request start_world\<rparr>\<rparr>) \<and>
    table_inv t \<and> tabs t = request_map sample_request \<and> metatable t = None \<and> flags_ok t"
  using http_request_to_lua_table_fields [OF sample_describes, of "sample_state sample_table [] start_world" "\<lambda>_ _ _ _. NoReturn"]
  by (simp add: sample_request_def)

text \<open>How often a request is freed: by a call to free it, and by the library when it refuses to make it
  (src/lib/libevent/event2/http.h: on failure the request has been freed).\<close>

fun freed :: "ptr \<Rightarrow> event \<Rightarrow> int" where
  "freed req (Call f args, a) =
     (if f = ''evhttp_request_free'' \<and> args = [CPtr req] then 1 else 0) +
     (if f = ''evhttp_make_request'' \<and> 1 < length args \<and> args ! 1 = CPtr req \<and> as_int a \<noteq> 0 then 1 else 0)"

text \<open>C17: When the library refuses a request, \<open>http_request_new\<close> frees it a second time.\<close>

theorem http_request_new_frees_twice:
  assumes "\<And>h args. E h (Call ''evhttp_connection_base_new'' args) = CPtr con"
    and "\<And>h args. E h (Call ''evhttp_request_new'' args) = CPtr req"
    and "\<And>h args. E h (Call ''evhttp_make_request'' args) = CInt (- 1)"
    and "con \<noteq> 0" "req \<noteq> 0" "cb \<noteq> None"
  shows "\<exists>w'. http_request_new E base address port cb arg ccb carg ty uri w = WOk 0 w' \<and>
    count (freed req) (trace w') = count (freed req) (trace w) + 2"
  using assms(4-6) by (cases ccb) (simp_all add: http_request_new_def api_simps assms(1-3))

theorem http_request_new_frees_twice_witness:
  "\<exists>w'. http_request_new (\<lambda>h c. if callee c = ''evhttp_make_request'' then CInt (- 1) else CPtr 9)
       1 ''127.0.0.1'' 80 (Some ''http_request_cb'') 2 (Some ''close_cb'') 0 1 (Some ''/'') start_world = WOk 0 w' \<and>
    count (freed 9) (trace w') = 2"
proof -
  have "count (freed 9) (trace start_world) = 0" by (simp add: start_world_def)
  then show ?thesis
    using http_request_new_frees_twice [of "\<lambda>h c. if callee c = ''evhttp_make_request'' then CInt (- 1) else CPtr 9" 9 9
        "Some ''http_request_cb''" 1 "''127.0.0.1''" 80 2 "Some ''close_cb''" 0 1 "Some ''/''" start_world]
    by simp
qed

end
