(* ===== verification/Http_Encode.thy ===== *)
theory Http_Encode
  imports Http_Util
begin

text \<open>What \<^verbatim>\<open>http.encode_header\<close> of src/src/http_util.c computes: the traversal of its argument with
  \<^verbatim>\<open>lua_next\<close> and the string buffer together produce the fields of the table as one query string.\<close>

section \<open>encode_header\<close>

text \<open>The text of a value, empty for a value that has none; and the pairs of a table as a query.\<close>

definition text_of :: "TValue \<Rightarrow> string" where
  "text_of v = (case tostring v of None \<Rightarrow> [] | Some s \<Rightarrow> s)"

fun join :: "string \<Rightarrow> string list \<Rightarrow> string" where
  "join sep [] = []"
| "join sep [s] = s"
| "join sep (s # t # ss) = s @ sep @ join sep (t # ss)"

definition encode_pairs :: "(TValue \<times> TValue) list \<Rightarrow> string" where
  "encode_pairs es = join ''&'' (map (\<lambda>(k, v). text_of k @ ''='' @ text_of v) es)"

fun encode_from :: "bool \<Rightarrow> (TValue \<times> TValue) list \<Rightarrow> string" where
  "encode_from is_head [] = []"
| "encode_from is_head ((k, v) # es) =
     (if is_head then [] else ''&'') @ text_of k @ ''='' @ text_of v @ encode_from False es"

lemma join_Cons: "ss \<noteq> [] \<Longrightarrow> join sep (s # ss) = s @ sep @ join sep ss"
  by (cases ss) simp_all

lemma encode_from_join: "encode_from False es = (if es = [] then [] else ''&'' @ encode_pairs es)"
proof (induction es)
  case (Cons e es)
  then show ?case by (cases e; cases "es = []") (auto simp: encode_pairs_def join_Cons)
qed simp

lemma encode_from_pairs: "encode_from True es = encode_pairs es"
  using encode_from_join by (cases es) (auto simp: encode_pairs_def join_Cons split: prod.splits)

lemma addlstring_fits:
  "length (buf b) + length s \<le> LUAL_BUFFERSIZE \<Longrightarrow> luaL_addlstring B s b L = Ok (b\<lparr>buf := buf b @ s\<rparr>) L"
proof (induction s arbitrary: b)
  case (Cons c s)
  then have "luaL_addchar B c b L = Ok (b\<lparr>buf := buf b @ [c]\<rparr>) L"
    by (simp add: luaL_addchar_def api_simps)
  then show ?case using Cons by (simp add: api_simps)
qed (simp add: api_simps)

lemma addstring_fits:
  assumes "length (buf b) + length s \<le> LUAL_BUFFERSIZE" "NUL \<notin> set s"
  shows "luaL_addstring B s b L = Ok (b\<lparr>buf := buf b @ s\<rparr>) L"
  using addlstring_fits [OF assms(1)] assms(2) by (simp add: luaL_addstring_def c_str_id)

lemma addvalue_fits:
  assumes "stk L = S @ [v]" "length (buf b) + length (text_of v) \<le> LUAL_BUFFERSIZE"
  shows "luaL_addvalue B b L = Ok (b\<lparr>buf := buf b @ text_of v\<rparr>) (L\<lparr>stk := S\<rparr>)"
  using assms add_le_imp_le_diff [of "length (text_of v)" "length (buf b)" LUAL_BUFFERSIZE]
  by (cases v) (simp_all add: add.commute luaL_addvalue_def lua_tolstring_def api_simps text_of_def bufffree_def Let_def)

lemma header_encode_loop_exec:
  assumes "table_inv t" "length S + 3 \<le> ci_top L" "stk L = S @ [key]" "S ! (length S - 1) = TTable a" "S \<noteq> []"
    "tables (gs L) a = Some t" "rest_of t key es" "length es < fuel"
    "length (buf b) + length (encode_from h es) \<le> LUAL_BUFFERSIZE"
  shows "header_encode_loop B (int (length S)) fuel h b L =
    Ok (b\<lparr>buf := buf b @ encode_from h es\<rparr>) (L\<lparr>stk := S\<rparr>)"
  using assms(2-)
proof (induction es arbitrary: L key fuel b h)
  case Nil
  then obtain f where f: "fuel = Suc f" by (cases fuel) auto
  have i: "index2adr L (int (length S)) = Some (Slot (length S - 1))"
    using Nil.prems by (intro index2adr_pos) auto
  have "stk L ! (length S - 1) = TTable a" using Nil.prems by (simp add: nth_append)
  from lua_next_exec(1) [OF Nil.prems(2) i this Nil.prems(5) assms(1) Nil.prems(6) refl, of B]
  show ?case by (simp add: f api_simps)
next
  case (Cons e es)
  obtain k v where e: "e = (k, v)" by fastforce
  obtain f where f: "fuel = Suc f" using Cons.prems by (cases fuel) auto
  have i: "index2adr L (int (length S)) = Some (Slot (length S - 1))"
    using Cons.prems by (intro index2adr_pos) auto
  have sl: "stk L ! (length S - 1) = TTable a" using Cons.prems by (simp add: nth_append)
  have n: "lua_next B (int (length S)) L = Ok True (L\<lparr>stk := S @ [k, v]\<rparr>)"
    using lua_next_exec(2) [OF Cons.prems(2) i sl Cons.prems(5) assms(1) Cons.prems(6), of k v es B] e Cons.prems
    by simp
  let ?b1 = "b\<lparr>buf := buf b @ (if h then [] else ''&'')\<rparr>"
  let ?b2 = "?b1\<lparr>buf := buf ?b1 @ text_of k\<rparr>" and ?L1 = "L\<lparr>stk := S @ [k, v]\<rparr>"
  let ?b3 = "?b2\<lparr>buf := buf ?b2 @ ''=''\<rparr>"
  let ?b4 = "?b3\<lparr>buf := buf ?b3 @ text_of v\<rparr>" and ?L2 = "L\<lparr>stk := S @ [k]\<rparr>"
  have 1: "(if h then ret b else luaL_addstring B ''&'' b) ?L1 = Ok ?b1 ?L1"
    using Cons.prems(8) addstring_fits [of b "''&''" B ?L1] by (simp add: e api_simps NUL_def)
  have 2: "luaL_addvalue B ?b1 (L\<lparr>stk := S @ [k, v, k]\<rparr>) = Ok ?b2 ?L1"
    using Cons.prems(8) addvalue_fits [of "L\<lparr>stk := S @ [k, v, k]\<rparr>" "S @ [k, v]" k ?b1 B] by (simp add: e)
  have 3: "luaL_addstring B ''='' ?b2 ?L1 = Ok ?b3 ?L1"
    using Cons.prems(8) addstring_fits [of ?b2 "''=''" B ?L1] by (simp add: e NUL_def)
  have 4: "luaL_addvalue B ?b3 ?L1 = Ok ?b4 ?L2"
    using Cons.prems(8) addvalue_fits [of ?L1 "S @ [k]" v ?b3 B] by (simp add: e)
  have IH: "header_encode_loop B (int (length S)) f False ?b4 ?L2 = Ok (?b4\<lparr>buf := buf ?b4 @ encode_from False es\<rparr>) (?L2\<lparr>stk := S\<rparr>)"
    using Cons.prems rest_of_next(2) [OF assms(1) Cons.prems(6), of k v es] e f by (intro Cons.IH) auto
  show ?case
    using Cons.prems(1) n 1 2 3 4 IH
    by (simp add: f e bindM_exec thenM_apply lua_pushvalue_exec at_index_exec index2adr_neg_simps load_exec push_exec nth_append)
qed

section \<open>Properties\<close>

lemma lua_replace_slot:
  assumes "index2adr L i = Some (Slot j)" "stk L = S @ [v]" "j < length S" "i \<noteq> LUA_ENVIRONINDEX"
  shows "lua_replace B i L = Ok () (L\<lparr>stk := S[j := v]\<rparr>)"
  using assms by (simp add: lua_replace_def api_simps list_update_append)

text \<open>C32: \<^verbatim>\<open>http.encode_header\<close> of a table returns one value, which takes the place of the table: the string
  \<open>k=v&k=v...\<close> of its fields in the order of the traversal, as the reference definition
  \<open>encode_pairs\<close> writes it (a value that is neither a string nor a number contributes no text),
  provided the string has at most \<^verbatim>\<open>LUAL_BUFFERSIZE\<close> = 8192 bytes, so that it fits into one
  \<^verbatim>\<open>luaL_Buffer\<close>; the loop around \<^verbatim>\<open>lua_next\<close> ends, and neither the heap nor the world changes. For
  longer strings the code is wrong: the buffer leaves a piece on the stack above the key, and the next
  \<^verbatim>\<open>lua_next\<close> takes the piece for the key.\<close>

theorem encode_header_writes_the_fields:
  assumes t: "stk L = S @ [TTable a]" "tables (gs L) a = Some t" "table_inv t"
    and fits: "length (encode_pairs (live (slots t))) \<le> LUAL_BUFFERSIZE" "length (live (slots t)) < fuel"
    and room: "length (stk L) + LIMIT \<le> ci_top L"
  shows "lua_http_uri_header_encode B fuel L =
    Ok 1 (L\<lparr>stk := S @ [TString (encode_pairs (live (slots t)))]\<rparr>)"
proof -
  let ?es = "live (slots t)" and ?n = "length (stk L)"
  let ?s = "encode_pairs ?es" and ?base = "int (length (stk L))"
  have i: "index2adr (L\<lparr>stk := stk L @ xs\<rparr>) ?base = Some (Slot (?n - 1))" for xs
    using index2adr_pos [of ?n "L\<lparr>stk := stk L @ xs\<rparr>"] t(1) room by simp
  have i0: "index2adr L ?base = Some (Slot (?n - 1))" using i [of "[]"] by simp
  have loop: "header_encode_loop B ?base fuel True luaL_buffinit (L\<lparr>stk := stk L @ [TNil]\<rparr>) =
      Ok (luaL_buffinit\<lparr>buf := ?s\<rparr>) L"
    using header_encode_loop_exec [of t "stk L" "L\<lparr>stk := stk L @ [TNil]\<rparr>" TNil a ?es fuel luaL_buffinit True B]
      t fits room rest_of_nil [of t]
    by (simp add: nth_append encode_from_pairs luaL_buffinit_def)
  have "holds (stk L) (luaL_buffinit\<lparr>buf := ?s\<rparr>) ?s L"
    using fits by (intro holdsI [of _ _ "[]"]) (simp_all add: luaL_buffinit_def)
  then obtain b' where push: "luaL_pushresult B (luaL_buffinit\<lparr>buf := ?s\<rparr>) L = Ok b' (L\<lparr>stk := stk L @ [TString ?s]\<rparr>)"
    using luaL_pushresult_exec room by (force simp: room_def)
  have rep: "lua_replace B ?base (L\<lparr>stk := stk L @ [TString ?s]\<rparr>) = Ok () (L\<lparr>stk := S @ [TString ?s]\<rparr>)"
    using lua_replace_slot [OF i, of "[TString ?s]" "stk L" "TString ?s" B] t(1) by simp
  have top: "lua_settop ?base (L\<lparr>stk := S @ [TString ?s]\<rparr>) = Ok () (L\<lparr>stk := S @ [TString ?s]\<rparr>)"
    using lua_settop_exec [of ?n "L\<lparr>stk := S @ [TString ?s]\<rparr>"] t(1) room by simp
  show ?thesis
    using loop push rep top t(1) i0 room
    by (simp add: lua_http_uri_header_encode_def api_simps)
qed

theorem encode_header_writes_the_fields_witness:
  "lua_http_uri_header_encode (\<lambda>_ _ _ _. NoReturn) 5 (sample_state (one_field ''q'' (TString ''lua'')) [TTable 2] start_world) =
    Ok 1 (sample_state (one_field ''q'' (TString ''lua'')) [TString ''q=lua''] start_world)"
proof -
  have es: "live (slots (one_field ''q'' (TString ''lua''))) = [(TString ''q'', TString ''lua'')]"
    by (simp add: one_field_def slots_def live_def nodes_def sizearray_def slice_entries_def)
  then show ?thesis
    using encode_header_writes_the_fields [of "sample_state (one_field ''q'' (TString ''lua'')) [TTable 2] start_world" "[]" 2
        "one_field ''q'' (TString ''lua'')" 5 "\<lambda>_ _ _ _. NoReturn"] one_field_inv
    by (simp add: encode_pairs_def text_of_def LUAL_BUFFERSIZE_def sample_state_def)
qed

end
