(* ===== verification/Httpd.thy ===== *)
theory Httpd
  imports Http_Util
begin

text \<open>
  The HTTP server: src/src/program/httpd/httpd.c. The statics \<open>base\<close> and \<open>http\<close> are in the world; the static \<open>L\<close>
  is threaded through the functions that use it, \<open>None\<close> being the null pointer. The event loop is the
  list of the callbacks it makes until it ends.
\<close>

section \<open>Requests that come in\<close>

abbreviation (input) HTTP_OK :: int where "HTTP_OK \<equiv> 200"
abbreviation (input) HTTP_INTERNAL :: int where "HTTP_INTERNAL \<equiv> 500"

definition send_internal_error :: "env \<Rightarrow> ptr \<Rightarrow> unit W" where
  "send_internal_error E req =
     extU E ''evhttp_send_error'' [CPtr req, CInt HTTP_INTERNAL, cstr ''Internal Server Error'']"

text \<open>What is done with the results of the script. The body of the reply is the format of a call of printf: a
  null one is undefined.\<close>

definition send_result :: "env \<Rightarrow> ptr \<Rightarrow> int \<Rightarrow> unit L" where
  "send_result E req n =
     (if n \<noteq> 2 then liftW (send_internal_error E req)
      else bindM (lua_toboolean (- 2)) (\<lambda>is_true.
        if is_true then
          bindM (liftW (ext_ptr E ''evbuffer_new'' [])) (\<lambda>evb.
          bindM (bindM (lua_tostring (- 1)) nonnull) (\<lambda>body.
          liftW (runW [extU E ''evbuffer_add_printf'' [CPtr evb, cstr body],
                       extU E ''evhttp_send_reply'' [CPtr req, CInt HTTP_OK, cstr ''OK'', CPtr evb],
                       extU E ''evbuffer_free'' [CPtr evb]])))
        else liftW (send_internal_error E req)))"

definition http_handler_lua :: "env \<Rightarrow> scripts \<Rightarrow> ptr \<Rightarrow> unit L" where
  "http_handler_lua E B req =
     bindM (find_lua_global_function B ''http_request_handler'') (\<lambda>found.
       if \<not> found then ret ()
       else thenM (http_request_to_lua_table E B req) (bindM (call_lua_script E B 1) (send_result E req)))"

definition with_L :: "unit L \<Rightarrow> lstate \<Rightarrow> lstate option W" where
  "with_L m L = bindW (in_lua m L) (\<lambda>(_, L'). retW (Some L'))"

definition http_handler :: "env \<Rightarrow> scripts \<Rightarrow> ptr \<Rightarrow> lstate option \<Rightarrow> lstate option W" where
  "http_handler E B req L =
     (case L of None \<Rightarrow> retW None | Some L \<Rightarrow> with_L (http_handler_lua E B req) L)"

definition close_cb :: "env \<Rightarrow> unit W" where
  "close_cb E = log_debug E ''close request con'' []"

section \<open>Requests that scripts make\<close>

definition is_ip :: "string \<Rightarrow> bool" where
  "is_ip ip = (let s = c_str ip in \<not> length s < 1 \<and> (\<forall>i < length s. \<not> (\<not> isdigit (s ! i) \<and> s ! i \<noteq> CHR ''.'')))"

definition http_request_cb :: "env \<Rightarrow> scripts \<Rightarrow> ptr \<Rightarrow> ptr \<Rightarrow> lstate option \<Rightarrow> lstate option W" where
  "http_request_cb E B req arg L0 =
     bindW (ext_int E ''evhttp_request_get_response_code'' [CPtr req]) (\<lambda>code.
     thenW (log_debug E ''ok!!!!!!!!!!request %d'' [CInt code])
       (bindW (bindW (getW (\<lambda>w. infos w arg)) nonnullW) (\<lambda>p.
        thenW (log_debug E ''table:%s, function:%s'' [cstr (cb_table p), cstr (cb_function p)])
          (bindW (nonnullW L0) (\<lambda>L.
           bindW (with_L (bindM (find_lua_function B (Some (cb_table p)) (Some (cb_function p))) (\<lambda>found.
              if found then bindM (call_lua_script E B 0) (\<lambda>_. ret ()) else ret ())) L) (\<lambda>L'.
           thenW (pool_free E (pool p)) (retW L')))))))"

abbreviation (input) EVHTTP_REQ_GET :: int where "EVHTTP_REQ_GET \<equiv> 1"
abbreviation (input) EVHTTP_REQ_POST :: int where "EVHTTP_REQ_POST \<equiv> 2"

definition push_bool :: "bool \<Rightarrow> int L" where
  "push_bool b = thenM (lua_pushboolean (if b then 1 else 0)) (ret 1)"

text \<open>From the pool on: the record for the callback is allocated and the request is made.\<close>

definition make_callback_request :: "env \<Rightarrow> int \<Rightarrow> string \<Rightarrow> int \<Rightarrow> string option \<Rightarrow> string \<Rightarrow> string \<Rightarrow> bool W" where
  "make_callback_request E ty ip port uri table fn =
     bindW (pool_new E) (\<lambda>pl.
       if pl = 0 then retW False
       else bindW (pool_palloc E pl 24) (\<lambda>args.
         if args = 0 then thenW (pool_free E pl) (retW False)
         else bindW (pool_palloc E pl (int (length table) + 1)) (\<lambda>tb.
              bindW (pool_palloc E pl (int (length fn) + 1)) (\<lambda>f.
                if tb = 0 \<or> f = 0 then thenW (pool_free E pl) (retW False)
                else thenW (modW (\<lambda>w. w\<lparr>infos := (infos w)(args \<mapsto>
                              \<lparr>pool = pl, cb_table = c_str table, cb_function = c_str fn\<rparr>)\<rparr>))
                  (bindW (getW httpd_base) (\<lambda>base.
                   bindW (http_request_new E base (c_str ip) port (Some ''http_request_cb'') args
                            (Some ''close_cb'') 0 ty uri) (\<lambda>req.
                     if req = 0 then thenW (pool_free E pl) (retW False) else retW True)))))))"

definition lua_http_request :: "env \<Rightarrow> int \<Rightarrow> int L" where
  "lua_http_request E ty =
     bindM lua_gettop (\<lambda>top.
       if top < 3 then push_bool False
       else bindM (bindM (lua_tostring 1) nonnull) (\<lambda>ip.
         if \<not> is_ip ip then push_bool False
         else bindM (bindM (lua_tonumber 2) number_to_int) (\<lambda>port.
              bindM (lua_tostring 3) (\<lambda>uri.
              bindM (lua_tolstring 4) (\<lambda>table_p.
                case table_p of None \<Rightarrow> push_bool False
                | Some table \<Rightarrow>
                    bindM (lua_tolstring 5) (\<lambda>fn_p.
                      case fn_p of None \<Rightarrow> push_bool False
                      | Some fn \<Rightarrow>
                          bindM (liftW (make_callback_request E ty ip port uri table fn)) push_bool))))))"

definition lua_http_request_get :: "env \<Rightarrow> int L" where
  "lua_http_request_get E = lua_http_request E EVHTTP_REQ_GET"

definition lua_http_request_post :: "env \<Rightarrow> int L" where
  "lua_http_request_post E = lua_http_request E EVHTTP_REQ_POST"

definition dump_base :: "env \<Rightarrow> int L" where
  "dump_base E =
     thenM (liftW (bindW (ext_ptr E ''fopen'' [cstr ''log/dump.log'', cstr ''a+'']) (\<lambda>fd.
       if fd \<noteq> 0 then
         bindW (getW httpd_base) (\<lambda>base.
         runW [extU E ''event_base_dump_events'' [CPtr base, CPtr fd], extU E ''fclose'' [CPtr fd]])
       else retW ()))) (ret 0)"

definition test_array :: "scripts \<Rightarrow> nat \<Rightarrow> int L" where
  "test_array B fuel = bindM (lua_table_is_array B fuel) push_bool"

definition lua_http_lib :: luaL_Reg where
  "lua_http_lib =
     [(''post'', ''lua_http_request_post''), (''get'', ''lua_http_request_get''), (''dump'', ''dump_base''),
      (''is_array'', ''test_array'')]"

definition httpd_reg_lua_http :: "scripts \<Rightarrow> unit L" where
  "httpd_reg_lua_http B = luaL_register B ''http'' lua_http_lib"

section \<open>Start and stop\<close>

datatype httpd_event = HttpRequest ptr | HttpResponse ptr ptr | ConnClosed

fun httpd_callback :: "env \<Rightarrow> scripts \<Rightarrow> httpd_event \<Rightarrow> lstate option \<Rightarrow> lstate option W" where
  "httpd_callback E B (HttpRequest req) L = http_handler E B req L"
| "httpd_callback E B (HttpResponse req arg) L = http_request_cb E B req arg L"
| "httpd_callback E B ConnClosed L = thenW (close_cb E) (retW L)"

fun httpd_loop :: "env \<Rightarrow> scripts \<Rightarrow> httpd_event list \<Rightarrow> lstate option \<Rightarrow> lstate option W" where
  "httpd_loop E B [] L = retW L"
| "httpd_loop E B (e # es) L = bindW (httpd_callback E B e L) (httpd_loop E B es)"

definition start_httpd :: "env \<Rightarrow> scripts \<Rightarrow> httpd_event list \<Rightarrow> lstate option \<Rightarrow> lstate option W" where
  "start_httpd E B evs L =
     (if L = None then retW L
      else bindW (getW httpd_http) (\<lambda>http.
        if http = 0 then retW L
        else bindW (getW httpd_base) (\<lambda>base.
          if base \<noteq> 0 then thenW (extU E ''event_base_dispatch'' [CPtr base]) (httpd_loop E B evs L) else retW L)))"

definition shutdown_httpd :: "env \<Rightarrow> lstate option \<Rightarrow> lstate option W" where
  "shutdown_httpd E L =
     thenW (if L \<noteq> None then extU E ''lua_close'' [] else retW ())
       (bindW (getW httpd_http) (\<lambda>http.
        thenW (if http \<noteq> 0 then runW [extU E ''evhttp_free'' [CPtr http], modW (\<lambda>w. w\<lparr>httpd_http := 0\<rparr>)] else retW ())
          (bindW (getW httpd_base) (\<lambda>base.
           thenW (if base \<noteq> 0 then runW [extU E ''event_base_free'' [CPtr base], modW (\<lambda>w. w\<lparr>httpd_base := 0\<rparr>)] else retW ())
             (retW None)))))"

definition setup_httpd :: "scripts \<Rightarrow> unit L" where
  "setup_httpd B = run [httpd_reg_lua_http B, reg_lua_http B]"

definition init_httpd ::
    "env \<Rightarrow> scripts \<Rightarrow> lstate option \<Rightarrow> unit L \<Rightarrow> httpd_event list \<Rightarrow> lstate option W" where
  "init_httpd E B newstate openlibs evs =
     thenW (log_debug E ''starting httpd......'' [])
       (bindW (init_lua E B newstate openlibs) (\<lambda>L.
          case L of
            None \<Rightarrow> thenW (log_debug E ''init httpd script vm fail......'' []) (retW None)
          | Some L1 \<Rightarrow>
              bindW (ext_ptr E ''event_base_new'' []) (\<lambda>base.
              thenW (modW (\<lambda>w. w\<lparr>httpd_base := base\<rparr>))
                (if base = 0 then thenW (log_debug E ''init libevent fail......'' []) (retW L)
                 else bindW (init_http E base (Some ''http_handler'') 0) (\<lambda>http.
                   thenW (modW (\<lambda>w. w\<lparr>httpd_http := http\<rparr>))
                     (if http = 0 then thenW (log_debug E ''init http fail......'' []) (shutdown_httpd E L)
                      else bindW (ext_int E ''evhttp_bind_socket'' [CPtr http, cstr ''0.0.0.0'', CInt 3000]) (\<lambda>rv.
                        if rv \<noteq> 0 then
                          thenW (log_debug E ''http bind(%s:%d) fail......'' [cstr ''0.0.0.0'', CInt 3000]) (shutdown_httpd E L)
                        else bindW (with_L (setup_httpd B) L1) (\<lambda>L2.
                             thenW (log_debug E ''httpd init ok, runing......'' []) (start_httpd E B evs L2)))))))))"

definition close_httpd :: "env \<Rightarrow> lstate option \<Rightarrow> lstate option W" where
  "close_httpd E L = thenW (log_debug E ''shutdowning httpd......'' []) (shutdown_httpd E L)"

section \<open>Every request is answered\<close>

text \<open>Replies and errors sent to \<open>req\<close>.\<close>

fun replied :: "ptr \<Rightarrow> event \<Rightarrow> int" where
  "replied req (Call f args, a) =
     (if (f = ''evhttp_send_reply'' \<or> f = ''evhttp_send_error'') \<and> args \<noteq> [] \<and> hd args = CPtr req then 1 else 0)"

definition quiet :: "world \<Rightarrow> world \<Rightarrow> bool" where
  "quiet w w' \<longleftrightarrow> (\<forall>rq. count (replied rq) (trace w') = count (replied rq) (trace w))"

text \<open>One answer more for \<open>req\<close>, with the given code, and none for any other request.\<close>

fun answered :: "ptr \<Rightarrow> int \<Rightarrow> event \<Rightarrow> int" where
  "answered req code (Call f args, a) =
     (if (f = ''evhttp_send_reply'' \<or> f = ''evhttp_send_error'') \<and> take 2 args = [CPtr req, CInt code] then 1 else 0)"

definition answers_with :: "ptr \<Rightarrow> int \<Rightarrow> world \<Rightarrow> world \<Rightarrow> bool" where
  "answers_with req code w w' \<longleftrightarrow>
     (\<forall>rq. count (replied rq) (trace w') = count (replied rq) (trace w) + (if rq = req then 1 else 0)) \<and>
     count (answered req code) (trace w') = count (answered req code) (trace w) + 1"

text \<open>Two results of which the first is true. A value as \<open>lua_tostring\<close> leaves it where it is: a number becomes its
  text.\<close>

definition wants_reply :: "TValue list \<Rightarrow> bool" where
  "wants_reply vs \<longleftrightarrow> length vs = 2 \<and> \<not> l_isfalse (vs ! 0)"

definition texted :: "TValue \<Rightarrow> TValue" where
  "texted v = (case tostring v of None \<Rightarrow> v | Some s \<Rightarrow> TString s)"

lemma lua_tostring_top:
  assumes "stk L = S @ [v]"
  shows "lua_tostring (- 1) L = Ok (map_option c_str (tostring v)) (L\<lparr>stk := S @ [texted v]\<rparr>)"
  using assms
  by (cases v) (simp_all add: lua_tostring_def lua_tolstring_def texted_def api_simps nth_append)

text \<open>The state the script is called in: the table of the request, in which its fields are, is new.\<close>

definition handler_globals :: "world global_State \<Rightarrow> ptr \<Rightarrow> request \<Rightarrow> Table \<Rightarrow> world global_State" where
  "handler_globals G req r t =
     G\<lparr>tables := (tables G)(next_ref G \<mapsto> t), next_ref := Suc (next_ref G), world := request_log req r (world G)\<rparr>"

lemma quiet_log: "log_debug E fmt args w = WOk () w' \<Longrightarrow>
  quiet w w' \<and> count (answered req code) (trace w') = count (answered req code) (trace w)"
  using shiftsD [OF log_debug_other] by (fastforce simp: quiet_def log_calls_def)

lemma quiet_request_log: "quiet w (request_log req r w)"
  by (simp add: quiet_def request_log_def logged_def)

lemma answers_after_quiet:
  "quiet w w' \<Longrightarrow> count (answered req code) (trace w') = count (answered req code) (trace w) \<Longrightarrow>
    answers_with req code w' w'' \<Longrightarrow> answers_with req code w w''"
  by (simp add: quiet_def answers_with_def)

text \<open>The reply after a script that returned, and the error after one that did not return two results.\<close>

lemma reply_returned:
  assumes "stk L = S @ vs" "wants_reply vs"
  shows "tostring (vs ! 1) = None \<Longrightarrow> send_result E req (int (length vs)) L = Undefined"
    and "tostring (vs ! 1) \<noteq> None \<Longrightarrow>
      \<exists>w. send_result E req (int (length vs)) L =
        Ok () (L\<lparr>stk := S @ [vs ! 0, texted (vs ! 1)], gs := (gs L)\<lparr>world := w\<rparr>\<rparr>) \<and> answers_with req HTTP_OK (world (gs L)) w"
proof -
  obtain v1 v2 where v: "vs = [v1, v2]" "\<not> l_isfalse v1"
    using assms(2) by (cases vs rule: list.exhaust [case_product list.exhaust]) (auto simp: wants_reply_def length_Suc_conv numeral_2_eq_2)
  have stk: "stk L = (S @ [v1]) @ [v2]" using assms(1) v by simp
  have t: "lua_tostring (- 1) (L\<lparr>gs := g\<rparr>) = Ok (map_option c_str (tostring v2)) (L\<lparr>gs := g, stk := (S @ [v1]) @ [texted v2]\<rparr>)" for g
    using lua_tostring_top [of "L\<lparr>gs := g\<rparr>" "S @ [v1]" v2] stk by simp
  show "send_result E req (int (length vs)) L = Undefined" if "tostring (vs ! 1) = None"
    using that v(2) stk t by (simp add: v(1) send_result_def api_simps nth_append)
  show "\<exists>w. send_result E req (int (length vs)) L =
      Ok () (L\<lparr>stk := S @ [vs ! 0, texted (vs ! 1)], gs := (gs L)\<lparr>world := w\<rparr>\<rparr>) \<and> answers_with req HTTP_OK (world (gs L)) w"
    if some: "tostring (vs ! 1) \<noteq> None"
  proof -
    obtain s where "tostring v2 = Some s" using some by (auto simp: v(1))
    then show ?thesis using v(2) stk t by (auto simp: v(1) send_result_def api_simps nth_append answers_with_def)
  qed
qed

lemma send_error_answers:
  assumes "stk L = S @ vs" "\<not> wants_reply vs"
  shows "\<exists>w. send_result E req (int (length vs)) L = Ok () (L\<lparr>gs := (gs L)\<lparr>world := w\<rparr>\<rparr>) \<and>
    answers_with req HTTP_INTERNAL (world (gs L)) w"
proof (cases "length vs = 2")
  case False
  then show ?thesis by (auto simp: send_result_def send_internal_error_def api_simps answers_with_def)
next
  case True
  then obtain v1 v2 where v: "vs = [v1, v2]" by (cases vs rule: list.exhaust [case_product list.exhaust]) (auto simp: length_Suc_conv numeral_2_eq_2)
  with assms(2) have "l_isfalse v1" by (simp add: wants_reply_def)
  then show ?thesis
    using assms(1) by (auto simp: v send_result_def send_internal_error_def api_simps nth_append answers_with_def)
qed

text \<open>The call of the script's handler and what is done with its results, from the state with the function and the
  table on the stack.\<close>

definition handled :: "env \<Rightarrow> scripts \<Rightarrow> ptr \<Rightarrow> unit L" where
  "handled E B req = bindM (call_lua_script E B 1) (send_result E req)"

lemma handled_returned:
  assumes L: "stk L = S @ TFunction fa # [TTable a]" "nCcalls L < 199" and B: "B None fa [TTable a] (gs L) = Returned vs g"
  shows "wants_reply vs \<Longrightarrow> tostring (vs ! 1) = None \<Longrightarrow> handled E B req L = Undefined"
    and "\<not> (wants_reply vs \<and> tostring (vs ! 1) = None) \<Longrightarrow>
      \<exists>w. handled E B req L = Ok () (grown (L\<lparr>stk := S @ (if wants_reply vs then [vs ! 0, texted (vs ! 1)] else vs), gs := g\<lparr>world := w\<rparr>\<rparr>)) \<and>
        answers_with req (if wants_reply vs then HTTP_OK else HTTP_INTERNAL) (world g) w"
proof -
  let ?L = "grown (L\<lparr>stk := S @ vs, gs := g\<rparr>)"
  have c: "call_lua_script E B 1 L = Ok (int (length vs)) ?L"
    using call_script_returned [where B = B and n = 1, OF L(1) _ L(2) B] by simp
  have stk: "stk ?L = S @ vs" by simp
  show "handled E B req L = Undefined" if "wants_reply vs" "tostring (vs ! 1) = None"
    using c reply_returned(1) [OF stk that] by (simp add: handled_def bindM_exec)
  have len: "length [vs ! 0, x] = length vs" if "wants_reply vs" for x using that by (simp add: wants_reply_def)
  show "\<exists>w. handled E B req L = Ok () (grown (L\<lparr>stk := S @ (if wants_reply vs then [vs ! 0, texted (vs ! 1)] else vs), gs := g\<lparr>world := w\<rparr>\<rparr>)) \<and>
        answers_with req (if wants_reply vs then HTTP_OK else HTTP_INTERNAL) (world g) w"
    if "\<not> (wants_reply vs \<and> tostring (vs ! 1) = None)"
  proof (cases "wants_reply vs")
    case True
    with that have "tostring (vs ! 1) \<noteq> None" by simp
    from reply_returned(2) [OF stk True this, of E req] obtain w where
      "send_result E req (int (length vs)) ?L = Ok () (?L\<lparr>stk := S @ [vs ! 0, texted (vs ! 1)], gs := g\<lparr>world := w\<rparr>\<rparr>)"
      "answers_with req HTTP_OK (world g) w" by auto
    then show ?thesis using True c len [OF True]
      by (intro exI [of _ w]) (simp add: handled_def bindM_exec grown_def)
  next
    case False
    from send_error_answers [OF stk False, of E req] obtain w where
      "send_result E req (int (length vs)) ?L = Ok () (?L\<lparr>gs := g\<lparr>world := w\<rparr>\<rparr>)"
      "answers_with req HTTP_INTERNAL (world g) w" by auto
    then show ?thesis using False c by (intro exI [of _ w]) (simp add: handled_def bindM_exec grown_def)
  qed
qed

lemma send_none_answers:
  "\<exists>w. send_result E req 0 L = Ok () (L\<lparr>gs := (gs L)\<lparr>world := w\<rparr>\<rparr>) \<and>
    answers_with req HTTP_INTERNAL (world (gs L)) w"
  by (auto simp: send_result_def send_internal_error_def api_simps answers_with_def)

lemma handled_failed:
  assumes L: "stk L = S @ TFunction fa # [TTable a]" "nCcalls L < 199" and log: "strftime_gives E tm"
    and B: "B None fa [TTable a] (gs L) = Failed st v g" "st \<noteq> 0"
  shows "\<exists>w. handled E B req L = Ok () (grown (L\<lparr>stk := S @ [texted v], gs := g\<lparr>world := w\<rparr>\<rparr>)) \<and>
    answers_with req HTTP_INTERNAL (world g) w"
proof -
  let ?L = "grown (L\<lparr>stk := S @ [v], gs := g\<rparr>)"
  let ?msg = "map_option c_str (tostring v)"
  obtain w where w: "log_debug E ''%s'' [CStr ?msg] (world g) = WOk () w"
    using log_debug_comes_back [OF log] by blast
  have t: "lua_tostring (- 1) ?L = Ok ?msg (?L\<lparr>stk := S @ [texted v]\<rparr>)" by (rule lua_tostring_top) simp
  have "call_lua_script E B 1 L = Ok 0 (grown (L\<lparr>stk := S @ [texted v], gs := g\<lparr>world := w\<rparr>\<rparr>))"
    using lua_pcall_exec [OF L(1) _ L(2), of 1 B] L(1) B t w
    by (simp add: call_lua_script_def Let_def api_simps log_debugM_def grown_def)
  moreover obtain w' where "send_result E req 0 (grown (L\<lparr>stk := S @ [texted v], gs := g\<lparr>world := w\<rparr>\<rparr>)) =
      Ok () (grown (L\<lparr>stk := S @ [texted v], gs := g\<lparr>world := w\<rparr>\<rparr>)\<lparr>gs := g\<lparr>world := w'\<rparr>\<rparr>)"
    "answers_with req HTTP_INTERNAL w w'"
    using send_none_answers [of E req "grown (L\<lparr>stk := S @ [texted v], gs := g\<lparr>world := w\<rparr>\<rparr>)"] by auto
  ultimately show ?thesis
    using answers_after_quiet [of "world g" w req HTTP_INTERNAL w'] quiet_log [OF w]
    by (intro exI [of _ w']) (simp add: handled_def bindM_exec grown_def)
qed

text \<open>C4: A request whose URI was parsed, with a handler function in the scripts, is answered exactly once by the
  handler, and no other request is. The script is called with the new table of the request. If it
  returns two results, the first true and the second text or a number, the answer is a reply with code
  200 and exactly the two results stay on the stack, the number turned into its text; with any other
  results the answer is an error 500 and exactly the results stay; if it fails, the answer is an error
  500 and exactly the error value stays (a number turned into its text). Two results, the first true
  and the second without a text, make a null format, which is undefined; a script that does
  not return leaves the handler without a result. Answers the script itself has given before are those of its final
  state.\<close>

theorem http_handler_answers_once:
  assumes "l_gt (gs L) = TTable gt" "has_table (gs L) gt f" "f (TString ''http_request_handler'') = TFunction fa"
    and "describes E req r" "r_uri r \<noteq> 0" "strftime_gives E tm"
    and "length (stk L) + 4 \<le> ci_top L" "nCcalls L < 199"
  shows "quiet (world (gs L)) (request_log req r (world (gs L))) \<and>
    (\<exists>t. table_inv t \<and> tabs t = request_map r \<and> metatable t = None \<and>
      (case B None fa [TTable (next_ref (gs L))] (handler_globals (gs L) req r t) of
         Returned vs g \<Rightarrow>
           if wants_reply vs \<and> tostring (vs ! 1) = None then http_handler_lua E B req L = Undefined
           else \<exists>w. http_handler_lua E B req L =
                    Ok () (grown (L\<lparr>stk := stk L @ (if wants_reply vs then [vs ! 0, texted (vs ! 1)] else vs), gs := g\<lparr>world := w\<rparr>\<rparr>)) \<and>
                  answers_with req (if wants_reply vs then HTTP_OK else HTTP_INTERNAL) (world g) w
       | Failed st v g \<Rightarrow> st \<noteq> 0 \<longrightarrow>
           (\<exists>w. http_handler_lua E B req L = Ok () (grown (L\<lparr>stk := stk L @ [texted v], gs := g\<lparr>world := w\<rparr>\<rparr>)) \<and>
                answers_with req HTTP_INTERNAL (world g) w)
       | NoReturn \<Rightarrow> http_handler_lua E B req L = Undefined))"
proof -
  let ?a = "next_ref (gs L)"
  let ?L1 = "L\<lparr>stk := stk L @ [TFunction fa]\<rparr>"
  have find: "find_lua_global_function B ''http_request_handler'' L = Ok True ?L1"
    using find_global_exec [OF assms(1,2), of B "''http_request_handler''"] assms(3,7)
    by (simp add: str_key_def c_str_def NUL_def)
  obtain t where t: "http_request_to_lua_table E B req ?L1 = Ok ()
      (L\<lparr>stk := stk L @ [TFunction fa, TTable ?a], gs := handler_globals (gs L) req r t\<rparr>)"
    "table_inv t" "tabs t = request_map r" "metatable t = None"
    using request_to_table [OF assms(4,5), of ?L1 B] assms(7) by (auto simp: handler_globals_def)
  define L2 where "L2 = L\<lparr>stk := stk L @ [TFunction fa, TTable ?a], gs := handler_globals (gs L) req r t\<rparr>"
  have L2: "stk L2 = stk L @ TFunction fa # [TTable ?a]" "nCcalls L2 < 199" "gs L2 = handler_globals (gs L) req r t"
    and upd: "L2\<lparr>stk := x, gs := y\<rparr> = L\<lparr>stk := x, gs := y\<rparr>" for x y
    using assms(8) by (simp_all add: L2_def)
  have h: "http_handler_lua E B req L = handled E B req L2"
    using find t(1) by (simp add: http_handler_lua_def handled_def bindM_exec thenM_apply L2_def)
  note ret = handled_returned [where B = B and E = E and req = req, OF L2(1,2), unfolded L2(3) upd]
  note fail = handled_failed [where B = B and E = E and req = req, OF L2(1,2) assms(6), unfolded L2(3) upd]
  have "case B None fa [TTable ?a] (handler_globals (gs L) req r t) of
         Returned vs g \<Rightarrow>
           if wants_reply vs \<and> tostring (vs ! 1) = None then http_handler_lua E B req L = Undefined
           else \<exists>w. http_handler_lua E B req L =
                    Ok () (grown (L\<lparr>stk := stk L @ (if wants_reply vs then [vs ! 0, texted (vs ! 1)] else vs), gs := g\<lparr>world := w\<rparr>\<rparr>)) \<and>
                  answers_with req (if wants_reply vs then HTTP_OK else HTTP_INTERNAL) (world g) w
       | Failed st v g \<Rightarrow> st \<noteq> 0 \<longrightarrow>
           (\<exists>w. http_handler_lua E B req L = Ok () (grown (L\<lparr>stk := stk L @ [texted v], gs := g\<lparr>world := w\<rparr>\<rparr>)) \<and>
                answers_with req HTTP_INTERNAL (world g) w)
       | NoReturn \<Rightarrow> http_handler_lua E B req L = Undefined"
  proof (cases "B None fa [TTable ?a] (handler_globals (gs L) req r t)")
    case (Returned vs g)
    show ?thesis
    proof (cases "wants_reply vs \<and> tostring (vs ! 1) = None")
      case True
      then show ?thesis using ret(1) [OF Returned] by (simp add: h Returned)
    next
      case False
      from ret(2) [OF Returned False] show ?thesis unfolding h Returned callres.case if_not_P [OF False] .
    qed
  next
    case (Failed st v g)
    then show ?thesis unfolding h using fail [OF Failed] by simp
  next
    case NoReturn
    then show ?thesis
      using lua_pcall_exec [OF L2(1) _ L2(2), of 1 B] L2(1,3)
      by (simp add: h handled_def call_lua_script_def Let_def api_simps)
  qed
  then show ?thesis using t(2,3,4) quiet_request_log by blast
qed

theorem http_handler_answers_once_witness:
  "\<exists>g w. http_handler_lua sample_env (\<lambda>_ fa args g. Returned [TBoolean True, TString ''buduiba''] g) 7
      (sample_state (one_field ''http_request_handler'' (TFunction 5)) [] start_world) =
      Ok () ((sample_state (one_field ''http_request_handler'' (TFunction 5)) [] start_world)
        \<lparr>stk := [TBoolean True, TString ''buduiba''], gs := g\<lparr>world := w\<rparr>\<rparr>) \<and>
    count (answered 7 200) (trace w) = count (answered 7 200) (trace (world g)) + 1"
proof -
  let ?B = "\<lambda>_ fa args g. Returned [TBoolean True, TString ''buduiba''] g"
  let ?L = "sample_state (one_field ''http_request_handler'' (TFunction 5)) [] start_world"
  have g: "l_gt (gs ?L) = TTable 2" "r_uri sample_request \<noteq> 0" "length (stk ?L) + 4 \<le> ci_top ?L" "nCcalls ?L < 199"
    "strftime_gives sample_env (\<lambda>_. ''12:00:00'')"
    by (simp_all add: sample_request_def strftime_gives_def)
  have "grown (?L\<lparr>stk := [TBoolean True, TString ''buduiba''], gs := x\<rparr>) = ?L\<lparr>stk := [TBoolean True, TString ''buduiba''], gs := x\<rparr>" for x
    by (simp add: grown_def)
  with http_handler_answers_once [OF g(1) sample_has_table _ sample_describes g(2,5,3,4), of 5 ?B]
  show ?thesis by (auto simp: wants_reply_def texted_def answers_with_def)
qed

end
