(* ===== verification/Server_Main.thy ===== *)
theory Server_Main
  imports Httpd Echo
begin

text \<open>
  The entry point: src/src/main.c. The arguments of \<open>run_main\<close> are the program's command line, a fresh
  interpreter with its libraries, and the events each of the three loops sees until it ends.
\<close>

definition show_help :: "env \<Rightarrow> unit W" where
  "show_help E =
     log_print E (''usage:'' @ newline @ ''  -e ip:port  start echo server'' @ newline @
       ''  -h start http server'' @ newline @ ''  -s start test server'' @ newline) []"

record inputs =
  newstate :: "lstate option"
  openlibs :: "unit L"
  httpd_events :: "httpd_event list"
  echo_events :: "echo_event list"
  test_events :: "test_event list"

text \<open>The start and the end function of the program a letter names.\<close>

definition program_of :: "env \<Rightarrow> scripts \<Rightarrow> inputs \<Rightarrow> string list \<Rightarrow> char \<Rightarrow> unit W option" where
  "program_of E B i argv c =
     (if c = CHR ''h'' then
        Some (bindW (init_httpd E B (newstate i) (openlibs i) (httpd_events i)) (\<lambda>L. bindW (close_httpd E L) (\<lambda>_. retW ())))
      else if c = CHR ''e'' then Some (thenW (init_echo E (echo_events i) argv) (close_echo E))
      else if c = CHR ''s'' then Some (thenW (init_test_server E (test_events i) argv) (close_test_server E))
      else None)"

definition run_main :: "env \<Rightarrow> scripts \<Rightarrow> inputs \<Rightarrow> string list \<Rightarrow> int W" where
  "run_main E B i argv =
     (if length argv < 2 then thenW (show_help E) (retW 0)
      else let pro = argv ! 1
           in if length pro < 2 \<or> pro ! 0 \<noteq> CHR ''-'' then thenW (show_help E) (retW 0)
              else case program_of E B i argv (pro ! 1) of
                None \<Rightarrow> thenW (show_help E) (retW 0)
              | Some program \<Rightarrow> thenW (runW [init_engine E, program, close_engine E]) (retW 0))"

end
