(* ===== verification/Lua_Lex.thy ===== *)
theory Lua_Lex
  imports Lua_Convert
begin

text \<open>
  The lexical analyzer of the scripts: src/lib/lua/llex.c. The input stream is represented by the bytes
  it still delivers (\<open>zs\<close>), the end of the stream by the current character \<open>None\<close>; the analyzer
  never reads on after the end. A token carries its semantic information, and an error is the message of
  the syntax error. The token buffer is not limited, memory does not run out, and the character classes
  are those of the C locale, which the program never leaves.
\<close>

section \<open>Tokens\<close>

datatype Token =
    TK_CHAR char
  | TK_AND | TK_BREAK | TK_DO | TK_ELSE | TK_ELSEIF | TK_END | TK_FALSE | TK_FOR | TK_FUNCTION
  | TK_IF | TK_IN | TK_LOCAL | TK_NIL | TK_NOT | TK_OR | TK_REPEAT
  | TK_RETURN | TK_THEN | TK_TRUE | TK_UNTIL | TK_WHILE
  | TK_CONCAT | TK_DOTS | TK_EQ | TK_GE | TK_LE | TK_NE
  | TK_NUMBER lua_Number | TK_NAME string | TK_STRING string | TK_EOS

definition reserved_words :: "(string \<times> Token) list" where
  "reserved_words =
    [(''and'', TK_AND), (''break'', TK_BREAK), (''do'', TK_DO), (''else'', TK_ELSE), (''elseif'', TK_ELSEIF),
     (''end'', TK_END), (''false'', TK_FALSE), (''for'', TK_FOR), (''function'', TK_FUNCTION), (''if'', TK_IF),
     (''in'', TK_IN), (''local'', TK_LOCAL), (''nil'', TK_NIL), (''not'', TK_NOT), (''or'', TK_OR), (''repeat'', TK_REPEAT),
     (''return'', TK_RETURN), (''then'', TK_THEN), (''true'', TK_TRUE), (''until'', TK_UNTIL), (''while'', TK_WHILE)]"

fun luaX_tokens :: "Token \<Rightarrow> string" where
  "luaX_tokens TK_CONCAT = ''..''"
| "luaX_tokens TK_DOTS = ''...''"
| "luaX_tokens TK_EQ = ''==''"
| "luaX_tokens TK_GE = ''>=''"
| "luaX_tokens TK_LE = ''<=''"
| "luaX_tokens TK_NE = ''~=''"
| "luaX_tokens (TK_NUMBER r) = ''<number>''"
| "luaX_tokens (TK_NAME s) = ''<name>''"
| "luaX_tokens (TK_STRING s) = ''<string>''"
| "luaX_tokens TK_EOS = ''<eof>''"
| "luaX_tokens t = (case find (\<lambda>(w, u). u = t) reserved_words of Some (w, u) \<Rightarrow> w | None \<Rightarrow> [])"

section \<open>State and errors\<close>

text \<open>\<open>anchored\<close> are the keys of the table \<^verbatim>\<open>fs->h\<close>, which keeps the strings of the chunk from collection.\<close>

record LexState =
  current :: "char option"
  linenumber :: int
  lastline :: int
  tok :: Token
  ahead :: Token
  zs :: string
  buff :: string
  source :: string
  decpoint :: char
  anchored :: "string list"

definition next_char :: "LexState \<Rightarrow> LexState" where
  "next_char ls = (case zs ls of [] \<Rightarrow> ls\<lparr>current := None\<rparr> | c # cs \<Rightarrow> ls\<lparr>current := Some c, zs := cs\<rparr>)"

definition currIsNewline :: "LexState \<Rightarrow> bool" where
  "currIsNewline ls \<longleftrightarrow> current ls = Some (CHR 0x0A) \<or> current ls = Some (CHR 0x0D)"

definition save :: "LexState \<Rightarrow> char \<Rightarrow> LexState" where
  "save ls c = ls\<lparr>buff := buff ls @ [c]\<rparr>"

text \<open>The end of the stream, minus one, is saved as the byte 255.\<close>

definition save_and_next :: "LexState \<Rightarrow> LexState" where
  "save_and_next ls = next_char (save ls (case current ls of None \<Rightarrow> CHR 0xFF | Some c \<Rightarrow> c))"

definition luaX_token2str :: "Token \<Rightarrow> string" where
  "luaX_token2str t =
     (case t of
        TK_CHAR c \<Rightarrow> if iscntrl c then ''char('' @ nat_str (of_char c) @ '')'' else [c]
      | _ \<Rightarrow> luaX_tokens t)"

definition txtToken :: "LexState \<Rightarrow> Token \<Rightarrow> string" where
  "txtToken ls t =
     (case t of
        TK_NAME s \<Rightarrow> c_str (buff ls @ [NUL])
      | TK_STRING s \<Rightarrow> c_str (buff ls @ [NUL])
      | TK_NUMBER r \<Rightarrow> c_str (buff ls @ [NUL])
      | _ \<Rightarrow> luaX_token2str t)"

abbreviation (input) MAXSRC :: nat where "MAXSRC \<equiv> 80"

definition luaX_lexerror :: "LexState \<Rightarrow> string \<Rightarrow> Token option \<Rightarrow> string + 'a" where
  "luaX_lexerror ls msg token =
     (let m = luaO_chunkid (source ls) MAXSRC @ '':'' @ int_str (linenumber ls) @ '': '' @ msg
      in Inl (case token of None \<Rightarrow> m | Some t \<Rightarrow> m @ '' near '' @ [CHR 0x27] @ txtToken ls t @ [CHR 0x27]))"

definition luaX_syntaxerror :: "LexState \<Rightarrow> string \<Rightarrow> string + 'a" where
  "luaX_syntaxerror ls msg = luaX_lexerror ls msg (Some (tok ls))"

definition luaX_newstring :: "LexState \<Rightarrow> string \<Rightarrow> LexState" where
  "luaX_newstring ls s = (if s \<in> set (anchored ls) then ls else ls\<lparr>anchored := s # anchored ls\<rparr>)"

definition inclinenumber :: "LexState \<Rightarrow> string + LexState" where
  "inclinenumber ls =
     (let l1 = next_char ls;
          l2 = (if currIsNewline l1 \<and> current l1 \<noteq> current ls then next_char l1 else l1);
          l3 = l2\<lparr>linenumber := linenumber l2 + 1\<rparr>
      in if MAX_INT \<le> linenumber l3 then luaX_syntaxerror l3 ''chunk has too many lines'' else Inr l3)"

definition luaX_setinput :: "string \<Rightarrow> string \<Rightarrow> LexState" where
  "luaX_setinput z src =
     next_char \<lparr>current = None, linenumber = 1, lastline = 1, tok = TK_EOS, ahead = TK_EOS, zs = z, buff = [],
       source = src, decpoint = CHR ''.'', anchored = []\<rparr>"

text \<open>The bytes not yet consumed; it decreases with every character.\<close>

definition remaining :: "LexState \<Rightarrow> nat" where
  "remaining ls = length (zs ls) + (if current ls = None then 0 else 1)"

named_theorems lex_simps \<open>what the steps of the analyzer consume\<close>

lemma remaining_next [lex_simps]: "remaining (next_char ls) = length (zs ls)"
  by (simp add: remaining_def next_char_def split: list.split)

lemma remaining_save [lex_simps]: "remaining (save ls c) = remaining ls" "current (save ls c) = current ls" "zs (save ls c) = zs ls"
  by (simp_all add: remaining_def save_def)

lemma remaining_save_and_next [lex_simps]: "remaining (save_and_next ls) = length (zs ls)"
  by (simp add: save_and_next_def lex_simps)

lemma current_remaining: "current ls = Some c \<Longrightarrow> remaining ls = Suc (length (zs ls))"
  by (simp add: remaining_def)

lemma zs_remaining: "length (zs ls) \<le> remaining ls"
  by (simp add: remaining_def)

lemma remaining_inclinenumber:
  assumes "inclinenumber ls = Inr ls'" "current ls = Some c"
  shows "remaining ls' < remaining ls"
proof -
  have "\<exists>l. ls' = l\<lparr>linenumber := linenumber l + 1\<rparr> \<and> (l = next_char ls \<or> l = next_char (next_char ls))"
    using assms(1) by (auto simp: inclinenumber_def Let_def luaX_syntaxerror_def luaX_lexerror_def split: if_splits)
  then obtain l where l: "ls' = l\<lparr>linenumber := linenumber l + 1\<rparr>" "l = next_char ls \<or> l = next_char (next_char ls)" by blast
  have "remaining ls' = remaining l" by (simp add: l remaining_def)
  moreover have "remaining l \<le> length (zs ls)"
    using l(2) zs_remaining [of "next_char ls"] by (auto simp: lex_simps)
  ultimately show ?thesis using current_remaining [OF assms(2)] by simp
qed

section \<open>Numerals\<close>

text \<open>\<^verbatim>\<open>strchr\<close> also finds the terminating zero byte.\<close>

definition check_next :: "LexState \<Rightarrow> string \<Rightarrow> bool \<times> LexState" where
  "check_next ls cs =
     (case current ls of
        None \<Rightarrow> if CHR 0xFF \<in> set cs then (True, save_and_next ls) else (False, ls)
      | Some c \<Rightarrow> if strchr (cs @ [NUL]) c \<noteq> None then (True, save_and_next ls) else (False, ls))"

definition buffreplace :: "LexState \<Rightarrow> char \<Rightarrow> char \<Rightarrow> LexState" where
  "buffreplace ls a b = ls\<lparr>buff := map (\<lambda>c. if c = a then b else c) (buff ls)\<rparr>"

text \<open>The decimal point of the C locale is a point.\<close>

definition trydecpoint :: "LexState \<Rightarrow> string + lua_Number \<times> LexState" where
  "trydecpoint ls =
     (let l1 = ls\<lparr>decpoint := CHR ''.''\<rparr>; l2 = buffreplace l1 (decpoint ls) (decpoint l1)
      in case luaO_str2d (buff l2) of
           Some r \<Rightarrow> Inr (r, l2)
         | None \<Rightarrow> luaX_lexerror (buffreplace l2 (decpoint l2) (CHR ''.'')) ''malformed number'' (Some (TK_NUMBER 0)))"

function save_while :: "(char \<Rightarrow> bool) \<Rightarrow> LexState \<Rightarrow> LexState" where
  "save_while P ls =
     (case current ls of
        None \<Rightarrow> ls
      | Some c \<Rightarrow> if P c then save_while P (save_and_next ls) else ls)"
  by pat_completeness auto
termination
  by (relation "measure (\<lambda>(P, ls). remaining ls)") (auto simp: lex_simps current_remaining)

declare save_while.simps [simp del]

lemma remaining_save_while: "remaining (save_while P ls) \<le> remaining ls"
proof (induction P ls rule: save_while.induct)
  case (1 P ls)
  show ?case
  proof (cases "current ls")
    case (Some c)
    then show ?thesis using 1 current_remaining [OF Some]
      by (subst save_while.simps) (auto simp: lex_simps split: if_splits)
  qed (simp add: save_while.simps)
qed

definition is_name_char :: "char \<Rightarrow> bool" where
  "is_name_char c \<longleftrightarrow> isalnum c \<or> c = CHR ''_''"

definition scan_numeral :: "LexState \<Rightarrow> LexState" where
  "scan_numeral ls =
     (let l1 = save_while (\<lambda>c. isdigit c \<or> c = CHR ''.'') (save_and_next ls);
          (e, l2) = check_next l1 ''Ee'';
          l3 = (if e then snd (check_next l2 ''+-'') else l2);
          l4 = save_while is_name_char l3
      in buffreplace (save l4 NUL) (CHR ''.'') (decpoint l4))"

definition read_numeral :: "LexState \<Rightarrow> string + lua_Number \<times> LexState" where
  "read_numeral ls =
     (let l1 = scan_numeral ls
      in case luaO_str2d (buff l1) of Some r \<Rightarrow> Inr (r, l1) | None \<Rightarrow> trydecpoint l1)"

section \<open>Strings\<close>

function count_equals :: "int \<Rightarrow> LexState \<Rightarrow> int \<times> LexState" where
  "count_equals n ls = (if current ls = Some (CHR ''='') then count_equals (n + 1) (save_and_next ls) else (n, ls))"
  by pat_completeness auto
termination
  by (relation "measure (\<lambda>(n, ls). remaining ls)") (auto simp: lex_simps current_remaining)

declare count_equals.simps [simp del]

definition skip_sep :: "LexState \<Rightarrow> int \<times> LexState" where
  "skip_sep ls =
     (case count_equals 0 (save_and_next ls) of (count, l1) \<Rightarrow>
        (if current l1 = current ls then count else - count - 1, l1))"

lemma remaining_count_equals: "count_equals n ls = (m, ls') \<Longrightarrow> remaining ls' \<le> remaining ls"
proof (induction n ls rule: count_equals.induct)
  case (1 n ls)
  then show ?case using current_remaining [of ls "CHR ''=''"]
    by (subst (asm) (2) count_equals.simps) (fastforce simp: lex_simps split: if_splits)
qed

lemma remaining_skip_sep:
  assumes "skip_sep ls = (n, ls')" "current ls = Some c"
  shows "remaining ls' < remaining ls"
  using assms remaining_count_equals [of 0 "save_and_next ls"] current_remaining [OF assms(2)]
  by (auto simp: skip_sep_def lex_simps le_imp_less_Suc split: prod.splits)

definition reset_buff :: "LexState \<Rightarrow> LexState" where
  "reset_buff ls = ls\<lparr>buff := []\<rparr>"

lemma remaining_reset [lex_simps]: "remaining (reset_buff ls) = remaining ls" "current (reset_buff ls) = current ls"
  "zs (reset_buff ls) = zs ls"
  by (simp_all add: reset_buff_def remaining_def)

text \<open>The loop up to the closing bracket; \<open>sem\<close> is false in a comment, which is not kept.\<close>

function long_loop :: "bool \<Rightarrow> int \<Rightarrow> LexState \<Rightarrow> string + LexState" where
  "long_loop sem sep ls =
     (case current ls of
        None \<Rightarrow> luaX_lexerror ls (if sem then ''unfinished long string'' else ''unfinished long comment'') (Some TK_EOS)
      | Some c \<Rightarrow>
          if c = CHR ''['' then
            (case skip_sep ls of (n, l1) \<Rightarrow>
               if n = sep then
                 (if sep = 0 then luaX_lexerror (save_and_next l1) ''nesting of [[...]] is deprecated'' (Some (TK_CHAR (CHR ''['')))
                  else long_loop sem sep (save_and_next l1))
               else long_loop sem sep l1)
          else if c = CHR '']'' then
            (case skip_sep ls of (n, l1) \<Rightarrow>
               if n = sep then Inr (save_and_next l1) else long_loop sem sep l1)
          else if c = CHR 0x0A \<or> c = CHR 0x0D then
            (case inclinenumber (save ls (CHR 0x0A)) of
               Inl e \<Rightarrow> Inl e
             | Inr l1 \<Rightarrow> long_loop sem sep (if sem then l1 else reset_buff l1))
          else long_loop sem sep (if sem then save_and_next ls else next_char ls))"
  by pat_completeness auto
termination
proof -
  have 1: "remaining l1 < Suc (length (zs ls)) \<and> length (zs l1) < Suc (length (zs ls))"
    if "(n, l1) = skip_sep ls" "current ls = Some c" for n l1 ls c
    using remaining_skip_sep [OF that(1) [symmetric] that(2)] zs_remaining [of l1] current_remaining [OF that(2)] by simp
  have 2: "remaining l1 < Suc (length (zs ls))" if "inclinenumber (save ls b) = Inr l1" "current ls = Some c" for l1 ls b c
    using remaining_inclinenumber [OF that(1), of c] that(2) current_remaining [OF that(2)] by (simp add: lex_simps)
  show ?thesis
    by (relation "measure (\<lambda>(sem, sep, ls). remaining ls)")
      (auto simp: lex_simps current_remaining dest: 1 2)
qed

declare long_loop.simps [simp del]

definition read_long_string :: "bool \<Rightarrow> int \<Rightarrow> LexState \<Rightarrow> string + Token \<times> LexState" where
  "read_long_string sem sep ls =
     (let l1 = save_and_next ls in
      bindE (if currIsNewline l1 then inclinenumber l1 else Inr l1) (\<lambda>l2.
      bindE (long_loop sem sep l2) (\<lambda>l3.
        if sem then
          let k = nat (2 + sep); s = take (length (buff l3) - 2 * k) (drop k (buff l3))
          in Inr (TK_STRING s, luaX_newstring l3 s)
        else Inr (TK_EOS, l3))))"

text \<open>Up to three decimal digits.\<close>

fun read_dec :: "nat \<Rightarrow> nat \<Rightarrow> LexState \<Rightarrow> nat \<times> LexState" where
  "read_dec 0 v ls = (v, ls)"
| "read_dec (Suc i) v ls =
     (case current ls of
        Some d \<Rightarrow> if isdigit d then read_dec i (10 * v + digit_val d) (next_char ls) else (v, ls)
      | None \<Rightarrow> (v, ls))"

text \<open>The characters \<open>a b f n r t v\<close> after a backslash.\<close>

definition escape_char :: "char \<Rightarrow> char option" where
  "escape_char c =
     map_of [(CHR ''a'', CHR 0x07), (CHR ''b'', CHR 0x08), (CHR ''f'', CHR 0x0C), (CHR ''n'', CHR 0x0A),
       (CHR ''r'', CHR 0x0D), (CHR ''t'', CHR 0x09), (CHR ''v'', CHR 0x0B)] c"

text \<open>After the backslash; at the end of the stream the next round of the loop raises the error.\<close>

definition read_escape :: "LexState \<Rightarrow> string + LexState" where
  "read_escape ls =
     (case current ls of
        None \<Rightarrow> Inr ls
      | Some c \<Rightarrow>
          (case escape_char c of
             Some e \<Rightarrow> Inr (next_char (save ls e))
           | None \<Rightarrow>
               if c = CHR 0x0A \<or> c = CHR 0x0D then inclinenumber (save ls (CHR 0x0A))
               else if \<not> isdigit c then Inr (save_and_next ls)
               else case read_dec 3 0 ls of (v, l1) \<Rightarrow>
                 if 255 < v then luaX_lexerror l1 ''escape sequence too large'' (Some (TK_STRING []))
                 else Inr (save l1 (char_of v))))"

lemma remaining_read_dec: "remaining (snd (read_dec i v ls)) \<le> remaining ls"
proof (induction i arbitrary: v ls)
  case (Suc i)
  then show ?case using zs_remaining [of ls]
    by (auto simp: lex_simps split: option.split) (metis le_trans lex_simps(1))
qed simp

lemma remaining_read_escape: "read_escape ls = Inr ls' \<Longrightarrow> remaining ls' \<le> remaining ls"
  using remaining_read_dec [of 3 0 ls] remaining_inclinenumber [of "save ls (CHR 0x0A)" ls'] zs_remaining [of ls]
  by (auto simp: read_escape_def luaX_lexerror_def lex_simps Let_def split: option.splits if_splits prod.splits intro: less_imp_le)

function string_loop :: "char \<Rightarrow> LexState \<Rightarrow> string + LexState" where
  "string_loop del ls =
     (case current ls of
        None \<Rightarrow> luaX_lexerror ls ''unfinished string'' (Some TK_EOS)
      | Some c \<Rightarrow>
          if c = del then Inr ls
          else if c = CHR 0x0A \<or> c = CHR 0x0D then luaX_lexerror ls ''unfinished string'' (Some (TK_STRING []))
          else if c = CHR 0x5C then
            (case read_escape (next_char ls) of Inl e \<Rightarrow> Inl e | Inr l1 \<Rightarrow> string_loop del l1)
          else string_loop del (save_and_next ls))"
  by pat_completeness auto
termination
  by (relation "measure (\<lambda>(del, ls). remaining ls)")
    (auto simp: lex_simps current_remaining dest!: remaining_read_escape)

declare string_loop.simps [simp del]

definition read_string :: "char \<Rightarrow> LexState \<Rightarrow> string + Token \<times> LexState" where
  "read_string del ls =
     bindE (string_loop del (save_and_next ls)) (\<lambda>l1.
       let l2 = save_and_next l1; s = take (length (buff l2) - 2) (drop 1 (buff l2))
       in Inr (TK_STRING s, luaX_newstring l2 s))"

section \<open>The analyzer\<close>

lemma remaining_long_loop: "long_loop sem sep ls = Inr ls' \<Longrightarrow> remaining ls' \<le> remaining ls"
proof (induction sem sep ls rule: long_loop.induct)
  case (1 sem sep ls)
  show ?case
  proof (cases "current ls")
    case None
    with "1.prems" show ?thesis by (subst (asm) long_loop.simps) (simp add: luaX_lexerror_def)
  next
    case (Some c)
    obtain n l1 where sk: "skip_sep ls = (n, l1)" by fastforce
    have r: "remaining l1 < remaining ls" "length (zs l1) \<le> remaining l1"
      using remaining_skip_sep [OF sk Some] zs_remaining [of l1] by auto
    note IH = "1.IH" [OF Some] and eq = long_loop.simps [of sem sep ls]
    consider "c = CHR ''[''" | "c = CHR '']''" | "c = CHR 0x0A \<or> c = CHR 0x0D"
      | "c \<noteq> CHR ''[''" "c \<noteq> CHR '']''" "\<not> (c = CHR 0x0A \<or> c = CHR 0x0D)" by blast
    then show ?thesis
    proof cases
      case 1
      then show ?thesis using "1.prems" IH(1) [OF 1 sk [symmetric]] IH(2) [OF 1 sk [symmetric]] r eq Some sk
        by (cases "n = sep"; cases "sep = 0") (auto simp: luaX_lexerror_def lex_simps)
    next
      case 2
      then show ?thesis using "1.prems" IH(3) [OF _ 2 sk [symmetric]] r eq Some sk
        by (cases "n = sep") (auto simp: lex_simps)
    next
      case 3
      then obtain l2 where l2: "inclinenumber (save ls (CHR 0x0A)) = Inr l2"
        "long_loop sem sep (if sem then l2 else reset_buff l2) = Inr ls'"
        using "1.prems" eq Some by (auto split: sum.splits)
      have "remaining l2 < remaining ls"
        using remaining_inclinenumber [OF l2(1), of c] Some by (simp add: lex_simps)
      moreover have "remaining ls' \<le> remaining (if sem then l2 else reset_buff l2)"
        using IH(4) [OF _ _ 3 l2(1) l2(2)] 3 by auto
      ultimately show ?thesis by (auto simp: lex_simps split: if_splits)
    next
      case 4
      then have "long_loop sem sep (if sem then save_and_next ls else next_char ls) = Inr ls'"
        using "1.prems" eq Some by simp
      from IH(5) [OF 4 this] show ?thesis
        using zs_remaining [of ls] by (auto simp: lex_simps split: if_splits)
    qed
  qed
qed

lemma remaining_read_long_string:
  assumes "read_long_string sem sep ls = Inr (t, ls')"
  shows "remaining ls' \<le> remaining ls"
proof -
  obtain l2 l3 where l: "(if currIsNewline (save_and_next ls) then inclinenumber (save_and_next ls) else Inr (save_and_next ls)) = Inr l2"
    "long_loop sem sep l2 = Inr l3" "remaining ls' = remaining l3"
    using assms by (auto simp: read_long_string_def Let_def bindE_Inr_iff luaX_newstring_def remaining_def split: if_splits)
  have "remaining l2 \<le> remaining (save_and_next ls)"
    using l(1) remaining_inclinenumber [of "save_and_next ls" l2]
    by (auto simp: currIsNewline_def split: if_splits intro: less_imp_le)
  then show ?thesis
    using remaining_long_loop [OF l(2)] l(3) zs_remaining [of ls] by (simp add: lex_simps)
qed

function skip_line :: "LexState \<Rightarrow> LexState" where
  "skip_line ls = (if \<not> currIsNewline ls \<and> current ls \<noteq> None then skip_line (next_char ls) else ls)"
  by pat_completeness auto
termination
  by (relation "measure remaining") (auto simp: lex_simps current_remaining)

declare skip_line.simps [simp del]

lemma remaining_skip_line: "remaining (skip_line ls) \<le> remaining ls"
proof (induction ls rule: skip_line.induct)
  case (1 ls)
  then show ?case using zs_remaining [of ls]
    by (subst skip_line.simps) (auto simp: lex_simps)
qed

text \<open>After the two dashes.\<close>

definition skip_comment :: "LexState \<Rightarrow> string + LexState" where
  "skip_comment ls =
     (if current ls = Some (CHR ''['') then
        (case skip_sep ls of (sep, l1) \<Rightarrow>
           if 0 \<le> sep then
             bindE (read_long_string False sep (reset_buff l1)) (\<lambda>(t, l2). Inr (reset_buff l2))
           else Inr (skip_line (reset_buff l1)))
      else Inr (skip_line ls))"

lemma remaining_skip_comment: "skip_comment ls = Inr ls' \<Longrightarrow> remaining ls' \<le> remaining ls"
proof -
  assume a: "skip_comment ls = Inr ls'"
  show ?thesis
  proof (cases "current ls = Some (CHR ''['')")
    case True
    obtain sep l1 where s: "skip_sep ls = (sep, l1)" by fastforce
    have "remaining l1 < remaining ls" by (rule remaining_skip_sep [OF s True])
    then show ?thesis using a s True remaining_skip_line [of "reset_buff l1"] remaining_read_long_string [of False sep "reset_buff l1"]
      by (fastforce simp: skip_comment_def bindE_Inr_iff lex_simps split: if_splits)
  qed (use a remaining_skip_line [of ls] in \<open>auto simp: skip_comment_def\<close>)
qed

definition word_token :: "string \<Rightarrow> Token" where
  "word_token w = (case map_of reserved_words w of Some t \<Rightarrow> t | None \<Rightarrow> TK_NAME w)"

text \<open>A character that may be followed by an equals sign.\<close>

definition with_equals :: "LexState \<Rightarrow> char \<Rightarrow> Token \<Rightarrow> Token \<times> LexState" where
  "with_equals ls c t =
     (let l1 = next_char ls in
      if current l1 \<noteq> Some (CHR ''='') then (TK_CHAR c, l1) else (t, next_char l1))"

definition number_token :: "LexState \<Rightarrow> string + Token \<times> LexState" where
  "number_token ls = bindE (read_numeral ls) (\<lambda>(r, l1). Inr (TK_NUMBER r, l1))"

text \<open>A token that begins with the current character \<open>c\<close>, which is no space and no dash.\<close>

definition read_token :: "char \<Rightarrow> LexState \<Rightarrow> string + Token \<times> LexState" where
  "read_token c ls =
     (if c = CHR ''['' then
        (case skip_sep ls of (sep, l1) \<Rightarrow>
           if 0 \<le> sep then read_long_string True sep l1
           else if sep = -1 then Inr (TK_CHAR (CHR ''[''), l1)
           else luaX_lexerror l1 ''invalid long string delimiter'' (Some (TK_STRING [])))
      else if c = CHR ''='' then Inr (with_equals ls c TK_EQ)
      else if c = CHR ''<'' then Inr (with_equals ls c TK_LE)
      else if c = CHR ''>'' then Inr (with_equals ls c TK_GE)
      else if c = CHR ''~'' then Inr (with_equals ls c TK_NE)
      else if c = CHR 0x22 \<or> c = CHR 0x27 then read_string c ls
      else if c = CHR ''.'' then
        (case check_next (save_and_next ls) ''.'' of
           (True, l1) \<Rightarrow>
             (case check_next l1 ''.'' of (True, l2) \<Rightarrow> Inr (TK_DOTS, l2) | (False, l2) \<Rightarrow> Inr (TK_CONCAT, l2))
         | (False, l1) \<Rightarrow>
             (case current l1 of
                Some d \<Rightarrow> if isdigit d then number_token l1 else Inr (TK_CHAR c, l1)
              | None \<Rightarrow> Inr (TK_CHAR c, l1)))
      else if isdigit c then number_token ls
      else if isalpha c \<or> c = CHR ''_'' then
        (let l1 = save_while is_name_char (save_and_next ls)
         in Inr (word_token (buff l1), luaX_newstring l1 (buff l1)))
      else Inr (TK_CHAR c, next_char ls))"

function llex_loop :: "LexState \<Rightarrow> string + Token \<times> LexState" where
  "llex_loop ls =
     (case current ls of
        None \<Rightarrow> Inr (TK_EOS, ls)
      | Some c \<Rightarrow>
          if c = CHR 0x0A \<or> c = CHR 0x0D then
            (case inclinenumber ls of Inl e \<Rightarrow> Inl e | Inr l1 \<Rightarrow> llex_loop l1)
          else if c = CHR ''-'' then
            (let l1 = next_char ls in
             if current l1 \<noteq> Some (CHR ''-'') then Inr (TK_CHAR c, l1)
             else case skip_comment (next_char l1) of Inl e \<Rightarrow> Inl e | Inr l2 \<Rightarrow> llex_loop l2)
          else if isspace c then llex_loop (next_char ls)
          else read_token c ls)"
  by pat_completeness auto
termination
proof -
  have 1: "remaining l2 < remaining ls" if "skip_comment (next_char (next_char ls)) = Inr l2" "current ls = Some c" for l2 ls c
    using remaining_skip_comment [OF that(1)] zs_remaining [of "next_char ls"] current_remaining [OF that(2)]
    by (simp add: lex_simps)
  show ?thesis
    by (relation "measure remaining") (use remaining_inclinenumber 1 in \<open>auto simp: lex_simps current_remaining\<close>)
qed

declare llex_loop.simps [simp del]

definition llex :: "LexState \<Rightarrow> string + Token \<times> LexState" where
  "llex ls = llex_loop (reset_buff ls)"

definition luaX_next :: "LexState \<Rightarrow> string + LexState" where
  "luaX_next ls =
     (let l1 = ls\<lparr>lastline := linenumber ls\<rparr> in
      if ahead l1 \<noteq> TK_EOS then Inr (l1\<lparr>tok := ahead l1, ahead := TK_EOS\<rparr>)
      else bindE (llex l1) (\<lambda>(t, l2). Inr (l2\<lparr>tok := t\<rparr>)))"

definition luaX_lookahead :: "LexState \<Rightarrow> string + LexState" where
  "luaX_lookahead ls = bindE (llex ls) (\<lambda>(t, l1). Inr (l1\<lparr>ahead := t\<rparr>))"

end
