(* ===== verification/Lua_Lex_Spec.thy ===== *)
theory Lua_Lex_Spec
  imports Lua_Lex
begin

text \<open>
  What the lexical analyzer (\<open>Lua_Lex\<close>) does: every token but the last consumes input, words become names
  or reserved words, and a quoted string is read back as the bytes it was written from.
\<close>

section \<open>Progress\<close>

lemma remaining_check_next: "remaining (snd (check_next l cs)) \<le> remaining l"
  using zs_remaining [of l] by (auto simp: check_next_def lex_simps split: option.split)

lemma remaining_buffreplace [lex_simps]: "remaining (buffreplace l x y) = remaining l"
  by (simp add: buffreplace_def remaining_def)

lemma remaining_scan_numeral: "remaining (scan_numeral ls) \<le> length (zs ls)"
proof -
  let ?l1 = "save_while (\<lambda>c. isdigit c \<or> c = CHR ''.'') (save_and_next ls)"
  obtain e l2 where 2: "check_next ?l1 ''Ee'' = (e, l2)" by fastforce
  let ?l3 = "if e then snd (check_next l2 ''+-'') else l2"
  have "remaining ?l1 \<le> length (zs ls)"
    using remaining_save_while [of _ "save_and_next ls"] by (simp add: lex_simps)
  moreover have "remaining ?l3 \<le> remaining ?l1"
    using remaining_check_next [of ?l1 "''Ee''"] remaining_check_next [of l2 "''+-''"] 2 by auto
  ultimately have "remaining (save_while is_name_char ?l3) \<le> length (zs ls)"
    using remaining_save_while [of is_name_char ?l3] by linarith
  then show ?thesis by (simp add: scan_numeral_def 2 Let_def lex_simps split: if_splits)
qed

lemma remaining_read_numeral: "read_numeral ls = Inr (r, ls') \<Longrightarrow> remaining ls' \<le> length (zs ls)"
proof -
  assume "read_numeral ls = Inr (r, ls')"
  then have "remaining ls' = remaining (scan_numeral ls)"
    by (auto simp: read_numeral_def Let_def trydecpoint_def luaX_lexerror_def buffreplace_def remaining_def split: option.splits)
  then show ?thesis using remaining_scan_numeral [of ls] by simp
qed

lemma remaining_string_loop: "string_loop del ls = Inr ls' \<Longrightarrow> remaining ls' \<le> remaining ls"
proof (induction del ls rule: string_loop.induct)
  case (1 del ls)
  show ?case
  proof (cases "current ls")
    case None
    with "1.prems" show ?thesis by (subst (asm) string_loop.simps) (simp add: luaX_lexerror_def)
  next
    case (Some c)
    have n: "length (zs (next_char ls)) \<le> length (zs ls)" using zs_remaining [of "next_char ls"] by (simp add: lex_simps)
    show ?thesis
    proof (cases "c = del \<or> c = CHR 0x0A \<or> c = CHR 0x0D")
      case True
      with "1.prems" Some show ?thesis by (subst (asm) string_loop.simps) (auto simp: luaX_lexerror_def split: if_splits)
    next
      case False
      show ?thesis
      proof (cases "c = CHR 0x5C")
        case True
        then obtain l1 where l1: "read_escape (next_char ls) = Inr l1" "string_loop del l1 = Inr ls'"
          using "1.prems" Some False string_loop.simps [of del ls] by (auto split: sum.splits)
        then have "remaining ls' \<le> remaining l1" using "1.IH"(1) [OF Some _ _ True l1(1)] False by auto
        then show ?thesis using remaining_read_escape [OF l1(1)] zs_remaining [of ls] by (simp add: lex_simps)
      next
        case F2: False
        then have "string_loop del (save_and_next ls) = Inr ls'"
          using "1.prems" Some False string_loop.simps [of del ls] by auto
        then show ?thesis using "1.IH"(2) [OF Some _ _ F2] False zs_remaining [of ls] by (auto simp: lex_simps)
      qed
    qed
  qed
qed

lemma remaining_newstring [lex_simps]: "remaining (luaX_newstring ls s) = remaining ls"
  by (simp add: luaX_newstring_def remaining_def)

lemma remaining_read_string: "read_string del ls = Inr (t, ls') \<Longrightarrow> remaining ls' \<le> length (zs ls)"
proof -
  assume "read_string del ls = Inr (t, ls')"
  then obtain l1 where "string_loop del (save_and_next ls) = Inr l1" "remaining ls' = length (zs l1)"
    by (auto simp: read_string_def Let_def bindE_Inr_iff lex_simps)
  then show ?thesis
    using remaining_string_loop [of del "save_and_next ls" l1] zs_remaining [of l1] by (simp add: lex_simps)
qed

lemma remaining_with_equals: "with_equals ls c t = (t', ls') \<Longrightarrow> remaining ls' \<le> length (zs ls)"
  using zs_remaining [of "next_char ls"] by (auto simp: with_equals_def Let_def lex_simps split: if_splits)

lemma read_long_string_sem: "read_long_string True sep ls = Inr (t, ls') \<Longrightarrow> \<exists>s. t = TK_STRING s"
  by (auto simp: read_long_string_def Let_def bindE_Inr_iff)

lemma word_token_not_EOS: "word_token w \<noteq> TK_EOS"
  by (auto simp: word_token_def reserved_words_def split: option.splits)

lemma number_token_progress: "number_token ls = Inr (t, ls') \<Longrightarrow> t \<noteq> TK_EOS \<and> remaining ls' \<le> length (zs ls)"
  using remaining_read_numeral by (auto simp: number_token_def bindE_Inr_iff)

lemma read_token_progress:
  assumes "read_token c ls = Inr (t, ls')" "current ls = Some c"
  shows "t \<noteq> TK_EOS \<and> remaining ls' < remaining ls"
proof -
  have r: "remaining ls = Suc (length (zs ls))" by (rule current_remaining [OF assms(2)])
  consider "c = CHR ''[''" | "c = CHR ''=''" | "c = CHR ''<''" | "c = CHR ''>''" | "c = CHR ''~''"
    | "c = CHR 0x22 \<or> c = CHR 0x27" | "c = CHR ''.''"
    | "c \<notin> {CHR ''['', CHR ''='', CHR ''<'', CHR ''>'', CHR ''~'', CHR 0x22, CHR 0x27, CHR ''.''}" by blast
  then show ?thesis
  proof cases
    case 1
    obtain n l1 where s: "skip_sep ls = (n, l1)" by fastforce
    then have "remaining l1 < remaining ls" using remaining_skip_sep assms(2) by blast
    moreover have "remaining ls' \<le> remaining l1 \<and> t \<noteq> TK_EOS"
      using assms(1) 1 s remaining_read_long_string [of True n l1 t ls'] read_long_string_sem [of n l1 t ls']
      by (auto simp: read_token_def luaX_lexerror_def split: if_splits)
    ultimately show ?thesis by simp
  next
    case 6
    then show ?thesis using assms(1) remaining_read_string [of c ls t ls'] r
      by (auto simp: read_token_def read_string_def Let_def bindE_Inr_iff)
  next
    case 7
    obtain b l1 where 1: "check_next (save_and_next ls) ''.'' = (b, l1)" by fastforce
    obtain b' l2 where 2: "check_next l1 ''.'' = (b', l2)" by fastforce
    have "remaining l1 \<le> length (zs ls)" using remaining_check_next [of "save_and_next ls" "''.''"] 1 by (simp add: lex_simps)
    moreover have "remaining l2 \<le> remaining l1" using remaining_check_next [of l1 "''.''"] 2 by simp
    moreover have "t \<noteq> TK_EOS \<and> (remaining ls' \<le> remaining l1 \<or> ls' = l2)"
      using assms(1) 7 1 2 number_token_progress [of l1 t ls'] zs_remaining [of l1]
      by (auto simp: read_token_def split: bool.splits option.splits if_splits)
    ultimately show ?thesis using r by auto
  next
    case 8
    have w: "remaining (save_while is_name_char (save_and_next ls)) \<le> length (zs ls)"
      using remaining_save_while [of is_name_char "save_and_next ls"] by (simp add: lex_simps)
    have e: "read_token c ls =
       (if isdigit c then number_token ls
        else if isalpha c \<or> c = CHR ''_'' then
          (let l1 = save_while is_name_char (save_and_next ls)
           in Inr (word_token (buff l1), luaX_newstring l1 (buff l1)))
        else Inr (TK_CHAR c, next_char ls))"
      using 8 by (simp add: read_token_def)
    show ?thesis
    proof (cases "isdigit c")
      case True
      then show ?thesis using assms(1) e r number_token_progress [of ls t ls'] by simp
    next
      case False
      then show ?thesis using assms(1) e r w word_token_not_EOS
        by (cases "isalpha c \<or> c = CHR ''_''") (auto simp: Let_def lex_simps less_Suc_eq_le simp del: le_Suc_eq)
    qed
  qed (use assms(1) r remaining_with_equals [of ls c] in \<open>auto simp: read_token_def with_equals_def Let_def lex_simps split: if_splits\<close>)
qed

lemma llex_loop_progress:
  "llex_loop ls = Inr (t, ls') \<Longrightarrow> (if t = TK_EOS then current ls' = None else remaining ls' < remaining ls)"
proof (induction ls rule: llex_loop.induct)
  case (1 ls)
  show ?case
  proof (cases "current ls")
    case None
    with "1.prems" show ?thesis by (subst (asm) llex_loop.simps) auto
  next
    case (Some c)
    note r = current_remaining [OF Some]
    show ?thesis
    proof (cases "c = CHR 0x0A \<or> c = CHR 0x0D")
      case True
      then obtain l1 where l1: "inclinenumber ls = Inr l1" "llex_loop l1 = Inr (t, ls')"
        using "1.prems" Some llex_loop.simps [of ls] by (auto split: sum.splits)
      then show ?thesis using "1.IH"(1) [OF Some True l1] remaining_inclinenumber [OF l1(1) Some] by (auto split: if_splits)
    next
      case nl: False
      show ?thesis
      proof (cases "c = CHR ''-''")
        case True
        show ?thesis
        proof (cases "current (next_char ls) = Some (CHR ''-'')")
          case d: True
          then obtain l2 where l2: "skip_comment (next_char (next_char ls)) = Inr l2" "llex_loop l2 = Inr (t, ls')"
            using "1.prems" Some nl True llex_loop.simps [of ls] by (auto simp: Let_def split: sum.splits)
          have "remaining l2 < remaining ls"
            using remaining_skip_comment [OF l2(1)] zs_remaining [of "next_char ls"] r by (simp add: lex_simps)
          then show ?thesis using "1.IH"(2) [OF Some nl True refl _ l2] d by (auto split: if_splits)
        next
          case False
          then have "t = TK_CHAR c" "ls' = next_char ls"
            using "1.prems" Some nl True llex_loop.simps [of ls] by (auto simp: Let_def)
          then show ?thesis using r by (simp add: lex_simps)
        qed
      next
        case nd: False
        show ?thesis
        proof (cases "isspace c")
          case True
          then have "llex_loop (next_char ls) = Inr (t, ls')"
            using "1.prems" Some nl nd llex_loop.simps [of ls] by auto
          from "1.IH"(3) [OF Some nl nd True this] show ?thesis using r by (auto simp: lex_simps split: if_splits)
        next
          case False
          then have "read_token c ls = Inr (t, ls')"
            using "1.prems" Some nl nd llex_loop.simps [of ls] by auto
          from read_token_progress [OF this Some] show ?thesis by simp
        qed
      qed
    qed
  qed
qed

section \<open>Reading given input\<close>

text \<open>The analyzer is about to read \<open>s\<close>.\<close>

definition input :: "LexState \<Rightarrow> string \<Rightarrow> bool" where
  "input ls s \<longleftrightarrow> (case current ls of None \<Rightarrow> zs ls = [] \<and> s = [] | Some c \<Rightarrow> s = c # zs ls)"

lemma input_Cons: "input ls (c # s) \<longleftrightarrow> current ls = Some c \<and> zs ls = s"
  by (auto simp: input_def split: option.splits)

lemma input_Nil: "input ls [] \<longleftrightarrow> current ls = None \<and> zs ls = []"
  by (auto simp: input_def split: option.splits)

lemma input_next: "input ls (c # s) \<Longrightarrow> input (next_char ls) s"
  unfolding input_Cons by (auto simp: next_char_def input_def split: list.splits)

lemma input_save [simp]: "input (save ls c) s = input ls s"
  by (simp add: input_def save_def split: option.split)

lemma input_fields [simp]: "input (ls\<lparr>linenumber := n\<rparr>) s = input ls s" "input (reset_buff ls) s = input ls s"
  "input (luaX_newstring ls t) s = input ls s"
  by (simp_all add: input_def reset_buff_def luaX_newstring_def split: option.split)

lemma next_char_fields [simp]:
  "buff (next_char ls) = buff ls" "linenumber (next_char ls) = linenumber ls"
  by (simp_all add: next_char_def split: list.splits)

lemma save_fields [simp]:
  "buff (save ls c) = buff ls @ [c]" "linenumber (save ls c) = linenumber ls" "current (save ls c) = current ls" "zs (save ls c) = zs ls"
  by (simp_all add: save_def)

lemma save_and_next_input:
  assumes "input ls (c # s)"
  shows "input (save_and_next ls) s" "buff (save_and_next ls) = buff ls @ [c]" "linenumber (save_and_next ls) = linenumber ls"
  using assms input_next [of "save ls c" c s] by (simp_all add: save_and_next_def input_Cons)

fun quote_char :: "char \<Rightarrow> string" where
  "quote_char c =
     (if c = CHR 0x22 \<or> c = CHR 0x5C \<or> c = CHR 0x0A then [CHR 0x5C, c]
      else if c = CHR 0x0D then [CHR 0x5C, CHR ''r'']
      else if c = NUL then CHR 0x5C # ''000''
      else [c])"

declare quote_char.simps [simp del]

definition quoted_literal :: "string \<Rightarrow> string" where
  "quoted_literal s = CHR 0x22 # concat (map quote_char s) @ [CHR 0x22]"

definition newlines :: "string \<Rightarrow> nat" where
  "newlines s = length (filter (\<lambda>c. c = CHR 0x0A) s)"

lemma quote_char_hd: "quote_char c \<noteq> [] \<and> hd (quote_char c) \<noteq> CHR 0x0D"
  by (simp add: quote_char.simps NUL_def)

lemma quoted_hd: "\<exists>d r. concat (map quote_char s) @ CHR 0x22 # rest = d # r \<and> d \<noteq> CHR 0x0D"
proof (cases s)
  case (Cons c s')
  then show ?thesis using quote_char_hd [of c] by (cases "quote_char c") auto
qed simp

lemma isdigit_0: "isdigit (CHR ''0'')" "digit_val (CHR ''0'') = 0"
  by (simp_all add: isdigit_def digit_val_def)

lemma char_of_0: "(char_of (0 :: nat) :: char) = CHR 0x00"
  by (simp add: char_of_eq_iff)

lemma escape_none: "c \<in> {CHR 0x22, CHR 0x5C, CHR 0x0A, CHR ''0''} \<Longrightarrow> escape_char c = None"
  by (auto simp: escape_char_def)

text \<open>One quoted character is read as the character.\<close>

lemma string_loop_quoted_char:
  assumes i: "input ls (quote_char c @ d # r)" and d: "d \<noteq> CHR 0x0D" and l: "linenumber ls + 1 < MAX_INT"
  shows "\<exists>l1. string_loop (CHR 0x22) ls = string_loop (CHR 0x22) l1 \<and> input l1 (d # r) \<and> buff l1 = buff ls @ [c] \<and>
    linenumber l1 = linenumber ls + (if c = CHR 0x0A then 1 else 0)"
proof -
  let ?q = "CHR 0x5C"
  have esc: "string_loop (CHR 0x22) ls = string_loop (CHR 0x22) l1" if "input ls (?q # t)" "read_escape (next_char ls) = Inr l1" for t l1
    using that by (subst string_loop.simps) (simp add: input_Cons)
  consider "c = CHR 0x22 \<or> c = ?q" | "c = CHR 0x0A" | "c = CHR 0x0D" | "c = NUL"
    | "c \<noteq> CHR 0x22" "c \<noteq> ?q" "c \<noteq> CHR 0x0A" "c \<noteq> CHR 0x0D" "c \<noteq> NUL" by blast
  then show ?thesis
  proof cases
    case 1
    then have q: "input ls (?q # c # d # r)" using i by (auto simp: quote_char.simps)
    note n = input_next [OF q]
    have "\<not> isdigit c" using 1 by (auto simp: isdigit_def)
    then have "read_escape (next_char ls) = Inr (save_and_next (next_char ls))"
      using n 1 escape_none [of c] by (auto simp: read_escape_def input_Cons)
    from esc [OF q this] save_and_next_input [OF n] show ?thesis using 1 by (intro exI conjI) (assumption, auto)
  next
    case 2
    then have q: "input ls (?q # c # d # r)" using i by (auto simp: quote_char.simps)
    note n = input_next [OF q]
    let ?s = "save (next_char ls) (CHR 0x0A)"
    let ?l = "(next_char ?s)\<lparr>linenumber := linenumber ls + 1\<rparr>"
    have i': "input (next_char ?s) (d # r)" using n by (intro input_next [of _ c]) simp
    have "inclinenumber ?s = Inr ?l"
      using i' d 2 l n by (auto simp: inclinenumber_def Let_def currIsNewline_def input_Cons)
    then have "read_escape (next_char ls) = Inr ?l"
      using n 2 escape_none [of c] by (auto simp: read_escape_def input_Cons)
    moreover have "input ?l (d # r)" using i' by simp
    ultimately show ?thesis using esc [OF q] 2 by (intro exI [of _ ?l]) simp
  next
    case 3
    then have q: "input ls (?q # CHR ''r'' # d # r)" using i by (auto simp: quote_char.simps)
    note n = input_next [OF q]
    let ?l = "next_char (save (next_char ls) (CHR 0x0D))"
    have "read_escape (next_char ls) = Inr ?l"
      using n by (auto simp: read_escape_def input_Cons escape_char_def)
    moreover have "input ?l (d # r)" using n by (intro input_next [of _ "CHR ''r''"]) simp
    ultimately show ?thesis using esc [OF q] 3 by (intro exI [of _ ?l]) simp
  next
    case 4
    then have q: "input ls (?q # CHR ''0'' # CHR ''0'' # CHR ''0'' # d # r)" using i by (auto simp: quote_char.simps NUL_def)
    note n = input_next [OF q]
    note n2 = input_next [OF n]
    note n3 = input_next [OF n2]
    note n4 = input_next [OF n3]
    let ?l = "save (next_char (next_char (next_char (next_char ls)))) NUL"
    have "read_dec 3 0 (next_char ls) = (0, next_char (next_char (next_char (next_char ls))))"
      using n n2 n3 by (simp add: numeral_eq_Suc input_Cons isdigit_0)
    then have "read_escape (next_char ls) = Inr ?l"
      using n escape_none [of "CHR ''0''"] char_of_0 by (auto simp: read_escape_def input_Cons isdigit_0 NUL_def)
    then show ?thesis using esc [OF q] n4 4 by (intro exI [of _ ?l]) (simp add: NUL_def)
  next
    case 5
    then have q: "input ls (c # d # r)" using i by (auto simp: quote_char.simps)
    have "string_loop (CHR 0x22) ls = string_loop (CHR 0x22) (save_and_next ls)"
      using q 5 by (subst string_loop.simps) (simp add: input_Cons)
    with save_and_next_input [OF q] 5 show ?thesis by auto
  qed
qed

lemma string_loop_quoted:
  assumes "input ls (concat (map quote_char s) @ CHR 0x22 # rest)" "linenumber ls + int (newlines s) + 1 < MAX_INT"
  shows "\<exists>l1. string_loop (CHR 0x22) ls = Inr l1 \<and> input l1 (CHR 0x22 # rest) \<and> buff l1 = buff ls @ s \<and>
    linenumber l1 = linenumber ls + int (newlines s)"
  using assms
proof (induction s arbitrary: ls)
  case Nil
  then have "string_loop (CHR 0x22) ls = Inr ls" by (subst string_loop.simps) (simp add: input_Cons)
  with Nil show ?case by (auto simp: newlines_def)
next
  case (Cons c s)
  obtain d r where d: "concat (map quote_char s) @ CHR 0x22 # rest = d # r" "d \<noteq> CHR 0x0D" using quoted_hd by blast
  have "input ls (quote_char c @ d # r)" "linenumber ls + 1 < MAX_INT" using Cons.prems d by simp_all
  then obtain l1 where l1: "string_loop (CHR 0x22) ls = string_loop (CHR 0x22) l1" "input l1 (d # r)" "buff l1 = buff ls @ [c]"
    "linenumber l1 = linenumber ls + (if c = CHR 0x0A then 1 else 0)"
    using string_loop_quoted_char [of ls c d r] d(2) by blast
  have "linenumber l1 + int (newlines s) + 1 < MAX_INT" using Cons.prems(2) l1(4) by (simp add: newlines_def split: if_splits)
  then obtain l2 where "string_loop (CHR 0x22) l1 = Inr l2" "input l2 (CHR 0x22 # rest)" "buff l2 = buff l1 @ s"
    "linenumber l2 = linenumber l1 + int (newlines s)"
    using Cons.IH [of l1] l1(2) d(1) by auto
  with l1 show ?case by (auto simp: newlines_def)
qed

section \<open>Words\<close>

lemma save_while_input:
  assumes "input ls (w @ rest)" "\<forall>c \<in> set w. P c" "rest = [] \<or> \<not> P (hd rest)"
  shows "input (save_while P ls) rest \<and> buff (save_while P ls) = buff ls @ w \<and> linenumber (save_while P ls) = linenumber ls"
  using assms
proof (induction w arbitrary: ls)
  case Nil
  then show ?case
    by (subst (1 2 3) save_while.simps) (cases rest; auto simp: input_Cons input_Nil)
next
  case (Cons c w)
  then have i: "input ls (c # w @ rest)" by simp
  have "save_while P ls = save_while P (save_and_next ls)"
    using i Cons.prems(2) by (subst save_while.simps) (simp add: input_Cons)
  with Cons.IH [OF save_and_next_input(1) [OF i]] Cons.prems save_and_next_input [OF i] show ?case by simp
qed

lemma llex_token:
  assumes "input ls (c # s)" "c \<noteq> CHR 0x0A" "c \<noteq> CHR 0x0D" "c \<noteq> CHR ''-''" "\<not> isspace c"
  shows "llex ls = read_token c (reset_buff ls)"
  using assms unfolding llex_def by (subst llex_loop.simps) (simp add: input_Cons lex_simps)

section \<open>Properties\<close>

text \<open>C35: The analyzer makes progress on any input: each call ends with an error, or with a token for which
  at least one byte was consumed, or with the end token at the end of the stream. So the parser,
  which calls it until the end token, reads a finite script completely or reports an error.\<close>

theorem llex_progress:
  assumes "llex ls = Inr (t, ls')"
  shows "if t = TK_EOS then current ls' = None else remaining ls' < remaining ls"
  using llex_loop_progress [of "reset_buff ls" t ls'] assms by (auto simp: llex_def lex_simps split: if_splits)

theorem llex_progress_witness:
  "remaining (next_char (luaX_setinput ''='' [])) < remaining (luaX_setinput ''='' [])"
proof -
  have "llex (luaX_setinput ''='' []) = Inr (TK_CHAR (CHR ''=''), next_char (luaX_setinput ''='' []))" by code_simp
  from llex_progress [OF this] show ?thesis by simp
qed

text \<open>C36: A word - a letter or underscore and then letters, digits and underscores, as far as they go - is
  the reserved word of that spelling if there is one, and otherwise the name itself.\<close>

theorem llex_word:
  assumes "input ls (w @ rest)" "w \<noteq> []" "isalpha (hd w) \<or> hd w = CHR ''_''" "\<forall>c \<in> set w. is_name_char c"
    "rest = [] \<or> \<not> is_name_char (hd rest)"
  shows "\<exists>ls'. llex ls = Inr (word_token w, ls') \<and> input ls' rest \<and> linenumber ls' = linenumber ls"
proof -
  obtain c w' where w: "w = c # w'" using assms(2) by (cases w) auto
  let ?r = "reset_buff ls"
  let ?s = "save_while is_name_char (save_and_next ?r)"
  have c: "c \<notin> {CHR ''['', CHR ''='', CHR ''<'', CHR ''>'', CHR ''~'', CHR 0x22, CHR 0x27, CHR ''.'', CHR 0x0A, CHR 0x0D, CHR ''-''}"
    "\<not> isspace c" "\<not> isdigit c"
    using assms(3) w by (auto simp: isalpha_def isspace_def isdigit_def Let_def)
  have i: "input ?r (c # w' @ rest)" using assms(1) w by simp
  have s: "input ?s rest \<and> buff ?s = w \<and> linenumber ?s = linenumber ls"
    using save_while_input [of "save_and_next ?r" w' rest is_name_char] save_and_next_input [OF i] assms(4,5) w
    by (simp add: reset_buff_def)
  have "llex ls = Inr (word_token w, luaX_newstring ?s w)"
    using llex_token [of ls c "w' @ rest"] i c assms(3) w s by (simp add: read_token_def Let_def)
  moreover have "linenumber (luaX_newstring ?s w) = linenumber ?s" by (simp add: luaX_newstring_def)
  ultimately show ?thesis using s by simp
qed

theorem llex_word_witness:
  "\<exists>ls'. llex (luaX_setinput ''while x'' []) = Inr (TK_WHILE, ls') \<and> input ls' '' x'' \<and> linenumber ls' = 1"
proof -
  have "input (luaX_setinput ''while x'' []) (''while'' @ '' x'')" by code_simp
  moreover have "(isalpha (hd ''while'') \<or> hd ''while'' = CHR ''_'') \<and> (\<forall>c \<in> set ''while''. is_name_char c) \<and> \<not> is_name_char (hd '' x'')"
    by code_simp
  moreover have "word_token ''while'' = TK_WHILE \<and> linenumber (luaX_setinput ''while x'' []) = 1" by code_simp
  ultimately show ?thesis using llex_word [of "luaX_setinput ''while x'' []" "''while''" "'' x''"] by simp
qed

section \<open>Quoted strings\<close>

lemma llex_quoted:
  assumes "input ls (quoted_literal s @ rest)" "linenumber ls + int (newlines s) + 1 < MAX_INT"
  shows "\<exists>ls'. llex ls = Inr (TK_STRING s, ls') \<and> input ls' rest \<and> linenumber ls' = linenumber ls + int (newlines s)"
proof -
  let ?r = "reset_buff ls"
  have i: "input ?r (CHR 0x22 # concat (map quote_char s) @ CHR 0x22 # rest)" using assms(1) by (simp add: quoted_literal_def)
  note n = save_and_next_input [OF i]
  obtain l1 where l1: "string_loop (CHR 0x22) (save_and_next ?r) = Inr l1" "input l1 (CHR 0x22 # rest)"
    "buff l1 = buff (save_and_next ?r) @ s" "linenumber l1 = linenumber (save_and_next ?r) + int (newlines s)"
    using string_loop_quoted [OF n(1)] assms(2) n(3) by (auto simp: reset_buff_def)
  note e = save_and_next_input [OF l1(2)]
  have b: "buff (save_and_next l1) = CHR 0x22 # s @ [CHR 0x22]" using e(2) l1(3) n(2) by (simp add: reset_buff_def)
  have "llex ls = read_token (CHR 0x22) ?r"
    using llex_token [of ls "CHR 0x22"] i by (simp add: isspace_def)
  also have "\<dots> = Inr (TK_STRING s, luaX_newstring (save_and_next l1) s)"
    using l1(1) b by (simp add: read_token_def read_string_def Let_def)
  finally have "llex ls = Inr (TK_STRING s, luaX_newstring (save_and_next l1) s)" .
  moreover have "linenumber (luaX_newstring (save_and_next l1) s) = linenumber ls + int (newlines s)"
    using e(3) l1(4) n(3) by (simp add: luaX_newstring_def reset_buff_def)
  ultimately show ?thesis using e(1) by simp
qed

end
