(* ===== verification/Lua_Pattern.thy ===== *)
theory Lua_Pattern
  imports C_Lib
begin

text \<open>
  The pattern matching of the string library: the matcher of src/lib/lua/lstrlib.c. The subject is a
  string and a position in it; reading it at its end gives the terminating zero byte. A pattern
  is represented by the characters that are left of it, without the zero byte that ends it. An error
  is its message, which the functions of the library raise with \<open>luaL_error\<close>.
\<close>

section \<open>Match state\<close>

type_synonym capture = "nat \<times> int"

definition CAP_UNFINISHED :: int where "CAP_UNFINISHED = - 1"

definition CAP_POSITION :: int where "CAP_POSITION = - 2"

definition LUA_MAXCAPTURES :: nat where "LUA_MAXCAPTURES = 32"

abbreviation (input) L_ESC :: char where "L_ESC \<equiv> CHR ''%''"

definition SPECIALS :: string where
  "SPECIALS = ''^$*+?.([%-''"

text \<open>A \<open>const char *\<close> of the pattern and of the subject, read.\<close>

definition peek :: "string \<Rightarrow> char" where
  "peek p = (case p of [] \<Rightarrow> NUL | c # cs \<Rightarrow> c)"

definition char_at :: "string \<Rightarrow> nat \<Rightarrow> char" where
  "char_at src s = (if s < length src then src ! s else NUL)"

text \<open>The captures in use, the first \<open>level\<close> of the array.\<close>

definition check_capture :: "capture list \<Rightarrow> char \<Rightarrow> string + nat" where
  "check_capture caps c =
     (let l = of_char c - of_char (CHR ''1'') :: int in
      if l < 0 \<or> int (length caps) \<le> l \<or> snd (caps ! nat l) = CAP_UNFINISHED then Inl ''invalid capture index''
      else Inr (nat l))"

fun last_unfinished :: "capture list \<Rightarrow> nat \<Rightarrow> nat option" where
  "last_unfinished caps 0 = None"
| "last_unfinished caps (Suc level) =
     (if snd (caps ! level) = CAP_UNFINISHED then Some level else last_unfinished caps level)"

definition capture_to_close :: "capture list \<Rightarrow> string + nat" where
  "capture_to_close caps =
     (case last_unfinished caps (length caps) of Some l \<Rightarrow> Inr l | None \<Rightarrow> Inl ''invalid pattern capture'')"

section \<open>Single characters\<close>

text \<open>The loop looks for the closing bracket; \<open>p\<close> is at the next character of the set.\<close>

function set_end :: "string \<Rightarrow> string + string" where
  "set_end p =
     (case p of
        [] \<Rightarrow> Inl (''malformed pattern (missing '' @ [CHR 0x27] @ '']'' @ [CHR 0x27] @ '')'')
      | c # p1 \<Rightarrow>
          (case (if c = L_ESC \<and> p1 \<noteq> [] then tl p1 else p1) of
             [] \<Rightarrow> set_end []
           | d # q \<Rightarrow> if d = CHR '']'' then Inr q else set_end (d # q)))"
  by pat_completeness auto
termination
proof (relation "measure length")
  fix p p1 q :: string and c d :: char
  assume "p = c # p1" "(if c = L_ESC \<and> p1 \<noteq> [] then tl p1 else p1) = d # q"
  then show "(d # q, p) \<in> measure length" by (cases p1) (auto split: if_splits)
qed simp_all

declare set_end.simps [simp del]

definition classend :: "string \<Rightarrow> string + string" where
  "classend p =
     (if peek p = L_ESC then
        if tl p = [] then Inl (''malformed pattern (ends with '' @ [CHR 0x27] @ ''%'' @ [CHR 0x27] @ '')'')
        else Inr (tl (tl p))
      else if peek p = CHR ''['' then
        set_end (if peek (tl p) = CHR ''^'' then tl (tl p) else tl p)
      else Inr (tl p))"

definition match_class :: "char \<Rightarrow> char \<Rightarrow> bool" where
  "match_class c cl =
     (case map_of [(CHR ''a'', isalpha), (CHR ''c'', iscntrl), (CHR ''d'', isdigit), (CHR ''l'', islower),
        (CHR ''p'', ispunct), (CHR ''s'', isspace), (CHR ''u'', isupper), (CHR ''w'', isalnum),
        (CHR ''x'', isxdigit), (CHR ''z'', \<lambda>c. c = NUL)] (tolower cl) of
        None \<Rightarrow> cl = c
      | Some P \<Rightarrow> if islower cl then P c else \<not> P c)"

text \<open>
  The loop over a set: the argument is the text from the current character up to the closing bracket
  \<open>ec\<close>, that bracket included, as the loop can read it.
\<close>

fun set_loop :: "char \<Rightarrow> string \<Rightarrow> bool" where
  "set_loop c (x # y # r) =
     (if x = L_ESC then match_class c y \<or> set_loop c r
      else if y = CHR ''-'' \<and> 2 \<le> length r then
        ((of_char x :: nat) \<le> of_char c \<and> (of_char c :: nat) \<le> of_char (hd r)) \<or> set_loop c (tl r)
      else x = c \<or> set_loop c (y # r))"
| "set_loop c p = False"

text \<open>The set is the text from the opening bracket up to the closing one.\<close>

definition matchbracketclass :: "char \<Rightarrow> string \<Rightarrow> bool" where
  "matchbracketclass c p =
     (if peek (tl p) = CHR ''^'' then \<not> set_loop c (tl (tl p)) else set_loop c (tl p))"

text \<open>The text from \<open>p\<close> up to its later position \<open>ep\<close>.\<close>

definition text_between :: "string \<Rightarrow> string \<Rightarrow> string" where
  "text_between p ep = take (length p - length ep) p"

definition singlematch :: "char \<Rightarrow> string \<Rightarrow> string \<Rightarrow> bool" where
  "singlematch c p ep =
     (if peek p = CHR ''.'' then True
      else if peek p = L_ESC then match_class c (peek (tl p))
      else if peek p = CHR ''['' then matchbracketclass c (text_between p ep)
      else peek p = c)"

section \<open>The matcher\<close>

text \<open>The result of a match: the captures it leaves, and the end of the match unless it failed.\<close>

type_synonym mres = "string + capture list \<times> nat option"

text \<open>The loop of \<open>matchbalance\<close> from the position \<open>s\<close> on, at the nesting \<open>cont\<close>.\<close>

function balance_loop :: "string \<Rightarrow> char \<Rightarrow> char \<Rightarrow> nat \<Rightarrow> nat \<Rightarrow> nat option" where
  "balance_loop src b e cont s =
     (if s < length src then
        if src ! s = e then (if cont = 1 then Some (s + 1) else balance_loop src b e (cont - 1) (s + 1))
        else balance_loop src b e (if src ! s = b then cont + 1 else cont) (s + 1)
      else None)"
  by pat_completeness auto
termination by (relation "measure (\<lambda>(src, b, e, cont, s). length src - s)") auto

declare balance_loop.simps [simp del]

definition matchbalance :: "string \<Rightarrow> nat \<Rightarrow> string \<Rightarrow> string + nat option" where
  "matchbalance src s p =
     (case p of
        b # e # r \<Rightarrow> Inr (if char_at src s \<noteq> b then None else balance_loop src b e 1 (s + 1))
      | _ \<Rightarrow> Inl ''unbalanced pattern'')"

text \<open>\<open>k\<close> matches the rest of the pattern.\<close>

fun max_loop :: "(capture list \<Rightarrow> nat \<Rightarrow> mres) \<Rightarrow> capture list \<Rightarrow> nat \<Rightarrow> nat \<Rightarrow> mres" where
  "max_loop k caps s 0 = k caps s"
| "max_loop k caps s (Suc i) =
     (case k caps (s + Suc i) of
        Inr (caps', None) \<Rightarrow> max_loop k caps' s i
      | r \<Rightarrow> r)"

definition max_expand :: "(capture list \<Rightarrow> nat \<Rightarrow> mres) \<Rightarrow> string \<Rightarrow> capture list \<Rightarrow> nat \<Rightarrow> string \<Rightarrow> string \<Rightarrow> mres" where
  "max_expand k src caps s p ep = max_loop k caps s (length (takeWhile (\<lambda>c. singlematch c p ep) (drop s src)))"

function min_expand :: "(capture list \<Rightarrow> nat \<Rightarrow> mres) \<Rightarrow> string \<Rightarrow> capture list \<Rightarrow> nat \<Rightarrow> string \<Rightarrow> string \<Rightarrow> mres" where
  "min_expand k src caps s p ep =
     (case k caps s of
        Inr (caps', None) \<Rightarrow>
          if s < length src \<and> singlematch (src ! s) p ep then min_expand k src caps' (s + 1) p ep
          else Inr (caps', None)
      | r \<Rightarrow> r)"
  by pat_completeness auto
termination by (relation "measure (\<lambda>(k, src, caps, s, p, ep). length src - s)") auto

declare min_expand.simps [simp del]

definition start_capture :: "(capture list \<Rightarrow> nat \<Rightarrow> mres) \<Rightarrow> capture list \<Rightarrow> nat \<Rightarrow> int \<Rightarrow> mres" where
  "start_capture k caps s what =
     (if LUA_MAXCAPTURES \<le> length caps then Inl ''too many captures''
      else case k (caps @ [(s, what)]) s of
        Inr (caps', None) \<Rightarrow> Inr (take (length caps' - 1) caps', None)
      | r \<Rightarrow> r)"

definition end_capture :: "(capture list \<Rightarrow> nat \<Rightarrow> mres) \<Rightarrow> capture list \<Rightarrow> nat \<Rightarrow> mres" where
  "end_capture k caps s =
     (case capture_to_close caps of
        Inl e \<Rightarrow> Inl e
      | Inr l \<Rightarrow>
          (case k (caps[l := (fst (caps ! l), int s - int (fst (caps ! l)))]) s of
             Inr (caps', None) \<Rightarrow> Inr (caps'[l := (fst (caps' ! l), CAP_UNFINISHED)], None)
           | r \<Rightarrow> r))"

text \<open>The length is compared as a \<open>size_t\<close>: a position capture is longer than any rest of the subject.\<close>

definition match_capture :: "string \<Rightarrow> capture list \<Rightarrow> nat \<Rightarrow> char \<Rightarrow> string + nat option" where
  "match_capture src caps s c =
     (case check_capture caps c of
        Inl e \<Rightarrow> Inl e
      | Inr l \<Rightarrow>
          (case caps ! l of (i, len) \<Rightarrow>
             Inr (if 0 \<le> len \<and> len \<le> int (length src - s) \<and> take (nat len) (drop i src) = take (nat len) (drop s src)
                  then Some (s + nat len) else None)))"

text \<open>What \<^verbatim>\<open>%f\<close> asks of the characters before and at the position.\<close>

definition at_frontier :: "string \<Rightarrow> nat \<Rightarrow> string \<Rightarrow> bool" where
  "at_frontier src s cls \<longleftrightarrow>
     \<not> matchbracketclass (if s = 0 then NUL else char_at src (s - 1)) cls \<and> matchbracketclass (char_at src s) cls"

lemma set_end_length: "set_end p = Inr q \<Longrightarrow> length q < length p"
proof (induction p rule: set_end.induct)
  case (1 p)
  show ?case
  proof (cases p)
    case Nil
    with "1.prems" show ?thesis by (simp add: set_end.simps)
  next
    case (Cons c p1)
    let ?p2 = "if c = L_ESC \<and> p1 \<noteq> [] then tl p1 else p1"
    have l: "length ?p2 \<le> length p1" by simp
    show ?thesis
    proof (cases ?p2)
      case Nil
      then have "set_end [] = Inr q" using "1.prems" Cons by (subst (asm) set_end.simps) simp
      then show ?thesis by (simp add: set_end.simps)
    next
      case p2: (Cons d r)
      then have "d = CHR '']'' \<and> q = r \<or> d \<noteq> CHR '']'' \<and> set_end (d # r) = Inr q"
        using "1.prems" Cons by (subst (asm) set_end.simps) (simp split: if_splits)
      then show ?thesis using "1.IH"(2) [OF Cons p2] l Cons p2 by auto
    qed
  qed
qed

lemma classend_length: "classend p = Inr ep \<Longrightarrow> p \<noteq> [] \<Longrightarrow> length ep < length p"
proof -
  assume a: "classend p = Inr ep" "p \<noteq> []"
  then obtain c q where p: "p = c # q" by (cases p) auto
  show ?thesis
    using a(1) set_end_length [of q ep] set_end_length [of "tl q" ep] p
    by (cases q) (auto simp: classend_def peek_def split: if_splits)
qed

text \<open>
  A pattern item and the suffix that follows it: \<open>k\<close> matches what is behind the suffix, \<open>k0\<close> what is
  behind an item with no suffix.
\<close>

definition match_item ::
  "(capture list \<Rightarrow> nat \<Rightarrow> mres) \<Rightarrow> (capture list \<Rightarrow> nat \<Rightarrow> mres) \<Rightarrow> string \<Rightarrow> capture list \<Rightarrow> nat \<Rightarrow> string \<Rightarrow> string \<Rightarrow> mres" where
  "match_item k k0 src caps s p ep =
     (let m = s < length src \<and> singlematch (src ! s) p ep in
      if peek ep = CHR ''?'' then
        (case (if m then k caps (s + 1) else Inr (caps, None)) of
           Inr (caps', None) \<Rightarrow> k caps' s
         | r \<Rightarrow> r)
      else if peek ep = CHR ''*'' then max_expand k src caps s p ep
      else if peek ep = CHR ''+'' then (if m then max_expand k src caps (s + 1) p ep else Inr (caps, None))
      else if peek ep = CHR ''-'' then min_expand k src caps s p ep
      else if m then k0 caps (s + 1)
      else Inr (caps, None))"

text \<open>Going on at the position \<open>r\<close>, if there is one.\<close>

definition go_on :: "(capture list \<Rightarrow> nat \<Rightarrow> mres) \<Rightarrow> capture list \<Rightarrow> string + nat option \<Rightarrow> mres" where
  "go_on k caps r = (case r of Inl e \<Rightarrow> Inl e | Inr None \<Rightarrow> Inr (caps, None) | Inr (Some s) \<Rightarrow> k caps s)"

function match :: "string \<Rightarrow> capture list \<Rightarrow> nat \<Rightarrow> string \<Rightarrow> mres" where
  "match src caps s p =
     (case p of
        [] \<Rightarrow> Inr (caps, Some s)
      | c # q \<Rightarrow>
          if c = CHR ''('' then
            if peek q = CHR '')'' then start_capture (\<lambda>caps s. match src caps s (tl q)) caps s CAP_POSITION
            else start_capture (\<lambda>caps s. match src caps s q) caps s CAP_UNFINISHED
          else if c = CHR '')'' then end_capture (\<lambda>caps s. match src caps s q) caps s
          else if c = L_ESC \<and> peek q = CHR ''b'' then
            go_on (\<lambda>caps s. match src caps s (drop 3 q)) caps (matchbalance src s (tl q))
          else if c = L_ESC \<and> peek q = CHR ''f'' then
            if peek (tl q) \<noteq> CHR ''['' then
              Inl (''missing '' @ [CHR 0x27] @ ''['' @ [CHR 0x27] @ '' after '' @ [CHR 0x27] @ ''%f'' @ [CHR 0x27] @ '' in pattern'')
            else
              (case classend (tl q) of
                 Inl e \<Rightarrow> Inl e
               | Inr ep \<Rightarrow>
                   if at_frontier src s (text_between (tl q) ep) then match src caps s ep else Inr (caps, None))
          else if c = L_ESC \<and> isdigit (peek q) then
            go_on (\<lambda>caps s. match src caps s (tl q)) caps (match_capture src caps s (peek q))
          else if c = CHR ''$'' \<and> q = [] then Inr (caps, if s = length src then Some s else None)
          else
            (case classend p of
               Inl e \<Rightarrow> Inl e
             | Inr ep \<Rightarrow>
                 match_item (\<lambda>caps s. match src caps s (tl ep)) (\<lambda>caps s. match src caps s ep) src caps s p ep))"
  by pat_completeness auto
termination
proof (relation "measure (\<lambda>(src, caps, s, p). length p)")
  fix src :: string and caps :: "capture list" and s :: nat and p q ep :: string and c :: char
  assume a: "p = c # q" "\<not> peek (tl q) \<noteq> CHR ''[''" "classend (tl q) = Inr ep"
  then have "tl q \<noteq> []" by (auto simp: peek_def NUL_def)
  then have "length ep < length (tl q)" using classend_length a(3) by blast
  then show "((src, caps, s, ep), src, caps, s, p) \<in> measure (\<lambda>(src, caps, s, p). length p)"
    using a(1) by simp
qed (auto dest: classend_length simp: less_Suc_eq_le)

declare match.simps [simp del]

end
