(* ===== verification/Lua_Pattern_Spec.thy ===== *)
theory Lua_Pattern_Spec
  imports Lua_Pattern
begin

text \<open>
  What the pattern matcher (\<open>Lua_Pattern\<close>) computes. The reference is the list of all matches of a
  pattern at a position, in the order of preference: longer repetitions first, or shorter ones for \<^verbatim>\<open>-\<close>.
  It has neither backtracking nor a state to undo. For a well-formed pattern the matcher
  finds the first match of the list; for any pattern it stays inside of the subject.
\<close>

section \<open>The reference\<close>

type_synonym solutions = "(capture list \<times> nat) list"

definition run_length :: "string \<Rightarrow> nat \<Rightarrow> string \<Rightarrow> string \<Rightarrow> nat" where
  "run_length src s p ep = length (takeWhile (\<lambda>c. singlematch c p ep) (drop s src))"

definition at_each :: "(nat \<Rightarrow> solutions) \<Rightarrow> nat list \<Rightarrow> solutions" where
  "at_each K is = concat (map K is)"

definition all_item ::
  "(capture list \<Rightarrow> nat \<Rightarrow> solutions) \<Rightarrow> (capture list \<Rightarrow> nat \<Rightarrow> solutions) \<Rightarrow>
   string \<Rightarrow> capture list \<Rightarrow> nat \<Rightarrow> string \<Rightarrow> string \<Rightarrow> solutions" where
  "all_item K K0 src caps s p ep =
     (let n = run_length src s p ep in
      if peek ep = CHR ''?'' then at_each (K caps) (if 0 < n then [s + 1, s] else [s])
      else if peek ep = CHR ''*'' then at_each (K caps) (rev [s..<s + n + 1])
      else if peek ep = CHR ''+'' then at_each (K caps) (rev [s + 1..<s + n + 1])
      else if peek ep = CHR ''-'' then at_each (K caps) [s..<s + n + 1]
      else if 0 < n then K0 caps (s + 1)
      else [])"

definition all_on :: "(nat \<Rightarrow> solutions) \<Rightarrow> string + nat option \<Rightarrow> solutions" where
  "all_on K r = (case r of Inr (Some s) \<Rightarrow> K s | _ \<Rightarrow> [])"

definition close_capture :: "capture list \<Rightarrow> nat \<Rightarrow> nat \<Rightarrow> capture list" where
  "close_capture caps l s = caps[l := (fst (caps ! l), int s - int (fst (caps ! l)))]"

function all_matches :: "string \<Rightarrow> capture list \<Rightarrow> nat \<Rightarrow> string \<Rightarrow> solutions" where
  "all_matches src caps s p =
     (case p of
        [] \<Rightarrow> [(caps, s)]
      | c # q \<Rightarrow>
          if c = CHR ''('' then
            if peek q = CHR '')'' then all_matches src (caps @ [(s, CAP_POSITION)]) s (tl q)
            else all_matches src (caps @ [(s, CAP_UNFINISHED)]) s q
          else if c = CHR '')'' then
            (case capture_to_close caps of Inl e \<Rightarrow> [] | Inr l \<Rightarrow> all_matches src (close_capture caps l s) s q)
          else if c = L_ESC \<and> peek q = CHR ''b'' then
            all_on (\<lambda>s. all_matches src caps s (drop 3 q)) (matchbalance src s (tl q))
          else if c = L_ESC \<and> peek q = CHR ''f'' then
            if peek (tl q) = CHR ''['' then
              (case classend (tl q) of
                 Inl e \<Rightarrow> []
               | Inr ep \<Rightarrow> if at_frontier src s (text_between (tl q) ep) then all_matches src caps s ep else [])
            else []
          else if c = L_ESC \<and> isdigit (peek q) then
            all_on (\<lambda>s. all_matches src caps s (tl q)) (match_capture src caps s (peek q))
          else if c = CHR ''$'' \<and> q = [] then (if s = length src then [(caps, s)] else [])
          else
            (case classend p of
               Inl e \<Rightarrow> []
             | Inr ep \<Rightarrow>
                 all_item (\<lambda>caps s. all_matches src caps s (tl ep)) (\<lambda>caps s. all_matches src caps s ep) src caps s p ep))"
  by pat_completeness auto
termination
proof (relation "measure (\<lambda>(src, caps, s, p). length p)")
  fix src :: string and caps :: "capture list" and s :: nat and p q ep :: string and c :: char
  assume a: "p = c # q" "peek (tl q) = CHR ''[''" "classend (tl q) = Inr ep"
  then have "tl q \<noteq> []" by (auto simp: peek_def NUL_def)
  then have "length ep < length (tl q)" using classend_length a(3) by blast
  then show "((src, caps, s, ep), src, caps, s, p) \<in> measure (\<lambda>(src, caps, s, p). length p)"
    using a(1) by simp
qed (auto dest: classend_length simp: less_Suc_eq_le)

declare all_matches.simps [simp del]

text \<open>
  Well-formed patterns: \<open>cs\<close> tells of each capture begun so far whether it is still open. There is
  no error in them that the matcher could meet.
\<close>

definition suffixed :: "string \<Rightarrow> bool" where
  "suffixed ep \<longleftrightarrow> peek ep \<in> {CHR ''?'', CHR ''*'', CHR ''+'', CHR ''-''}"

fun last_open :: "bool list \<Rightarrow> nat \<Rightarrow> nat option" where
  "last_open cs 0 = None"
| "last_open cs (Suc n) = (if cs ! n then Some n else last_open cs n)"

function wf_pattern :: "bool list \<Rightarrow> string \<Rightarrow> bool" where
  "wf_pattern cs p =
     (case p of
        [] \<Rightarrow> True
      | c # q \<Rightarrow>
          if c = CHR ''('' then
            length cs < LUA_MAXCAPTURES \<and>
            (if peek q = CHR '')'' then wf_pattern (cs @ [False]) (tl q) else wf_pattern (cs @ [True]) q)
          else if c = CHR '')'' then
            (case last_open cs (length cs) of None \<Rightarrow> False | Some l \<Rightarrow> wf_pattern (cs[l := False]) q)
          else if c = L_ESC \<and> peek q = CHR ''b'' then 3 \<le> length q \<and> wf_pattern cs (drop 3 q)
          else if c = L_ESC \<and> peek q = CHR ''f'' then
            if peek (tl q) = CHR ''['' then
              (case classend (tl q) of Inl e \<Rightarrow> False | Inr ep \<Rightarrow> wf_pattern cs ep)
            else False
          else if c = L_ESC \<and> isdigit (peek q) then
            0 < digit_val (peek q) \<and> digit_val (peek q) \<le> length cs \<and> \<not> cs ! (digit_val (peek q) - 1) \<and>
            wf_pattern cs (tl q)
          else if c = CHR ''$'' \<and> q = [] then True
          else
            (case classend p of
               Inl e \<Rightarrow> False
             | Inr ep \<Rightarrow> if suffixed ep then wf_pattern cs (tl ep) else wf_pattern cs ep))"
  by pat_completeness auto
termination
proof (relation "measure (\<lambda>(cs, p). length p)")
  fix cs :: "bool list" and p q ep :: string and c :: char
  assume a: "p = c # q" "peek (tl q) = CHR ''[''" "classend (tl q) = Inr ep"
  then have "tl q \<noteq> []" by (auto simp: peek_def NUL_def)
  then have "length ep < length (tl q)" using classend_length a(3) by blast
  then show "((cs, ep), cs, p) \<in> measure (\<lambda>(cs, p). length p)" using a(1) by simp
qed (auto dest: classend_length simp: less_Suc_eq_le)

declare wf_pattern.simps [simp del]

section \<open>The matcher finds the first match\<close>

definition first :: "capture list \<Rightarrow> solutions \<Rightarrow> mres" where
  "first caps ms = (case ms of [] \<Rightarrow> Inr (caps, None) | (c, e) # r \<Rightarrow> Inr (c, Some e))"

definition statuses :: "capture list \<Rightarrow> bool list" where
  "statuses caps = map (\<lambda>c. snd c = CAP_UNFINISHED) caps"

text \<open>The open captures began before.\<close>

definition opened :: "capture list \<Rightarrow> nat \<Rightarrow> bool" where
  "opened caps s \<longleftrightarrow> (\<forall>c \<in> set caps. snd c = CAP_UNFINISHED \<longrightarrow> fst c \<le> s)"

text \<open>\<open>k\<close> finds what \<open>K\<close> lists first.\<close>

definition finds :: "bool list \<Rightarrow> (capture list \<Rightarrow> nat \<Rightarrow> mres) \<Rightarrow> (capture list \<Rightarrow> nat \<Rightarrow> solutions) \<Rightarrow> bool" where
  "finds cs k K \<longleftrightarrow> (\<forall>caps s. statuses caps = cs \<longrightarrow> opened caps s \<longrightarrow> k caps s = first caps (K caps s))"

lemma findsD: "finds cs k K \<Longrightarrow> statuses caps = cs \<Longrightarrow> opened caps s \<Longrightarrow> k caps s = first caps (K caps s)"
  by (simp add: finds_def)

lemma opened_mono: "opened caps s \<Longrightarrow> s \<le> s' \<Longrightarrow> opened caps s'"
  unfolding opened_def by (meson le_trans)

lemma first_append: "first caps (xs @ ys) = (if xs = [] then first caps ys else first caps xs)"
  by (cases xs) (auto simp: first_def)

lemma first_cases: "first caps ms = Inr (caps', None) \<longleftrightarrow> ms = [] \<and> caps' = caps"
  by (auto simp: first_def split: list.splits)

lemma orelse_first:
  "(case first caps xs of Inr (caps', None) \<Rightarrow> f caps' | r \<Rightarrow> r) = (if xs = [] then f caps else first caps xs)"
  by (cases xs) (auto simp: first_def)

lemma max_loop_first:
  assumes "finds cs k K" "statuses caps = cs"
  shows "opened caps s \<Longrightarrow> max_loop k caps s i = first caps (at_each (K caps) (rev [s..<s + i + 1]))"
proof (induction i)
  case 0
  then show ?case using findsD [OF assms] by (simp add: at_each_def)
next
  case (Suc i)
  have "k caps (s + Suc i) = first caps (K caps (s + Suc i))"
    using findsD [OF assms, of "s + Suc i"] opened_mono [OF Suc.prems, of "s + Suc i"] by simp
  moreover have "at_each (K caps) (rev [s..<s + Suc i + 1]) = K caps (s + Suc i) @ at_each (K caps) (rev [s..<s + i + 1])"
    by (simp add: at_each_def)
  ultimately show ?case using Suc by (simp add: orelse_first first_append)
qed

lemma run_length_step:
  "run_length src s p ep = (if s < length src \<and> singlematch (src ! s) p ep then Suc (run_length src (s + 1) p ep) else 0)"
proof (cases "s < length src")
  case True
  then have "drop s src = src ! s # drop (Suc s) src" by (simp add: Cons_nth_drop_Suc)
  then show ?thesis using True by (simp add: run_length_def)
qed (simp add: run_length_def)

lemma min_expand_first:
  assumes "finds cs k K" "statuses caps = cs"
  shows "opened caps s \<Longrightarrow>
    min_expand k src caps s p ep = first caps (at_each (K caps) [s..<s + run_length src s p ep + 1])"
proof (induction "length src - s" arbitrary: s)
  case 0
  have "k caps s = first caps (K caps s)" by (rule findsD [OF assms 0(2)])
  then show ?case using 0(1)
    by (subst min_expand.simps) (cases "K caps s"; auto simp: run_length_step [of _ s] at_each_def first_def)
next
  case (Suc n)
  have k: "k caps s = first caps (K caps s)" by (rule findsD [OF assms Suc.prems])
  have o: "opened caps (s + 1)" by (rule opened_mono [OF Suc.prems]) simp
  show ?case
  proof (cases "singlematch (src ! s) p ep")
    case True
    have l: "s < length src" using Suc(2) by simp
    have r: "[s..<s + run_length src s p ep + 1] = s # [s + 1..<s + 1 + run_length src (s + 1) p ep + 1]"
      using True l by (subst run_length_step) (simp add: upt_rec [of s])
    have "min_expand k src caps s p ep =
        (if K caps s = [] then min_expand k src caps (s + 1) p ep else first caps (K caps s))"
      using True l by (subst min_expand.simps) (simp add: k orelse_first)
    also have "min_expand k src caps (s + 1) p ep =
        first caps (at_each (K caps) [s + 1..<s + 1 + run_length src (s + 1) p ep + 1])"
      using Suc(1) [of "s + 1"] Suc(2) o by simp
    finally show ?thesis unfolding r by (simp add: at_each_def first_append)
  next
    case False
    then show ?thesis using k
      by (subst min_expand.simps) (cases "K caps s"; auto simp: run_length_step [of _ s] at_each_def first_def)
  qed
qed

lemma match_item_first:
  assumes k: "if suffixed ep then finds cs k K else finds cs k0 K0"
    and c: "statuses caps = cs" "opened caps s"
  shows "match_item k k0 src caps s p ep = first caps (all_item K K0 src caps s p ep)"
proof -
  let ?m = "s < length src \<and> singlematch (src ! s) p ep"
  have o: "opened caps (s + 1)" by (rule opened_mono [OF c(2)]) simp
  have m: "?m \<longleftrightarrow> 0 < run_length src s p ep" by (subst run_length_step) simp
  have n: "run_length src (s + 1) p ep = run_length src s p ep - 1" if ?m using that by (subst (2) run_length_step) simp
  show ?thesis
  proof (cases "suffixed ep")
    case True
    then have f: "finds cs k K" using k by simp
    note max = max_loop_first [OF f c(1)] and k' = findsD [OF f c(1)]
    consider "peek ep = CHR ''?''" | "peek ep = CHR ''*''" | "peek ep = CHR ''+''" | "peek ep = CHR ''-''"
      using True by (auto simp: suffixed_def)
    then show ?thesis
    proof cases
      case 1
      then show ?thesis using k' [OF c(2)] k' [OF o] m
        by (cases ?m) (auto simp: match_item_def all_item_def Let_def orelse_first at_each_def first_append)
    next
      case 2
      then show ?thesis using max [OF c(2)]
        by (simp add: match_item_def all_item_def Let_def max_expand_def run_length_def)
    next
      case 3
      show ?thesis
      proof (cases ?m)
        case True
        have e: "s + 1 + run_length src (s + 1) p ep + 1 = s + run_length src s p ep + 1" using n [OF True] m True by simp
        show ?thesis using 3 True max [OF o, of "run_length src (s + 1) p ep"] unfolding e
          by (simp only: match_item_def all_item_def Let_def max_expand_def flip: run_length_def) simp
      next
        case False
        then show ?thesis using 3 m by (auto simp: match_item_def all_item_def Let_def at_each_def first_def)
      qed
    next
      case 4
      then show ?thesis using min_expand_first [OF f c] by (simp add: match_item_def all_item_def Let_def)
    qed
  next
    case False
    then show ?thesis using k c o m findsD [of cs k0 K0 caps "s + 1"]
      by (auto simp: match_item_def all_item_def suffixed_def Let_def first_def)
  qed
qed

lemma statuses_simps [simp]:
  "statuses (caps @ [(s, w)]) = statuses caps @ [w = CAP_UNFINISHED]" "length (statuses caps) = length caps"
  "statuses (caps[l := (i, n)]) = (statuses caps)[l := n = CAP_UNFINISHED]"
  by (simp_all add: statuses_def map_update)

lemma statuses_nth [simp]: "l < length caps \<Longrightarrow> statuses caps ! l \<longleftrightarrow> snd (caps ! l) = CAP_UNFINISHED"
  by (simp add: statuses_def)

lemma last_unfinished_open: "n \<le> length caps \<Longrightarrow> last_unfinished caps n = last_open (statuses caps) n"
  by (induction n) simp_all

lemma last_open_Some: "last_open cs n = Some l \<Longrightarrow> l < n \<and> cs ! l"
  by (induction n) (auto split: if_splits)

lemma start_capture_first:
  assumes "finds (cs @ [what = CAP_UNFINISHED]) k K" "statuses caps = cs" "opened caps s" "length cs < LUA_MAXCAPTURES"
  shows "start_capture k caps s what = first caps (K (caps @ [(s, what)]) s)"
proof -
  have "opened (caps @ [(s, what)]) s" using assms(3) by (auto simp: opened_def)
  then have "k (caps @ [(s, what)]) s = first (caps @ [(s, what)]) (K (caps @ [(s, what)]) s)"
    using assms by (intro findsD) auto
  moreover have "length caps < LUA_MAXCAPTURES" using assms(2,4) by auto
  ultimately show ?thesis
    by (cases "K (caps @ [(s, what)]) s") (auto simp: start_capture_def first_def)
qed

lemma end_capture_first:
  assumes f: "finds (cs[l := False]) k K" and c: "statuses caps = cs" "opened caps s" and l: "last_open cs (length cs) = Some l"
  shows "capture_to_close caps = Inr l" "end_capture k caps s = first caps (K (close_capture caps l s) s)"
proof -
  have ll: "l < length caps" "snd (caps ! l) = CAP_UNFINISHED" using last_open_Some [OF l] c(1) by auto
  have le: "fst (caps ! l) \<le> s" using c(2) ll by (auto simp: opened_def)
  show 1: "capture_to_close caps = Inr l"
    using l c(1) last_unfinished_open [of "length caps" caps] by (auto simp: capture_to_close_def)
  have "opened (close_capture caps l s) s"
    using c(2) le by (auto simp: opened_def close_capture_def CAP_UNFINISHED_def dest!: set_update_subset_insert [THEN subsetD])
  moreover have "statuses (close_capture caps l s) = cs[l := False]"
    using c(1) le by (simp add: close_capture_def CAP_UNFINISHED_def)
  ultimately have "k (close_capture caps l s) s = first (close_capture caps l s) (K (close_capture caps l s) s)"
    by (intro findsD [OF f])
  moreover have "(close_capture caps l s)[l := (fst (close_capture caps l s ! l), CAP_UNFINISHED)] = caps"
    using ll by (simp add: close_capture_def) (metis list_update_id prod.collapse)
  ultimately show "end_capture k caps s = first caps (K (close_capture caps l s) s)"
    using 1 by (cases "K (close_capture caps l s) s") (auto simp: end_capture_def close_capture_def first_def)
qed

lemma balance_loop_ge: "balance_loop src b e n s = Some r \<Longrightarrow> s < r \<and> r \<le> length src"
proof (induction src b e n s rule: balance_loop.induct)
  case (1 src b e cont s)
  have l: "s < length src" using "1.prems" by (subst (asm) balance_loop.simps) (simp split: if_splits)
  show ?case
  proof (cases "src ! s = e")
    case True
    show ?thesis
    proof (cases "cont = 1")
      case c: True
      then have "r = s + 1" using "1.prems" True l by (subst (asm) balance_loop.simps) simp
      then show ?thesis using l by simp
    next
      case False
      then have "balance_loop src b e (cont - 1) (s + 1) = Some r"
        using "1.prems" True l by (subst (asm) balance_loop.simps) simp
      from "1.IH"(1) [OF l True False this] show ?thesis by simp
    qed
  next
    case False
    then have "balance_loop src b e (if src ! s = b then cont + 1 else cont) (s + 1) = Some r"
      using "1.prems" l by (subst (asm) balance_loop.simps) simp
    from "1.IH"(2) [OF l False this] show ?thesis by simp
  qed
qed

lemma matchbalance_ge: "matchbalance src s p = Inr (Some r) \<Longrightarrow> s \<le> r \<and> r \<le> length src"
  by (auto simp: matchbalance_def dest!: balance_loop_ge split: list.splits if_splits)

lemma match_capture_ge: "match_capture src caps s c = Inr (Some r) \<Longrightarrow> s \<le> r \<and> (s \<le> length src \<longrightarrow> r \<le> length src)"
  by (auto simp: match_capture_def split: sum.splits prod.splits if_splits)

lemma go_on_first:
  assumes "finds cs k K" "statuses caps = cs" "opened caps s"
    and "\<And>e. r \<noteq> Inl e" "\<And>s'. r = Inr (Some s') \<Longrightarrow> s \<le> s'"
  shows "go_on k caps r = first caps (all_on (K caps) r)"
proof (cases r)
  case (Inr o')
  then show ?thesis
    using findsD [OF assms(1,2)] opened_mono [OF assms(3)] assms(5)
    by (cases o') (auto simp: go_on_def all_on_def first_def)
qed (use assms in simp)

lemma check_capture_ok:
  assumes "isdigit c" "0 < digit_val c" "digit_val c \<le> length caps" "\<not> statuses caps ! (digit_val c - 1)"
  shows "check_capture caps c = Inr (digit_val c - 1)"
proof -
  have "(of_char c - of_char (CHR ''1'') :: int) = int (digit_val c) - 1"
    using assms(1) by (simp add: digit_val_def isdigit_def Let_def of_char_def of_nat_diff)
  then show ?thesis using assms(2-4) by (auto simp: check_capture_def nat_diff_distrib)
qed

lemma match_first:
  "wf_pattern cs p \<Longrightarrow> finds cs (\<lambda>caps s. match src caps s p) (\<lambda>caps s. all_matches src caps s p)"
proof (induction p arbitrary: cs rule: measure_induct_rule [of length])
  case (less p)
  show ?case
    unfolding finds_def
  proof (intro allI impI)
    fix caps :: "capture list" and s
    assume c: "statuses caps = cs" "opened caps s"
    show "match src caps s p = first caps (all_matches src caps s p)"
    proof (cases p)
      case Nil
      then show ?thesis by (simp add: match.simps all_matches.simps first_def)
    next
      case (Cons x q)
      note m = match.simps [of src caps s "x # q"] and a = all_matches.simps [of src caps s "x # q"]
        and w = less.prems [unfolded Cons wf_pattern.simps [of cs "x # q"]]
      have IH: "finds cs' (\<lambda>caps s. match src caps s r) (\<lambda>caps s. all_matches src caps s r)"
        if "wf_pattern cs' r" "length r \<le> length q" for cs' r
        using less.IH that Cons by simp
      have t: "length (tl q) \<le> length q" "length (drop 3 q) \<le> length q" "length q \<le> length q" by simp_all
      consider "x = CHR ''(''" | "x = CHR '')''" | "x = L_ESC" "peek q = CHR ''b''" | "x = L_ESC" "peek q = CHR ''f''"
        | "x = L_ESC" "isdigit (peek q)" | "x = CHR ''$''" "q = []"
        | "x \<noteq> CHR ''(''" "x \<noteq> CHR '')''" "\<not> (x = L_ESC \<and> (peek q = CHR ''b'' \<or> peek q = CHR ''f'' \<or> isdigit (peek q)))"
          "\<not> (x = CHR ''$'' \<and> q = [])"
        by blast
      then show ?thesis
      proof cases
        case 1
        show ?thesis
        proof (cases "peek q = CHR '')''")
          case True
          then have wf: "wf_pattern (cs @ [False]) (tl q)" "length cs < LUA_MAXCAPTURES" using w 1 by auto
          have n: "(CAP_POSITION = CAP_UNFINISHED) = False" by (simp add: CAP_POSITION_def CAP_UNFINISHED_def)
          show ?thesis
            using start_capture_first [of cs CAP_POSITION, unfolded n, OF IH [OF wf(1) t(1)] c wf(2)] 1 True Cons m a by simp
        next
          case False
          then have wf: "wf_pattern (cs @ [True]) q" "length cs < LUA_MAXCAPTURES" using w 1 by auto
          have n: "(CAP_UNFINISHED = CAP_UNFINISHED) = True" by simp
          show ?thesis
            using start_capture_first [of cs CAP_UNFINISHED, unfolded n, OF IH [OF wf(1) t(3)] c wf(2)] 1 False Cons m a by simp
        qed
      next
        case 2
        then obtain l where l: "last_open cs (length cs) = Some l" "wf_pattern (cs[l := False]) q"
          using w by (auto split: option.splits)
        show ?thesis
          using end_capture_first [OF IH [OF l(2) t(3)] c l(1)] 2 Cons m a by simp
      next
        case 3
        then have wf: "wf_pattern cs (drop 3 q)" "3 \<le> length q" using w by auto
        have "matchbalance src s (tl q) \<noteq> Inl e" for e
          using wf(2) by (cases q; cases "tl q"; cases "tl (tl q)") (auto simp: matchbalance_def)
        then show ?thesis
          using go_on_first [OF IH [OF wf(1) t(2)] c, of "matchbalance src s (tl q)"] matchbalance_ge 3 Cons m a by auto
      next
        case 4
        then obtain ep where ep: "peek (tl q) = CHR ''[''" "classend (tl q) = Inr ep" "wf_pattern cs ep"
          using w by (auto split: if_splits sum.splits)
        then have "tl q \<noteq> []" by (auto simp: peek_def NUL_def)
        then have "length ep \<le> length q" using classend_length [OF ep(2)] by simp
        then show ?thesis
          using findsD [OF IH [OF ep(3)] c] ep(1,2) 4 Cons m a by (auto simp: first_def)
      next
        case 5
        have d: "peek q \<noteq> CHR ''b''" "peek q \<noteq> CHR ''f''" using 5(2) by (auto simp: isdigit_def)
        with 5 have wf: "0 < digit_val (peek q)" "digit_val (peek q) \<le> length cs" "\<not> cs ! (digit_val (peek q) - 1)"
          "wf_pattern cs (tl q)"
          using w by auto
        have "check_capture caps (peek q) = Inr (digit_val (peek q) - 1)"
          using 5(2) wf c(1) by (intro check_capture_ok) auto
        then have "match_capture src caps s (peek q) \<noteq> Inl e" for e
          by (simp add: match_capture_def split: prod.split)
        then show ?thesis
          using go_on_first [OF IH [OF wf(4) t(1)] c, of "match_capture src caps s (peek q)"] match_capture_ge [of src caps s]
            5 d Cons m a by auto
      next
        case 6
        then show ?thesis using Cons m a by (simp add: first_def)
      next
        case 7
        then obtain ep where ep: "classend p = Inr ep" "if suffixed ep then wf_pattern cs (tl ep) else wf_pattern cs ep"
          using w Cons by (auto split: if_splits sum.splits)
        have "length ep \<le> length q" using classend_length [OF ep(1)] Cons by simp
        then have "if suffixed ep then finds cs (\<lambda>caps s. match src caps s (tl ep)) (\<lambda>caps s. all_matches src caps s (tl ep))
          else finds cs (\<lambda>caps s. match src caps s ep) (\<lambda>caps s. all_matches src caps s ep)"
          using IH [of cs ep] IH [of cs "tl ep"] ep(2) by auto
        from match_item_first [OF this c, of src p] show ?thesis using 7 ep(1) Cons m a by auto
      qed
    qed
  qed
qed

section \<open>The matcher stays inside of the subject\<close>

text \<open>Every capture begins in the subject, an open one before \<open>s\<close>, and a closed one also ends in it.\<close>

definition caps_ok :: "string \<Rightarrow> capture list \<Rightarrow> nat \<Rightarrow> bool" where
  "caps_ok src caps s \<longleftrightarrow>
     (\<forall>(i, n) \<in> set caps. i \<le> length src \<and>
        (n = CAP_UNFINISHED \<and> i \<le> s \<or> n = CAP_POSITION \<or> 0 \<le> n \<and> int i + n \<le> int (length src)))"

definition inside :: "string \<Rightarrow> capture list \<Rightarrow> nat \<Rightarrow> mres \<Rightarrow> bool" where
  "inside src caps s r \<longleftrightarrow>
     (case r of
        Inl e \<Rightarrow> True
      | Inr (c, None) \<Rightarrow> c = caps
      | Inr (c, Some e) \<Rightarrow> s \<le> e \<and> e \<le> length src \<and> caps_ok src c e)"

definition stays :: "string \<Rightarrow> (capture list \<Rightarrow> nat \<Rightarrow> mres) \<Rightarrow> bool" where
  "stays src k \<longleftrightarrow> (\<forall>caps s. s \<le> length src \<longrightarrow> caps_ok src caps s \<longrightarrow> inside src caps s (k caps s))"

lemma staysD: "stays src k \<Longrightarrow> s \<le> length src \<Longrightarrow> caps_ok src caps s \<Longrightarrow> inside src caps s (k caps s)"
  by (simp add: stays_def)

lemma caps_ok_mono: "caps_ok src caps s \<Longrightarrow> s \<le> s' \<Longrightarrow> caps_ok src caps s'"
  unfolding caps_ok_def by fastforce

lemma inside_mono: "inside src caps s' r \<Longrightarrow> s \<le> s' \<Longrightarrow> inside src caps s r"
  by (auto simp: inside_def split: sum.splits option.splits)

lemma inside_None [simp]: "inside src caps s (Inr (caps, None))" "inside src caps s (Inl e)"
  by (simp_all add: inside_def)

lemma inside_orelse:
  assumes "inside src caps s r" "inside src caps s (f caps)"
  shows "inside src caps s (case r of Inr (c, None) \<Rightarrow> f c | r \<Rightarrow> r)"
  using assms by (auto simp: inside_def split: sum.splits option.splits)

lemma stays_from:
  assumes "stays src k" "caps_ok src caps s" "s \<le> s'" "s' \<le> length src"
  shows "inside src caps s (k caps s')"
  using staysD [OF assms(1,4) caps_ok_mono [OF assms(2,3)]] inside_mono assms(3) by blast

lemma max_loop_inside:
  "stays src k \<Longrightarrow> caps_ok src caps s \<Longrightarrow> s + i \<le> length src \<Longrightarrow> inside src caps s (max_loop k caps s i)"
proof (induction i)
  case 0
  then show ?case by (simp add: staysD)
next
  case (Suc i)
  then show ?case
    unfolding max_loop.simps by (intro inside_orelse stays_from [OF Suc.prems(1,2)]) simp_all
qed

lemma max_expand_inside:
  assumes "stays src k" "caps_ok src caps s" "s \<le> length src"
  shows "inside src caps s (max_expand k src caps s p ep)"
proof -
  have "length (takeWhile (\<lambda>c. singlematch c p ep) (drop s src)) \<le> length src - s"
    using length_takeWhile_le [of _ "drop s src"] by simp
  then show ?thesis unfolding max_expand_def using assms(3) by (intro max_loop_inside assms) simp
qed

lemma min_expand_inside:
  "stays src k \<Longrightarrow> caps_ok src caps s \<Longrightarrow> s \<le> length src \<Longrightarrow> inside src caps s (min_expand k src caps s p ep)"
proof (induction "length src - s" arbitrary: s rule: less_induct)
  case less
  have "inside src caps s
      (if s < length src \<and> singlematch (src ! s) p ep then min_expand k src caps (s + 1) p ep else Inr (caps, None))"
    using less.hyps [of "s + 1"] less.prems caps_ok_mono [of src caps s "s + 1"] inside_mono [of src caps "s + 1" _ s]
    by (cases "s < length src") simp_all
  then show ?case
    by (subst min_expand.simps) (intro inside_orelse staysD [OF less.prems(1)] less.prems)
qed

lemma match_item_inside:
  assumes "suffixed ep \<Longrightarrow> stays src k" "stays src k0" "caps_ok src caps s" "s \<le> length src"
  shows "inside src caps s (match_item k k0 src caps s p ep)"
proof (cases "suffixed ep")
  case True
  note k = assms(1) [OF True]
  have max: "inside src caps s (max_expand k src caps (s + 1) p ep)" if "s < length src"
    using max_expand_inside [OF k caps_ok_mono [OF assms(3)], of "s + 1"] inside_mono [of src caps "s + 1" _ s] that by simp
  have "inside src caps s (if s < length src \<and> singlematch (src ! s) p ep then k caps (s + 1) else Inr (caps, None))"
    using stays_from [OF k assms(3), of "s + 1"] by simp
  note opt = inside_orelse [where f = "\<lambda>c. k c s", OF this staysD [OF k assms(4,3)]]
  show ?thesis
    using opt max max_expand_inside [OF k assms(3,4)] min_expand_inside [OF k assms(3,4)] True
    unfolding match_item_def Let_def suffixed_def by (auto split del: if_split split: if_splits)
next
  case False
  then show ?thesis using stays_from [OF assms(2,3), of "s + 1"] by (auto simp: match_item_def suffixed_def Let_def)
qed

lemma start_capture_inside:
  assumes "stays src k" "caps_ok src caps s" "s \<le> length src" "w = CAP_UNFINISHED \<or> w = CAP_POSITION"
  shows "inside src caps s (start_capture k caps s w)"
proof -
  have "caps_ok src (caps @ [(s, w)]) s" using assms(2-4) by (auto simp: caps_ok_def)
  from staysD [OF assms(1,3) this] show ?thesis
    by (auto simp: start_capture_def inside_def split: sum.splits option.splits)
qed

lemma last_unfinished_Some: "last_unfinished caps n = Some l \<Longrightarrow> l < n \<and> snd (caps ! l) = CAP_UNFINISHED"
  by (induction n) (auto split: if_splits)

lemma end_capture_inside:
  assumes "stays src k" "caps_ok src caps s" "s \<le> length src"
  shows "inside src caps s (end_capture k caps s)"
proof (cases "capture_to_close caps")
  case (Inr l)
  let ?c = "caps[l := (fst (caps ! l), int s - int (fst (caps ! l)))]"
  have l: "l < length caps" "snd (caps ! l) = CAP_UNFINISHED"
    using Inr last_unfinished_Some [of caps "length caps" l] by (auto simp: capture_to_close_def split: option.splits)
  then have "caps ! l \<in> set caps" by simp
  then have "fst (caps ! l) \<le> s" using assms(2) l(2) by (auto simp: caps_ok_def CAP_UNFINISHED_def CAP_POSITION_def)
  then have "caps_ok src ?c s"
    using assms(2,3) unfolding caps_ok_def by (auto dest!: set_update_subset_insert [THEN subsetD])
  moreover have "?c[l := (fst (?c ! l), CAP_UNFINISHED)] = caps"
    using l by simp (metis list_update_id prod.collapse)
  ultimately show ?thesis
    using staysD [OF assms(1,3), of ?c] Inr by (auto simp: end_capture_def inside_def split: sum.splits option.splits)
qed (simp add: end_capture_def)

lemma go_on_inside:
  assumes "stays src k" "caps_ok src caps s" "\<And>s'. r = Inr (Some s') \<Longrightarrow> s \<le> s' \<and> s' \<le> length src"
  shows "inside src caps s (go_on k caps r)"
  using stays_from [OF assms(1,2)] assms(3) by (auto simp: go_on_def split: sum.split option.split)

lemma match_stays: "stays src (\<lambda>caps s. match src caps s p)"
proof (induction p rule: measure_induct_rule [of length])
  case (less p)
  show ?case
    unfolding stays_def
  proof (intro allI impI)
    fix caps :: "capture list" and s
    assume c: "s \<le> length src" "caps_ok src caps s"
    show "inside src caps s (match src caps s p)"
    proof (cases p)
      case Nil
      then show ?thesis using c by (simp add: match.simps inside_def)
    next
      case (Cons x q)
      have IH: "stays src (\<lambda>caps s. match src caps s r)" if "length r \<le> length q" for r
        using less.IH [of r] that Cons by simp
      have t: "length (tl q) \<le> length q" "length (drop 3 q) \<le> length q" by simp_all
      have b: "inside src caps s (go_on (\<lambda>caps s. match src caps s (drop 3 q)) caps (matchbalance src s (tl q)))"
        by (rule go_on_inside [OF IH [OF t(2)] c(2) matchbalance_ge])
      have d: "inside src caps s (go_on (\<lambda>caps s. match src caps s (tl q)) caps (match_capture src caps s (peek q)))"
        using match_capture_ge [of src caps s "peek q"] c(1) by (intro go_on_inside [OF IH [OF t(1)] c(2)]) blast
      have e: "inside src caps s (Inr (caps, if s = length src then Some s else None))"
        using c by (cases "s = length src") (simp_all add: inside_def)
      have f: "inside src caps s (match src caps s ep)" if "classend (tl q) = Inr ep" "peek (tl q) = CHR ''[''" for ep
      proof -
        have "tl q \<noteq> []" using that(2) by (auto simp: peek_def NUL_def)
        then have "length ep \<le> length q" using classend_length [OF that(1)] by simp
        then show ?thesis using staysD [OF IH c] by blast
      qed
      have i: "inside src caps s (match_item (\<lambda>caps s. match src caps s (tl ep)) (\<lambda>caps s. match src caps s ep) src caps s p ep)"
        if "classend p = Inr ep" for ep
      proof -
        have "length ep \<le> length q" "length (tl ep) \<le> length q" using classend_length [OF that] Cons by simp_all
        then show ?thesis by (intro match_item_inside IH c)
      qed
      note s = start_capture_inside [OF IH [OF t(1)] c(2,1), of CAP_POSITION]
        start_capture_inside [OF IH [OF order_refl] c(2,1), of CAP_UNFINISHED]
        end_capture_inside [OF IH [OF order_refl] c(2,1)]
      have "inside src caps s (match src caps s (x # q))"
        unfolding match.simps [of src caps s "x # q"] list.case
        by (simp add: s b d e f i [unfolded Cons] split: sum.split)
      then show ?thesis by (simp add: Cons)
    qed
  qed
qed

section \<open>Properties\<close>

text \<open>C33: On a well-formed pattern the backtracking matcher, which records captures in one array and undoes
  them on failure, returns the first of all matches in the order of preference, with the captures of that
  match, and fails only if there is none; its array is then as before. It raises no error.\<close>

theorem match_finds_the_first:
  assumes "wf_pattern [] p"
  shows "match src [] s p =
    (case all_matches src [] s p of [] \<Rightarrow> Inr ([], None) | (caps, e) # others \<Rightarrow> Inr (caps, Some e))"
  using findsD [OF match_first [OF assms], of "[]" s src] by (simp add: statuses_def opened_def first_def)

theorem match_finds_the_first_witness:
  "match ''key = val'' [] 0 ''(%w+)%s*=%s*(%w+)'' = Inr ([(0, 3), (6, 3)], Some 9)"
proof -
  have "wf_pattern [] ''(%w+)%s*=%s*(%w+)''"
    by code_simp
  moreover have "hd (all_matches ''key = val'' [] 0 ''(%w+)%s*=%s*(%w+)'') = ([(0, 3), (6, 3)], 9) \<and>
    all_matches ''key = val'' [] 0 ''(%w+)%s*=%s*(%w+)'' \<noteq> []"
    by code_simp
  ultimately show ?thesis
    using match_finds_the_first [of "''(%w+)%s*=%s*(%w+)''" "''key = val''" 0] by (auto split: list.splits)
qed

text \<open>C34: For any pattern, malformed ones included, a match that starts inside of the subject ends inside of it
  and not before its start, and every capture it leaves lies in the subject; a failed match leaves
  no capture. So the functions that copy captures out of the subject read only the subject.\<close>

theorem match_stays_inside:
  assumes "s \<le> length src" "match src [] s p = Inr (caps, r)"
  shows "(case r of None \<Rightarrow> caps = [] | Some e \<Rightarrow> s \<le> e \<and> e \<le> length src) \<and>
    (\<forall>(i, n) \<in> set caps. i \<le> length src \<and> (n = CAP_UNFINISHED \<or> n = CAP_POSITION \<or> 0 \<le> n \<and> int i + n \<le> int (length src)))"
  using staysD [OF match_stays assms(1), of "[]" p] assms(2)
  by (cases r) (auto simp: inside_def caps_ok_def)

theorem match_stays_inside_witness:
  "(0 :: nat) \<le> 5 \<and> int 0 + 5 \<le> int (length ''hello'')"
proof -
  have "match ''hello'' [] 0 ''(.*)'' = Inr ([(0, 5)], Some 5)" by code_simp
  from match_stays_inside [OF _ this] show ?thesis by (simp add: CAP_UNFINISHED_def CAP_POSITION_def)
qed

end
