(* ===== verification/C_Printf.thy ===== *)
theory C_Printf
  imports Lua_Pattern
begin

text \<open>
  What src/lib/lua/lstrlib.c uses of \<open>sprintf\<close>: one conversion at a time, given by a text with flags, a
  width and a precision. Numbers are formatted exactly, by rounding fractions to the nearest,
  ties to even. The text of a result has no terminating zero byte here.
\<close>

section \<open>Conversion specifications\<close>

record fmt_spec =
  fminus :: bool
  fplus :: bool
  fspace :: bool
  falt :: bool
  fzero :: bool
  fwidth :: nat
  fprec :: "nat option"
  fconv :: char

definition FLAGS :: string where
  "FLAGS = ''-+ #0''"

definition dec_val :: "string \<Rightarrow> nat" where
  "dec_val s = foldl (\<lambda>v c. 10 * v + digit_val c) 0 s"

text \<open>A specification is \<^verbatim>\<open>%\<close>, flags, a width, a precision, perhaps an \<^verbatim>\<open>l\<close>, and the conversion.\<close>

definition parse_form :: "string \<Rightarrow> fmt_spec" where
  "parse_form form =
     (let fl = takeWhile (\<lambda>c. c \<in> set FLAGS) (tl form); r1 = dropWhile (\<lambda>c. c \<in> set FLAGS) (tl form);
          w = takeWhile isdigit r1; r2 = dropWhile isdigit r1;
          point = (peek r2 = CHR ''.'');
          r3 = (if point then dropWhile isdigit (tl r2) else r2);
          r4 = (if peek r3 = CHR ''l'' then tl r3 else r3)
      in \<lparr>fminus = CHR ''-'' \<in> set fl, fplus = CHR ''+'' \<in> set fl, fspace = CHR '' '' \<in> set fl,
          falt = CHR ''#'' \<in> set fl, fzero = CHR ''0'' \<in> set fl, fwidth = dec_val w,
          fprec = (if point then Some (dec_val (takeWhile isdigit (tl r2))) else None), fconv = peek r4\<rparr>)"

section \<open>Padding\<close>

definition zeros :: "nat \<Rightarrow> string" where "zeros n = replicate n (CHR ''0'')"

definition pad :: "fmt_spec \<Rightarrow> bool \<Rightarrow> string \<Rightarrow> string \<Rightarrow> string" where
  "pad f zero pre ds =
     (let k = fwidth f - (length pre + length ds) in
      if fminus f then pre @ ds @ replicate k (CHR '' '')
      else if zero then pre @ zeros k @ ds
      else replicate k (CHR '' '') @ pre @ ds)"

definition sign_str :: "fmt_spec \<Rightarrow> bool \<Rightarrow> string" where
  "sign_str f neg = (if neg then ''-'' else if fplus f then ''+'' else if fspace f then '' '' else [])"

section \<open>Integers, characters and strings\<close>

definition min_digits :: "nat \<Rightarrow> string \<Rightarrow> string" where
  "min_digits n ds = zeros (n - length ds) @ ds"

function base_str :: "nat \<Rightarrow> bool \<Rightarrow> nat \<Rightarrow> string" where
  "base_str b upper n =
     (let d = n mod b; c = char_of (if d < 10 then 48 + d else (if upper then 55 else 87) + d) in
      if n < b \<or> b < 2 then [c] else base_str b upper (n div b) @ [c])"
  by pat_completeness auto
termination by (relation "measure (\<lambda>(b, upper, n). n)") auto

declare base_str.simps [simp del]

definition int_digits :: "fmt_spec \<Rightarrow> string \<Rightarrow> bool \<Rightarrow> string" where
  "int_digits f ds zero = (if zero \<and> fprec f = Some 0 then [] else min_digits (case fprec f of None \<Rightarrow> 1 | Some p \<Rightarrow> p) ds)"

definition sprintf_int :: "fmt_spec \<Rightarrow> int \<Rightarrow> string" where
  "sprintf_int f k =
     pad f (fzero f \<and> fprec f = None) (sign_str f (k < 0)) (int_digits f (nat_str (nat \<bar>k\<bar>)) (k = 0))"

definition sprintf_uint :: "fmt_spec \<Rightarrow> nat \<Rightarrow> string" where
  "sprintf_uint f n =
     (let hex = (fconv f = CHR ''x'' \<or> fconv f = CHR ''X'');
          b = (if hex then 16 else if fconv f = CHR ''o'' then 8 else 10);
          ds = int_digits f (base_str b (fconv f = CHR ''X'') n) (n = 0);
          ds' = (if falt f \<and> fconv f = CHR ''o'' \<and> (ds = [] \<or> hd ds \<noteq> CHR ''0'') then CHR ''0'' # ds else ds);
          pre = (if falt f \<and> hex \<and> n \<noteq> 0 then [CHR ''0'', fconv f] else [])
      in pad f (fzero f \<and> fprec f = None) pre ds')"

definition sprintf_char :: "fmt_spec \<Rightarrow> char \<Rightarrow> string" where
  "sprintf_char f c = pad f False [] [c]"

definition sprintf_str :: "fmt_spec \<Rightarrow> string \<Rightarrow> string" where
  "sprintf_str f s = pad f False [] (case fprec f of None \<Rightarrow> c_str s | Some p \<Rightarrow> take p (c_str s))"

section \<open>Doubles\<close>

definition point_str :: "bool \<Rightarrow> string \<Rightarrow> string" where
  "point_str alt fr = (if fr = [] \<and> \<not> alt then [] else CHR ''.'' # fr)"

definition fmt_fixed :: "bool \<Rightarrow> nat \<Rightarrow> nat \<Rightarrow> nat \<Rightarrow> string" where
  "fmt_fixed alt p num den =
     (let n = round_half_even (num * 10 ^ p) den
      in nat_str (n div 10 ^ p) @ point_str alt (if p = 0 then [] else min_digits p (nat_str (n mod 10 ^ p))))"

text \<open>The first \<open>p + 1\<close> digits of a fraction, as a number, and the exponent of the first one.\<close>

definition sig_digits :: "nat \<Rightarrow> nat \<Rightarrow> nat \<Rightarrow> nat \<times> int" where
  "sig_digits p num den =
     (if num = 0 then (0, 0)
      else let x0 = (if den \<le> num then int (dec_up num den) else - int (dec_down num den));
               q = int p - x0;
               n0 = (if 0 \<le> q then round_half_even (num * 10 ^ nat q) den
                     else round_half_even num (den * 10 ^ nat (- q)))
           in if 10 ^ (p + 1) \<le> n0 then (10 ^ p, x0 + 1) else (n0, x0))"

definition exp_str :: "int \<Rightarrow> string" where
  "exp_str x = [CHR ''e'', if x < 0 then CHR ''-'' else CHR ''+''] @ min_digits 2 (nat_str (nat \<bar>x\<bar>))"

definition fmt_exp :: "bool \<Rightarrow> nat \<Rightarrow> nat \<Rightarrow> nat \<Rightarrow> string" where
  "fmt_exp alt p num den =
     (case sig_digits p num den of (n, x) \<Rightarrow>
        let ds = min_digits (p + 1) (nat_str n) in take 1 ds @ point_str alt (tl ds) @ exp_str x)"

text \<open>Without the flag \<^verbatim>\<open>#\<close> the zeros at the end of the fraction are dropped.\<close>

definition fmt_gen :: "bool \<Rightarrow> nat \<Rightarrow> nat \<Rightarrow> nat \<Rightarrow> string" where
  "fmt_gen alt p0 num den =
     (let p = (if p0 = 0 then 1 else p0); strip = (\<lambda>s. if alt then s else strip_zeros s) in
      case sig_digits (p - 1) num den of (n, x) \<Rightarrow>
        let ds = min_digits p (nat_str n) in
        if x < - 4 \<or> int p \<le> x then take 1 ds @ point_str alt (strip (tl ds)) @ exp_str x
        else if 0 \<le> x then take (nat x + 1) ds @ point_str alt (strip (drop (nat x + 1) ds))
        else ''0'' @ point_str alt (strip (zeros (nat (- x - 1)) @ ds)))"

definition sprintf_double :: "fmt_spec \<Rightarrow> lua_Number \<Rightarrow> string" where
  "sprintf_double f d =
     (let sgn = sign_str f (num_neg d);
          p = (case fprec f of None \<Rightarrow> 6 | Some p \<Rightarrow> p);
          c = tolower (fconv f);
          up = (\<lambda>s. if isupper (fconv f) then map toupper s else s)
      in if num_isnan d then pad f False sgn (up ''nan'')
         else if num_isinf d then pad f False sgn (up ''inf'')
         else case num_frac d of (num, den) \<Rightarrow>
           pad f (fzero f) sgn
             (up (if c = CHR ''f'' then fmt_fixed (falt f) p num den
                  else if c = CHR ''e'' then fmt_exp (falt f) p num den
                  else fmt_gen (falt f) p num den)))"

end
