(* ===== verification/Lua_Strlib.thy ===== *)
theory Lua_Strlib
  imports Lua_Buffer C_Printf
begin

text \<open>
  The string library of the scripts: the functions of src/lib/lua/lstrlib.c that scripts call, over the
  interface of the interpreter. The matcher is in \<open>Lua_Pattern\<close>, the formatting in \<open>C_Printf\<close>. The
  result of a function is the number of values it returns on the stack. Only \<open>str_dump\<close> is not
  modelled.
\<close>

section \<open>Arguments\<close>

text \<open>An \<open>int\<close> argument: a conversion of 64 to 32 bits.\<close>

definition int32 :: "int \<Rightarrow> int" where
  "int32 k = sint (word_of_int k :: 32 word)"

definition luaL_checkint :: "'w calls \<Rightarrow> int \<Rightarrow> (int, 'w) M" where
  "luaL_checkint B n = bindM (luaL_checkinteger B n) (\<lambda>k. ret (int32 k))"

definition luaL_optint :: "'w calls \<Rightarrow> int \<Rightarrow> int \<Rightarrow> (int, 'w) M" where
  "luaL_optint B n d = bindM (luaL_optinteger B n d) (\<lambda>k. ret (int32 k))"

definition luaL_argcheck :: "'w calls \<Rightarrow> bool \<Rightarrow> int \<Rightarrow> string \<Rightarrow> (unit, 'w) M" where
  "luaL_argcheck B cond n msg = (if cond then ret () else luaL_argerror B n msg)"

definition luaL_checkstring :: "'w calls \<Rightarrow> int \<Rightarrow> (string, 'w) M" where
  "luaL_checkstring B n = bindM (luaL_checklstring B n) (\<lambda>s. ret (c_str s))"

abbreviation (input) lua_upvalueindex :: "int \<Rightarrow> int" where
  "lua_upvalueindex i \<equiv> LUA_GLOBALSINDEX - i"

section \<open>Basic functions\<close>

definition str_len :: "'w calls \<Rightarrow> (int, 'w) M" where
  "str_len B = bindM (luaL_checklstring B 1) (\<lambda>s. thenM (lua_pushinteger (int (length s))) (ret 1))"

definition posrelat :: "int \<Rightarrow> nat \<Rightarrow> int" where
  "posrelat pos len = (let p = (if pos < 0 then pos + (int len + 1) else pos) in if 0 \<le> p then p else 0)"

definition str_sub :: "'w calls \<Rightarrow> (int, 'w) M" where
  "str_sub B =
     bindM (luaL_checklstring B 1) (\<lambda>s.
     bindM (luaL_checkinteger B 2) (\<lambda>i.
     bindM (luaL_optinteger B 3 (- 1)) (\<lambda>j.
       let l = int (length s); start = max 1 (posrelat i (length s)); e = min l (posrelat j (length s))
       in thenM (if start \<le> e then lua_pushlstring (take (nat (e - start + 1)) (drop (nat (start - 1)) s))
                 else lua_pushlstring []) (ret 1))))"

text \<open>A string is built from all characters of a list.\<close>

fun addchars :: "'w calls \<Rightarrow> string \<Rightarrow> luaL_Buffer \<Rightarrow> (luaL_Buffer, 'w) M" where
  "addchars B [] b = ret b"
| "addchars B (c # cs) b = bindM (luaL_addchar B c b) (addchars B cs)"

definition str_reverse :: "'w calls \<Rightarrow> (int, 'w) M" where
  "str_reverse B =
     bindM (luaL_checklstring B 1) (\<lambda>s.
     bindM (addchars B (rev s) luaL_buffinit) (\<lambda>b. bindM (luaL_pushresult B b) (\<lambda>_. ret 1)))"

definition str_lower :: "'w calls \<Rightarrow> (int, 'w) M" where
  "str_lower B =
     bindM (luaL_checklstring B 1) (\<lambda>s.
     bindM (addchars B (map tolower s) luaL_buffinit) (\<lambda>b. bindM (luaL_pushresult B b) (\<lambda>_. ret 1)))"

definition str_upper :: "'w calls \<Rightarrow> (int, 'w) M" where
  "str_upper B =
     bindM (luaL_checklstring B 1) (\<lambda>s.
     bindM (addchars B (map toupper s) luaL_buffinit) (\<lambda>b. bindM (luaL_pushresult B b) (\<lambda>_. ret 1)))"

fun rep_loop :: "'w calls \<Rightarrow> string \<Rightarrow> nat \<Rightarrow> luaL_Buffer \<Rightarrow> (luaL_Buffer, 'w) M" where
  "rep_loop B s 0 b = ret b"
| "rep_loop B s (Suc n) b = bindM (luaL_addlstring B s b) (rep_loop B s n)"

definition str_rep :: "'w calls \<Rightarrow> (int, 'w) M" where
  "str_rep B =
     bindM (luaL_checklstring B 1) (\<lambda>s.
     bindM (luaL_checkint B 2) (\<lambda>n.
     bindM (rep_loop B s (nat n) luaL_buffinit) (\<lambda>b. bindM (luaL_pushresult B b) (\<lambda>_. ret 1))))"

definition str_byte :: "'w calls \<Rightarrow> (int, 'w) M" where
  "str_byte B =
     bindM (luaL_checklstring B 1) (\<lambda>s.
     bindM (luaL_optinteger B 2 1) (\<lambda>i.
     let posi0 = posrelat i (length s) in
     bindM (luaL_optinteger B 3 posi0) (\<lambda>j.
     let posi = (if posi0 \<le> 0 then 1 else posi0); pose = min (int (length s)) (posrelat j (length s)) in
       if pose < posi then ret 0
       else let n = int32 (pose - posi + 1) in
         thenM (if posi + n \<le> pose then luaL_error B ''string slice too long'' [] else ret ())
           (thenM (luaL_checkstack B n ''string slice too long'')
             (thenM (run (map (\<lambda>k. lua_pushinteger (of_char (s ! nat (posi + int k - 1)))) [0..<nat n])) (ret n))))))"

fun char_loop :: "'w calls \<Rightarrow> int \<Rightarrow> nat \<Rightarrow> luaL_Buffer \<Rightarrow> (luaL_Buffer, 'w) M" where
  "char_loop B i 0 b = ret b"
| "char_loop B i (Suc n) b =
     bindM (luaL_checkint B i) (\<lambda>c.
     thenM (luaL_argcheck B (0 \<le> c \<and> c < 256) i ''invalid value'')
       (bindM (luaL_addchar B (char_of (nat c)) b) (char_loop B (i + 1) n)))"

definition str_char :: "'w calls \<Rightarrow> (int, 'w) M" where
  "str_char B =
     bindM lua_gettop (\<lambda>n.
     bindM (char_loop B 1 (nat n) luaL_buffinit) (\<lambda>b. bindM (luaL_pushresult B b) (\<lambda>_. ret 1)))"

section \<open>Finding\<close>

text \<open>\<open>memchr\<close> over the first \<open>n\<close> bytes: the position of the byte.\<close>

fun memchr :: "string \<Rightarrow> char \<Rightarrow> nat \<Rightarrow> nat option" where
  "memchr s c 0 = None"
| "memchr [] c (Suc n) = None"
| "memchr (x # s) c (Suc n) = (if x = c then Some 0 else map_option Suc (memchr s c n))"

text \<open>The loop of \<open>lmemfind\<close>: \<open>s1\<close> is at \<open>off\<close>, \<open>l1\<close> places are left, and \<open>s2 = c # t\<close>.\<close>

lemma memchr_less: "memchr s c n = Some i \<Longrightarrow> i < n"
  by (induction s c n arbitrary: i rule: memchr.induct) (auto split: if_splits)

function lmemfind_loop :: "string \<Rightarrow> nat \<Rightarrow> nat \<Rightarrow> char \<Rightarrow> string \<Rightarrow> nat option" where
  "lmemfind_loop s1 off l1 c t =
     (case memchr s1 c l1 of
        None \<Rightarrow> None
      | Some i \<Rightarrow>
          if take (length t) (drop (i + 1) s1) = t then Some (off + i)
          else lmemfind_loop (drop (i + 1) s1) (off + i + 1) (l1 - (i + 1)) c t)"
  by pat_completeness auto
termination by (relation "measure (\<lambda>(s1, off, l1, c, t). l1)") (auto dest: memchr_less)

declare lmemfind_loop.simps [simp del]

definition lmemfind :: "string \<Rightarrow> string \<Rightarrow> nat option" where
  "lmemfind s1 s2 =
     (case s2 of
        [] \<Rightarrow> Some 0
      | c # t \<Rightarrow> if length s1 < length s2 then None else lmemfind_loop s1 0 (length s1 - length t) c t)"

section \<open>Captures\<close>

text \<open>The messages of the matcher have no directives of the format.\<close>

definition raise :: "'w calls \<Rightarrow> string \<Rightarrow> ('a, 'w) M" where
  "raise B msg = luaL_error B ''%s'' [FStr (Some msg)]"

definition matchM :: "'w calls \<Rightarrow> string \<Rightarrow> nat \<Rightarrow> string \<Rightarrow> (capture list \<times> nat option, 'w) M" where
  "matchM B src s p = (case match src [] s p of Inl msg \<Rightarrow> raise B msg | Inr r \<Rightarrow> ret r)"

definition substr :: "string \<Rightarrow> nat \<Rightarrow> nat \<Rightarrow> string" where
  "substr src s e = take (e - s) (drop s src)"

definition push_onecapture :: "'w calls \<Rightarrow> string \<Rightarrow> capture list \<Rightarrow> int \<Rightarrow> nat \<Rightarrow> nat \<Rightarrow> (unit, 'w) M" where
  "push_onecapture B src caps i s e =
     (if int (length caps) \<le> i then
        if i = 0 then lua_pushlstring (substr src s e) else luaL_error B ''invalid capture index'' []
      else case caps ! nat i of (init, l) \<Rightarrow>
        if l = CAP_UNFINISHED then luaL_error B ''unfinished capture'' []
        else if l = CAP_POSITION then lua_pushinteger (int init + 1)
        else lua_pushlstring (take (nat l) (drop init src)))"

text \<open>\<open>whole\<close> is the match, which is pushed when there is no capture; it is null after \<open>str_find\<close>.\<close>

definition push_captures :: "'w calls \<Rightarrow> string \<Rightarrow> capture list \<Rightarrow> (nat \<times> nat) option \<Rightarrow> (int, 'w) M" where
  "push_captures B src caps whole =
     (let nlevels = (if caps = [] \<and> whole \<noteq> None then 1 else length caps);
          (s, e) = (case whole of None \<Rightarrow> (0, 0) | Some w \<Rightarrow> w)
      in thenM (luaL_checkstack B (int nlevels) ''too many captures'')
           (thenM (run (map (\<lambda>i. push_onecapture B src caps (int i) s e) [0..<nlevels])) (ret (int nlevels))))"

function find_loop :: "'w calls \<Rightarrow> bool \<Rightarrow> string \<Rightarrow> nat \<Rightarrow> string \<Rightarrow> bool \<Rightarrow> (int, 'w) M" where
  "find_loop B fnd src s1 p anchor =
     bindM (matchM B src s1 p) (\<lambda>(caps, r).
       case r of
         Some e \<Rightarrow>
           if fnd then
             thenM (run [lua_pushinteger (int s1 + 1), lua_pushinteger (int e)])
               (bindM (push_captures B src caps None) (\<lambda>n. ret (n + 2)))
           else push_captures B src caps (Some (s1, e))
       | None \<Rightarrow>
           if s1 < length src \<and> \<not> anchor then find_loop B fnd src (s1 + 1) p anchor
           else thenM lua_pushnil (ret 1))"
  by pat_completeness auto
termination by (relation "measure (\<lambda>(B, fnd, src, s1, p, anchor). length src - s1)") auto

declare find_loop.simps [simp del]

definition str_find_aux :: "'w calls \<Rightarrow> bool \<Rightarrow> (int, 'w) M" where
  "str_find_aux B fnd =
     bindM (luaL_checklstring B 1) (\<lambda>s.
     bindM (luaL_checklstring B 2) (\<lambda>p.
     bindM (luaL_optinteger B 3 1) (\<lambda>i.
     let init0 = posrelat i (length s) - 1;
         init = (if init0 < 0 then 0 else if int (length s) < init0 then length s else nat init0)
     in bindM (if fnd then bindM (lua_toboolean 4) (\<lambda>b. ret (b \<or> list_all (\<lambda>c. c \<notin> set SPECIALS) (c_str p)))
               else ret False) (\<lambda>plain.
       if plain then
         (case lmemfind (drop init s) p of
            Some k \<Rightarrow>
              thenM (run [lua_pushinteger (int (init + k) + 1), lua_pushinteger (int (init + k + length p))]) (ret 2)
          | None \<Rightarrow> thenM lua_pushnil (ret 1))
       else
         let q = c_str p; anchor = (peek q = CHR ''^'') in
         find_loop B fnd s init (if anchor then tl q else q) anchor))))"

definition str_find :: "'w calls \<Rightarrow> (int, 'w) M" where
  "str_find B = str_find_aux B True"

definition str_match :: "'w calls \<Rightarrow> (int, 'w) M" where
  "str_match B = str_find_aux B False"

function gmatch_loop :: "'w calls \<Rightarrow> string \<Rightarrow> string \<Rightarrow> nat \<Rightarrow> (int, 'w) M" where
  "gmatch_loop B s p src =
     (if src \<le> length s then
        bindM (matchM B s src p) (\<lambda>(caps, r).
          case r of
            Some e \<Rightarrow>
              thenM (run [lua_pushinteger (int (if e = src then e + 1 else e)), lua_replace B (lua_upvalueindex 3)])
                (push_captures B s caps (Some (src, e)))
          | None \<Rightarrow> gmatch_loop B s p (src + 1))
      else ret 0)"
  by pat_completeness auto
termination by (relation "measure (\<lambda>(B, s, p, src). Suc (length s) - src)") auto

declare gmatch_loop.simps [simp del]

definition gmatch_aux :: "'w calls \<Rightarrow> (int, 'w) M" where
  "gmatch_aux B =
     bindM (bindM (lua_tolstring (lua_upvalueindex 1)) nonnull) (\<lambda>s.
     bindM (bindM (lua_tostring (lua_upvalueindex 2)) nonnull) (\<lambda>p.
     bindM (lua_tointeger (lua_upvalueindex 3)) (\<lambda>k. gmatch_loop B s p (nat k))))"

definition gmatch :: "'w calls \<Rightarrow> (int, 'w) M" where
  "gmatch B =
     bindM (luaL_checkstring B 1) (\<lambda>_.
     bindM (luaL_checkstring B 2) (\<lambda>_.
     thenM (run [lua_settop 2, lua_pushinteger 0, lua_pushcclosure ''gmatch_aux'' 3]) (ret 1)))"

definition gfind_nodef :: "'w calls \<Rightarrow> (int, 'w) M" where
  "gfind_nodef B = luaL_error B (quoted ''string.gfind'' @ '' was renamed to '' @ quoted ''string.gmatch'') []"

section \<open>Replacing\<close>

text \<open>The loop over the replacement; an escape at its very end reads the terminating zero.\<close>

fun add_s_loop :: "'w calls \<Rightarrow> string \<Rightarrow> capture list \<Rightarrow> nat \<Rightarrow> nat \<Rightarrow> string \<Rightarrow> luaL_Buffer \<Rightarrow> (luaL_Buffer, 'w) M" where
  "add_s_loop B src caps s e [] b = ret b"
| "add_s_loop B src caps s e (c # news) b =
     (if c \<noteq> L_ESC then bindM (luaL_addchar B c b) (add_s_loop B src caps s e news)
      else
        bindM (if \<not> isdigit (peek news) then luaL_addchar B (peek news) b
               else if peek news = CHR ''0'' then luaL_addlstring B (substr src s e) b
               else thenM (push_onecapture B src caps (of_char (peek news) - of_char (CHR ''1'')) s e) (luaL_addvalue B b))
          (add_s_loop B src caps s e (tl news)))"

definition add_s :: "'w calls \<Rightarrow> string \<Rightarrow> capture list \<Rightarrow> nat \<Rightarrow> nat \<Rightarrow> luaL_Buffer \<Rightarrow> (luaL_Buffer, 'w) M" where
  "add_s B src caps s e b =
     bindM (bindM (lua_tolstring 3) nonnull) (\<lambda>news. add_s_loop B src caps s e news b)"

definition add_value :: "'w calls \<Rightarrow> string \<Rightarrow> capture list \<Rightarrow> nat \<Rightarrow> nat \<Rightarrow> luaL_Buffer \<Rightarrow> (luaL_Buffer, 'w) M" where
  "add_value B src caps s e b =
     bindM (lua_type 3) (\<lambda>ty.
       if ty = LUA_TNUMBER \<or> ty = LUA_TSTRING then add_s B src caps s e b
       else
         thenM
           (if ty = LUA_TFUNCTION then
              thenM (lua_pushvalue 3) (bindM (push_captures B src caps (Some (s, e))) (\<lambda>n. lua_call B (nat n) 1))
            else if ty = LUA_TTABLE then
              thenM (push_onecapture B src caps 0 s e) (lua_gettable B 3)
            else ret ())
           (bindM (lua_toboolean (- 1)) (\<lambda>true.
            bindM (lua_isstring (- 1)) (\<lambda>str.
            thenM
              (if \<not> true then run [lua_pop 1, lua_pushlstring (substr src s e)]
               else if \<not> str then
                 bindM (luaL_typename (- 1)) (\<lambda>n. luaL_error B ''invalid replacement value (a %s)'' [FStr (Some n)])
               else ret ())
              (luaL_addvalue B b)))))"

text \<open>The result is the position the loop stops at, the number of matches and the buffer.\<close>

function gsub_loop_s :: "'w calls \<Rightarrow> string \<Rightarrow> string \<Rightarrow> bool \<Rightarrow> int \<Rightarrow> nat \<Rightarrow> int \<Rightarrow> luaL_Buffer \<Rightarrow> (nat \<times> int \<times> luaL_Buffer, 'w) M" where
  "gsub_loop_s B src p anchor max_s s n b =
     (if n < max_s then
        bindM (matchM B src s p) (\<lambda>(caps, r).
          case r of
            Some e \<Rightarrow>
              bindM (add_value B src caps s e b) (\<lambda>b1.
                if s < e then if anchor then ret (e, n + 1, b1) else gsub_loop_s B src p anchor max_s e (n + 1) b1
                else if s < length src then
                  bindM (luaL_addchar B (src ! s) b1) (\<lambda>b2.
                    if anchor then ret (s + 1, n + 1, b2) else gsub_loop_s B src p anchor max_s (s + 1) (n + 1) b2)
                else ret (s, n + 1, b1))
          | None \<Rightarrow>
              if s < length src then
                bindM (luaL_addchar B (src ! s) b) (\<lambda>b2.
                  if anchor then ret (s + 1, n, b2) else gsub_loop_s B src p anchor max_s (s + 1) n b2)
              else ret (s, n, b))
      else ret (s, n, b))"
  by pat_completeness auto
termination
  by (relation "measures [\<lambda>(B, src, p, anchor, max_s, s, n, b). nat (max_s - n), \<lambda>(B, src, p, anchor, max_s, s, n, b). length src - s]")
    auto

declare gsub_loop_s.simps [simp del]

definition str_gsub :: "'w calls \<Rightarrow> (int, 'w) M" where
  "str_gsub B =
     bindM (luaL_checklstring B 1) (\<lambda>src.
     bindM (luaL_checkstring B 2) (\<lambda>q.
     bindM (lua_type 3) (\<lambda>tr.
     bindM (luaL_optint B 4 (int (length src) + 1)) (\<lambda>max_s.
     let anchor = (peek q = CHR ''^'') in
     thenM (luaL_argcheck B (tr = LUA_TNUMBER \<or> tr = LUA_TSTRING \<or> tr = LUA_TFUNCTION \<or> tr = LUA_TTABLE) 3
              ''string/function/table expected'')
       (bindM (gsub_loop_s B src (if anchor then tl q else q) anchor max_s 0 0 luaL_buffinit) (\<lambda>(s, n, b).
        bindM (luaL_addlstring B (drop s src) b) (\<lambda>b1.
        bindM (luaL_pushresult B b1) (\<lambda>_. thenM (lua_pushinteger n) (ret 2)))))))))"

section \<open>Formatting\<close>

abbreviation (input) MAX_ITEM :: nat where "MAX_ITEM \<equiv> 512"

fun addquoted_loop :: "'w calls \<Rightarrow> string \<Rightarrow> luaL_Buffer \<Rightarrow> (luaL_Buffer, 'w) M" where
  "addquoted_loop B [] b = ret b"
| "addquoted_loop B (c # s) b =
     bindM
       (if c = CHR 0x22 \<or> c = CHR 0x5C \<or> c = CHR 0x0A then bindM (luaL_addchar B (CHR 0x5C) b) (luaL_addchar B c)
        else if c = CHR 0x0D then luaL_addlstring B [CHR 0x5C, CHR ''r''] b
        else if c = NUL then luaL_addlstring B (CHR 0x5C # ''000'') b
        else luaL_addchar B c b)
       (addquoted_loop B s)"

definition addquoted :: "'w calls \<Rightarrow> int \<Rightarrow> luaL_Buffer \<Rightarrow> (luaL_Buffer, 'w) M" where
  "addquoted B arg b =
     bindM (luaL_checklstring B arg) (\<lambda>s.
     bindM (luaL_addchar B (CHR 0x22) b) (\<lambda>b1.
     bindM (addquoted_loop B s b1) (luaL_addchar B (CHR 0x22))))"

text \<open>The specification, its conversion included, and the rest of the format from the conversion on.\<close>

definition skip_digit :: "string \<Rightarrow> string" where
  "skip_digit p = (if isdigit (peek p) then tl p else p)"

definition scanformat :: "string \<Rightarrow> string + string \<times> string" where
  "scanformat strfrmt =
     (let p1 = dropWhile (\<lambda>c. c \<in> set FLAGS \<and> c \<noteq> NUL) strfrmt;
          p2 = skip_digit (skip_digit p1);
          p3 = (if peek p2 = CHR ''.'' then skip_digit (skip_digit (tl p2)) else p2)
      in if 6 \<le> length strfrmt - length p1 then Inl ''invalid format (repeated flags)''
         else if isdigit (peek p3) then Inl ''invalid format (width or precision too long)''
         else Inr (CHR ''%'' # take (length strfrmt - length p3 + 1) strfrmt, p3))"

definition addintlen :: "string \<Rightarrow> string" where
  "addintlen form = butlast form @ [CHR ''l'', last form]"

text \<open>From double to unsigned long, as the compiler does it for x86-64 (for values without one too).\<close>

definition number2ulong :: "lua_Number \<Rightarrow> nat" where
  "number2ulong d =
     (if num_isnan d then 2 ^ 63
      else if num_isinf d then (if num_neg d then 2 ^ 63 else 0)
      else case num_frac d of (num, den) \<Rightarrow>
        let k = num div den in
        if \<not> num_neg d \<and> 2 ^ 63 \<le> k then (if k < 2 ^ 64 then k else 0)
        else nat (lua_number2integer d mod 2 ^ 64))"

text \<open>One item: what is written to the array \<open>buff\<close>; the conversion is the last character of \<open>form\<close>.\<close>

definition format_item :: "'w calls \<Rightarrow> int \<Rightarrow> char \<Rightarrow> string \<Rightarrow> (string, 'w) M" where
  "format_item B arg c form =
     (if c = CHR ''c'' then
        bindM (luaL_checknumber B arg) (\<lambda>d.
          ret (sprintf_char (parse_form form) (char_of (nat (lua_number2int d mod 256)))))
      else if c = CHR ''d'' \<or> c = CHR ''i'' then
        bindM (luaL_checknumber B arg) (\<lambda>d. ret (sprintf_int (parse_form (addintlen form)) (lua_number2integer d)))
      else if c \<in> set ''ouxX'' then
        bindM (luaL_checknumber B arg) (\<lambda>d. ret (sprintf_uint (parse_form (addintlen form)) (number2ulong d)))
      else bindM (luaL_checknumber B arg) (\<lambda>d. ret (sprintf_double (parse_form form) d)))"

text \<open>The items \<^verbatim>\<open>%q\<close> and long \<^verbatim>\<open>%s\<close> go to the buffer directly.\<close>

definition add_item :: "'w calls \<Rightarrow> int \<Rightarrow> char \<Rightarrow> string \<Rightarrow> luaL_Buffer \<Rightarrow> (luaL_Buffer, 'w) M" where
  "add_item B arg c form b =
     (if c = CHR ''q'' then addquoted B arg b
      else if c = CHR ''s'' then
        bindM (luaL_checklstring B arg) (\<lambda>s.
          if CHR ''.'' \<notin> set form \<and> 100 \<le> length s then thenM (lua_pushvalue arg) (luaL_addvalue B b)
          else luaL_addlstring B (c_str (sprintf_str (parse_form form) s)) b)
      else if c \<in> set ''cdiouxXeEfgG'' then
        bindM (format_item B arg c form) (\<lambda>item. luaL_addlstring B (c_str item) b)
      else luaL_error B (''invalid option '' @ quoted ''%%%c'' @ '' to '' @ quoted ''format'') [FChr c])"

lemma scanformat_shorter:
  assumes "scanformat s = Inr (form, rest)"
  shows "length rest \<le> length s"
proof -
  have skip: "length (skip_digit p) \<le> length p" for p by (simp add: skip_digit_def)
  have skip2: "length (skip_digit (skip_digit p)) \<le> length p" for p
    using skip [of "skip_digit p"] skip [of p] by linarith
  let ?p1 = "dropWhile (\<lambda>c. c \<in> set FLAGS \<and> c \<noteq> NUL) s"
  let ?p2 = "skip_digit (skip_digit ?p1)"
  let ?p3 = "if peek ?p2 = CHR ''.'' then skip_digit (skip_digit (tl ?p2)) else ?p2"
  have "rest = ?p3" using assms unfolding scanformat_def Let_def by (simp split: if_splits)
  then have "length rest \<le> length ?p2" using skip2 [of "tl ?p2"] by auto
  moreover have "length ?p1 \<le> length s" by (rule length_dropWhile_le)
  ultimately show ?thesis using skip2 [of ?p1] by linarith
qed

function format_loop :: "'w calls \<Rightarrow> int \<Rightarrow> int \<Rightarrow> string \<Rightarrow> luaL_Buffer \<Rightarrow> (luaL_Buffer, 'w) M" where
  "format_loop B ntop arg strfrmt b =
     (case strfrmt of
        [] \<Rightarrow> ret b
      | c # r \<Rightarrow>
          if c \<noteq> L_ESC then bindM (luaL_addchar B c b) (format_loop B ntop arg r)
          else if peek r = L_ESC then bindM (luaL_addchar B L_ESC b) (format_loop B ntop arg (tl r))
          else
            thenM (if ntop < arg + 1 then luaL_argerror B (arg + 1) ''no value'' else ret ())
              (case scanformat r of
                 Inl msg \<Rightarrow> raise B msg
               | Inr (form, rest) \<Rightarrow>
                   bindM (add_item B (arg + 1) (peek rest) form b) (format_loop B ntop (arg + 1) (tl rest))))"
  by pat_completeness auto
termination
proof (relation "measure (\<lambda>(B, ntop, arg, strfrmt, b). length strfrmt)")
  fix B :: "'a calls" and ntop arg and strfrmt r form rest :: string and b b' :: luaL_Buffer and c x
  assume "strfrmt = c # r" "scanformat r = Inr x" "(form, rest) = x"
  then have "length rest < length strfrmt" using scanformat_shorter [of r form rest] by auto
  then show "((B, ntop, arg + 1, tl rest, b'), B, ntop, arg, strfrmt, b) \<in> measure (\<lambda>(B, ntop, arg, strfrmt, b). length strfrmt)"
    by simp
qed simp_all

declare format_loop.simps [simp del]

definition str_format :: "'w calls \<Rightarrow> (int, 'w) M" where
  "str_format B =
     bindM lua_gettop (\<lambda>ntop.
     bindM (luaL_checklstring B 1) (\<lambda>strfrmt.
     bindM (format_loop B ntop 1 strfrmt luaL_buffinit) (\<lambda>b. bindM (luaL_pushresult B b) (\<lambda>_. ret 1))))"

section \<open>The library\<close>

definition strlib :: luaL_Reg where
  "strlib = [(''byte'', ''str_byte''), (''char'', ''str_char''), (''dump'', ''str_dump''), (''find'', ''str_find''),
     (''format'', ''str_format''), (''gfind'', ''gfind_nodef''), (''gmatch'', ''gmatch''), (''gsub'', ''str_gsub''),
     (''len'', ''str_len''), (''lower'', ''str_lower''), (''match'', ''str_match''), (''rep'', ''str_rep''),
     (''reverse'', ''str_reverse''), (''sub'', ''str_sub''), (''upper'', ''str_upper'')]"

definition createmetatable :: "'w calls \<Rightarrow> (unit, 'w) M" where
  "createmetatable B =
     run [lua_createtable B 0 1, lua_pushlstring [], lua_pushvalue (- 2), lua_setmetatable (- 2), lua_pop 1,
       lua_pushvalue (- 2), lua_setfield B (- 2) ''__index'', lua_pop 1]"

definition luaopen_string :: "'w calls \<Rightarrow> (int, 'w) M" where
  "luaopen_string B =
     thenM (run [luaL_register B ''string'' strlib, lua_getfield B (- 1) ''gmatch'', lua_setfield B (- 2) ''gfind'',
       createmetatable B]) (ret 1)"

end
