(* ===== verification/C_Printf_Bounds.thy ===== *)
theory C_Printf_Bounds
  imports Lua_Strlib
begin

text \<open>
  The fixed arrays of \<open>str_format\<close> (src/lib/lua/lstrlib.c) are large enough: the specification for any format
  that \<open>scanformat\<close> accepts, and every item formatted with it. The longest item is a double with 309
  digits before the point and 99 after it.
\<close>

section \<open>Lengths\<close>

lemma length_pad: "length (pad f z pre ds) = max (fwidth f) (length pre + length ds)"
  by (auto simp: pad_def zeros_def Let_def)

lemma length_sign: "length (sign_str f neg) \<le> 1"
  by (simp add: sign_str_def)

lemma length_min_digits: "length (min_digits n ds) = max n (length ds)"
  by (simp add: min_digits_def zeros_def)

lemma length_nat_str: "n < 10 ^ k \<Longrightarrow> 0 < k \<Longrightarrow> length (nat_str n) \<le> k"
proof (induction n arbitrary: k rule: nat_str.induct)
  case (1 n)
  show ?case
  proof (cases "n < 10")
    case True
    then show ?thesis using 1 by (subst nat_str.simps) simp
  next
    case False
    obtain j where j: "k = Suc j" using "1.prems" by (cases k) auto
    have "0 < j" using False "1.prems" j by (cases j) auto
    moreover have "n div 10 < 10 ^ j" using "1.prems" j by (simp add: less_mult_imp_div_less mult.commute)
    ultimately have "length (nat_str (n div 10)) \<le> j" using "1.IH" [OF False] by blast
    then show ?thesis using False j by (subst nat_str.simps) simp
  qed
qed

lemma length_base_str: "n < b ^ k \<Longrightarrow> 0 < k \<Longrightarrow> 2 \<le> b \<Longrightarrow> length (base_str b u n) \<le> k"
proof (induction b u n arbitrary: k rule: base_str.induct)
  case (1 b u n)
  show ?case
  proof (cases "n < b")
    case True
    then show ?thesis using "1.prems" by (subst base_str.simps) simp
  next
    case False
    obtain j where j: "k = Suc j" using "1.prems" by (cases k) auto
    have "0 < j" using False "1.prems" j by (cases j) auto
    moreover have "n div b < b ^ j" using "1.prems" j by (simp add: less_mult_imp_div_less mult.commute)
    ultimately have "length (base_str b u (n div b)) \<le> j" using "1.IH" [of _ _ j] False "1.prems" by (simp add: Let_def)
    then show ?thesis using False "1.prems" j by (subst base_str.simps) (simp add: Let_def)
  qed
qed

lemma length_strip: "length (strip_zeros s) \<le> length s"
  unfolding strip_zeros_def using length_dropWhile_le [of _ "rev s"] by simp

lemma length_point: "length (point_str alt fr) \<le> 1 + length fr"
  by (simp add: point_str_def)

section \<open>Digits of doubles\<close>

lemma round_half_even_le: "round_half_even n d \<le> n div d + 1"
proof -
  have "n div d mod 2 \<le> 1" using mod_less_divisor [of 2 "n div d"] by linarith
  then show ?thesis by (auto simp: round_half_even_def Let_def)
qed

lemma length_fmt_fixed:
  assumes "num \<le> 2 ^ 1024 * den" "0 < den"
  shows "length (fmt_fixed alt p num den) \<le> 310 + p"
proof -
  let ?n = "round_half_even (num * 10 ^ p) den"
  have "num * 10 ^ p \<le> (2 ^ 1024 * 10 ^ p) * den" using assms(1) by (simp add: mult.commute mult.left_commute)
  then have "num * 10 ^ p div den \<le> 2 ^ 1024 * 10 ^ p" using assms(2) by (metis div_le_mono nonzero_mult_div_cancel_right less_irrefl)
  then have "?n \<le> 2 ^ 1024 * 10 ^ p + 1" using round_half_even_le [of "num * 10 ^ p" den] by linarith
  then have "?n \<le> (2 ^ 1024 + 1) * 10 ^ p" by (simp add: add_mult_distrib order_trans)
  then have "?n div 10 ^ p \<le> 2 ^ 1024 + 1" by (metis div_le_mono nonzero_mult_div_cancel_right power_not_zero zero_neq_numeral)
  also have "(2 ^ 1024 + 1 :: nat) < 10 ^ 309" by simp
  finally have i: "length (nat_str (?n div 10 ^ p)) \<le> 309" by (rule length_nat_str) simp
  have "length (min_digits p (nat_str (?n mod 10 ^ p))) \<le> p" if "p \<noteq> 0"
    using length_nat_str [of "?n mod 10 ^ p" p] that by (simp add: length_min_digits)
  then have "length (point_str alt (if p = 0 then [] else min_digits p (nat_str (?n mod 10 ^ p)))) \<le> 1 + p"
    using length_point [of alt "if p = 0 then [] else min_digits p (nat_str (?n mod 10 ^ p))"] by (cases "p = 0") force+
  then show ?thesis using i by (simp add: fmt_fixed_def Let_def)
qed

lemma dec_up_le: "num < 10 ^ k * (10 * den) \<Longrightarrow> dec_up num den \<le> k"
proof (induction k arbitrary: den)
  case 0
  then show ?case by (subst dec_up.simps) simp
next
  case (Suc k)
  then show ?case by (subst dec_up.simps) (simp add: mult.left_commute)
qed

lemma dec_down_le: "den \<le> num * 10 ^ k \<Longrightarrow> dec_down num den \<le> k"
proof (induction k arbitrary: num)
  case 0
  then show ?case by (subst dec_down.simps) simp
next
  case (Suc k)
  then show ?case by (subst dec_down.simps) (simp add: mult.left_commute mult.assoc)
qed

lemma sig_digits_bounds:
  assumes "sig_digits p num den = (n, x)" "num \<le> 2 ^ 1024 * den" "den \<le> 2 ^ 1074"
  shows "n < 10 ^ (p + 1)" "\<bar>x\<bar> < 999"
proof -
  show "n < 10 ^ (p + 1)" using assms(1) by (auto simp: sig_digits_def Let_def split: if_splits)
  show "\<bar>x\<bar> < 999"
  proof (cases "num = 0")
    case True
    then show ?thesis using assms(1) by (simp add: sig_digits_def)
  next
    case False
    have den: "0 < den" using False assms(2) by (cases den) auto
    have "num \<le> 2 ^ 1024 * den" by (rule assms(2))
    also have "\<dots> < (10 ^ 400 * 10) * den" by (rule mult_strict_right_mono [OF _ den]) simp
    finally have "num < 10 ^ 400 * (10 * den)" by (simp only: mult.assoc)
    moreover have "den \<le> num * 10 ^ 400"
    proof -
      have "den \<le> 2 ^ 1074" by (rule assms(3))
      also have "\<dots> \<le> 1 * 10 ^ 400" by simp
      also have "\<dots> \<le> num * 10 ^ 400" using False by (intro mult_le_mono1) simp
      finally show ?thesis .
    qed
    ultimately have "dec_up num den \<le> 400" "dec_down num den \<le> 400"
      by (blast intro: dec_up_le dec_down_le)+
    then show ?thesis using assms(1) False by (auto simp: sig_digits_def Let_def split: if_splits)
  qed
qed

lemma length_exp_str: "\<bar>x\<bar> < 999 \<Longrightarrow> length (exp_str x) \<le> 5"
  using length_nat_str [of "nat \<bar>x\<bar>" 3] by (simp add: exp_str_def length_min_digits)

lemma length_mantissa: "n < 10 ^ (p + 1) \<Longrightarrow> length (min_digits (p + 1) (nat_str n)) = p + 1"
  using length_nat_str [of n "p + 1"] by (simp add: length_min_digits)

lemma length_fmt_exp:
  assumes "num \<le> 2 ^ 1024 * den" "den \<le> 2 ^ 1074"
  shows "length (fmt_exp alt p num den) \<le> p + 7"
proof -
  obtain n x where s: "sig_digits p num den = (n, x)" by fastforce
  note b = sig_digits_bounds [OF s assms]
  show ?thesis
    using length_mantissa [OF b(1)] length_exp_str [OF b(2)] length_point [of alt "tl (min_digits (p + 1) (nat_str n))"]
    by (simp add: fmt_exp_def s Let_def)
qed

lemma length_fmt_gen:
  assumes "num \<le> 2 ^ 1024 * den" "den \<le> 2 ^ 1074"
  shows "length (fmt_gen alt p num den) \<le> p + 10"
proof -
  let ?p = "if p = 0 then 1 else p" and ?strip = "\<lambda>s. if alt then s else strip_zeros s"
  obtain n x where s: "sig_digits (?p - 1) num den = (n, x)" by fastforce
  note b = sig_digits_bounds [OF s assms]
  let ?ds = "min_digits ?p (nat_str n)"
  have ds: "length ?ds = ?p" using length_mantissa [OF b(1)] by (cases "p = 0") auto
  have st: "length (point_str alt (?strip t)) \<le> 1 + length t" for t
    using length_point [of alt "?strip t"] length_strip [of t] by (cases alt) auto
  consider "x < - 4 \<or> int ?p \<le> x" | "0 \<le> x" "x < int ?p" | "- 4 \<le> x" "x < 0" by linarith
  then show ?thesis
  proof cases
    case 1
    then show ?thesis using ds st [of "tl ?ds"] length_exp_str [OF b(2)] s by (auto simp: fmt_gen_def Let_def split: if_splits)
  next
    case 2
    then show ?thesis using ds st [of "drop (nat x + 1) ?ds"] s by (auto simp: fmt_gen_def Let_def split: if_splits)
  next
    case 3
    then show ?thesis using ds st [of "zeros (nat (- x - 1)) @ ?ds"] s
      by (auto simp: fmt_gen_def Let_def zeros_def split: if_splits)
  qed
qed

lemma num_frac_bounds:
  assumes "num_frac d = (num, den)" "\<not> num_isnan d" "\<not> num_isinf d"
  shows "num \<le> 2 ^ 1024 * den" "0 < den" "den \<le> 2 ^ 1074"
proof -
  let ?m = "nat (num_mag d)"
  have m: "?m < 2047 * 2 ^ 52" using assms(2,3) by (simp add: num_isnan_def num_isinf_def)
  then have e: "?m div 2 ^ 52 < 2047" by (simp add: less_mult_imp_div_less)
  define a where "a = (if ?m div 2 ^ 52 = 0 then ?m mod 2 ^ 52 else 2 ^ 52 + ?m mod 2 ^ 52)"
  define k where "k = (if ?m div 2 ^ 52 = 0 then 1 else ?m div 2 ^ 52)"
  have f: "(num, den) = (if 1075 \<le> k then (a * 2 ^ (k - 1075), 1) else (a, 2 ^ (1075 - k)))"
    using assms(1) unfolding num_frac_def Let_def a_def k_def by simp
  have a: "a < 2 ^ 53" using mod_less_divisor [of "2 ^ 52" ?m] by (auto simp: a_def)
  have k: "k \<le> 2046" "1 \<le> k" using e by (auto simp: k_def)
  show "0 < den" using f by (auto split: if_splits)
  have "(2 :: nat) ^ (1075 - k) \<le> 2 ^ 1074" using k by (intro power_increasing) auto
  then show "den \<le> 2 ^ 1074" using f by (auto split: if_splits)
  show "num \<le> 2 ^ 1024 * den"
  proof (cases "1075 \<le> k")
    case True
    have "a * 2 ^ (k - 1075) \<le> 2 ^ 53 * 2 ^ (k - 1075)" using a by simp
    also have "\<dots> = 2 ^ (53 + (k - 1075))" by (simp only: power_add)
    also have "(2 :: nat) ^ (53 + (k - 1075)) \<le> 2 ^ 1024" using k by (intro power_increasing) auto
    finally show ?thesis using True f by simp
  next
    case False
    have "a \<le> 2 ^ 1024 * 1" using a by (simp add: order.strict_implies_order [OF less_le_trans])
    also have "\<dots> \<le> 2 ^ 1024 * 2 ^ (1075 - k)" by (intro mult_le_mono) simp_all
    finally show ?thesis using False f by simp
  qed
qed

section \<open>Specifications\<close>

lemma FLAGS_no: "NUL \<notin> set FLAGS" "CHR ''.'' \<notin> set FLAGS" "CHR ''l'' \<notin> set FLAGS"
  by (simp_all add: FLAGS_def NUL_def)

lemma skip_digit_split: "\<exists>w. p = w @ skip_digit p \<and> length w \<le> 1 \<and> (\<forall>c \<in> set w. isdigit c) \<and> (w = [] \<longrightarrow> \<not> isdigit (peek p))"
proof (cases p)
  case Nil
  then show ?thesis by (simp add: skip_digit_def peek_def NUL_def isdigit_def)
next
  case (Cons c q)
  then show ?thesis
    by (cases "isdigit c") (auto simp: skip_digit_def peek_def intro: exI [of _ "[c]"])
qed

text \<open>Up to two digits; fewer only if no digit follows.\<close>

lemma skip_two: "\<exists>w. p = w @ skip_digit (skip_digit p) \<and> length w \<le> 2 \<and> (\<forall>c \<in> set w. isdigit c)"
proof -
  obtain w1 where 1: "p = w1 @ skip_digit p" "length w1 \<le> 1" "\<forall>c \<in> set w1. isdigit c"
    using skip_digit_split by blast
  obtain w2 where 2: "skip_digit p = w2 @ skip_digit (skip_digit p)" "length w2 \<le> 1" "\<forall>c \<in> set w2. isdigit c"
    using skip_digit_split by blast
  show ?thesis using 1 2 by (intro exI [of _ "w1 @ w2"]) auto
qed

lemma scanformat_parts:
  assumes "scanformat r = Inr (form, rest)"
  obtains fl w pr where "r = fl @ w @ pr @ rest" "form = CHR ''%'' # fl @ w @ pr @ take 1 rest"
    "set fl \<subseteq> set FLAGS" "length fl \<le> 5" "peek (w @ pr @ rest) \<notin> set FLAGS" "\<forall>c \<in> set w. isdigit c" "length w \<le> 2"
    "pr = [] \<or> (\<exists>d. pr = CHR ''.'' # d \<and> length d \<le> 2 \<and> (\<forall>c \<in> set d. isdigit c))" "\<not> isdigit (peek rest)"
proof -
  let ?F = "\<lambda>c. c \<in> set FLAGS \<and> c \<noteq> NUL"
  let ?fl = "takeWhile ?F r" and ?p1 = "dropWhile ?F r"
  let ?p2 = "skip_digit (skip_digit ?p1)"
  let ?p3 = "if peek ?p2 = CHR ''.'' then skip_digit (skip_digit (tl ?p2)) else ?p2"
  have s: "length r - length ?p1 < 6" "\<not> isdigit (peek ?p3)" "rest = ?p3"
    "form = CHR ''%'' # take (length r - length ?p3 + 1) r"
    using assms unfolding scanformat_def Let_def by (auto split: if_splits)
  obtain w where w: "?p1 = w @ ?p2" "length w \<le> 2" "\<forall>c \<in> set w. isdigit c" using skip_two by blast
  obtain d where d: "tl ?p2 = d @ skip_digit (skip_digit (tl ?p2))" "length d \<le> 2" "\<forall>c \<in> set d. isdigit c"
    using skip_two by blast
  let ?pr = "if peek ?p2 = CHR ''.'' then CHR ''.'' # d else []"
  have p2: "?p2 = ?pr @ rest"
  proof (cases "peek ?p2 = CHR ''.''")
    case True
    then have "?p2 = CHR ''.'' # tl ?p2" by (cases ?p2) (auto simp: peek_def NUL_def)
    then show ?thesis using True d(1) s(3) by simp
  qed (simp add: s(3))
  have r: "r = ?fl @ w @ ?pr @ rest"
    using w(1) p2 by (metis takeWhile_dropWhile_id)
  have "length r = length ?fl + length ?p1" by (metis length_append takeWhile_dropWhile_id)
  then have fl: "length ?fl \<le> 5" using s(1) by linarith
  have "length r - length ?p3 = length (?fl @ w @ ?pr)" using arg_cong [OF r, of length] s(3) by simp
  then have form: "form = CHR ''%'' # ?fl @ w @ ?pr @ take 1 rest"
    using s(4) arg_cong [OF r, of "take (length (?fl @ w @ ?pr) + 1)"] by simp
  have "peek ?p1 \<notin> set FLAGS"
  proof (cases ?p1)
    case Nil
    show ?thesis unfolding Nil using FLAGS_no by (simp add: peek_def)
  next
    case (Cons c q)
    have "\<not> ?F c" using hd_dropWhile [of ?F r] unfolding Cons by simp
    then show ?thesis unfolding Cons using FLAGS_no by (auto simp: peek_def)
  qed
  then have pk: "peek (w @ ?pr @ rest) \<notin> set FLAGS" using w(1) p2 by metis
  show ?thesis
    by (rule that [OF r form _ fl pk w(3,2)]) (use d s in \<open>auto dest: set_takeWhileD\<close>)
qed

lemma takeWhile_digits: "\<forall>c \<in> set w. isdigit c \<Longrightarrow> \<not> isdigit (peek t) \<Longrightarrow>
    takeWhile isdigit (w @ t) = w \<and> dropWhile isdigit (w @ t) = t"
  by (cases t) (auto simp: peek_def takeWhile_append dropWhile_append)

lemma takeWhile_flags: "set fl \<subseteq> set FLAGS \<Longrightarrow> peek t \<notin> set FLAGS \<Longrightarrow>
    takeWhile (\<lambda>c. c \<in> set FLAGS) (fl @ t) = fl \<and> dropWhile (\<lambda>c. c \<in> set FLAGS) (fl @ t) = t"
  by (cases t) (auto simp: peek_def takeWhile_append dropWhile_append subset_iff)

lemma dec_val_two: "\<forall>c \<in> set w. isdigit c \<Longrightarrow> length w \<le> 2 \<Longrightarrow> dec_val w \<le> 99"
proof -
  have d: "isdigit c \<Longrightarrow> digit_val c \<le> 9" for c by (auto simp: isdigit_def digit_val_def Let_def)
  assume a: "\<forall>c \<in> set w. isdigit c" "length w \<le> 2"
  then consider "w = []" | x where "w = [x]" | x y where "w = [x, y]"
    by (cases w; cases "tl w"; auto)
  then show ?thesis
  proof cases
    case (3 x y)
    then show ?thesis using a d [of x] d [of y] by (simp add: dec_val_def)
  qed (use a d in \<open>force simp: dec_val_def\<close>)+
qed

lemma parse_parts:
  assumes "set fl \<subseteq> set FLAGS" "peek (w @ pr @ t) \<notin> set FLAGS" "\<forall>c \<in> set w. isdigit c" "length w \<le> 2"
    "pr = [] \<or> (\<exists>d. pr = CHR ''.'' # d \<and> length d \<le> 2 \<and> (\<forall>c \<in> set d. isdigit c))"
    "\<not> isdigit (peek t)" "peek t \<noteq> CHR ''.''"
  shows "fwidth (parse_form (CHR ''%'' # fl @ w @ pr @ t)) \<le> 99"
    "fprec (parse_form (CHR ''%'' # fl @ w @ pr @ t)) = None \<and> CHR ''.'' \<notin> set pr \<or>
     (\<exists>p \<le> 99. fprec (parse_form (CHR ''%'' # fl @ w @ pr @ t)) = Some p)"
proof -
  note f = takeWhile_flags [OF assms(1,2)]
  have "\<not> isdigit (peek (pr @ t))" using assms(5,6) by (auto simp: peek_def isdigit_def)
  note w = takeWhile_digits [OF assms(3) this]
  show "fwidth (parse_form (CHR ''%'' # fl @ w @ pr @ t)) \<le> 99"
    using f w dec_val_two [OF assms(3,4)] by (simp add: parse_form_def Let_def)
  show "fprec (parse_form (CHR ''%'' # fl @ w @ pr @ t)) = None \<and> CHR ''.'' \<notin> set pr \<or>
     (\<exists>p \<le> 99. fprec (parse_form (CHR ''%'' # fl @ w @ pr @ t)) = Some p)"
  proof (cases "pr = []")
    case True
    then show ?thesis using f w assms(7) by (simp add: parse_form_def Let_def)
  next
    case False
    then obtain d where d: "pr = CHR ''.'' # d" "length d \<le> 2" "\<forall>c \<in> set d. isdigit c" using assms(5) by blast
    have p: "peek (pr @ t) = CHR ''.''" "tl (pr @ t) = d @ t" using d(1) by (simp_all add: peek_def)
    show ?thesis
      using f w p takeWhile_digits [OF d(3) assms(6)] dec_val_two [OF d(3,2)] by (simp add: parse_form_def Let_def)
  qed
qed

section \<open>Items\<close>

definition MAX_FORMAT :: nat where "MAX_FORMAT = 6 + 2 + 10"

text \<open>The bounds of a specification that was parsed.\<close>

definition small :: "fmt_spec \<Rightarrow> bool" where
  "small f \<longleftrightarrow> fwidth f \<le> 99 \<and> (\<forall>p. fprec f = Some p \<longrightarrow> p \<le> 99)"

lemma scanformat_small:
  assumes "scanformat r = Inr (form, rest)" "rest \<noteq> []" "peek rest \<noteq> CHR ''.''"
  shows "small (parse_form form)" "small (parse_form (addintlen form))" "length (addintlen form) + 1 \<le> MAX_FORMAT"
    "CHR ''.'' \<in> set form \<Longrightarrow> \<exists>p \<le> 99. fprec (parse_form form) = Some p"
proof -
  obtain fl w pr where p: "r = fl @ w @ pr @ rest" "form = CHR ''%'' # fl @ w @ pr @ take 1 rest"
    "set fl \<subseteq> set FLAGS" "length fl \<le> 5" "peek (w @ pr @ rest) \<notin> set FLAGS" "\<forall>c \<in> set w. isdigit c" "length w \<le> 2"
    "pr = [] \<or> (\<exists>d. pr = CHR ''.'' # d \<and> length d \<le> 2 \<and> (\<forall>c \<in> set d. isdigit c))" "\<not> isdigit (peek rest)"
    using scanformat_parts [OF assms(1)] by metis
  obtain c q where c: "rest = c # q" using assms(2) by (cases rest) auto
  have pk: "peek (w @ pr @ [c]) \<notin> set FLAGS" "peek (w @ pr @ [CHR ''l'', c]) \<notin> set FLAGS"
    using p(5) c FLAGS_no by (cases w; cases pr; simp add: peek_def)+
  have c': "\<not> isdigit (peek [c])" "peek [c] \<noteq> CHR ''.''" using p(9) assms(3) c by (simp_all add: peek_def)
  have l: "\<not> isdigit (peek [CHR ''l'', c])" "peek [CHR ''l'', c] \<noteq> CHR ''.''" by (simp_all add: peek_def isdigit_def)
  have f: "form = CHR ''%'' # fl @ w @ pr @ [c]" using p(2) c by simp
  have a: "addintlen form = CHR ''%'' # fl @ w @ pr @ [CHR ''l'', c]" by (simp add: f addintlen_def butlast_append)
  note P = parse_parts [OF p(3) pk(1) p(6,7,8) c'] and A = parse_parts [OF p(3) pk(2) p(6,7,8) l]
  show "small (parse_form form)" using P unfolding f small_def by auto
  show "small (parse_form (addintlen form))" using A unfolding a small_def by auto
  have "length pr \<le> 3" using p(8) by auto
  then show "length (addintlen form) + 1 \<le> MAX_FORMAT" using p(4,7) by (simp add: a MAX_FORMAT_def)
  have nw: "CHR ''.'' \<notin> set w" using p(6) by (auto simp: isdigit_def)
  have nf: "CHR ''.'' \<notin> set fl" using p(3) FLAGS_no(2) by auto
  show "\<exists>p \<le> 99. fprec (parse_form form) = Some p" if "CHR ''.'' \<in> set form"
    using that P(2) nw nf c'(2) unfolding f by (auto simp: peek_def)
qed

lemma length_int_digits:
  "small f \<Longrightarrow> length ds \<le> 64 \<Longrightarrow> length (int_digits f ds z) \<le> 99"
  by (auto simp: int_digits_def length_min_digits small_def split: option.split)

lemma sprintf_int_small:
  assumes "small f" "\<bar>k\<bar> \<le> 2 ^ 63"
  shows "length (sprintf_int f k) \<le> 100"
proof -
  have "nat \<bar>k\<bar> \<le> 2 ^ 63" using assms(2) by (simp add: nat_le_iff)
  also have "(2 ^ 63 :: nat) < 10 ^ 64" by simp
  finally have "length (nat_str (nat \<bar>k\<bar>)) \<le> 64" by (rule length_nat_str) simp
  note d = length_int_digits [OF assms(1) this, of "k = 0"]
  show ?thesis using d assms(1) length_sign [of f "k < 0"] by (simp add: sprintf_int_def length_pad small_def)
qed

lemma sprintf_uint_small:
  assumes "small f" "n < 2 ^ 64"
  shows "length (sprintf_uint f n) \<le> 102"
proof -
  have "length (base_str b u n) \<le> 64" if "2 \<le> b" for b u
  proof -
    have "n < 2 ^ 64" by (rule assms(2))
    also have "(2 :: nat) ^ 64 \<le> b ^ 64" using that by (rule power_mono) simp
    finally show ?thesis using that by (intro length_base_str) simp_all
  qed
  then have g: "length (int_digits f (base_str b u n) z) \<le> 99" if "2 \<le> b" for b u z
    using length_int_digits [OF assms(1)] that by blast
  define ds where "ds = int_digits f (base_str (if fconv f = CHR ''x'' \<or> fconv f = CHR ''X'' then 16 else if fconv f = CHR ''o'' then 8 else 10)
    (fconv f = CHR ''X'') n) (n = 0)"
  have "length ds \<le> 99" unfolding ds_def by (rule g) simp
  then show ?thesis
    using assms(1) unfolding sprintf_uint_def Let_def length_pad ds_def [symmetric] by (simp add: small_def)
qed

lemma sprintf_double_small:
  assumes "small f"
  shows "length (sprintf_double f d) \<le> 410"
proof -
  let ?p = "case fprec f of None \<Rightarrow> 6 | Some p \<Rightarrow> p"
  have p: "?p \<le> 99" using assms by (auto simp: small_def split: option.split)
  have pad: "length (pad f z (sign_str f neg) s) \<le> 410" if "length s \<le> 409" for z neg s
    using assms that length_sign [of f neg] by (simp add: length_pad small_def)
  show ?thesis
  proof (cases "num_isnan d \<or> num_isinf d")
    case True
    then show ?thesis by (auto simp: sprintf_double_def Let_def intro!: pad)
  next
    case False
    obtain num den where nd: "num_frac d = (num, den)" by fastforce
    have b: "num \<le> 2 ^ 1024 * den" "0 < den" "den \<le> 2 ^ 1074" using num_frac_bounds [OF nd] False by blast+
    show ?thesis
      using length_fmt_fixed [OF b(1,2), of "falt f" ?p] length_fmt_exp [OF b(1,3), of "falt f" ?p]
        length_fmt_gen [OF b(1,3), of "falt f" ?p] p False nd
      by (auto simp: sprintf_double_def Let_def intro!: pad)
  qed
qed

lemma sprintf_str_small:
  assumes "small f" "length s < 100 \<or> (\<exists>p. fprec f = Some p)"
  shows "length (sprintf_str f s) \<le> 99"
proof -
  have "length (c_str s) \<le> length s" by (simp add: c_str_def length_takeWhile_le)
  then show ?thesis using assms by (auto simp: sprintf_str_def length_pad small_def split: option.split)
qed

lemma number2integer_bounds: "\<bar>lua_number2integer d\<bar> \<le> 2 ^ 63"
  by (auto simp: lua_number2integer_def Let_def split: prod.split)

lemma number2ulong_bounds: "number2ulong d < 2 ^ 64"
  by (auto simp: number2ulong_def Let_def nat_less_iff split: prod.split)

text \<open>C38: No array of \<^verbatim>\<open>string.format\<close> overflows. For every format the scanner accepts and every conversion but
  \<^verbatim>\<open>%q\<close> (which uses neither the specification nor an item), the specification with its
  length modifier and terminating zero fits into \<open>MAX_FORMAT\<close> bytes, and every item - a number of any value,
  a character, or a string that is formatted at all - fits with its terminating zero into the
  \<open>MAX_ITEM\<close> bytes of \<^verbatim>\<open>buff\<close>.\<close>

theorem format_items_fit:
  assumes "scanformat r = Inr (form, rest)" "rest \<noteq> []" "peek rest \<in> set ''cdiouxXeEfgGs''"
  shows "length (addintlen form) + 1 \<le> MAX_FORMAT \<and>
    (\<forall>(B :: 'w calls) arg L item L'. format_item B arg (peek rest) form L = Ok item L' \<longrightarrow> length item + 1 \<le> MAX_ITEM) \<and>
    (\<forall>s. CHR ''.'' \<in> set form \<or> length s < 100 \<longrightarrow> length (sprintf_str (parse_form form) s) + 1 \<le> MAX_ITEM)"
proof (intro conjI allI impI)
  have n: "peek rest \<noteq> CHR ''.''" using assms(3) by auto
  note sm = scanformat_small [OF assms(1,2) n]
  show "length (addintlen form) + 1 \<le> MAX_FORMAT" by (rule sm(3))
  show "length item + 1 \<le> MAX_ITEM" if "format_item B arg (peek rest) form L = Ok item L'"
    for B :: "'w calls" and arg L item L'
  proof -
    have "length (sprintf_char (parse_form form) c) < 512" for c
      using sm(1) by (simp add: sprintf_char_def length_pad small_def)
    moreover have "length (sprintf_int (parse_form (addintlen form)) (lua_number2integer d)) < 512" for d
      using sprintf_int_small [OF sm(2) number2integer_bounds [of d]] by simp
    moreover have "length (sprintf_uint (parse_form (addintlen form)) (number2ulong d)) < 512" for d
      using sprintf_uint_small [OF sm(2) number2ulong_bounds [of d]] by simp
    moreover have "length (sprintf_double (parse_form form) d) < 512" for d
      using sprintf_double_small [OF sm(1), of d] by simp
    ultimately show ?thesis
      using that by (auto simp: format_item_def bindM_Ok_iff ret_def Suc_le_eq split: if_splits)
  qed
  show "length (sprintf_str (parse_form form) s) + 1 \<le> MAX_ITEM" if "CHR ''.'' \<in> set form \<or> length s < 100" for s
    using sprintf_str_small [OF sm(1), of s] sm(4) that by fastforce
qed

theorem format_items_fit_witness:
  "length (sprintf_str (parse_form ''%-99.99s'') (replicate 1000 (CHR ''x''))) + 1 \<le> MAX_ITEM"
proof -
  have "scanformat ''-99.99s'' = Inr (''%-99.99s'', ''s'')" by code_simp
  from format_items_fit [OF this, where ?'w = unit] show ?thesis by (simp add: peek_def)
qed

end
