(* ===== verification/Lua_Quoted.thy ===== *)
theory Lua_Quoted
  imports Lua_Strlib Lua_Lex_Spec
begin

text \<open>
  The string library and the lexical analyzer agree: what \<^verbatim>\<open>string.format ('%q', s)\<close> returns is, in the
  source of a script, the string \<open>s\<close>, whatever bytes it has.
\<close>

lemma luaL_checklstring_string:
  "index2adr L i = Some (Slot k) \<Longrightarrow> stk L ! k = TString s \<Longrightarrow> luaL_checklstring B i L = Ok s L"
  by (simp add: luaL_checklstring_def lua_tolstring_string api_simps)

text \<open>Two steps that add strings.\<close>

lemma builds_two:
  assumes "builds base L (m L) s1"
    and "\<And>b L'. holds base b s1 L' \<Longrightarrow> room base L' \<Longrightarrow> builds base L' (f b L') (s1 @ s2)"
    and "room base L" "s = s1 @ s2"
  shows "builds base L (bindM m f L) s"
  unfolding assms(4) by (rule builds_bind [where m = m and f = f, OF assms(1-3)])

lemma luaL_addchar_to:
  "holds base b s L \<Longrightarrow> room base L \<Longrightarrow> s' = s @ [c] \<Longrightarrow> builds base L (luaL_addchar B c b L) s'"
  by (simp add: luaL_addchar_builds)

lemma addquoted_loop_builds:
  "holds base b acc L \<Longrightarrow> room base L \<Longrightarrow>
    builds base L (addquoted_loop B s b L) (acc @ concat (map quote_char s))"
proof (induction s arbitrary: b acc L)
  case Nil
  then show ?case by (simp add: builds_ret)
next
  case (Cons c s)
  show ?case
    unfolding addquoted_loop.simps
  proof (rule builds_bind [where s = "acc @ quote_char c"])
    consider "c = CHR 0x22 \<or> c = CHR 0x5C \<or> c = CHR 0x0A"
      | "\<not> (c = CHR 0x22 \<or> c = CHR 0x5C \<or> c = CHR 0x0A)" by blast
    then show "builds base L ((if c = CHR 0x22 \<or> c = CHR 0x5C \<or> c = CHR 0x0A then bindM (luaL_addchar B (CHR 0x5C) b) (luaL_addchar B c)
        else if c = CHR 0x0D then luaL_addlstring B [CHR 0x5C, CHR ''r''] b
        else if c = NUL then luaL_addlstring B (CHR 0x5C # ''000'') b
        else luaL_addchar B c b) L) (acc @ quote_char c)"
    proof cases
      case 1
      have "builds base L (bindM (luaL_addchar B (CHR 0x5C) b) (luaL_addchar B c) L) (acc @ [CHR 0x5C, c])"
        by (rule builds_two [where m = "luaL_addchar B (CHR 0x5C) b" and f = "luaL_addchar B c" and ?s1.0 = "acc @ [CHR 0x5C]" and ?s2.0 = "[c]"])
          (use Cons.prems in \<open>auto intro: luaL_addchar_to\<close>)
      then show ?thesis using 1 by (simp add: quote_char.simps)
    next
      case 2
      then show ?thesis
        using luaL_addlstring_builds [OF Cons.prems] luaL_addchar_builds [OF Cons.prems]
        by (auto simp: quote_char.simps simp del: luaL_addlstring.simps)
    qed
    show "builds base L' (addquoted_loop B s b' L') (acc @ concat (map quote_char (c # s)))"
      if "holds base b' (acc @ quote_char c) L'" "room base L'" for b' L'
      using Cons.IH [OF that] by simp
  qed (rule Cons.prems)
qed

lemma addquoted_builds:
  assumes "holds base b acc L" "room base L" "index2adr L i = Some (Slot k)" "stk L ! k = TString s"
  shows "builds base L (addquoted B i b L) (acc @ quoted_literal s)"
proof -
  have q: "builds base L' (bindM (addquoted_loop B s b1) (luaL_addchar B (CHR 0x22)) L') (acc @ quoted_literal s)"
    if h: "holds base b1 (acc @ [CHR 0x22]) L'" "room base L'" for b1 L'
    by (rule builds_two [where m = "addquoted_loop B s b1" and f = "luaL_addchar B (CHR 0x22)" and ?s2.0 = "[CHR 0x22]",
          OF addquoted_loop_builds [OF h] _ h(2)])
      (auto intro: luaL_addchar_to simp: quoted_literal_def)
  have "builds base L (bindM (luaL_addchar B (CHR 0x22) b) (\<lambda>b1. bindM (addquoted_loop B s b1) (luaL_addchar B (CHR 0x22))) L)
      (acc @ quoted_literal s)"
    by (rule builds_bind [where m = "luaL_addchar B (CHR 0x22) b" and f = "\<lambda>b1. bindM (addquoted_loop B s b1) (luaL_addchar B (CHR 0x22))",
          OF luaL_addchar_builds [OF assms(1,2)] q assms(2)])
  then show ?thesis by (simp add: addquoted_def luaL_checklstring_string [OF assms(3,4)] api_simps)
qed

lemma scan_q: "scanformat ''q'' = Inr (''%q'', ''q'')"
  by code_simp

lemma str_format_q:
  assumes st: "stk L = [TString ''%q'', TString s]" and top: "2 + LIMIT \<le> ci_top L"
  shows "str_format B L = Ok 1 (L\<lparr>stk := stk L @ [TString (quoted_literal s)]\<rparr>)"
proof -
  have room: "room (stk L) L" using assms by (simp add: room_def)
  have f: "format_loop B 2 1 ''%q'' b = bindM (addquoted B 2 b) ret" for b
  proof -
    have e: "format_loop B 2 2 [] = ret" by (rule ext) (simp add: format_loop.simps)
    show ?thesis by (subst format_loop.simps) (simp add: peek_def scan_q add_item_def thenM_def bindM_ret e)
  qed
  have i: "index2adr L 2 = Some (Slot 1)" "index2adr L 1 = Some (Slot 0)" using assms by (simp_all add: api_simps)
  obtain b xs where b: "addquoted B 2 luaL_buffinit L = Ok b (L\<lparr>stk := xs\<rparr>)"
    "holds (stk L) b (quoted_literal s) (L\<lparr>stk := xs\<rparr>)"
    using addquoted_builds [OF luaL_buffinit_holds [OF refl] room i(1), of s B] st by (auto simp: builds_def)
  obtain b' where "luaL_pushresult B b (L\<lparr>stk := xs\<rparr>) = Ok b' (L\<lparr>stk := stk L @ [TString (quoted_literal s)]\<rparr>)"
    using luaL_pushresult_exec [OF b(2)] room by (auto simp: room_def)
  then show ?thesis
    using b(1) luaL_checklstring_string [OF i(2), of "''%q''"] st
    by (simp add: str_format_def f bindM_ret api_simps)
qed

text \<open>C37: The result of \<^verbatim>\<open>string.format ('%q', s)\<close>, put into the source of a script, is read back by the lexical
  analyzer as the string \<open>s\<close>: quotes, backslashes, line ends and zero bytes included. The analyzer goes
  on after the closing quote and has counted the lines of the string.\<close>

theorem format_q_is_read_back:
  assumes "stk L = [TString ''%q'', TString s]" "2 + LIMIT \<le> ci_top L"
  shows "\<exists>t. str_format B L = Ok 1 (L\<lparr>stk := stk L @ [TString t]\<rparr>) \<and>
    (\<forall>ls rest. input ls (t @ rest) \<and> linenumber ls + int (newlines s) + 1 < MAX_INT \<longrightarrow>
       (\<exists>ls'. llex ls = Inr (TK_STRING s, ls') \<and> input ls' rest \<and> linenumber ls' = linenumber ls + int (newlines s)))"
  using str_format_q [OF assms, of B] llex_quoted [of _ s] by blast

theorem format_q_is_read_back_witness:
  "\<exists>t ls'. llex (luaX_setinput (t @ '' x'') []) = Inr (TK_STRING [CHR 0x22, CHR 0x0A, NUL], ls') \<and> linenumber ls' = 2"
proof -
  let ?s = "[CHR 0x22, CHR 0x0A, NUL]"
  have n: "newlines ?s = 1" by (simp add: newlines_def NUL_def)
  have i: "input (luaX_setinput (t @ '' x'') []) (t @ '' x'') \<and> linenumber (luaX_setinput (t @ '' x'') []) = 1" for t
    by (cases t) (simp_all add: luaX_setinput_def next_char_def input_def)
  obtain t where t: "input ls (t @ rest) \<and> linenumber ls + int (newlines ?s) + 1 < MAX_INT \<Longrightarrow>
      \<exists>ls'. llex ls = Inr (TK_STRING ?s, ls') \<and> input ls' rest \<and> linenumber ls' = linenumber ls + int (newlines ?s)" for ls rest
    using format_q_is_read_back [of "sample_state sample_table [TString ''%q'', TString ?s] ()" ?s "\<lambda>_ _ _ _. NoReturn"] by auto
  have "linenumber (luaX_setinput (t @ '' x'') []) + int (newlines ?s) + 1 < MAX_INT"
    using i [of t] n by simp
  then show ?thesis using t [of "luaX_setinput (t @ '' x'') []" "'' x''"] i [of t] n by auto
qed

end
