(* ===== verification/Lua_GC_Heap.thy ===== *)
theory Lua_GC_Heap
  imports Lua_Object
begin

unbundle bit_operations_syntax

text \<open>
  The heap as the collector sees it: src/lib/lua/lgc.h, with the objects of src/lib/lua/lobject.h
  reduced to the references they hold, and the fields of \<open>global_State\<close> (src/lib/lua/lstate.h) the
  collector uses. An address is a place in a list, never used again after the object is freed. The
  lists linked through \<^verbatim>\<open>next\<close> and \<^verbatim>\<open>gclist\<close> are lists of addresses, the first element first. There is
  one thread, the main thread, as everywhere in this development; its open upvalues are \<open>openupval\<close>. The
  amounts of memory and of work, which only pace the collector, are not modelled.
\<close>

section \<open>Marks\<close>

type_synonym lu_byte = "8 word"

definition bitmask :: "nat \<Rightarrow> lu_byte" where "bitmask b = push_bit b 1"

abbreviation (input) WHITE0BIT :: nat where "WHITE0BIT \<equiv> 0"
abbreviation (input) WHITE1BIT :: nat where "WHITE1BIT \<equiv> 1"
abbreviation (input) BLACKBIT :: nat where "BLACKBIT \<equiv> 2"
abbreviation (input) FINALIZEDBIT :: nat where "FINALIZEDBIT \<equiv> 3"
abbreviation (input) KEYWEAKBIT :: nat where "KEYWEAKBIT \<equiv> 3"
abbreviation (input) VALUEWEAKBIT :: nat where "VALUEWEAKBIT \<equiv> 4"
abbreviation (input) FIXEDBIT :: nat where "FIXEDBIT \<equiv> 5"
abbreviation (input) SFIXEDBIT :: nat where "SFIXEDBIT \<equiv> 6"

definition bit2mask :: "nat \<Rightarrow> nat \<Rightarrow> lu_byte" where "bit2mask a b = bitmask a OR bitmask b"

definition WHITEBITS :: lu_byte where "WHITEBITS = bit2mask WHITE0BIT WHITE1BIT"

definition testbits :: "lu_byte \<Rightarrow> lu_byte \<Rightarrow> bool" where "testbits x m \<longleftrightarrow> x AND m \<noteq> 0"

definition resetbits :: "lu_byte \<Rightarrow> lu_byte \<Rightarrow> lu_byte" where "resetbits x m = x AND NOT m"

definition setbits :: "lu_byte \<Rightarrow> lu_byte \<Rightarrow> lu_byte" where "setbits x m = x OR m"

definition testbit :: "lu_byte \<Rightarrow> nat \<Rightarrow> bool" where "testbit x b = testbits x (bitmask b)"

definition iswhite :: "lu_byte \<Rightarrow> bool" where "iswhite m = testbits m WHITEBITS"

definition isblack :: "lu_byte \<Rightarrow> bool" where "isblack m = testbit m BLACKBIT"

definition isgray :: "lu_byte \<Rightarrow> bool" where "isgray m \<longleftrightarrow> \<not> isblack m \<and> \<not> iswhite m"

definition changewhite :: "lu_byte \<Rightarrow> lu_byte" where "changewhite m = m XOR WHITEBITS"

definition gray2black :: "lu_byte \<Rightarrow> lu_byte" where "gray2black m = setbits m (bitmask BLACKBIT)"

definition white2gray :: "lu_byte \<Rightarrow> lu_byte" where "white2gray m = resetbits m WHITEBITS"

definition black2gray :: "lu_byte \<Rightarrow> lu_byte" where "black2gray m = resetbits m (bitmask BLACKBIT)"

text \<open>The mask, the white and the test for dead objects, with the value of \<open>currentwhite\<close> as \<open>cw\<close>.\<close>

definition otherwhite :: "lu_byte \<Rightarrow> lu_byte" where "otherwhite cw = cw XOR WHITEBITS"

definition luaC_white :: "lu_byte \<Rightarrow> lu_byte" where "luaC_white cw = cw AND WHITEBITS"

definition isdead :: "lu_byte \<Rightarrow> lu_byte \<Rightarrow> bool" where
  "isdead cw m \<longleftrightarrow> m AND otherwhite cw AND WHITEBITS \<noteq> 0"

definition makewhite :: "lu_byte \<Rightarrow> lu_byte \<Rightarrow> lu_byte" where
  "makewhite cw m = resetbits m (bitmask BLACKBIT OR WHITEBITS) OR luaC_white cw"

section \<open>Bits\<close>

named_theorems mark_simps \<open>the colours of marks\<close>

lemma bit_len: "bit (m :: lu_byte) n \<Longrightarrow> n < 8"
  using bit_imp_le_length by fastforce

lemma bit_bitmask: "bit (bitmask b) n \<longleftrightarrow> n = b \<and> n < 8"
  by (auto simp: bitmask_def bit_simps)

lemma bit_WHITEBITS: "bit WHITEBITS n \<longleftrightarrow> n = 0 \<or> n = 1"
  by (auto simp: WHITEBITS_def bit2mask_def bit_simps bit_bitmask)

lemma testbits_iff: "testbits x m \<longleftrightarrow> (\<exists>n. bit x n \<and> bit m n)"
  by (auto simp: testbits_def bit_eq_iff bit_simps dest: bit_len)

lemma iswhite_iff: "iswhite m \<longleftrightarrow> bit m 0 \<or> bit m 1"
  by (auto simp: iswhite_def testbits_iff bit_WHITEBITS)

lemma testbit_iff: "b < 8 \<Longrightarrow> testbit m b \<longleftrightarrow> bit m b"
  by (auto simp: testbit_def testbits_iff bit_bitmask)

lemma isblack_iff: "isblack m \<longleftrightarrow> bit m 2"
  by (simp add: isblack_def testbit_iff)

lemma isdead_iff: "isdead cw m \<longleftrightarrow> bit m 0 \<and> \<not> bit cw 0 \<or> bit m 1 \<and> \<not> bit cw 1"
proof -
  have "isdead cw m \<longleftrightarrow> (\<exists>n. bit m n \<and> (bit cw n \<noteq> bit WHITEBITS n) \<and> bit WHITEBITS n)"
    by (auto simp: isdead_def otherwhite_def bit_eq_iff bit_simps dest: bit_len)
  then show ?thesis by (auto simp: bit_WHITEBITS)
qed

lemmas bit_marks = changewhite_def gray2black_def white2gray_def black2gray_def makewhite_def resetbits_def setbits_def
  luaC_white_def bit_simps bit_WHITEBITS bit_bitmask

lemma white_marks [mark_simps]:
  "iswhite (gray2black m) = iswhite m" "\<not> iswhite (white2gray m)" "iswhite (black2gray m) = iswhite m"
  by (simp_all add: iswhite_iff bit_marks)

lemma black_marks [mark_simps]:
  "isblack (gray2black m)" "isblack (white2gray m) = isblack m" "\<not> isblack (black2gray m)" "\<not> isblack (makewhite cw m)"
  by (auto simp: isblack_iff bit_marks dest: bit_len)

text \<open>One of the two whites is the current one.\<close>

definition one_white :: "lu_byte \<Rightarrow> bool" where
  "one_white cw \<longleftrightarrow> bit cw 0 \<noteq> bit cw 1"

lemma white_makewhite [mark_simps]: "one_white cw \<Longrightarrow> iswhite (makewhite cw m)"
  by (auto simp: iswhite_iff one_white_def bit_marks)

lemma dead_marks [mark_simps]:
  "\<not> isdead cw (makewhite cw m)" "\<not> isdead cw (white2gray m)"
  "isdead cw (gray2black m) = isdead cw m" "isdead cw (black2gray m) = isdead cw m"
  by (auto simp: isdead_iff bit_marks)

lemma dead_white: "isdead cw m \<Longrightarrow> iswhite m"
  by (auto simp: isdead_iff iswhite_iff)

lemma dead_luaC_white [mark_simps]: "\<not> isdead cw (luaC_white cw)"
  by (auto simp: isdead_iff bit_marks)

lemma white_luaC_white [mark_simps]: "one_white cw \<Longrightarrow> iswhite (luaC_white cw)" "\<not> isblack (luaC_white cw)"
  by (auto simp: iswhite_iff isblack_iff one_white_def bit_marks)

lemma one_white_other: "one_white cw \<Longrightarrow> one_white (otherwhite cw)"
  by (auto simp: one_white_def otherwhite_def bit_simps bit_WHITEBITS)

text \<open>An object has at most one of the whites; then after the flip the white ones are the dead ones.\<close>

definition mark_ok :: "lu_byte \<Rightarrow> bool" where
  "mark_ok m \<longleftrightarrow> \<not> (bit m 0 \<and> bit m 1) \<and> \<not> (iswhite m \<and> isblack m)"

lemma dead_flip: "one_white cw \<Longrightarrow> mark_ok m \<Longrightarrow> \<not> isdead cw m \<Longrightarrow> isdead (otherwhite cw) m = iswhite m"
  by (auto simp: mark_ok_def one_white_def isdead_iff iswhite_iff otherwhite_def bit_simps bit_WHITEBITS)

lemma dead_changewhite [mark_simps]: "one_white cw \<Longrightarrow> mark_ok m \<Longrightarrow> isdead cw m \<Longrightarrow> \<not> isdead cw (changewhite m)"
  by (auto simp: mark_ok_def one_white_def isdead_iff bit_marks)

lemma mark_ok_marks [mark_simps]:
  "mark_ok m \<Longrightarrow> \<not> iswhite m \<Longrightarrow> mark_ok (gray2black m)" "mark_ok m \<Longrightarrow> mark_ok (white2gray m)"
  "mark_ok m \<Longrightarrow> mark_ok (black2gray m)" "one_white cw \<Longrightarrow> mark_ok (makewhite cw m)"
  "mark_ok m \<Longrightarrow> iswhite m \<Longrightarrow> mark_ok (changewhite m)"
  "one_white cw \<Longrightarrow> mark_ok (luaC_white cw)"
  by (auto simp: mark_ok_def iswhite_iff isblack_iff one_white_def bit_marks)

section \<open>Objects\<close>

text \<open>A value: nil, one that is not collectable, a reference, or a dead key.\<close>

datatype gval = VNil | VPlain | VRef addr | VDead addr

text \<open>
  Userdata hold a metatable and an environment; an upvalue is a place of the stack or holds its value; a
  closure has an environment and upvalues; a table a metatable, an array and nodes; the thread its globals
  and the stack up to \<^verbatim>\<open>top\<close>; a prototype the source, constants, names of upvalues, nested
  prototypes and names of locals.
\<close>

datatype gbody =
    GString string "32 word"
  | GUdata "addr option" addr
  | GOpen nat
  | GClosed gval
  | GCClosure addr "gval list"
  | GLClosure addr addr "addr list"
  | GTable "addr option" "gval list" "(gval \<times> gval) list"
  | GThread gval "gval list"
  | GProto "addr option" "gval list" "addr option list" "addr option list" "addr option list"

record gcobj =
  marked :: lu_byte
  body :: gbody

datatype gcphase = GCSpause | GCSpropagate | GCSsweepstring | GCSsweep | GCSfinalize

text \<open>\<open>sweepgc\<close> is the object whose \<^verbatim>\<open>next\<close> field is the place of the sweep; nothing is the field \<open>rootgc\<close>. The
  list \<open>tmudata\<close> begins with its first element.\<close>

record gcstate =
  heap :: "gcobj option list"
  strt_hash :: "addr list list"
  strt_nuse :: "32 word"
  currentwhite :: lu_byte
  phase :: gcphase
  sweepstrgc :: nat
  rootgc :: "addr list"
  sweepgc :: "addr option"
  gray :: "addr list"
  grayagain :: "addr list"
  weak :: "addr list"
  tmudata :: "addr list"
  registry :: gval
  mainthread :: addr
  uvhead :: "addr list"
  openupval :: "addr list"
  basic_mt :: "addr option list"
  tm_gc :: addr
  tm_mode :: addr

definition look :: "gcstate \<Rightarrow> addr \<Rightarrow> gcobj option" where
  "look g a = (if a < length (heap g) then heap g ! a else None)"

definition put :: "addr \<Rightarrow> gcobj option \<Rightarrow> gcstate \<Rightarrow> gcstate" where
  "put a x g = g\<lparr>heap := (heap g)[a := x]\<rparr>"

definition setmark :: "addr \<Rightarrow> (lu_byte \<Rightarrow> lu_byte) \<Rightarrow> gcstate \<Rightarrow> gcstate" where
  "setmark a f g = (case look g a of None \<Rightarrow> g | Some x \<Rightarrow> put a (Some (x\<lparr>marked := f (marked x)\<rparr>)) g)"

definition setbody :: "addr \<Rightarrow> gbody \<Rightarrow> gcstate \<Rightarrow> gcstate" where
  "setbody a b g = (case look g a of None \<Rightarrow> g | Some x \<Rightarrow> put a (Some (x\<lparr>body := b\<rparr>)) g)"

definition white :: "gcstate \<Rightarrow> addr \<Rightarrow> bool" where
  "white g a = (case look g a of None \<Rightarrow> False | Some x \<Rightarrow> iswhite (marked x))"

definition black :: "gcstate \<Rightarrow> addr \<Rightarrow> bool" where
  "black g a = (case look g a of None \<Rightarrow> False | Some x \<Rightarrow> isblack (marked x))"

definition body_of :: "gcstate \<Rightarrow> addr \<Rightarrow> gbody option" where
  "body_of g a = map_option body (look g a)"

text \<open>The userdata are chained after the main thread.\<close>

definition before_udata :: "gcstate \<Rightarrow> addr list" where
  "before_udata g = takeWhile (\<lambda>a. a \<noteq> mainthread g) (rootgc g) @ [mainthread g]"

definition udata_list :: "gcstate \<Rightarrow> addr list" where
  "udata_list g = tl (dropWhile (\<lambda>a. a \<noteq> mainthread g) (rootgc g))"

section \<open>References\<close>

definition vrefs :: "gval \<Rightarrow> addr list" where
  "vrefs v = (case v of VRef a \<Rightarrow> [a] | _ \<Rightarrow> [])"

definition orefs :: "addr option \<Rightarrow> addr list" where
  "orefs r = (case r of None \<Rightarrow> [] | Some a \<Rightarrow> [a])"

text \<open>The references through the keys and the values of the entries that are not empty.\<close>

definition live_entries :: "(gval \<times> gval) list \<Rightarrow> (gval \<times> gval) list" where
  "live_entries ns = filter (\<lambda>(k, v). v \<noteq> VNil) ns"

definition table_refs :: "bool \<Rightarrow> bool \<Rightarrow> addr option \<Rightarrow> gval list \<Rightarrow> (gval \<times> gval) list \<Rightarrow> addr list" where
  "table_refs weakkey weakvalue mt arr ns =
     orefs mt @ (if weakvalue then [] else concat (map vrefs arr)) @
     concat (map (\<lambda>(k, v). (if weakkey then [] else vrefs k) @ (if weakvalue then [] else vrefs v)) (live_entries ns))"

definition refs :: "gbody \<Rightarrow> addr list" where
  "refs b =
     (case b of
        GString s h \<Rightarrow> []
      | GUdata mt e \<Rightarrow> orefs mt @ [e]
      | GOpen l \<Rightarrow> []
      | GClosed v \<Rightarrow> vrefs v
      | GCClosure e us \<Rightarrow> e # concat (map vrefs us)
      | GLClosure e p us \<Rightarrow> e # p # us
      | GTable mt arr ns \<Rightarrow> table_refs False False mt arr ns
      | GThread gt st \<Rightarrow> vrefs gt @ concat (map vrefs st)
      | GProto src k un ps ln \<Rightarrow>
          orefs src @ concat (map vrefs k) @ concat (map orefs un) @ concat (map orefs ps) @ concat (map orefs ln))"

text \<open>The keys of all entries of a table, also of those that are empty.\<close>

definition krefs :: "gbody \<Rightarrow> addr list" where
  "krefs b = (case b of GTable mt arr ns \<Rightarrow> concat (map (vrefs \<circ> fst) ns) | _ \<Rightarrow> [])"

text \<open>What the program starts from.\<close>

definition roots :: "gcstate \<Rightarrow> addr list" where
  "roots g = mainthread g # vrefs (registry g) @ concat (map orefs (basic_mt g))"

inductive reachable :: "gcstate \<Rightarrow> addr \<Rightarrow> bool" for g where
  root: "a \<in> set (roots g) \<Longrightarrow> reachable g a"
| ref: "reachable g a \<Longrightarrow> body_of g a = Some b \<Longrightarrow> r \<in> set (refs b) \<Longrightarrow> reachable g r"

section \<open>Lemmas on the heap\<close>

lemma split_udata: "mainthread g \<in> set (rootgc g) \<Longrightarrow> rootgc g = before_udata g @ udata_list g"
proof -
  assume "mainthread g \<in> set (rootgc g)"
  then obtain ys zs where "rootgc g = ys @ mainthread g # zs" "mainthread g \<notin> set ys" by (metis split_list_first)
  moreover from this(2) have "takeWhile (\<lambda>a. a \<noteq> mainthread g) (ys @ mainthread g # zs) = ys"
    "dropWhile (\<lambda>a. a \<noteq> mainthread g) (ys @ mainthread g # zs) = mainthread g # zs"
    by (subst takeWhile_append2 dropWhile_append2; auto)+
  ultimately show ?thesis by (simp add: before_udata_def udata_list_def)
qed

lemma look_put: "a < length (heap g) \<Longrightarrow> look (put a x g) b = (if b = a then x else look g b)"
  by (auto simp: look_def put_def)

lemma put_fields [simp]:
  "length (heap (put a x g)) = length (heap g)" "gray (put a x g) = gray g" "grayagain (put a x g) = grayagain g"
  "weak (put a x g) = weak g" "currentwhite (put a x g) = currentwhite g" "tmudata (put a x g) = tmudata g"
  "mainthread (put a x g) = mainthread g" "registry (put a x g) = registry g" "basic_mt (put a x g) = basic_mt g"
  "phase (put a x g) = phase g" "strt_hash (put a x g) = strt_hash g" "rootgc (put a x g) = rootgc g"
  "sweepgc (put a x g) = sweepgc g" "sweepstrgc (put a x g) = sweepstrgc g" "openupval (put a x g) = openupval g"
  "uvhead (put a x g) = uvhead g" "strt_nuse (put a x g) = strt_nuse g" "tm_gc (put a x g) = tm_gc g" "tm_mode (put a x g) = tm_mode g"
  by (simp_all add: put_def)

lemma look_lt: "look g a = Some x \<Longrightarrow> a < length (heap g)"
  by (simp add: look_def split: if_splits)

lemma look_setmark: "look (setmark a f g) b = (if b = a then map_option (\<lambda>x. x\<lparr>marked := f (marked x)\<rparr>) (look g a) else look g b)"
  by (auto simp: setmark_def look_put look_lt split: option.split)

lemma look_setbody: "look (setbody a bd g) b = (if b = a then map_option (\<lambda>x. x\<lparr>body := bd\<rparr>) (look g a) else look g b)"
  by (auto simp: setbody_def look_put look_lt split: option.split)

lemma setmark_fields [simp]:
  "gray (setmark a f g) = gray g" "grayagain (setmark a f g) = grayagain g" "weak (setmark a f g) = weak g"
  "currentwhite (setmark a f g) = currentwhite g" "tmudata (setmark a f g) = tmudata g"
  "mainthread (setmark a f g) = mainthread g" "registry (setmark a f g) = registry g" "basic_mt (setmark a f g) = basic_mt g"
  "phase (setmark a f g) = phase g" "strt_hash (setmark a f g) = strt_hash g" "rootgc (setmark a f g) = rootgc g"
  "sweepgc (setmark a f g) = sweepgc g" "sweepstrgc (setmark a f g) = sweepstrgc g" "openupval (setmark a f g) = openupval g"
  "uvhead (setmark a f g) = uvhead g" "tm_gc (setmark a f g) = tm_gc g" "tm_mode (setmark a f g) = tm_mode g"
  "length (heap (setmark a f g)) = length (heap g)" "strt_nuse (setmark a f g) = strt_nuse g"
  by (simp_all add: setmark_def split: option.split)

lemma setbody_fields [simp]:
  "gray (setbody a f g) = gray g" "grayagain (setbody a f g) = grayagain g" "weak (setbody a f g) = weak g"
  "currentwhite (setbody a f g) = currentwhite g" "tmudata (setbody a f g) = tmudata g"
  "mainthread (setbody a f g) = mainthread g" "registry (setbody a f g) = registry g" "basic_mt (setbody a f g) = basic_mt g"
  "phase (setbody a f g) = phase g" "strt_hash (setbody a f g) = strt_hash g" "rootgc (setbody a f g) = rootgc g"
  "sweepgc (setbody a f g) = sweepgc g" "sweepstrgc (setbody a f g) = sweepstrgc g" "openupval (setbody a f g) = openupval g"
  "uvhead (setbody a f g) = uvhead g" "tm_gc (setbody a f g) = tm_gc g" "tm_mode (setbody a f g) = tm_mode g"
  "length (heap (setbody a f g)) = length (heap g)" "strt_nuse (setbody a f g) = strt_nuse g"
  by (simp_all add: setbody_def split: option.split)

lemma body_of_setmark [simp]: "body_of (setmark a f g) b = body_of g b"
  by (cases "look g a") (auto simp: body_of_def look_setmark)

lemma look_fields [simp]:
  "look (g\<lparr>gray := x\<rparr>) = look g" "look (g\<lparr>grayagain := x\<rparr>) = look g" "look (g\<lparr>weak := x\<rparr>) = look g"
  "look (g\<lparr>tmudata := x\<rparr>) = look g" "look (g\<lparr>phase := p\<rparr>) = look g" "look (g\<lparr>currentwhite := c\<rparr>) = look g"
  "look (g\<lparr>sweepstrgc := n\<rparr>) = look g" "look (g\<lparr>sweepgc := s\<rparr>) = look g" "look (g\<lparr>rootgc := x\<rparr>) = look g"
  "look (g\<lparr>uvhead := x\<rparr>) = look g" "look (g\<lparr>openupval := x\<rparr>) = look g" "look (g\<lparr>strt_hash := h\<rparr>) = look g"
  "look (g\<lparr>strt_nuse := u\<rparr>) = look g" "look (g\<lparr>basic_mt := mts\<rparr>) = look g" "look (g\<lparr>registry := v\<rparr>) = look g"
  by (simp_all add: look_def fun_eq_iff)

end
