(* ===== verification/Lua_Strtab.thy ===== *)
theory Lua_Strtab
  imports Lua_GC_Heap "HOL-Library.Multiset"
begin

text \<open>
  The table of all strings: src/lib/lua/lstring.c. Every string is in the table once, so that equal strings
  are the same object. Strings too long for the address space are not modelled.
\<close>

section \<open>Operations\<close>

definition hash_lmod :: "32 word \<Rightarrow> nat \<Rightarrow> nat" where
  "hash_lmod h n = unat (h AND (of_nat n - 1))"

definition str_hash :: "gcstate \<Rightarrow> addr \<Rightarrow> 32 word" where
  "str_hash g a = (case body_of g a of Some (GString s h) \<Rightarrow> h | _ \<Rightarrow> 0)"

text \<open>Chain a string at the head of its new list.\<close>

definition rehash_one :: "gcstate \<Rightarrow> nat \<Rightarrow> addr \<Rightarrow> addr list list \<Rightarrow> addr list list" where
  "rehash_one g newsize p nh = (let h1 = hash_lmod (str_hash g p) newsize in nh[h1 := p # nh ! h1])"

definition luaS_resize :: "nat \<Rightarrow> gcstate \<Rightarrow> gcstate" where
  "luaS_resize newsize g =
     (if phase g = GCSsweepstring then g
      else g\<lparr>strt_hash := fold (rehash_one g newsize) (concat (strt_hash g)) (replicate newsize [])\<rparr>)"

text \<open>A new object, with the current white, not yet in a list.\<close>

definition newobj :: "gbody \<Rightarrow> gcstate \<Rightarrow> addr \<times> gcstate" where
  "newobj b g = (length (heap g), g\<lparr>heap := heap g @ [Some \<lparr>marked = luaC_white (currentwhite g), body = b\<rparr>]\<rparr>)"

definition newlstr :: "string \<Rightarrow> 32 word \<Rightarrow> gcstate \<Rightarrow> addr \<times> gcstate" where
  "newlstr s h g =
     (case newobj (GString s h) g of (a, g1) \<Rightarrow>
        let n = length (strt_hash g1); i = hash_lmod h n;
            g2 = g1\<lparr>strt_hash := (strt_hash g1)[i := a # strt_hash g1 ! i], strt_nuse := strt_nuse g1 + 1\<rparr>
        in (a, if of_nat n < strt_nuse g2 \<and> int n \<le> MAX_INT div 2 then luaS_resize (n * 2) g2 else g2))"

definition is_string :: "string \<Rightarrow> gcstate \<Rightarrow> addr \<Rightarrow> bool" where
  "is_string s g a = (case body_of g a of Some (GString t h) \<Rightarrow> t = s | _ \<Rightarrow> False)"

definition resurrect :: "addr \<Rightarrow> gcstate \<Rightarrow> gcstate" where
  "resurrect a g =
     (case look g a of
        Some x \<Rightarrow> if isdead (currentwhite g) (marked x) then setmark a changewhite g else g
      | None \<Rightarrow> g)"

definition luaS_newlstr :: "string \<Rightarrow> gcstate \<Rightarrow> addr \<times> gcstate" where
  "luaS_newlstr s g =
     (let h = luaS_hash s in
      case find (is_string s g) (strt_hash g ! hash_lmod h (length (strt_hash g))) of
        Some a \<Rightarrow> (a, resurrect a g)
      | None \<Rightarrow> newlstr s h g)"

definition luaS_newudata :: "addr \<Rightarrow> gcstate \<Rightarrow> addr \<times> gcstate" where
  "luaS_newudata e g =
     (case newobj (GUdata None e) g of (u, g1) \<Rightarrow>
        (u, g1\<lparr>rootgc := before_udata g1 @ u # udata_list g1\<rparr>))"

definition luaS_fix :: "addr \<Rightarrow> gcstate \<Rightarrow> gcstate" where
  "luaS_fix a g = setmark a (\<lambda>m. setbits m (bitmask FIXEDBIT)) g"

section \<open>The table\<close>

definition strings :: "gcstate \<Rightarrow> addr list" where
  "strings g = concat (strt_hash g)"

text \<open>
  The size is a power of two, every string is in the list of its hash, no two have the same contents, and
  \<open>nuse\<close> is their number.
\<close>

definition strtab_ok :: "gcstate \<Rightarrow> bool" where
  "strtab_ok g \<longleftrightarrow>
     (\<exists>k \<le> 31. length (strt_hash g) = 2 ^ k) \<and>
     (\<forall>i < length (strt_hash g). \<forall>a \<in> set (strt_hash g ! i).
        \<exists>s. body_of g a = Some (GString s (luaS_hash s)) \<and> i = hash_lmod (luaS_hash s) (length (strt_hash g))) \<and>
     distinct (strings g) \<and>
     (\<forall>a \<in> set (strings g). \<forall>b \<in> set (strings g). \<forall>s. is_string s g a \<and> is_string s g b \<longrightarrow> a = b) \<and>
     strt_nuse g = of_nat (length (strings g))"

lemma hash_lmod_less: "k \<le> 31 \<Longrightarrow> hash_lmod h (2 ^ k) < 2 ^ k"
proof -
  assume "k \<le> 31"
  have "(h AND (of_nat (2 ^ k) - 1)) = take_bit k h"
    by (simp add: take_bit_eq_mask mask_eq_exp_minus_1 and.commute)
  moreover have "unat (take_bit k h) = take_bit k (unat h)" by (rule unsigned_take_bit_eq)
  ultimately show ?thesis by (simp add: hash_lmod_def take_bit_eq_mod)
qed

lemma look_newobj: "newobj b g = (a, g') \<Longrightarrow>
    look g' c = (if c = a then Some \<lparr>marked = luaC_white (currentwhite g), body = b\<rparr> else look g c) \<and> a = length (heap g) \<and> look g a = None"
  by (auto simp: newobj_def look_def nth_append)

lemma body_newobj: "newobj b g = (a, g') \<Longrightarrow> body_of g' a = Some b"
  by (auto simp: newobj_def body_of_def look_def)

lemma newobj_fields: "newobj b g = (a, g') \<Longrightarrow>
    strt_hash g' = strt_hash g \<and> strt_nuse g' = strt_nuse g \<and> phase g' = phase g \<and> currentwhite g' = currentwhite g \<and>
    rootgc g' = rootgc g \<and> gray g' = gray g \<and> grayagain g' = grayagain g \<and> weak g' = weak g \<and> tmudata g' = tmudata g \<and>
    roots g' = roots g \<and> mainthread g' = mainthread g \<and> sweepgc g' = sweepgc g \<and> sweepstrgc g' = sweepstrgc g \<and>
    openupval g' = openupval g \<and> uvhead g' = uvhead g \<and> registry g' = registry g \<and> basic_mt g' = basic_mt g"
  by (auto simp: newobj_def roots_def)

lemma body_resize [simp]: "body_of (luaS_resize n g) = body_of g" "look (luaS_resize n g) = look g"
  by (auto simp: luaS_resize_def body_of_def fun_eq_iff)

lemma body_resurrect [simp]: "body_of (resurrect a g) = body_of g"
  by (auto simp: resurrect_def fun_eq_iff split: option.split)

lemma resurrect_fields [simp]:
  "strt_hash (resurrect a g) = strt_hash g" "strt_nuse (resurrect a g) = strt_nuse g" "currentwhite (resurrect a g) = currentwhite g"
  "phase (resurrect a g) = phase g" "rootgc (resurrect a g) = rootgc g" "gray (resurrect a g) = gray g"
  "grayagain (resurrect a g) = grayagain g" "weak (resurrect a g) = weak g" "tmudata (resurrect a g) = tmudata g"
  "mainthread (resurrect a g) = mainthread g" "registry (resurrect a g) = registry g" "basic_mt (resurrect a g) = basic_mt g"
  "openupval (resurrect a g) = openupval g" "uvhead (resurrect a g) = uvhead g" "sweepgc (resurrect a g) = sweepgc g"
  "sweepstrgc (resurrect a g) = sweepstrgc g"
  by (auto simp: resurrect_def split: option.split)

section \<open>Resizing\<close>

lemma length_rehash: "length (fold (rehash_one g n) ps nh) = length nh"
  by (induction ps arbitrary: nh) (simp_all add: rehash_one_def Let_def)

lemma rehash_mem:
  assumes "\<forall>p \<in> set ps. hash_lmod (str_hash g p) n < length nh" "i < length nh"
  shows "fold (rehash_one g n) ps nh ! i = rev (filter (\<lambda>p. hash_lmod (str_hash g p) n = i) ps) @ nh ! i"
  using assms
proof (induction ps arbitrary: nh)
  case (Cons p ps)
  then show ?case by (auto simp: rehash_one_def Let_def nth_list_update)
qed simp

lemma strtab_bucket:
  assumes "strtab_ok g" "a \<in> set (strings g)"
  obtains s where "body_of g a = Some (GString s (luaS_hash s))"
    "a \<in> set (strt_hash g ! hash_lmod (luaS_hash s) (length (strt_hash g)))" "hash_lmod (luaS_hash s) (length (strt_hash g)) < length (strt_hash g)"
proof -
  obtain xs where "xs \<in> set (strt_hash g)" "a \<in> set xs" using assms(2) by (auto simp: strings_def)
  then obtain i where i: "i < length (strt_hash g)" "a \<in> set (strt_hash g ! i)" by (metis in_set_conv_nth)
  then obtain s where "body_of g a = Some (GString s (luaS_hash s))" "i = hash_lmod (luaS_hash s) (length (strt_hash g))"
    using assms(1) by (auto simp: strtab_ok_def)
  then show ?thesis using that i by blast
qed

lemma mset_concat_filter:
  "(\<forall>p \<in> set ps. f p < n) \<Longrightarrow> mset (concat (map (\<lambda>i. rev (filter (\<lambda>p. f p = i) ps)) [0..<n])) = mset ps"
proof (induction n arbitrary: ps)
  case 0
  then show ?case by (cases ps) auto
next
  case (Suc n)
  let ?lo = "filter (\<lambda>p. f p < n) ps"
  have 1: "mset (concat (map (\<lambda>i. rev (filter (\<lambda>p. f p = i) ?lo)) [0..<n])) = mset ?lo"
    by (rule Suc.IH) simp
  have 2: "map (\<lambda>i. rev (filter (\<lambda>p. f p = i) ?lo)) [0..<n] = map (\<lambda>i. rev (filter (\<lambda>p. f p = i) ps)) [0..<n]"
    by (rule map_cong) (auto intro: filter_cong)
  have 3: "filter (\<lambda>p. f p = n) ps = filter (\<lambda>p. \<not> f p < n) ps"
    using Suc.prems by (intro filter_cong) (auto simp: less_Suc_eq)
  have "mset (concat (map (\<lambda>i. rev (filter (\<lambda>p. f p = i) ps)) [0..<Suc n])) = mset ?lo + mset (filter (\<lambda>p. f p = n) ps)"
    using 1 unfolding 2 by simp
  then show ?case unfolding 3 by simp
qed

lemma resize_ok:
  assumes ok: "strtab_ok g" and k: "k \<le> 31"
  shows "strtab_ok (luaS_resize (2 ^ k) g) \<and> set (strings (luaS_resize (2 ^ k) g)) = set (strings g)"
proof (cases "phase g = GCSsweepstring")
  case True
  then show ?thesis using ok by (simp add: luaS_resize_def)
next
  case False
  let ?n = "2 ^ k :: nat" and ?ps = "concat (strt_hash g)" and ?f = "\<lambda>p. hash_lmod (str_hash g p) (2 ^ k)"
  let ?nh = "fold (rehash_one g ?n) ?ps (replicate ?n [])"
  have h: "str_hash g a = luaS_hash s" if "body_of g a = Some (GString s (luaS_hash s))" for a s
    using that by (simp add: str_hash_def)
  have f: "\<forall>p \<in> set ?ps. ?f p < ?n" using hash_lmod_less [OF k] by blast
  have nh: "?nh = map (\<lambda>i. rev (filter (\<lambda>p. ?f p = i) ?ps)) [0..<?n]"
    using rehash_mem [of ?ps g ?n "replicate ?n []"] f by (intro nth_equalityI) (simp_all add: length_rehash)
  have m: "mset (concat ?nh) = mset ?ps" unfolding nh by (rule mset_concat_filter [OF f])
  then have s: "set (concat ?nh) = set ?ps" by (metis set_mset_mset)
  have d: "distinct (concat ?nh)"
    using ok m unfolding strtab_ok_def strings_def by (simp add: mset_eq_imp_distinct_iff [OF m])
  have b: "\<exists>s. body_of g a = Some (GString s (luaS_hash s)) \<and> i = hash_lmod (luaS_hash s) ?n" if "i < ?n" "a \<in> set (?nh ! i)" for i a
  proof -
    have a: "a \<in> set ?ps" "?f a = i" using that unfolding nh by simp_all
    obtain s where "body_of g a = Some (GString s (luaS_hash s))"
      using strtab_bucket [OF ok, of a] a(1) unfolding strings_def by blast
    then show ?thesis using a(2) h by auto
  qed
  have "luaS_resize ?n g = g\<lparr>strt_hash := ?nh\<rparr>" using False by (simp add: luaS_resize_def)
  moreover have "strtab_ok (g\<lparr>strt_hash := ?nh\<rparr>)"
    using ok k b d s m size_mset [of "concat ?nh"] size_mset [of ?ps] unfolding strtab_ok_def strings_def
    by (auto simp: length_rehash body_of_def is_string_def)
  ultimately show ?thesis using s by (simp add: strings_def)
qed

section \<open>Interning\<close>

lemma find_string:
  assumes "strtab_ok g"
  shows "(case find (is_string s g) (strt_hash g ! hash_lmod (luaS_hash s) (length (strt_hash g))) of
      Some a \<Rightarrow> a \<in> set (strings g) \<and> is_string s g a | None \<Rightarrow> \<forall>b \<in> set (strings g). \<not> is_string s g b)"
proof -
  let ?i = "hash_lmod (luaS_hash s) (length (strt_hash g))"
  obtain k where k: "k \<le> 31" "length (strt_hash g) = 2 ^ k" using assms by (auto simp: strtab_ok_def)
  have i: "?i < length (strt_hash g)" using hash_lmod_less [OF k(1)] k(2) by simp
  have here: "b \<in> set (strt_hash g ! ?i)" if b: "b \<in> set (strings g)" "is_string s g b" for b
  proof -
    obtain t where t: "body_of g b = Some (GString t (luaS_hash t))"
      "b \<in> set (strt_hash g ! hash_lmod (luaS_hash t) (length (strt_hash g)))"
      using strtab_bucket [OF assms b(1)] by metis
    then have "t = s" using b(2) by (simp add: is_string_def)
    then show ?thesis using t(2) by simp
  qed
  show ?thesis
  proof (cases "find (is_string s g) (strt_hash g ! ?i)")
    case None
    then have "\<not> (\<exists>x. x \<in> set (strt_hash g ! ?i) \<and> is_string s g x)" by (simp add: find_None_iff)
    then show ?thesis using here None by auto
  next
    case (Some a)
    then have "a \<in> set (strt_hash g ! ?i)" "is_string s g a" by (auto simp: find_Some_iff)
    then show ?thesis using Some i by (auto simp: strings_def)
  qed
qed

lemma concat_update: "i < length xss \<Longrightarrow> mset (concat (xss[i := a # xss ! i])) = add_mset a (mset (concat xss))"
proof (induction xss arbitrary: i)
  case (Cons xs xss)
  then show ?case by (cases i) simp_all
qed simp

lemma newlstr_ok:
  assumes ok: "strtab_ok g" and new: "\<forall>b \<in> set (strings g). \<not> is_string s g b"
    and n: "newlstr s (luaS_hash s) g = (a, g')"
  shows "strtab_ok g' \<and> set (strings g') = insert a (set (strings g)) \<and> is_string s g' a \<and> a \<notin> set (strings g) \<and>
    (\<forall>b. b \<noteq> a \<longrightarrow> body_of g' b = body_of g b)"
proof -
  let ?n = "length (strt_hash g)" and ?i = "hash_lmod (luaS_hash s) (length (strt_hash g))"
  obtain k where k: "k \<le> 31" "?n = 2 ^ k" using ok by (auto simp: strtab_ok_def)
  have i: "?i < ?n" using hash_lmod_less [OF k(1)] k(2) by simp
  obtain g1 where g1: "newobj (GString s (luaS_hash s)) g = (a, g1)" using n by (auto simp: newlstr_def Let_def split: prod.splits)
  note L = look_newobj [OF g1] and F = newobj_fields [OF g1]
  define g2 where "g2 = g1\<lparr>strt_hash := (strt_hash g1)[?i := a # strt_hash g1 ! ?i], strt_nuse := strt_nuse g1 + 1\<rparr>"
  have B: "body_of g2 c = (if c = a then Some (GString s (luaS_hash s)) else body_of g c)" for c
    using L [of c] by (simp add: g2_def body_of_def)
  have fresh: "a \<notin> set (strings g)"
  proof
    assume "a \<in> set (strings g)"
    then obtain t where "body_of g a = Some (GString t (luaS_hash t))" using strtab_bucket [OF ok] by blast
    then show False using L [of a] by (auto simp: body_of_def)
  qed
  have h2: "strt_hash g2 = (strt_hash g)[?i := a # strt_hash g ! ?i]" "strt_nuse g2 = strt_nuse g + 1"
    using F by (simp_all add: g2_def)
  have m: "mset (strings g2) = add_mset a (mset (strings g))" using concat_update [OF i] by (simp add: strings_def h2)
  have s2: "set (strings g2) = insert a (set (strings g))" using m by (metis set_mset_add_mset_insert set_mset_mset)
  have d2: "distinct (strings g2)"
    using mset_eq_imp_distinct_iff [of "strings g2" "a # strings g"] m ok fresh by (simp add: strtab_ok_def)
  have u: "\<forall>b \<in> set (strings g2). \<forall>c \<in> set (strings g2). \<forall>t. is_string t g2 b \<and> is_string t g2 c \<longrightarrow> b = c"
  proof (intro ballI allI impI)
    fix b c t assume bc: "b \<in> set (strings g2)" "c \<in> set (strings g2)" "is_string t g2 b \<and> is_string t g2 c"
    have iss: "is_string t g2 x = (if x = a then t = s else is_string t g x)" for x by (auto simp: is_string_def B)
    show "b = c"
    proof (cases "b = a \<or> c = a")
      case True
      then show ?thesis using bc new fresh s2 iss [of b] iss [of c] by (auto split: if_splits)
    next
      case False
      then have "b \<in> set (strings g)" "c \<in> set (strings g)" "is_string t g b \<and> is_string t g c"
        using bc s2 iss by auto
      then show ?thesis using ok unfolding strtab_ok_def by blast
    qed
  qed
  have b2: "\<exists>t. body_of g2 c = Some (GString t (luaS_hash t)) \<and> j = hash_lmod (luaS_hash t) (length (strt_hash g2))"
    if "j < length (strt_hash g2)" "c \<in> set (strt_hash g2 ! j)" for j c
  proof (cases "c = a")
    case True
    have "j = ?i"
    proof (rule ccontr)
      assume "j \<noteq> ?i"
      then have "a \<in> set (strings g)" using that True by (auto simp: h2 strings_def)
      then show False using fresh by simp
    qed
    then show ?thesis using B [of c] True by (simp add: h2)
  next
    case False
    then have "c \<in> set (strt_hash g ! j)" "j < ?n" using that by (auto simp: h2 nth_list_update [OF i] split: if_splits)
    then show ?thesis using ok B [of c] False by (simp add: strtab_ok_def h2)
  qed
  have "length (strings g2) = Suc (length (strings g))" using arg_cong [OF m, of size] by simp
  then have nu: "strt_nuse g2 = of_nat (length (strings g2))" using ok h2(2) by (simp add: strtab_ok_def)
  have ok2: "strtab_ok g2"
    unfolding strtab_ok_def
  proof (intro conjI allI impI ballI)
    show "\<exists>k \<le> 31. length (strt_hash g2) = 2 ^ k" using k by (auto simp: h2)
    show "b = c" if "b \<in> set (strings g2)" "c \<in> set (strings g2)" "is_string t g2 b \<and> is_string t g2 c" for b c t
      using u that by blast
  qed (use b2 d2 nu in auto)
  have g': "g' = (if of_nat ?n < strt_nuse g2 \<and> int ?n \<le> MAX_INT div 2 then luaS_resize (?n * 2) g2 else g2)"
    using n F by (auto simp: newlstr_def g1 Let_def g2_def)
  have sz: "strtab_ok (luaS_resize (?n * 2) g2) \<and> set (strings (luaS_resize (?n * 2) g2)) = set (strings g2)"
    if "int ?n \<le> MAX_INT div 2"
  proof -
    have "int (2 ^ k) < int (2 ^ 30)" using that k(2) by simp
    then have "(2 :: nat) ^ k < 2 ^ 30" by (simp only: of_nat_less_iff)
    then have "k < 30" by (rule power_less_imp_less_exp [rotated]) simp
    then show ?thesis using resize_ok [OF ok2, of "Suc k"] k(2) by (simp add: mult.commute)
  qed
  have "strtab_ok g' \<and> set (strings g') = set (strings g2)" using g' ok2 sz by auto
  moreover have "body_of g' = body_of g2" using g' by simp
  ultimately show ?thesis using s2 fresh B by (simp add: is_string_def)
qed

text \<open>A state after the start: the main thread with its globals, and the registry.\<close>

definition sample_gc :: gcstate where
  "sample_gc =
     \<lparr>heap = [Some \<lparr>marked = 0x61, body = GThread (VRef 1) []\<rparr>, Some \<lparr>marked = 1, body = GTable None [] []\<rparr>,
        Some \<lparr>marked = 1, body = GTable None [] []\<rparr>],
      strt_hash = replicate 32 [], strt_nuse = 0, currentwhite = 0x21, phase = GCSpause, sweepstrgc = 0,
      rootgc = [2, 1, 0], sweepgc = None, gray = [], grayagain = [], weak = [], tmudata = [], registry = VRef 2,
      mainthread = 0, uvhead = [], openupval = [], basic_mt = replicate 9 None, tm_gc = 100, tm_mode = 101\<rparr>"

text \<open>C39: \<open>luaS_newlstr\<close> interns. It returns a string object with the given bytes, the one of the table if the table
  has one and otherwise a new one, and keeps the table well-formed: every string is in the list its hash
  says, also when the table grows, no two strings have the same bytes, and \<open>nuse\<close> counts them. So two
  strings made by it are equal exactly when they are the same object, as the interpreter compares them.\<close>

theorem luaS_newlstr_interns:
  assumes "strtab_ok g" "luaS_newlstr s g = (a, g')"
  shows "strtab_ok g' \<and> is_string s g' a \<and> set (strings g') = insert a (set (strings g)) \<and>
    (a \<in> set (strings g) \<longleftrightarrow> (\<exists>b \<in> set (strings g). is_string s g b)) \<and>
    (\<forall>b \<in> set (strings g). body_of g' b = body_of g b)"
proof (cases "find (is_string s g) (strt_hash g ! hash_lmod (luaS_hash s) (length (strt_hash g)))")
  case None
  then have none: "\<forall>b \<in> set (strings g). \<not> is_string s g b" using find_string [OF assms(1), of s] by simp
  have "newlstr s (luaS_hash s) g = (a, g')" using assms(2) None by (simp add: luaS_newlstr_def Let_def)
  from newlstr_ok [OF assms(1) none this] none show ?thesis by auto
next
  case (Some b)
  then have b: "b \<in> set (strings g)" "is_string s g b" using find_string [OF assms(1), of s] by simp_all
  have g': "a = b" "g' = resurrect b g" using assms(2) Some by (auto simp: luaS_newlstr_def Let_def)
  have "strtab_ok g'" using assms(1) by (simp add: g' strtab_ok_def strings_def is_string_def)
  then show ?thesis using b by (auto simp: g' strings_def is_string_def)
qed

theorem luaS_newlstr_interns_witness:
  "\<exists>a g'. luaS_newlstr ''x'' sample_gc = (a, g') \<and> strtab_ok g' \<and> is_string ''x'' g' a \<and> set (strings g') = {a}"
proof -
  have "strings sample_gc = []" by (simp add: strings_def sample_gc_def)
  then have ok: "strtab_ok sample_gc"
    unfolding strtab_ok_def by (auto simp: sample_gc_def intro: exI [of _ 5])
  obtain a g' where n: "luaS_newlstr ''x'' sample_gc = (a, g')" by fastforce
  show ?thesis using luaS_newlstr_interns [OF ok n] n \<open>strings sample_gc = []\<close> by auto
qed

end
