(* ===== verification/Lua_GC.thy ===== *)
theory Lua_GC
  imports Lua_Strtab C_Lib
begin

text \<open>
  The collector: src/lib/lua/lgc.c, with the upvalues of src/lib/lua/lfunc.c. It marks incrementally, with
  the colours white, gray and black, sweeps incrementally, and the program runs between its steps. Not
  modelled are the amounts of work (the results of the steps, thresholds and debts), the sizes of the
  stack and of buffers, and the end of threads.
\<close>

section \<open>Marking\<close>

definition mark_if :: "(addr \<Rightarrow> gcstate \<Rightarrow> gcstate) \<Rightarrow> addr \<Rightarrow> gcstate \<Rightarrow> gcstate" where
  "mark_if mk a g = (if white g a then mk a g else g)"

definition mark_value :: "(addr \<Rightarrow> gcstate \<Rightarrow> gcstate) \<Rightarrow> gval \<Rightarrow> gcstate \<Rightarrow> gcstate" where
  "mark_value mk v g = (case v of VRef a \<Rightarrow> mark_if mk a g | _ \<Rightarrow> g)"

definition stack_value :: "gcstate \<Rightarrow> nat \<Rightarrow> gval" where
  "stack_value g l =
     (case body_of g (mainthread g) of Some (GThread gt st) \<Rightarrow> if l < length st then st ! l else VNil | _ \<Rightarrow> VNil)"

definition push_gray :: "addr \<Rightarrow> gcstate \<Rightarrow> gcstate" where
  "push_gray a g = g\<lparr>gray := a # gray g\<rparr>"

text \<open>
  The recursion, through userdata and upvalues, marks a white object each time: the number of objects is
  fuel enough. (With objects of the right types it is three deep.)
\<close>

fun really_mark :: "nat \<Rightarrow> addr \<Rightarrow> gcstate \<Rightarrow> gcstate" where
  "really_mark 0 a g = g"
| "really_mark (Suc n) a g =
     (let g1 = setmark a white2gray g in
      case body_of g a of
        None \<Rightarrow> g
      | Some (GString s h) \<Rightarrow> g1
      | Some (GUdata mt e) \<Rightarrow>
          let g2 = setmark a gray2black g1;
              g3 = (case mt of Some m \<Rightarrow> mark_if (really_mark n) m g2 | None \<Rightarrow> g2)
          in mark_if (really_mark n) e g3
      | Some (GOpen l) \<Rightarrow> mark_value (really_mark n) (stack_value g1 l) g1
      | Some (GClosed v) \<Rightarrow> setmark a gray2black (mark_value (really_mark n) v g1)
      | _ \<Rightarrow> push_gray a g1)"

definition reallymarkobject :: "addr \<Rightarrow> gcstate \<Rightarrow> gcstate" where
  "reallymarkobject a g = really_mark (Suc (length (heap g))) a g"

definition markobject :: "addr \<Rightarrow> gcstate \<Rightarrow> gcstate" where
  "markobject a g = mark_if reallymarkobject a g"

definition markvalue :: "gval \<Rightarrow> gcstate \<Rightarrow> gcstate" where
  "markvalue v g = (case v of VRef a \<Rightarrow> markobject a g | _ \<Rightarrow> g)"

definition stringmark :: "addr \<Rightarrow> gcstate \<Rightarrow> gcstate" where
  "stringmark a g = setmark a white2gray g"

definition mark_opt :: "addr option \<Rightarrow> gcstate \<Rightarrow> gcstate" where
  "mark_opt r g = (case r of Some a \<Rightarrow> markobject a g | None \<Rightarrow> g)"

definition stringmark_opt :: "addr option \<Rightarrow> gcstate \<Rightarrow> gcstate" where
  "stringmark_opt r g = (case r of Some a \<Rightarrow> stringmark a g | None \<Rightarrow> g)"

section \<open>Traversal\<close>

text \<open>The value of a string key in the nodes of a table, here of a tag method in a metatable.\<close>

definition getstr :: "gcstate \<Rightarrow> addr option \<Rightarrow> addr \<Rightarrow> gval" where
  "getstr g mt k =
     (case mt of
        None \<Rightarrow> VNil
      | Some m \<Rightarrow>
          (case body_of g m of
             Some (GTable mt' arr ns) \<Rightarrow> (case find (\<lambda>(k', v). k' = VRef k) ns of Some (k', v) \<Rightarrow> v | None \<Rightarrow> VNil)
           | _ \<Rightarrow> VNil))"

definition table_mode :: "gcstate \<Rightarrow> addr option \<Rightarrow> bool \<times> bool" where
  "table_mode g mt =
     (case getstr g mt (tm_mode g) of
        VRef s \<Rightarrow>
          (case body_of g s of
             Some (GString str h) \<Rightarrow> (strchr (c_str str) (CHR ''k'') \<noteq> None, strchr (c_str str) (CHR ''v'') \<noteq> None)
           | _ \<Rightarrow> (False, False))
      | _ \<Rightarrow> (False, False))"

definition removeentry :: "gval \<Rightarrow> gval" where
  "removeentry k = (case k of VRef a \<Rightarrow> VDead a | _ \<Rightarrow> k)"

definition weak_bits :: "bool \<Rightarrow> bool \<Rightarrow> lu_byte \<Rightarrow> lu_byte" where
  "weak_bits weakkey weakvalue m =
     setbits (resetbits m (bitmask KEYWEAKBIT OR bitmask VALUEWEAKBIT))
       ((if weakkey then bitmask KEYWEAKBIT else 0) OR (if weakvalue then bitmask VALUEWEAKBIT else 0))"

definition mark_node :: "bool \<Rightarrow> bool \<Rightarrow> gval \<times> gval \<Rightarrow> gcstate \<Rightarrow> gcstate" where
  "mark_node weakkey weakvalue n g =
     (case n of (k, v) \<Rightarrow>
        if v = VNil then g
        else let g1 = (if weakkey then g else markvalue k g) in if weakvalue then g1 else markvalue v g1)"

text \<open>The result tells whether the table is weak.\<close>

definition traversetable :: "addr \<Rightarrow> addr option \<Rightarrow> gval list \<Rightarrow> (gval \<times> gval) list \<Rightarrow> gcstate \<Rightarrow> bool \<times> gcstate" where
  "traversetable a mt arr ns g =
     (let g1 = mark_opt mt g in
      case table_mode g1 mt of (weakkey, weakvalue) \<Rightarrow>
        let g2 = (if weakkey \<or> weakvalue then (setmark a (weak_bits weakkey weakvalue) g1)\<lparr>weak := a # weak g1\<rparr> else g1)
        in if weakkey \<and> weakvalue then (True, g2)
           else
             let g3 = (if weakvalue then g2 else fold markvalue (rev arr) g2);
                 g4 = fold (mark_node weakkey weakvalue) (rev ns) g3;
                 g5 = setbody a (GTable mt arr (map (\<lambda>(k, v). if v = VNil then (removeentry k, v) else (k, v)) ns)) g4
             in (weakkey \<or> weakvalue, g5))"

definition traverseproto ::
  "addr option \<Rightarrow> gval list \<Rightarrow> addr option list \<Rightarrow> addr option list \<Rightarrow> addr option list \<Rightarrow> gcstate \<Rightarrow> gcstate" where
  "traverseproto src k un ps ln g =
     fold stringmark_opt ln (fold mark_opt ps (fold stringmark_opt un (fold markvalue k (stringmark_opt src g))))"

definition traversestack :: "gval \<Rightarrow> gval list \<Rightarrow> gcstate \<Rightarrow> gcstate" where
  "traversestack gt st g = fold markvalue st (markvalue gt g)"

definition propagatemark :: "gcstate \<Rightarrow> gcstate" where
  "propagatemark g =
     (case gray g of
        [] \<Rightarrow> g
      | a # gs \<Rightarrow>
          let g1 = setmark a gray2black (g\<lparr>gray := gs\<rparr>) in
          (case body_of g a of
             Some (GTable mt arr ns) \<Rightarrow>
               (case traversetable a mt arr ns g1 of (w, g2) \<Rightarrow> if w then setmark a black2gray g2 else g2)
           | Some (GCClosure e us) \<Rightarrow> fold markvalue us (markobject e g1)
           | Some (GLClosure e p us) \<Rightarrow> fold markobject us (markobject p (markobject e g1))
           | Some (GThread gt st) \<Rightarrow>
               traversestack gt st (setmark a black2gray (g1\<lparr>grayagain := a # grayagain g1\<rparr>))
           | Some (GProto src k un ps ln) \<Rightarrow> traverseproto src k un ps ln g1
           | _ \<Rightarrow> g1))"

section \<open>Weak tables and finalizers\<close>

definition isfinalized :: "gcstate \<Rightarrow> addr \<Rightarrow> bool" where
  "isfinalized g a = (case look g a of Some x \<Rightarrow> testbit (marked x) FINALIZEDBIT | None \<Rightarrow> False)"

definition iscleared :: "gcstate \<Rightarrow> gval \<Rightarrow> bool \<Rightarrow> bool" where
  "iscleared g v iskey =
     (case v of
        VRef a \<Rightarrow>
          (case body_of g a of
             Some (GString s h) \<Rightarrow> False
           | Some (GUdata mt e) \<Rightarrow> white g a \<or> (\<not> iskey \<and> isfinalized g a)
           | _ \<Rightarrow> white g a)
      | _ \<Rightarrow> False)"

text \<open>Strings are values: testing one marks it.\<close>

definition mark_if_string :: "gval \<Rightarrow> gcstate \<Rightarrow> gcstate" where
  "mark_if_string v g =
     (case v of
        VRef a \<Rightarrow> (case body_of g a of Some (GString s h) \<Rightarrow> stringmark a g | _ \<Rightarrow> g)
      | _ \<Rightarrow> g)"

definition clear_node :: "gcstate \<Rightarrow> gval \<times> gval \<Rightarrow> gval \<times> gval" where
  "clear_node g n =
     (case n of (k, v) \<Rightarrow>
        if v \<noteq> VNil \<and> (iscleared g k True \<or> iscleared g v False) then (removeentry k, VNil) else (k, v))"

definition mark_node_strings :: "gval \<times> gval \<Rightarrow> gcstate \<Rightarrow> gcstate" where
  "mark_node_strings n g =
     (case n of (k, v) \<Rightarrow>
        if v = VNil then g
        else if iscleared g k True then g else mark_if_string v (mark_if_string k g))"

definition cleartable :: "addr \<Rightarrow> gcstate \<Rightarrow> gcstate" where
  "cleartable a g =
     (case look g a of
        Some x \<Rightarrow>
          (case body x of
             GTable mt arr ns \<Rightarrow>
               let vw = testbit (marked x) VALUEWEAKBIT;
                   arr' = (if vw then map (\<lambda>v. if iscleared g v False then VNil else v) arr else arr);
                   g1 = (if vw then fold mark_if_string (rev arr) g else g);
                   g2 = fold mark_node_strings (rev ns) g1
               in setbody a (GTable mt arr' (map (clear_node g) ns)) g2
           | _ \<Rightarrow> g)
      | None \<Rightarrow> g)"

definition markfinalized :: "addr \<Rightarrow> gcstate \<Rightarrow> gcstate" where
  "markfinalized a g = setmark a (\<lambda>m. setbits m (bitmask FINALIZEDBIT)) g"

definition has_gc :: "gcstate \<Rightarrow> addr \<Rightarrow> bool" where
  "has_gc g a = (case body_of g a of Some (GUdata mt e) \<Rightarrow> getstr g mt (tm_gc g) \<noteq> VNil | _ \<Rightarrow> False)"

fun separate_loop :: "bool \<Rightarrow> addr list \<Rightarrow> gcstate \<Rightarrow> addr list \<times> gcstate" where
  "separate_loop all [] g = ([], g)"
| "separate_loop all (u # us) g =
     (if \<not> (white g u \<or> all) \<or> isfinalized g u then
        (case separate_loop all us g of (ks, g') \<Rightarrow> (u # ks, g'))
      else if \<not> has_gc g u then
        (case separate_loop all us (markfinalized u g) of (ks, g') \<Rightarrow> (u # ks, g'))
      else separate_loop all us ((markfinalized u g)\<lparr>tmudata := tmudata g @ [u]\<rparr>))"

definition luaC_separateudata :: "bool \<Rightarrow> gcstate \<Rightarrow> gcstate" where
  "luaC_separateudata all g =
     (case separate_loop all (udata_list g) g of (ks, g') \<Rightarrow> g'\<lparr>rootgc := before_udata g @ ks\<rparr>)"

definition mark_tm :: "addr \<Rightarrow> gcstate \<Rightarrow> gcstate" where
  "mark_tm u g = reallymarkobject u (setmark u (makewhite (currentwhite g)) g)"

definition marktmu :: "gcstate \<Rightarrow> gcstate" where
  "marktmu g = fold mark_tm (tmudata g) g"

definition markmt :: "gcstate \<Rightarrow> gcstate" where
  "markmt g = fold mark_opt (basic_mt g) g"

definition markroot :: "gcstate \<Rightarrow> gcstate" where
  "markroot g =
     (let g1 = markobject (mainthread g) (g\<lparr>gray := [], grayagain := [], weak := []\<rparr>);
          g2 = (case body_of g1 (mainthread g1) of Some (GThread gt st) \<Rightarrow> markvalue gt g1 | _ \<Rightarrow> g1)
      in (markmt (markvalue (registry g2) g2))\<lparr>phase := GCSpropagate\<rparr>)"

definition remark_one :: "addr \<Rightarrow> gcstate \<Rightarrow> gcstate" where
  "remark_one u g =
     (case look g u of
        Some x \<Rightarrow>
          if isgray (marked x) then
            (case body x of GOpen l \<Rightarrow> markvalue (stack_value g l) g | GClosed v \<Rightarrow> markvalue v g | _ \<Rightarrow> g)
          else g
      | None \<Rightarrow> g)"

definition remarkupvals :: "gcstate \<Rightarrow> gcstate" where
  "remarkupvals g = fold remark_one (uvhead g) g"

end
