(* ===== verification/Lua_GC_Step.thy ===== *)
theory Lua_GC_Step
  imports Lua_GC
begin

text \<open>
  The steps of the collector (src/lib/lua/lgc.c) from the marking functions of \<open>Lua_GC\<close>: the atomic end of
  the marking, the sweep, the finalizers and \<open>singlestep\<close>, with the barriers and the upvalues
  (src/lib/lua/lfunc.c), which the running program uses between the steps.
\<close>

section \<open>The work left\<close>

definition whites :: "gcstate \<Rightarrow> addr set" where
  "whites g = {a. white g a}"

definition work :: "gcstate \<Rightarrow> nat" where
  "work g = card (whites g) + length (gray g)"

lemma white_lt: "white g a \<Longrightarrow> a < length (heap g)"
  by (auto simp: white_def look_lt split: option.splits)

lemma finite_whites [simp]: "finite (whites g)"
  by (rule finite_subset [of _ "{..<length (heap g)}"]) (auto simp: whites_def white_lt)

lemma white_look: "look g = look g' \<Longrightarrow> white g = white g'"
  by (simp add: white_def fun_eq_iff)

lemma white_setmark: "white (setmark a f g) b = (if b = a then (\<exists>x. look g a = Some x \<and> iswhite (f (marked x))) else white g b)"
  by (auto simp: white_def look_setmark split: option.split)

lemma white_setmark_same: "(\<And>m. iswhite (f m) = iswhite m) \<Longrightarrow> white (setmark a f g) = white g"
  by (auto simp: fun_eq_iff white_setmark) (auto simp: white_def split: option.splits)

lemma white_setbody [simp]: "white (setbody a b g) = white g"
  by (auto simp: fun_eq_iff white_def look_setbody split: option.splits)

lemma white_fields [simp]:
  "white (g\<lparr>gray := x\<rparr>) = white g" "white (g\<lparr>grayagain := x\<rparr>) = white g" "white (g\<lparr>weak := x\<rparr>) = white g"
  by (simp_all add: white_def fun_eq_iff)

lemma iswhite_weak_bits: "iswhite (weak_bits k v m) = iswhite m"
  by (cases k; cases v) (simp_all add: weak_bits_def iswhite_iff bit_marks)

lemma work_mark: "white g a \<Longrightarrow> Suc (work (setmark a white2gray g)) = work g"
proof -
  assume a: "white g a"
  have "whites (setmark a white2gray g) = whites g - {a}"
    by (auto simp: whites_def white_setmark mark_simps)
  moreover have "a \<in> whites g" using a by (simp add: whites_def)
  then have "card (whites g) = Suc (card (whites g - {a}))" by (rule card.remove [OF finite_whites])
  ultimately show ?thesis by (simp add: work_def)
qed

lemma work_same: "white g' = white g \<Longrightarrow> length (gray g') = length (gray g) \<Longrightarrow> work g' = work g"
  by (simp add: work_def whites_def)

lemma work_black [simp]: "work (setmark a gray2black g) = work g" "work (setmark a black2gray g) = work g"
  "work (setmark a (weak_bits k v) g) = work g" "work (setbody a b g) = work g"
  "work (g\<lparr>weak := x\<rparr>) = work g" "work (g\<lparr>grayagain := x\<rparr>) = work g"
proof -
  have "white (setmark a gray2black g) = white g" "white (setmark a black2gray g) = white g"
    "white (setmark a (weak_bits k v) g) = white g"
    by (rule white_setmark_same, simp only: white_marks iswhite_weak_bits)+
  then show "work (setmark a gray2black g) = work g" "work (setmark a black2gray g) = work g"
    "work (setmark a (weak_bits k v) g) = work g"
    by (simp_all only: work_def whites_def setmark_fields)
qed (simp_all add: work_def whites_def)

lemma work_push_gray: "work (push_gray a g) = Suc (work g)"
  by (simp add: work_def push_gray_def whites_def)

lemma work_mark_if: "(\<And>a g. white g a \<Longrightarrow> work (mk a g) \<le> work g) \<Longrightarrow> work (mark_if mk a g) \<le> work g"
  by (simp add: mark_if_def)

lemma work_mark_value: "(\<And>a g. white g a \<Longrightarrow> work (mk a g) \<le> work g) \<Longrightarrow> work (mark_value mk v g) \<le> work g"
  by (auto simp: mark_value_def work_mark_if split: gval.split)

lemma work_really_mark: "white g a \<Longrightarrow> work (really_mark n a g) \<le> work g"
proof (induction n arbitrary: a g)
  case (Suc n)
  note m = work_mark [OF Suc.prems]
  note I = work_mark_if [of "really_mark n", OF Suc.IH] work_mark_value [of "really_mark n", OF Suc.IH]
  let ?g1 = "setmark a white2gray g" and ?g2 = "setmark a gray2black (setmark a white2gray g)"
  have u: "work (mark_if (really_mark n) e (case mt of Some m \<Rightarrow> mark_if (really_mark n) m ?g2 | None \<Rightarrow> ?g2)) \<le> work g" for e mt
  proof (cases mt)
    case (Some m')
    have "work (mark_if (really_mark n) m' ?g2) \<le> work ?g2" by (rule I)
    then show ?thesis using I(1) [of e "mark_if (really_mark n) m' ?g2"] m Some by simp
  next
    case None
    then show ?thesis using I(1) [of e ?g2] m by simp
  qed
  have v: "work (mark_value (really_mark n) v ?g1) \<le> work g" for v
    using I(2) [of v ?g1] m by linarith
  have p: "work (push_gray a ?g1) \<le> work g" using m by (simp add: work_push_gray)
  have w: "work ?g1 \<le> work g" using m by simp
  show ?case
  proof (cases "body_of g a")
    case (Some b)
    then show ?thesis by (cases b) (simp_all add: Let_def u v p w)
  qed simp
qed simp

lemma work_markobject: "work (markobject a g) \<le> work g"
  unfolding markobject_def reallymarkobject_def by (rule work_mark_if) (rule work_really_mark)

lemma work_markvalue: "work (markvalue v g) \<le> work g"
  by (simp add: markvalue_def work_markobject split: gval.split)

lemma work_stringmark: "work (stringmark a g) \<le> work g"
proof (cases "white g a")
  case True
  then show ?thesis using work_mark [OF True] by (simp add: stringmark_def)
next
  case False
  then have "white (setmark a white2gray g) = white g" by (auto simp: fun_eq_iff white_setmark mark_simps)
  then show ?thesis by (simp add: stringmark_def work_def whites_def)
qed

lemma work_opt: "work (mark_opt r g) \<le> work g" "work (stringmark_opt r g) \<le> work g"
  by (auto simp: mark_opt_def stringmark_opt_def work_markobject work_stringmark split: option.split)

lemma work_mark_node: "work (mark_node wk wv n g) \<le> work g"
proof (cases n)
  case (Pair k v)
  show ?thesis
    using work_markvalue [of k g] work_markvalue [of v g] work_markvalue [of v "markvalue k g"]
    by (auto simp: mark_node_def Pair)
qed

lemma work_fold: "(\<And>x g. work (f x g) \<le> work g) \<Longrightarrow> work (fold f xs g) \<le> work g"
  by (induction xs arbitrary: g) (auto intro: order_trans)

lemmas work_marks = work_fold [of markvalue, OF work_markvalue] work_fold [of markobject, OF work_markobject]
  work_fold [of mark_opt, OF work_opt(1)] work_fold [of stringmark_opt, OF work_opt(2)]
  work_fold [of "mark_node wk wv" for wk wv, OF work_mark_node] work_opt work_markobject work_markvalue

lemma work_traversetable: "work (snd (traversetable a mt arr ns g)) \<le> work g"
proof -
  obtain wk wv where m: "table_mode (mark_opt mt g) mt = (wk, wv)" by fastforce
  let ?g1 = "mark_opt mt g"
  let ?g2 = "if wk \<or> wv then (setmark a (weak_bits wk wv) ?g1)\<lparr>weak := a # weak ?g1\<rparr> else ?g1"
  let ?g3 = "if wv then ?g2 else fold markvalue (rev arr) ?g2"
  have 1: "work ?g2 \<le> work g" using work_opt(1) [of mt g] by simp
  have 2: "work ?g3 \<le> work g" using 1 work_marks(1) [of "rev arr" ?g2] by (auto intro: order_trans)
  have 3: "work (fold (mark_node wk wv) (rev ns) ?g3) \<le> work g"
    using 2 work_marks(5) [of wk wv "rev ns" ?g3] by (rule order_trans [rotated])
  show ?thesis
  proof (cases "wk \<and> wv")
    case True
    then have "snd (traversetable a mt arr ns g) = ?g2" unfolding traversetable_def Let_def m by simp
    then show ?thesis using 1 by simp
  next
    case False
    then have "work (snd (traversetable a mt arr ns g)) = work (fold (mark_node wk wv) (rev ns) ?g3)"
      unfolding traversetable_def Let_def m by simp
    then show ?thesis using 3 by simp
  qed
qed

lemma work_propagatemark: "gray g \<noteq> [] \<Longrightarrow> work (propagatemark g) < work g"
proof -
  assume "gray g \<noteq> []"
  then obtain a gs where g: "gray g = a # gs" by (cases "gray g") auto
  let ?g1 = "setmark a gray2black (g\<lparr>gray := gs\<rparr>)"
  have 1: "Suc (work ?g1) = work g" by (simp add: g) (simp add: work_def whites_def g)
  have t: "work (case traversetable a mt arr ns ?g1 of (w, g2) \<Rightarrow> if w then setmark a black2gray g2 else g2) \<le> work ?g1"
    for mt arr ns using work_traversetable [of a mt arr ns ?g1] by (auto split: prod.split)
  have c: "work (fold markvalue us (markobject e ?g1)) \<le> work ?g1" for us e
    by (rule order_trans [OF work_marks(1) work_markobject])
  have l: "work (fold markobject us (markobject p (markobject e ?g1))) \<le> work ?g1" for us e p
    by (rule order_trans [OF work_marks(2) order_trans [OF work_markobject work_markobject]])
  have th: "work (traversestack gt st (setmark a black2gray (?g1\<lparr>grayagain := a # grayagain ?g1\<rparr>))) \<le> work ?g1" for gt st
    unfolding traversestack_def by (rule order_trans [OF work_marks(1) order_trans [OF work_markvalue]]) simp
  have p: "work (traverseproto src k un ps ln ?g1) \<le> work ?g1" for src k un ps ln
    unfolding traverseproto_def
    by (rule order_trans [OF work_marks(4)] order_trans [OF work_marks(3)] order_trans [OF work_marks(1)] work_opt)+
  have "work (propagatemark g) \<le> work ?g1"
    using t c l th p by (simp add: propagatemark_def g Let_def split: option.split gbody.split)
  then show ?thesis using 1 by simp
qed

section \<open>The end of the marking\<close>

text \<open>Each step of the loop takes one object from the gray list and puts there only objects that were white.\<close>

function propagateall :: "gcstate \<Rightarrow> gcstate" where
  "propagateall g = (if gray g = [] then g else propagateall (propagatemark g))"
  by pat_completeness auto
termination propagateall
  by (relation "measure work") (simp_all add: work_propagatemark)

declare propagateall.simps [simp del]

definition atomic :: "gcstate \<Rightarrow> gcstate" where
  "atomic g =
     (let g1 = propagateall (remarkupvals g);
          g2 = propagateall (markmt (markobject (mainthread g1) (g1\<lparr>gray := weak g1, weak := []\<rparr>)));
          g3 = propagateall (g2\<lparr>gray := grayagain g2, grayagain := []\<rparr>);
          g4 = propagateall (marktmu (luaC_separateudata False g3));
          g5 = fold cleartable (weak g4) g4
      in g5\<lparr>currentwhite := otherwhite (currentwhite g5), sweepstrgc := 0, sweepgc := None, phase := GCSsweepstring\<rparr>)"

section \<open>The sweep\<close>

definition unlinkupval :: "addr \<Rightarrow> gcstate \<Rightarrow> gcstate" where
  "unlinkupval u g = g\<lparr>uvhead := remove1 u (uvhead g)\<rparr>"

definition luaF_freeupval :: "addr \<Rightarrow> gcstate \<Rightarrow> gcstate" where
  "luaF_freeupval u g =
     put u None (case body_of g u of Some (GOpen l) \<Rightarrow> unlinkupval u g | _ \<Rightarrow> g)"

definition freeobj :: "addr \<Rightarrow> gcstate \<Rightarrow> gcstate" where
  "freeobj a g =
     (case body_of g a of
        None \<Rightarrow> g
      | Some (GOpen l) \<Rightarrow> luaF_freeupval a g
      | Some (GClosed v) \<Rightarrow> luaF_freeupval a g
      | Some (GString s h) \<Rightarrow> put a None (g\<lparr>strt_nuse := strt_nuse g - 1\<rparr>)
      | _ \<Rightarrow> put a None g)"

text \<open>One object of a list that is swept: whether it stays.\<close>

definition sweep_obj :: "addr \<Rightarrow> gcstate \<Rightarrow> bool \<times> gcstate" where
  "sweep_obj a g =
     (case look g a of
        None \<Rightarrow> (False, g)
      | Some x \<Rightarrow>
          if testbits (marked x XOR WHITEBITS) (otherwhite (currentwhite g)) then (True, setmark a (makewhite (currentwhite g)) g)
          else (False, freeobj a g))"

text \<open>\<open>sweep_flat\<close> is the sweep of a whole list without threads: a list of strings or of open upvalues.\<close>

fun sweep_flat :: "addr list \<Rightarrow> gcstate \<Rightarrow> addr list \<times> gcstate" where
  "sweep_flat [] g = ([], g)"
| "sweep_flat (a # as) g =
     (case sweep_obj a g of (keep, g1) \<Rightarrow>
      case sweep_flat as g1 of (ks, g2) \<Rightarrow> (if keep then a # ks else ks, g2))"

definition sweep_thread :: "addr \<Rightarrow> gcstate \<Rightarrow> gcstate" where
  "sweep_thread a g =
     (case body_of g a of
        Some (GThread gt st) \<Rightarrow> (case sweep_flat (openupval g) g of (ks, g1) \<Rightarrow> g1\<lparr>openupval := ks\<rparr>)
      | _ \<Rightarrow> g)"

text \<open>The objects that stay among the first \<open>n\<close>, and the rest of the list.\<close>

fun sweeplist :: "nat \<Rightarrow> addr list \<Rightarrow> gcstate \<Rightarrow> addr list \<times> addr list \<times> gcstate" where
  "sweeplist n [] g = ([], [], g)"
| "sweeplist 0 (a # as) g = ([], a # as, g)"
| "sweeplist (Suc n) (a # as) g =
     (case sweep_obj a (sweep_thread a g) of (keep, g1) \<Rightarrow>
      case sweeplist n as g1 of (ks, rest, g2) \<Rightarrow> (if keep then a # ks else ks, rest, g2))"

definition root_before :: "gcstate \<Rightarrow> addr list" where
  "root_before g = (case sweepgc g of None \<Rightarrow> [] | Some s \<Rightarrow> takeWhile (\<lambda>a. a \<noteq> s) (rootgc g) @ [s])"

definition root_after :: "gcstate \<Rightarrow> addr list" where
  "root_after g = (case sweepgc g of None \<Rightarrow> rootgc g | Some s \<Rightarrow> tl (dropWhile (\<lambda>a. a \<noteq> s) (rootgc g)))"

definition sweep_root :: "nat \<Rightarrow> gcstate \<Rightarrow> gcstate" where
  "sweep_root n g =
     (case sweeplist n (root_after g) g of (ks, rest, g1) \<Rightarrow>
        g1\<lparr>rootgc := root_before g @ ks @ rest, sweepgc := (if ks = [] then sweepgc g else Some (last ks))\<rparr>)"

abbreviation (input) GCSWEEPMAX :: nat where "GCSWEEPMAX \<equiv> 40"

abbreviation (input) MINSTRTABSIZE :: nat where "MINSTRTABSIZE \<equiv> 32"

definition checkSizes :: "gcstate \<Rightarrow> gcstate" where
  "checkSizes g =
     (let n = length (strt_hash g) in
      if strt_nuse g < of_nat (n div 4) \<and> n > MINSTRTABSIZE * 2 then luaS_resize (n div 2) g else g)"

definition sweep_strings :: "gcstate \<Rightarrow> gcstate" where
  "sweep_strings g =
     (case sweep_flat (strt_hash g ! sweepstrgc g) g of (ks, g1) \<Rightarrow>
        let g2 = g1\<lparr>strt_hash := (strt_hash g1)[sweepstrgc g := ks], sweepstrgc := Suc (sweepstrgc g)\<rparr>
        in if length (strt_hash g2) \<le> sweepstrgc g2 then g2\<lparr>phase := GCSsweep\<rparr> else g2)"

text \<open>At the end of the program everything but the main thread is freed.\<close>

definition free_bucket :: "nat \<Rightarrow> gcstate \<Rightarrow> gcstate" where
  "free_bucket i g =
     (case sweep_flat (strt_hash g ! i) g of (ks, g1) \<Rightarrow> g1\<lparr>strt_hash := (strt_hash g1)[i := ks]\<rparr>)"

definition luaC_freeall :: "gcstate \<Rightarrow> gcstate" where
  "luaC_freeall g =
     (let g1 = g\<lparr>currentwhite := WHITEBITS OR bitmask SFIXEDBIT\<rparr>;
          g2 = (case sweeplist (length (rootgc g1)) (rootgc g1) g1 of (ks, rest, g2) \<Rightarrow> g2\<lparr>rootgc := ks @ rest\<rparr>)
      in fold free_bucket [0..<length (strt_hash g2)] g2)"

section \<open>Finalizers and the steps\<close>

definition push_stack :: "gval list \<Rightarrow> gcstate \<Rightarrow> gcstate" where
  "push_stack vs g =
     (case body_of g (mainthread g) of
        Some (GThread gt st) \<Rightarrow> setbody (mainthread g) (GThread gt (st @ vs)) g
      | _ \<Rightarrow> g)"

definition udata_metatable :: "gcstate \<Rightarrow> addr \<Rightarrow> addr option" where
  "udata_metatable g a = (case body_of g a of Some (GUdata mt e) \<Rightarrow> mt | _ \<Rightarrow> None)"

text \<open>The call of the tag method is a step of the program, which finds it on the stack with its argument.\<close>

definition GCTM :: "gcstate \<Rightarrow> gcstate" where
  "GCTM g =
     (case tmudata g of
        [] \<Rightarrow> g
      | u # us \<Rightarrow>
          let g1 = setmark u (makewhite (currentwhite g)) (g\<lparr>tmudata := us, rootgc := before_udata g @ u # udata_list g\<rparr>);
              tm = getstr g1 (udata_metatable g1 u) (tm_gc g1)
          in if tm = VNil then g1 else push_stack [tm, VRef u] g1)"

definition singlestep :: "gcstate \<Rightarrow> gcstate" where
  "singlestep g =
     (case phase g of
        GCSpause \<Rightarrow> markroot g
      | GCSpropagate \<Rightarrow> if gray g \<noteq> [] then propagatemark g else atomic g
      | GCSsweepstring \<Rightarrow> sweep_strings g
      | GCSsweep \<Rightarrow>
          let g1 = sweep_root GCSWEEPMAX g
          in if root_after g1 = [] then (checkSizes g1)\<lparr>phase := GCSfinalize\<rparr> else g1
      | GCSfinalize \<Rightarrow> if tmudata g \<noteq> [] then GCTM g else g\<lparr>phase := GCSpause\<rparr>)"

text \<open>A full collection first gives up a marking that has begun.\<close>

definition fullgc_reset :: "gcstate \<Rightarrow> gcstate" where
  "fullgc_reset g =
     (if phase g = GCSpause \<or> phase g = GCSpropagate then
        g\<lparr>sweepstrgc := 0, sweepgc := None, gray := [], grayagain := [], weak := [], phase := GCSsweepstring\<rparr>
      else g)"

section \<open>Barriers\<close>

definition luaC_barrierf :: "addr \<Rightarrow> addr \<Rightarrow> gcstate \<Rightarrow> gcstate" where
  "luaC_barrierf a v g =
     (if phase g = GCSpropagate then reallymarkobject v g else setmark a (makewhite (currentwhite g)) g)"

definition luaC_barrierback :: "addr \<Rightarrow> gcstate \<Rightarrow> gcstate" where
  "luaC_barrierback t g = setmark t black2gray (g\<lparr>grayagain := t # grayagain g\<rparr>)"

definition luaC_objbarrier :: "addr \<Rightarrow> addr \<Rightarrow> gcstate \<Rightarrow> gcstate" where
  "luaC_objbarrier p v g = (if white g v \<and> black g p then luaC_barrierf p v g else g)"

definition luaC_barrier :: "addr \<Rightarrow> gval \<Rightarrow> gcstate \<Rightarrow> gcstate" where
  "luaC_barrier p v g = (case v of VRef a \<Rightarrow> luaC_objbarrier p a g | _ \<Rightarrow> g)"

definition luaC_objbarriert :: "addr \<Rightarrow> addr \<Rightarrow> gcstate \<Rightarrow> gcstate" where
  "luaC_objbarriert t v g = (if white g v \<and> black g t then luaC_barrierback t g else g)"

definition luaC_barriert :: "addr \<Rightarrow> gval \<Rightarrow> gcstate \<Rightarrow> gcstate" where
  "luaC_barriert t v g = (case v of VRef a \<Rightarrow> luaC_objbarriert t a g | _ \<Rightarrow> g)"

section \<open>New objects and upvalues\<close>

definition luaC_link :: "gbody \<Rightarrow> gcstate \<Rightarrow> addr \<times> gcstate" where
  "luaC_link b g = (case newobj b g of (a, g1) \<Rightarrow> (a, g1\<lparr>rootgc := a # rootgc g1\<rparr>))"

definition luaF_newCclosure :: "nat \<Rightarrow> addr \<Rightarrow> gcstate \<Rightarrow> addr \<times> gcstate" where
  "luaF_newCclosure n e g = luaC_link (GCClosure e (replicate n VNil)) g"

text \<open>The upvalues of a new closure are null pointers, here none.\<close>

definition luaF_newLclosure :: "addr \<Rightarrow> addr \<Rightarrow> gcstate \<Rightarrow> addr \<times> gcstate" where
  "luaF_newLclosure p e g = luaC_link (GLClosure e p []) g"

definition luaF_newupval :: "gcstate \<Rightarrow> addr \<times> gcstate" where
  "luaF_newupval g = luaC_link (GClosed VNil) g"

definition luaF_newproto_link :: "gcstate \<Rightarrow> addr \<times> gcstate" where
  "luaF_newproto_link g = luaC_link (GProto None [] [] [] []) g"

text \<open>The open upvalues are in the order of their places, the highest first.\<close>

definition above :: "gcstate \<Rightarrow> nat \<Rightarrow> addr \<Rightarrow> bool" where
  "above g l p = (case body_of g p of Some (GOpen k) \<Rightarrow> l < k | _ \<Rightarrow> False)"

definition luaF_findupval :: "nat \<Rightarrow> gcstate \<Rightarrow> addr \<times> gcstate" where
  "luaF_findupval l g =
     (let pre = takeWhile (above g l) (openupval g);
          post = dropWhile (above g l) (openupval g);
          new = (case newobj (GOpen l) g of (u, g1) \<Rightarrow>
                   (u, g1\<lparr>openupval := pre @ u # post, uvhead := u # uvhead g1\<rparr>))
      in case post of
           [] \<Rightarrow> new
         | p # ps \<Rightarrow> if body_of g p = Some (GOpen l) then (p, resurrect p g) else new)"

definition luaC_linkupval :: "addr \<Rightarrow> gval \<Rightarrow> gcstate \<Rightarrow> gcstate" where
  "luaC_linkupval u v g =
     (let g1 = g\<lparr>rootgc := u # rootgc g\<rparr> in
      case look g1 u of
        Some x \<Rightarrow>
          if isgray (marked x) then
            (if phase g1 = GCSpropagate then luaC_barrier u v (setmark u gray2black g1)
             else setmark u (makewhite (currentwhite g1)) g1)
          else g1
      | None \<Rightarrow> g1)"

definition close_upval :: "addr \<Rightarrow> nat \<Rightarrow> gcstate \<Rightarrow> gcstate" where
  "close_upval u k g =
     (case look g u of
        Some x \<Rightarrow>
          if isdead (currentwhite g) (marked x) then luaF_freeupval u g
          else let v = stack_value g k in luaC_linkupval u v (setbody u (GClosed v) (unlinkupval u g))
      | None \<Rightarrow> g)"

fun close_loop :: "nat \<Rightarrow> addr list \<Rightarrow> gcstate \<Rightarrow> gcstate" where
  "close_loop l [] g = g"
| "close_loop l (u # us) g =
     (case body_of g u of
        Some (GOpen k) \<Rightarrow> if l \<le> k then close_loop l us (close_upval u k (g\<lparr>openupval := us\<rparr>)) else g
      | _ \<Rightarrow> g)"

definition luaF_close :: "nat \<Rightarrow> gcstate \<Rightarrow> gcstate" where
  "luaF_close l g = close_loop l (openupval g) g"

end
