(* ===== verification/Lua_GC_Mark.thy ===== *)
theory Lua_GC_Mark
  imports Lua_GC_Step
begin

text \<open>
  What marking does (\<open>Lua_GC\<close>). \<open>mext\<close> describes every marking function: no object but white ones changes,
  and what was white and is no longer is either black with all it refers to marked, or waits in the gray
  list, or has nothing to be traversed. The locale is the contract of one marking function; \<open>MI\<close> is the
  invariant of the gray list.
\<close>

section \<open>Kinds of objects\<close>

definition leaf :: "gbody \<Rightarrow> bool" where
  "leaf b \<longleftrightarrow> (case b of GString s h \<Rightarrow> True | GOpen l \<Rightarrow> True | _ \<Rightarrow> False)"

definition blackable :: "gbody \<Rightarrow> bool" where
  "blackable b \<longleftrightarrow> (case b of GThread gt st \<Rightarrow> False | GOpen l \<Rightarrow> False | _ \<Rightarrow> True)"

text \<open>Objects that can be in the gray list.\<close>

definition listed :: "gbody \<Rightarrow> bool" where
  "listed b \<longleftrightarrow>
     (case b of GTable mt arr ns \<Rightarrow> True | GCClosure e us \<Rightarrow> True | GLClosure e p us \<Rightarrow> True
      | GThread gt st \<Rightarrow> True | GProto src k un ps ln \<Rightarrow> True | _ \<Rightarrow> False)"

definition is_str :: "gcstate \<Rightarrow> addr \<Rightarrow> bool" where
  "is_str g a \<longleftrightarrow> (\<forall>b. body_of g a = Some b \<longrightarrow> (\<exists>s h. b = GString s h))"

definition marks_ok :: "gcstate \<Rightarrow> bool" where
  "marks_ok g \<longleftrightarrow> (\<forall>a x. look g a = Some x \<longrightarrow> mark_ok (marked x))"

definition okay :: "addr set \<Rightarrow> gcstate \<Rightarrow> addr \<Rightarrow> bool" where
  "okay P g a \<longleftrightarrow>
     (\<forall>b. body_of g a = Some b \<longrightarrow>
        (if black g a then blackable b \<and> (\<forall>r \<in> set (refs b) \<union> set (krefs b). \<not> white g r) else leaf b \<or> a \<in> P))"

definition same_obj :: "gcobj option \<Rightarrow> gcobj option \<Rightarrow> bool" where
  "same_obj = rel_option (\<lambda>x x'. body x' = body x \<and> (\<forall>n \<ge> 3. bit (marked x') n = bit (marked x) n))"

definition mext :: "addr set \<Rightarrow> gcstate \<Rightarrow> gcstate \<Rightarrow> bool" where
  "mext X g g' \<longleftrightarrow>
     (\<exists>h new. g' = g\<lparr>heap := h, gray := new @ gray g\<rparr> \<and> length h = length (heap g) \<and>
        (\<forall>a \<in> set new. \<not> white g' a \<and> (\<exists>b. body_of g' a = Some b \<and> listed b))) \<and>
     (\<forall>a. same_obj (look g a) (look g' a)) \<and>
     (\<forall>a. white g a = white g' a \<longrightarrow> look g' a = look g a) \<and>
     (\<forall>a. white g' a \<longrightarrow> white g a) \<and>
     (\<forall>a. white g a \<and> \<not> white g' a \<longrightarrow> a \<in> X \<or> okay (set (gray g')) g' a)"

lemma same_obj_refl [simp]: "same_obj x x"
  by (cases x) (simp_all add: same_obj_def)

lemma same_obj_trans: "same_obj x y \<Longrightarrow> same_obj y z \<Longrightarrow> same_obj x z"
  by (cases x; cases y; cases z) (simp_all add: same_obj_def)

lemma same_body: "same_obj (look g a) (look g' a) \<Longrightarrow> body_of g' a = body_of g a"
  by (cases "look g a"; cases "look g' a") (simp_all add: same_obj_def body_of_def)

lemma white_None: "look g a = None \<Longrightarrow> \<not> white g a" by (simp add: white_def)

lemma white_Some: "look g a = Some x \<Longrightarrow> white g a = iswhite (marked x)" by (simp add: white_def)

lemma black_Some: "look g a = Some x \<Longrightarrow> black g a = isblack (marked x)" by (simp add: black_def)

lemma black_same: "look g' a = look g a \<Longrightarrow> black g' a = black g a" by (simp add: black_def)

lemma body_same: "look g' a = look g a \<Longrightarrow> body_of g' a = body_of g a" by (simp add: body_of_def)

lemma body_of_look: "body_of g a = Some b \<Longrightarrow> \<exists>x. look g a = Some x \<and> body x = b"
  by (auto simp: body_of_def)

section \<open>Marking one object\<close>

lemma extD:
  assumes "mext X g g'"
  shows "body_of g' a = body_of g a" "\<not> white g a \<Longrightarrow> look g' a = look g a" "\<not> white g a \<Longrightarrow> \<not> white g' a"
    "set (gray g) \<subseteq> set (gray g')" "grayagain g' = grayagain g" "weak g' = weak g" "currentwhite g' = currentwhite g"
    "white g' a \<Longrightarrow> look g' a = look g a"
    "a \<in> set (gray g') \<Longrightarrow> a \<notin> set (gray g) \<Longrightarrow> \<not> white g' a \<and> (\<exists>b. body_of g' a = Some b \<and> listed b)"
  using assms by (auto simp: mext_def intro: same_body)

lemma ext_refl [simp]: "mext X g g"
  unfolding mext_def by (rule conjI, rule exI [of _ "heap g"], rule exI [of _ "[]"]) auto

lemma ext_marks_ok: "mext X g g' \<Longrightarrow> marks_ok g \<Longrightarrow> marks_ok g'"
  unfolding marks_ok_def
proof (intro allI impI)
  fix a x assume e: "mext X g g'" and m: "\<forall>a x. look g a = Some x \<longrightarrow> mark_ok (marked x)" and x: "look g' a = Some x"
  show "mark_ok (marked x)"
  proof (cases "white g a = white g' a")
    case True
    then show ?thesis using e m x unfolding mext_def by metis
  next
    case False
    then have "\<not> white g' a" using e unfolding mext_def by blast
    then show ?thesis using x by (auto simp: mark_ok_def iswhite_iff white_Some)
  qed
qed

lemma okay_ext: "okay P g1 a \<Longrightarrow> mext X g1 g2 \<Longrightarrow> \<not> white g1 a \<Longrightarrow> P \<subseteq> P' \<Longrightarrow> okay P' g2 a"
  using extD(1-3) [of X g1 g2] black_same [of g2 a g1] unfolding okay_def by (metis subsetD)

lemma ext_trans:
  assumes "mext X g g1" "mext X g1 g2"
  shows "mext X g g2"
proof -
  obtain h new where 1: "g1 = g\<lparr>heap := h, gray := new @ gray g\<rparr>" "length h = length (heap g)"
    "\<forall>a \<in> set new. \<not> white g1 a \<and> (\<exists>b. body_of g1 a = Some b \<and> listed b)"
    using assms(1) unfolding mext_def by blast
  obtain h' new' where 2: "g2 = g1\<lparr>heap := h', gray := new' @ gray g1\<rparr>" "length h' = length (heap g1)"
    "\<forall>a \<in> set new'. \<not> white g2 a \<and> (\<exists>b. body_of g2 a = Some b \<and> listed b)"
    using assms(2) unfolding mext_def by blast
  have "g2 = g\<lparr>heap := h', gray := (new' @ new) @ gray g\<rparr>" "length h' = length (heap g)" using 1 2 by simp_all
  moreover have "\<not> white g2 a \<and> (\<exists>b. body_of g2 a = Some b \<and> listed b)" if "a \<in> set (new' @ new)" for a
  proof (cases "a \<in> set new'")
    case True
    then show ?thesis using 2(3) by blast
  next
    case False
    then have "\<not> white g1 a \<and> (\<exists>b. body_of g1 a = Some b \<and> listed b)" using that 1(3) by simp
    then show ?thesis using extD(1,3) [OF assms(2), of a] by simp
  qed
  moreover have "same_obj (look g a) (look g2 a)" for a
    using assms unfolding mext_def by (blast intro: same_obj_trans)
  moreover have w: "white g2 a \<longrightarrow> white g1 a" "white g1 a \<longrightarrow> white g a" for a using assms unfolding mext_def by blast+
  moreover have "look g2 a = look g a" if "white g a = white g2 a" for a
    using that assms w unfolding mext_def by metis
  moreover have "a \<in> X \<or> okay (set (gray g2)) g2 a" if a: "white g a" "\<not> white g2 a" for a
  proof (cases "white g1 a")
    case True
    then show ?thesis using a assms(2) unfolding mext_def by blast
  next
    case False
    then have "a \<in> X \<or> okay (set (gray g1)) g1 a" using a assms(1) unfolding mext_def by blast
    then show ?thesis using okay_ext [OF _ assms(2) False] extD(4) [OF assms(2)] by blast
  qed
  ultimately show ?thesis unfolding mext_def by blast
qed

lemma ext_mono: "mext X g g' \<Longrightarrow> X \<subseteq> Y \<Longrightarrow> mext Y g g'"
  unfolding mext_def by blast

lemma ext_drop: "mext (insert a X) g g' \<Longrightarrow> okay (set (gray g')) g' a \<Longrightarrow> mext X g g'"
  unfolding mext_def by blast

lemma whites_ext: "mext X g g' \<Longrightarrow> whites g' \<subseteq> whites g"
  unfolding mext_def whites_def by blast

lemma heap_setmark: "setmark a f g = g\<lparr>heap := heap (setmark a f g)\<rparr>"
  by (simp add: setmark_def put_def split: option.split)

lemma bit_colours: "3 \<le> n \<Longrightarrow> bit (white2gray m) n = bit m n" "3 \<le> n \<Longrightarrow> bit (gray2black m) n = bit m n"
  "3 \<le> n \<Longrightarrow> bit (black2gray m) n = bit m n" "3 \<le> n \<Longrightarrow> bit (makewhite cw m) n = bit m n"
  by (auto simp: bit_marks dest: bit_len)

lemma extI:
  assumes "g' = g\<lparr>heap := heap g', gray := new @ gray g\<rparr>" "length (heap g') = length (heap g)"
    "\<And>a. a \<in> set new \<Longrightarrow> \<not> white g' a \<and> (\<exists>b. body_of g' a = Some b \<and> listed b)"
    "\<And>a. same_obj (look g a) (look g' a)" "\<And>a. white g a = white g' a \<Longrightarrow> look g' a = look g a"
    "\<And>a. white g' a \<Longrightarrow> white g a" "\<And>a. white g a \<Longrightarrow> \<not> white g' a \<Longrightarrow> a \<in> X \<or> okay (set (gray g')) g' a"
  shows "mext X g g'"
  using assms unfolding mext_def by blast

lemma ext_white2gray: "white g a \<Longrightarrow> mext {a} g (setmark a white2gray g)"
proof -
  assume a: "white g a"
  let ?g = "setmark a white2gray g"
  obtain x where x: "look g a = Some x" using a white_None by fastforce
  have w: "white ?g b \<longleftrightarrow> b \<noteq> a \<and> white g b" for b by (auto simp: white_setmark mark_simps)
  show ?thesis
  proof (rule extI [where new = "[]"])
    show "?g = g\<lparr>heap := heap ?g, gray := [] @ gray g\<rparr>" by (subst heap_setmark) simp
    show "same_obj (look g b) (look ?g b)" for b
      by (cases "b = a") (simp_all add: look_setmark x, simp add: same_obj_def bit_colours)
    show "look ?g b = look g b" if "white g b = white ?g b" for b
      using that a w [of b] by (auto simp: look_setmark)
  qed (auto simp: w)
qed

lemma ext_gray2black:
  assumes "mext {a} g g1" "white g a" "\<not> white g1 a"
  shows "mext {a} g (setmark a gray2black g1)"
proof -
  let ?g = "setmark a gray2black g1"
  obtain h new where 1: "g1 = g\<lparr>heap := h, gray := new @ gray g\<rparr>" "length h = length (heap g)"
    "\<forall>a \<in> set new. \<not> white g1 a \<and> (\<exists>b. body_of g1 a = Some b \<and> listed b)"
    using assms(1) unfolding mext_def by blast
  have w: "white ?g = white g1" by (rule white_setmark_same) (simp add: mark_simps)
  have "?g = g\<lparr>heap := heap ?g, gray := new @ gray g\<rparr>" using heap_setmark [of a gray2black g1] 1(1) by simp
  moreover have "length (heap ?g) = length (heap g)" using 1 by simp
  moreover have "\<forall>b \<in> set new. \<not> white ?g b \<and> (\<exists>bd. body_of ?g b = Some bd \<and> listed bd)" using 1(3) w by simp
  moreover have "same_obj (look g b) (look ?g b)" for b
  proof -
    have "same_obj (look g b) (look g1 b)" using assms(1) unfolding mext_def by blast
    moreover have "same_obj (look g1 b) (look ?g b)"
      by (cases "look g1 b") (auto simp: look_setmark same_obj_def bit_colours)
    ultimately show ?thesis by (rule same_obj_trans)
  qed
  moreover have "look ?g b = look g b" if "white g b = white ?g b" for b
    using that assms(1) w assms(2,3) unfolding mext_def by (auto simp: look_setmark)
  moreover have "white ?g b \<longrightarrow> white g b" for b using assms(1) w unfolding mext_def by metis
  moreover have "b \<in> {a} \<or> okay (set (gray ?g)) ?g b" if "white g b" "\<not> white ?g b" for b
  proof (cases "b = a")
    case False
    then have "okay (set (gray g1)) g1 b" using that assms(1) w unfolding mext_def by auto
    moreover have "look ?g b = look g1 b" using False by (simp add: look_setmark)
    ultimately show ?thesis using w by (simp add: okay_def black_def)
  qed simp
  ultimately show ?thesis unfolding mext_def by blast
qed

lemma ext_push_gray:
  assumes "mext {a} g g1" "\<not> white g1 a" "body_of g1 a = Some b" "listed b" "\<not> black g1 a"
  shows "mext {} g (push_gray a g1)"
proof -
  let ?g = "push_gray a g1"
  obtain h new where 1: "g1 = g\<lparr>heap := h, gray := new @ gray g\<rparr>" "length h = length (heap g)"
    "\<forall>a \<in> set new. \<not> white g1 a \<and> (\<exists>b. body_of g1 a = Some b \<and> listed b)"
    using assms(1) unfolding mext_def by blast
  have L: "look ?g = look g1" "white ?g = white g1" "black ?g = black g1" "body_of ?g = body_of g1"
    "gray ?g = a # gray g1"
    by (simp_all add: push_gray_def body_of_def black_def fun_eq_iff)
  have "?g = g\<lparr>heap := h, gray := (a # new) @ gray g\<rparr>" using 1(1) by (simp add: push_gray_def)
  moreover have "\<forall>b \<in> set (a # new). \<not> white ?g b \<and> (\<exists>bd. body_of ?g b = Some bd \<and> listed bd)"
    using 1(3) assms(2-4) by (auto simp: L)
  moreover have "okay (set (gray ?g)) ?g c" if "white g c" "\<not> white ?g c" for c
  proof -
    have "c = a \<or> okay (set (gray g1)) g1 c" using that assms(1) unfolding mext_def L by auto
    then show ?thesis using assms(5) by (auto simp: okay_def L)
  qed
  ultimately show ?thesis using assms(1) 1(2) unfolding mext_def L by blast
qed

lemma mark_okD: "marks_ok g \<Longrightarrow> white g a \<Longrightarrow> \<not> black g a"
  by (auto simp: marks_ok_def white_def black_def mark_ok_def split: option.splits)

lemma white_push_gray [simp]: "white (push_gray a g) = white g"
  by (simp add: push_gray_def)

lemma okayI: "body_of g a = Some b \<Longrightarrow> black g a \<Longrightarrow> blackable b \<Longrightarrow> \<forall>r \<in> set (refs b). \<not> white g r \<Longrightarrow>
    \<forall>r \<in> set (krefs b). \<not> white g r \<Longrightarrow> okay P g a"
  by (auto simp: okay_def)

lemma krefs_none [simp]: "krefs (GString s h) = []" "krefs (GUdata m e) = []" "krefs (GOpen l) = []" "krefs (GClosed v) = []"
  "krefs (GCClosure e us) = []" "krefs (GLClosure e p ws) = []" "krefs (GThread gt st) = []" "krefs (GProto src k un ps ln) = []"
  by (simp_all add: krefs_def)

text \<open>With fuel for the white objects, \<open>really_mark\<close> marks its object and, through it, what is not listed.\<close>

lemma really_mark_ext:
  "card (whites g) \<le> n \<Longrightarrow> white g a \<Longrightarrow> marks_ok g \<Longrightarrow> mext {} g (really_mark n a g) \<and> \<not> white (really_mark n a g) a"
proof (induction n arbitrary: a g)
  case 0
  then have "whites g = {}" by simp
  then show ?case using 0 by (auto simp: whites_def)
next
  case (Suc n)
  let ?g1 = "setmark a white2gray g"
  obtain x where x: "look g a = Some x" using Suc.prems(2) white_None by fastforce
  have e1: "mext {a} g ?g1" by (rule ext_white2gray [OF Suc.prems(2)])
  have w1: "\<not> white ?g1 a" by (auto simp: white_setmark mark_simps)
  have m1: "marks_ok ?g1" by (rule ext_marks_ok [OF e1 Suc.prems(3)])
  have nb: "\<not> black ?g1 a" using mark_okD [OF Suc.prems(3,2)] x by (simp add: black_def look_setmark mark_simps)
  have fuel: "card (whites h) \<le> n" if "mext {a} g h" "\<not> white h a" for h
  proof -
    have "whites h \<subseteq> whites g - {a}" using whites_ext [OF that(1)] that(2) by (auto simp: whites_def)
    then have "card (whites h) \<le> card (whites g - {a})" by (intro card_mono) auto
    also have "... < card (whites g)" using Suc.prems(2) by (intro card_Diff1_less finite_whites) (simp add: whites_def)
    finally show ?thesis using Suc.prems(1) by simp
  qed
  have I: "mext {} h (mark_if (really_mark n) e h) \<and> \<not> white (mark_if (really_mark n) e h) e" if "card (whites h) \<le> n" "marks_ok h" for h e
    using Suc.IH [OF that(1) _ that(2), of e] by (simp add: mark_if_def)
  have V: "mext {} h (mark_value (really_mark n) v h) \<and> (\<forall>r \<in> set (vrefs v). \<not> white (mark_value (really_mark n) v h) r)"
    if "card (whites h) \<le> n" "marks_ok h" for h v
    using I [OF that] by (simp add: mark_value_def vrefs_def split: gval.split)
  have B: "body_of ?g1 a = body_of g a" by simp
  obtain b where b: "body_of g a = Some b" using x by (simp add: body_of_def)
  have okay: "mext {} g h" if "mext {a} g h" "okay (set (gray h)) h a" for h using ext_drop [of a "{}"] that by simp
  show ?case
  proof (cases b)
    case (GString s h)
    then have "okay (set (gray ?g1)) ?g1 a" using b nb by (simp add: okay_def leaf_def)
    then show ?thesis using okay [OF e1] w1 b GString by simp
  next
    case (GUdata mt e)
    let ?g2 = "setmark a gray2black ?g1"
    let ?g3 = "case mt of Some m \<Rightarrow> mark_if (really_mark n) m ?g2 | None \<Rightarrow> ?g2"
    let ?g4 = "mark_if (really_mark n) e ?g3"
    have e2: "mext {a} g ?g2" by (rule ext_gray2black [OF e1 Suc.prems(2) w1])
    have w2: "\<not> white ?g2 a" by (simp add: white_setmark_same mark_simps w1)
    have m2: "marks_ok ?g2" by (rule ext_marks_ok [OF e2 Suc.prems(3)])
    have e3: "mext {} ?g2 ?g3 \<and> (\<forall>r \<in> set (orefs mt). \<not> white ?g3 r)"
      using I [OF fuel [OF e2 w2] m2] by (simp add: orefs_def split: option.split)
    have e3': "mext {a} g ?g3" using ext_trans [OF e2] e3 ext_mono by blast
    have w3: "\<not> white ?g3 a" using extD(3) [of "{}" ?g2 ?g3 a] e3 w2 by blast
    have e4: "mext {} ?g3 ?g4" "\<not> white ?g4 e" using I [OF fuel [OF e3' w3] ext_marks_ok [OF e3' Suc.prems(3)]] by blast+
    have "mext {} ?g2 ?g4" using ext_trans e3 e4(1) by blast
    then have "look ?g4 a = look ?g2 a" using extD(2) w2 by blast
    moreover have "black ?g2 a" using x by (simp add: black_def look_setmark mark_simps)
    ultimately have "black ?g4 a" by (simp add: black_def)
    moreover have "\<forall>r \<in> set (orefs mt). \<not> white ?g4 r" using e3 extD(3) [OF e4(1)] by blast
    moreover have e: "mext {a} g ?g4" using ext_trans [OF e3'] ext_mono [OF e4(1)] by blast
    ultimately have "okay (set (gray ?g4)) ?g4 a"
      using e4(2) b GUdata extD(1) [OF e, of a] by (intro okayI) (auto simp: blackable_def refs_def)
    moreover have "really_mark (Suc n) a g = ?g4" using b GUdata by (simp add: Let_def)
    ultimately show ?thesis using okay [OF e] extD(3) [OF e4(1) w3] by simp
  next
    case (GOpen l)
    let ?v = "stack_value ?g1 l"
    let ?g2 = "mark_value (really_mark n) ?v ?g1"
    have e2: "mext {} ?g1 ?g2" using V [OF fuel [OF e1 w1] m1] by blast
    have e: "mext {a} g ?g2" using ext_trans [OF e1] ext_mono [OF e2] by blast
    have "okay (set (gray ?g2)) ?g2 a"
      using b GOpen extD(1) [OF e, of a] extD(2) [OF e2 w1] nb by (simp add: okay_def leaf_def black_def)
    moreover have "really_mark (Suc n) a g = ?g2" using b GOpen by (simp add: Let_def)
    ultimately show ?thesis using okay [OF e] extD(3) [OF e2 w1] by simp
  next
    case (GClosed v)
    let ?g2 = "mark_value (really_mark n) v ?g1"
    let ?g3 = "setmark a gray2black ?g2"
    have e2: "mext {} ?g1 ?g2" "\<forall>r \<in> set (vrefs v). \<not> white ?g2 r" using V [OF fuel [OF e1 w1] m1] by blast+
    have e': "mext {a} g ?g2" using ext_trans [OF e1] ext_mono [OF e2(1)] by blast
    have w2: "\<not> white ?g2 a" by (rule extD(3) [OF e2(1) w1])
    have e: "mext {a} g ?g3" by (rule ext_gray2black [OF e' Suc.prems(2) w2])
    have w3: "white ?g3 = white ?g2" by (rule white_setmark_same) (simp add: mark_simps)
    have "black ?g3 a" using x extD(2) [OF e2(1) w1] by (simp add: black_def look_setmark mark_simps)
    then have "okay (set (gray ?g3)) ?g3 a"
      using e2(2) b GClosed extD(1) [OF e, of a] w3 by (intro okayI) (auto simp: blackable_def refs_def)
    moreover have "really_mark (Suc n) a g = ?g3" using b GClosed by (simp add: Let_def)
    ultimately show ?thesis using okay [OF e] w3 w2 by simp
  qed (use b B nb w1 in \<open>auto simp: Let_def listed_def intro!: ext_push_gray [OF e1 w1]\<close>)
qed

text \<open>The contract of a function that marks what \<open>R\<close> gives, for arguments that are of the right type.\<close>

locale marking =
  fixes f :: "'a \<Rightarrow> gcstate \<Rightarrow> gcstate" and R :: "'a \<Rightarrow> addr list" and T :: "gcstate \<Rightarrow> 'a \<Rightarrow> bool"
  assumes marks: "marks_ok g \<Longrightarrow> T g x \<Longrightarrow> mext {} g (f x g) \<and> (\<forall>r \<in> set (R x). \<not> white (f x g) r)"
    and stable: "body_of g' = body_of g \<Longrightarrow> T g' x = T g x"
begin

lemma fold_marks:
  "marks_ok g \<Longrightarrow> \<forall>x \<in> set xs. T g x \<Longrightarrow>
   mext {} g (fold f xs g) \<and> (\<forall>r \<in> set (concat (map R xs)). \<not> white (fold f xs g) r)"
proof (induction xs arbitrary: g)
  case (Cons x xs)
  have 1: "mext {} g (f x g)" "\<forall>r \<in> set (R x). \<not> white (f x g) r" using marks Cons.prems by auto
  have m: "marks_ok (f x g)" by (rule ext_marks_ok [OF 1(1) Cons.prems(1)])
  have B: "body_of (f x g) = body_of g" using extD(1) [OF 1(1)] by (rule HOL.ext)
  have T: "\<forall>y \<in> set xs. T (f x g) y"
  proof
    fix y assume y: "y \<in> set xs"
    have "T (f x g) y = T g y" by (rule stable [OF B])
    then show "T (f x g) y" using y Cons.prems(2) by simp
  qed
  have 2: "mext {} (f x g) (fold f xs (f x g))" "\<forall>r \<in> set (concat (map R xs)). \<not> white (fold f xs (f x g)) r"
    using Cons.IH [OF m T] by blast+
  have "\<forall>r \<in> set (R x). \<not> white (fold f xs (f x g)) r" using 1(2) extD(3) [OF 2(1)] by blast
  then show ?case using ext_trans [OF 1(1) 2(1)] 2(2) by auto
qed simp

end

lemma markobject_ext: "marks_ok g \<Longrightarrow> mext {} g (markobject a g) \<and> \<not> white (markobject a g) a"
proof -
  assume m: "marks_ok g"
  have "card (whites g) \<le> card {..<length (heap g)}" by (rule card_mono) (auto simp: whites_def white_lt)
  then have "card (whites g) \<le> Suc (length (heap g))" by simp
  then show ?thesis
    using really_mark_ext [of g "Suc (length (heap g))" a] m by (simp add: markobject_def mark_if_def reallymarkobject_def)
qed

interpretation object: marking markobject "\<lambda>a. [a]" "\<lambda>g a. True"
  by unfold_locales (auto simp: markobject_ext)

interpretation val: marking markvalue vrefs "\<lambda>g v. True"
  by unfold_locales (auto simp: markvalue_def vrefs_def markobject_ext split: gval.split)

interpretation opt: marking mark_opt orefs "\<lambda>g r. True"
  by unfold_locales (auto simp: mark_opt_def orefs_def markobject_ext split: option.split)

lemma white2gray_id: "\<not> iswhite m \<Longrightarrow> white2gray m = m"
proof (rule bit_eqI)
  fix n assume "\<not> iswhite m" "possible_bit TYPE(lu_byte) n"
  then show "bit (white2gray m) n = bit m n"
    by (cases "n = 0 \<or> n = 1") (auto simp: white2gray_def resetbits_def bit_simps bit_WHITEBITS iswhite_iff)
qed

lemma stringmark_ext:
  assumes "marks_ok g" "is_str g a"
  shows "mext {} g (stringmark a g) \<and> \<not> white (stringmark a g) a"
proof (cases "white g a")
  case True
  let ?g = "setmark a white2gray g"
  have e: "mext {a} g ?g" by (rule ext_white2gray [OF True])
  have "look g a \<noteq> None" using True white_None by metis
  then have "\<not> black ?g a" using mark_okD [OF assms(1) True] by (auto simp: black_def look_setmark mark_simps)
  then have "okay (set (gray ?g)) ?g a" using assms(2) by (auto simp: okay_def is_str_def leaf_def)
  then have "mext {} g ?g" using ext_drop [of a "{}" g ?g] e by simp
  then show ?thesis by (auto simp: stringmark_def white_setmark mark_simps)
next
  case False
  have "look (setmark a white2gray g) b = look g b" for b
  proof (cases "look g a")
    case (Some x)
    have "white2gray (marked x) = marked x" by (rule white2gray_id) (use False Some in \<open>simp add: white_def\<close>)
    then show ?thesis using Some by (auto simp: look_setmark)
  qed (simp add: look_setmark)
  then have L: "look (stringmark a g) = look g" unfolding stringmark_def by (rule HOL.ext)
  have "mext {} g (stringmark a g)"
  proof (rule extI [where new = "[]"])
    show "stringmark a g = g\<lparr>heap := heap (stringmark a g), gray := [] @ gray g\<rparr>"
      unfolding stringmark_def by (subst heap_setmark) simp
  qed (simp_all add: L white_look [OF L], simp add: stringmark_def)
  then show ?thesis using False white_look [OF L] by simp
qed

interpretation str: marking stringmark_opt orefs "\<lambda>g r. \<forall>a \<in> set (orefs r). is_str g a"
proof
  show "mext {} g (stringmark_opt r g) \<and> (\<forall>a \<in> set (orefs r). \<not> white (stringmark_opt r g) a)"
    if "marks_ok g" "\<forall>a \<in> set (orefs r). is_str g a" for g r
    using that by (auto simp: stringmark_opt_def orefs_def stringmark_ext split: option.split)
qed (simp add: is_str_def)

definition node_refs :: "bool \<Rightarrow> bool \<Rightarrow> gval \<times> gval \<Rightarrow> addr list" where
  "node_refs wk wv n = (case n of (k, v) \<Rightarrow> if v = VNil then [] else (if wk then [] else vrefs k) @ (if wv then [] else vrefs v))"

interpretation node: marking "mark_node wk wv" "node_refs wk wv" "\<lambda>g n. True" for wk wv
proof
  show "mext {} g (mark_node wk wv n g) \<and> (\<forall>r \<in> set (node_refs wk wv n). \<not> white (mark_node wk wv n g) r)" if m: "marks_ok g" for g n
  proof (cases n)
    case (Pair k v)
    let ?g1 = "if wk then g else markvalue k g"
    have 1: "mext {} g ?g1" "\<forall>r \<in> set (if wk then [] else vrefs k). \<not> white ?g1 r" using val.marks [OF m] by auto
    have m1: "marks_ok ?g1" by (rule ext_marks_ok [OF 1(1) m])
    let ?g2 = "if wv then ?g1 else markvalue v ?g1"
    have 2: "mext {} ?g1 ?g2" "\<forall>r \<in> set (if wv then [] else vrefs v). \<not> white ?g2 r" using val.marks [OF m1] by auto
    have "mark_node wk wv n g = (if v = VNil then g else ?g2)" by (simp add: Pair mark_node_def Let_def)
    then show ?thesis
      using ext_trans [OF 1(1) 2(1)] 2(2) 1(2) extD(3) [OF 2(1)] by (auto simp: Pair node_refs_def)
  qed
qed simp

end
