(* ===== verification/Lua_GC_Gray.thy ===== *)
theory Lua_GC_Gray
  imports Lua_GC_Mark
begin

text \<open>
  The invariant of the gray list, \<open>MI\<close>: a black object refers to no white one, and what is neither white nor
  black waits in a list or needs no traversal. Traversing one gray object keeps it (\<open>propagatemark\<close> of
  src/lib/lua/lgc.c), so that when the list is empty, what is black and what it refers to is marked.
\<close>

section \<open>What marking leaves alone\<close>

definition body_sub :: "gbody \<Rightarrow> gbody \<Rightarrow> bool" where
  "body_sub b b' \<longleftrightarrow> b' = b \<or>
     (\<exists>mt arr ns arr' ns'. b = GTable mt arr ns \<and> b' = GTable mt arr' ns') \<and> set (refs b') \<subseteq> set (refs b) \<and>
       set (krefs b') \<subseteq> set (krefs b)"

definition same_kind :: "gcobj option \<Rightarrow> gcobj option \<Rightarrow> bool" where
  "same_kind = rel_option (\<lambda>x x'. body_sub (body x) (body x') \<and> (\<forall>n \<ge> 5. bit (marked x') n = bit (marked x) n))"

definition mframe :: "gcstate \<Rightarrow> gcstate \<Rightarrow> bool" where
  "mframe g g' \<longleftrightarrow>
     g' = g\<lparr>heap := heap g', gray := gray g', grayagain := grayagain g', weak := weak g'\<rparr> \<and>
     length (heap g') = length (heap g) \<and> (\<forall>a. same_kind (look g a) (look g' a))"

lemma body_sub_refl [simp]: "body_sub b b" by (simp add: body_sub_def)

lemma body_sub_trans: "body_sub b b' \<Longrightarrow> body_sub b' b'' \<Longrightarrow> body_sub b b''"
proof -
  assume 1: "body_sub b b'" and 2: "body_sub b' b''"
  show ?thesis
  proof (cases "b' = b \<or> b'' = b'")
    case True
    then show ?thesis using 1 2 by (elim disjE) simp_all
  next
    case False
    obtain mt arr ns arr' ns' where x: "b = GTable mt arr ns" "b' = GTable mt arr' ns'" and s: "set (refs b') \<subseteq> set (refs b)"
        "set (krefs b') \<subseteq> set (krefs b)" using 1 False unfolding body_sub_def by blast
    obtain mt2 arr2 ns2 arr3 ns3 where y: "b' = GTable mt2 arr2 ns2" "b'' = GTable mt2 arr3 ns3" and t: "set (refs b'') \<subseteq> set (refs b')"
        "set (krefs b'') \<subseteq> set (krefs b')" using 2 False unfolding body_sub_def by blast
    have "mt2 = mt" using x y by simp
    then show ?thesis unfolding body_sub_def using x(1) y(2) subset_trans [OF t(1) s(1)] subset_trans [OF t(2) s(2)] by blast
  qed
qed

lemma body_sub_refs: "body_sub b b' \<Longrightarrow> set (refs b') \<subseteq> set (refs b)"
  by (auto simp: body_sub_def)

lemma body_sub_kind: "body_sub b b' \<Longrightarrow> blackable b' = blackable b \<and> leaf b' = leaf b \<and> listed b' = listed b"
  by (auto simp: body_sub_def blackable_def leaf_def listed_def)

lemma same_kind_refl [simp]: "same_kind x x" by (cases x) (simp_all add: same_kind_def)

lemma same_kind_trans: "same_kind x y \<Longrightarrow> same_kind y z \<Longrightarrow> same_kind x z"
  by (cases x; cases y; cases z) (auto simp: same_kind_def intro: body_sub_trans)

lemma same_obj_kind: "same_obj x y \<Longrightarrow> same_kind x y"
  by (cases x; cases y) (auto simp: same_obj_def same_kind_def)

lemma mframe_refl [simp]: "mframe g g" by (simp add: mframe_def)

lemma mframe_fields:
  assumes "mframe g g'"
  shows "currentwhite g' = currentwhite g" "tmudata g' = tmudata g" "rootgc g' = rootgc g" "strt_hash g' = strt_hash g"
    "openupval g' = openupval g" "uvhead g' = uvhead g" "mainthread g' = mainthread g" "registry g' = registry g"
    "basic_mt g' = basic_mt g" "phase g' = phase g" "sweepgc g' = sweepgc g" "sweepstrgc g' = sweepstrgc g"
    "strt_nuse g' = strt_nuse g" "tm_gc g' = tm_gc g" "tm_mode g' = tm_mode g" "length (heap g') = length (heap g)"
proof -
  have E: "g' = g\<lparr>heap := heap g', gray := gray g', grayagain := grayagain g', weak := weak g'\<rparr>"
    using assms by (simp add: mframe_def)
  show "currentwhite g' = currentwhite g" "tmudata g' = tmudata g" "rootgc g' = rootgc g" "strt_hash g' = strt_hash g"
    "openupval g' = openupval g" "uvhead g' = uvhead g" "mainthread g' = mainthread g" "registry g' = registry g"
    "basic_mt g' = basic_mt g" "phase g' = phase g" "sweepgc g' = sweepgc g" "sweepstrgc g' = sweepstrgc g"
    "strt_nuse g' = strt_nuse g" "tm_gc g' = tm_gc g" "tm_mode g' = tm_mode g"
    by (subst E, simp)+
  show "length (heap g') = length (heap g)" using assms by (simp add: mframe_def)
qed

lemma mframe_trans: "mframe g g1 \<Longrightarrow> mframe g1 g2 \<Longrightarrow> mframe g g2"
proof -
  assume 1: "mframe g g1" and 2: "mframe g1 g2"
  have "g2 = g1\<lparr>heap := heap g2, gray := gray g2, grayagain := grayagain g2, weak := weak g2\<rparr>" using 2 by (simp add: mframe_def)
  also have "... = (g\<lparr>heap := heap g1, gray := gray g1, grayagain := grayagain g1, weak := weak g1\<rparr>)
      \<lparr>heap := heap g2, gray := gray g2, grayagain := grayagain g2, weak := weak g2\<rparr>"
    using 1 unfolding mframe_def by metis
  finally have "g2 = g\<lparr>heap := heap g2, gray := gray g2, grayagain := grayagain g2, weak := weak g2\<rparr>" by simp
  then show ?thesis using 1 2 same_kind_trans unfolding mframe_def by metis
qed

lemma mframe_ext: "mext X g g' \<Longrightarrow> mframe g g'"
  unfolding mext_def mframe_def using same_obj_kind by fastforce

lemma mframe_setmark: "(\<And>m n. 5 \<le> n \<Longrightarrow> bit (f m) n = bit m n) \<Longrightarrow> mframe g (setmark a f g)"
proof -
  assume f: "\<And>m n. 5 \<le> n \<Longrightarrow> bit (f m) n = bit m n"
  have "same_kind (look g b) (look (setmark a f g) b)" for b
    by (cases "b = a"; cases "look g a") (simp_all add: look_setmark, simp add: same_kind_def f)
  then show ?thesis using heap_setmark [of a f g] by (simp add: mframe_def)
qed

lemma mframe_lists [simp]: "mframe g (g\<lparr>gray := x\<rparr>)" "mframe g (g\<lparr>grayagain := x\<rparr>)" "mframe g (g\<lparr>weak := x\<rparr>)"
  by (simp_all add: mframe_def)

lemma heap_setbody: "setbody a b g = g\<lparr>heap := heap (setbody a b g)\<rparr>"
  by (simp add: setbody_def put_def split: option.split)

lemma mframe_setbody: "body_of g a = Some b \<Longrightarrow> body_sub b b' \<Longrightarrow> mframe g (setbody a b' g)"
  using heap_setbody [of a b' g]
  by (auto simp: mframe_def look_setbody same_kind_def body_of_def option.rel_map intro: rel_option_reflI)

text \<open>The names in a prototype are strings. The keys of a table are addresses of objects, now or in the past.\<close>

definition proto_names :: "gbody \<Rightarrow> addr list" where
  "proto_names b =
     (case b of GProto src k un ps ln \<Rightarrow> orefs src @ concat (map orefs un) @ concat (map orefs ln) | _ \<Rightarrow> [])"

definition names_ok :: "gcstate \<Rightarrow> bool" where
  "names_ok g \<longleftrightarrow>
     (\<forall>a b. body_of g a = Some b \<longrightarrow>
        (\<forall>r \<in> set (proto_names b). r < length (heap g) \<and> is_str g r) \<and> (\<forall>r \<in> set (krefs b). r < length (heap g)))"

lemma mframe_body: "mframe g g' \<Longrightarrow> rel_option body_sub (body_of g a) (body_of g' a)"
  unfolding mframe_def same_kind_def body_of_def by (auto simp: option.rel_map elim: option.rel_mono_strong)

definition hframe :: "gcstate \<Rightarrow> gcstate \<Rightarrow> bool" where
  "hframe g g' \<longleftrightarrow> length (heap g') = length (heap g) \<and> (\<forall>a. same_kind (look g a) (look g' a))"

lemma hframe_trans: "hframe g g1 \<Longrightarrow> hframe g1 g2 \<Longrightarrow> hframe g g2"
  unfolding hframe_def using same_kind_trans by metis

lemma mframe_hframe: "mframe g g' \<Longrightarrow> hframe g g'"
  by (simp add: mframe_def hframe_def)

lemma hframe_same: "look g' = look g \<Longrightarrow> length (heap g') = length (heap g) \<Longrightarrow> hframe g g'"
  by (simp add: hframe_def)

lemma hframe_body: "hframe g g' \<Longrightarrow> rel_option body_sub (body_of g a) (body_of g' a)"
  unfolding hframe_def same_kind_def body_of_def by (auto simp: option.rel_map elim: option.rel_mono_strong)

lemma hframe_names: "hframe g g' \<Longrightarrow> names_ok g \<Longrightarrow> names_ok g'"
proof -
  assume f: "hframe g g'" and n: "names_ok g"
  have s: "is_str g' r" if "is_str g r" for r
    using hframe_body [OF f, of r] that by (cases "body_of g r") (auto simp: is_str_def option_rel_Some1 body_sub_def)
  show ?thesis
    unfolding names_ok_def
  proof (intro allI impI)
    fix a b assume a: "body_of g' a = Some b"
    then obtain b0 where b0: "body_of g a = Some b0" "body_sub b0 b"
      using hframe_body [OF f, of a] by (auto simp: option_rel_Some2)
    then have k: "set (krefs b) \<subseteq> set (krefs b0)" "proto_names b = proto_names b0"
      by (auto simp: body_sub_def proto_names_def)
    have "(\<forall>r \<in> set (proto_names b0). r < length (heap g) \<and> is_str g r) \<and> (\<forall>r \<in> set (krefs b0). r < length (heap g))"
      using n b0(1) unfolding names_ok_def by blast
    moreover have "length (heap g') = length (heap g)" using f by (simp add: hframe_def)
    ultimately show "(\<forall>r \<in> set (proto_names b). r < length (heap g') \<and> is_str g' r) \<and> (\<forall>r \<in> set (krefs b). r < length (heap g'))"
      using k s by auto
  qed
qed

lemma mframe_names: "mframe g g' \<Longrightarrow> names_ok g \<Longrightarrow> names_ok g'"
  by (rule hframe_names [OF mframe_hframe])

section \<open>The invariant\<close>

definition waiting :: "gcstate \<Rightarrow> addr set" where
  "waiting g = set (gray g) \<union> set (grayagain g) \<union> set (weak g)"

definition MI :: "addr set \<Rightarrow> gcstate \<Rightarrow> bool" where
  "MI D g \<longleftrightarrow>
     marks_ok g \<and>
     (\<forall>a x. look g a = Some x \<longrightarrow> \<not> isdead (currentwhite g) (marked x)) \<and>
     (\<forall>a b. black g a \<and> body_of g a = Some b \<longrightarrow> blackable b) \<and>
     (\<forall>a \<in> waiting g. \<not> white g a \<and> (\<exists>b. body_of g a = Some b \<and> listed b)) \<and>
     (\<forall>a. a \<notin> D \<and> \<not> white g a \<longrightarrow> okay (waiting g) g a)"

definition colours_ok :: "gcstate \<Rightarrow> bool" where
  "colours_ok g \<longleftrightarrow>
     marks_ok g \<and> (\<forall>a x. look g a = Some x \<longrightarrow> \<not> isdead (currentwhite g) (marked x)) \<and>
     (\<forall>a b. black g a \<and> body_of g a = Some b \<longrightarrow> blackable b)"

lemma MI_colours: "MI D g \<Longrightarrow> colours_ok g"
  unfolding MI_def colours_ok_def by blast

lemma colours_ext:
  assumes "colours_ok g" "mext {} g g'"
  shows "colours_ok g'"
proof -
  have new: "okay (set (gray g')) g' a" if "white g a" "\<not> white g' a" for a
    using that assms(2) unfolding mext_def by blast
  have old: "look g' a = look g a" if "\<not> (white g a \<and> \<not> white g' a)" for a
    using that extD(2,8) [OF assms(2)] by blast
  have "\<not> isdead (currentwhite g') (marked x)" if "look g' a = Some x" for a x
  proof (cases "white g a \<and> \<not> white g' a")
    case True
    then show ?thesis using that dead_white by (auto simp: white_Some)
  next
    case False
    then show ?thesis using that old assms(1) extD(7) [OF assms(2)] unfolding colours_ok_def by metis
  qed
  moreover have "blackable b" if "black g' a \<and> body_of g' a = Some b" for a b
  proof (cases "white g a \<and> \<not> white g' a")
    case True
    then show ?thesis using that new unfolding okay_def by metis
  next
    case False
    then show ?thesis using that old black_same body_same assms(1) unfolding colours_ok_def by metis
  qed
  ultimately show ?thesis using ext_marks_ok [OF assms(2)] assms(1) unfolding colours_ok_def by blast
qed

lemma MI_ext:
  assumes "MI D g" "mext {} g g'"
  shows "MI D g'"
proof -
  have L: "waiting g \<subseteq> waiting g'" "set (gray g') \<subseteq> waiting g'"
    using extD(4-6) [OF assms(2)] by (auto simp: waiting_def)
  have new: "okay (waiting g') g' a" if "white g a" "\<not> white g' a" for a
  proof -
    have "okay (set (gray g')) g' a" using that assms(2) unfolding mext_def by blast
    then show ?thesis using L(2) unfolding okay_def by (meson subsetD)
  qed
  have c: "colours_ok g'" by (rule colours_ext [OF MI_colours [OF assms(1)] assms(2)])
  have "\<not> white g' a \<and> (\<exists>b. body_of g' a = Some b \<and> listed b)" if "a \<in> waiting g'" for a
  proof (cases "a \<in> waiting g")
    case True
    then show ?thesis using assms(1) extD(1,3) [OF assms(2)] unfolding MI_def by metis
  next
    case False
    then show ?thesis using that extD(9) [OF assms(2)] extD(5,6) [OF assms(2)] by (auto simp: waiting_def)
  qed
  moreover have "okay (waiting g') g' a" if "a \<notin> D" "\<not> white g' a" for a
  proof (cases "white g a")
    case True
    then show ?thesis using new that(2) by simp
  next
    case False
    then have "okay (waiting g) g a" using that(1) assms(1) unfolding MI_def by blast
    then show ?thesis using okay_ext assms(2) False L(1) by blast
  qed
  ultimately show ?thesis using c unfolding MI_def colours_ok_def by blast
qed

text \<open>One object may be in an exceptional state while it is worked on.\<close>

lemma MI_local:
  assumes "MI (insert a D) g" "\<And>b. b \<noteq> a \<Longrightarrow> look g' b = look g b" "look g' a = Some x" "\<not> iswhite (marked x)"
    "isblack (marked x) \<Longrightarrow> blackable (body x)" "a \<in> waiting g' \<Longrightarrow> listed (body x)" "currentwhite g' = currentwhite g"
    "waiting g' \<subseteq> insert a (waiting g)" "waiting g \<subseteq> insert a (waiting g')"
  shows "MI (insert a D) g'"
proof -
  have wa: "\<not> white g' a" using assms(3,4) by (simp add: white_Some)
  have w: "\<not> white g' b" if "\<not> white g b" for b using that wa assms(2) [of b] by (cases "b = a") (auto simp: white_def)
  have m: "mark_ok (marked x)" using assms(4) by (simp add: mark_ok_def iswhite_iff)
  have "marks_ok g'" using assms(1,2,3) m unfolding MI_def marks_ok_def by (metis option.inject)
  moreover have "\<not> isdead (currentwhite g') (marked y)" if "look g' b = Some y" for b y
    using that assms(1,2,3,4,7) dead_white unfolding MI_def by (metis option.inject)
  moreover have "blackable bd" if "black g' b \<and> body_of g' b = Some bd" for b bd
  proof (cases "b = a")
    case True
    then show ?thesis using that assms(3,5) by (simp add: black_Some body_of_def)
  next
    case False
    then show ?thesis using that assms(1) black_same body_same assms(2) unfolding MI_def by metis
  qed
  moreover have "\<not> white g' b \<and> (\<exists>bd. body_of g' b = Some bd \<and> listed bd)" if "b \<in> waiting g'" for b
  proof (cases "b = a")
    case True
    then show ?thesis using assms(3,6) wa that by (simp add: body_of_def)
  next
    case False
    then have "b \<in> waiting g" using that assms(8) by blast
    then show ?thesis using assms(1) w body_same [OF assms(2) [OF False]] unfolding MI_def by metis
  qed
  moreover have "okay (waiting g') g' b" if b: "b \<notin> insert a D" "\<not> white g' b" for b
  proof -
    have L: "look g' b = look g b" using b(1) assms(2) by blast
    then have "okay (waiting g) g b" using b assms(1) unfolding MI_def white_def by metis
    then show ?thesis using w b(1) assms(9) L unfolding okay_def by (auto simp: black_same [OF L] body_same [OF L])
  qed
  ultimately show ?thesis unfolding MI_def by blast
qed

lemma MI_drop: "MI (insert a D) g \<Longrightarrow> okay (waiting g) g a \<Longrightarrow> MI D g"
  unfolding MI_def by (metis insert_iff)

lemma MI_mono: "MI D g \<Longrightarrow> D \<subseteq> D' \<Longrightarrow> MI D' g"
  unfolding MI_def by blast

section \<open>Traversing one object\<close>

text \<open>What is known of a weak table after its traversal: the entries and a weak array are left to \<open>cleartable\<close>.\<close>

definition wk_done :: "gcstate \<Rightarrow> addr \<Rightarrow> bool" where
  "wk_done g a \<longleftrightarrow>
     (\<forall>x mt arr ns. look g a = Some x \<and> body x = GTable mt arr ns \<longrightarrow>
        (\<forall>r \<in> set (orefs mt). \<not> white g r) \<and>
        (\<not> bit (marked x) VALUEWEAKBIT \<longrightarrow> (\<forall>r \<in> set (concat (map vrefs arr)). \<not> white g r)))"

definition scanned :: "gcstate \<Rightarrow> addr \<Rightarrow> bool" where
  "scanned g a \<longleftrightarrow> (\<forall>b. body_of g a = Some b \<longrightarrow> (\<forall>r \<in> set (refs b). \<not> white g r))"

lemma set_table_refs:
  "set (refs (GTable mt arr ns)) = set (orefs mt) \<union> set (concat (map vrefs arr)) \<union> set (concat (map (node_refs False False) ns))"
proof -
  have E: "concat (map (\<lambda>(k, v). vrefs k @ vrefs v) (live_entries ns)) = concat (map (node_refs False False) ns)"
    by (induction ns) (auto simp: live_entries_def node_refs_def)
  show ?thesis by (simp only: refs_def table_refs_def gbody.case if_False E set_append Un_assoc)
qed

lemma scanned_wk: "scanned g a \<Longrightarrow> wk_done g a"
proof -
  assume d: "scanned g a"
  show ?thesis
    unfolding wk_done_def
  proof (intro allI impI)
    fix x mt arr ns assume "look g a = Some x \<and> body x = GTable mt arr ns"
    then have "body_of g a = Some (GTable mt arr ns)" by (simp add: body_of_def)
    then have "\<forall>r \<in> set (refs (GTable mt arr ns)). \<not> white g r" using d unfolding scanned_def by blast
    then show "(\<forall>r \<in> set (orefs mt). \<not> white g r) \<and>
        (\<not> bit (marked x) VALUEWEAKBIT \<longrightarrow> (\<forall>r \<in> set (concat (map vrefs arr)). \<not> white g r))"
      unfolding set_table_refs by blast
  qed
qed

lemma bit_weak_bits: "bit (weak_bits k v m) n = (if n = 3 then k else if n = 4 then v else bit m n)"
  by (cases k; cases v) (auto simp: weak_bits_def bit_marks dest: bit_len)

lemma clear_krefs:
  "set (krefs (GTable mt arr (map (\<lambda>(k, v). if v = VNil then (removeentry k, v) else (k, v)) ns))) \<subseteq> set (refs (GTable mt arr ns))"
  "set (krefs (GTable mt arr (map (\<lambda>(k, v). if v = VNil then (removeentry k, v) else (k, v)) ns))) \<subseteq> set (krefs (GTable mt arr ns))"
  by (auto simp: krefs_def refs_def table_refs_def live_entries_def removeentry_def vrefs_def split: if_splits gval.splits)

lemma clear_keys:
  "refs (GTable mt arr (map (\<lambda>(k, v). if v = VNil then (removeentry k, v) else (k, v)) ns)) = refs (GTable mt arr ns)"
proof -
  have "live_entries (map (\<lambda>(k, v). if v = VNil then (removeentry k, v) else (k, v)) ns) = live_entries ns"
    by (induction ns) (auto simp: live_entries_def)
  then show ?thesis by (simp add: refs_def table_refs_def)
qed

definition fixedpart :: "addr \<Rightarrow> gcstate \<Rightarrow> gcstate \<Rightarrow> bool" where
  "fixedpart a g g' \<longleftrightarrow> mframe g g' \<and> (\<forall>b. b \<noteq> a \<and> \<not> white g b \<longrightarrow> look g' b = look g b)"

lemma fixedpart_refl [simp]: "fixedpart a g g" by (simp add: fixedpart_def)

lemma fixedpart_trans: "fixedpart a g g1 \<Longrightarrow> fixedpart a g1 g2 \<Longrightarrow> fixedpart a g g2"
  unfolding fixedpart_def by (metis mframe_trans white_None white_def)

lemma fixedpart_ext: "mext {} g g' \<Longrightarrow> fixedpart a g g'"
  unfolding fixedpart_def using mframe_ext extD(2) by blast

lemma fixedpart_white: "fixedpart a g g' \<Longrightarrow> \<not> white g' a \<Longrightarrow> \<not> white g b \<Longrightarrow> \<not> white g' b"
  unfolding fixedpart_def white_def by metis

lemma traversetable_spec:
  assumes MI: "MI (insert a D) g" and a: "look g a = Some x" "body x = GTable mt arr ns" "isblack (marked x)" "\<not> iswhite (marked x)"
    and t: "traversetable a mt arr ns g = (w, g')"
  shows "MI (insert a D) g' \<and> fixedpart a g g' \<and> \<not> white g' a \<and> black g' a \<and> grayagain g' = grayagain g \<and>
    weak g' = (if w then a # weak g else weak g) \<and> wk_done g' a \<and> (\<not> w \<longrightarrow> scanned g' a \<and> okay (waiting g') g' a)"
proof -
  have ok: "marks_ok g" using MI by (simp add: MI_def)
  let ?t1 = "mark_opt mt g"
  have e1: "mext {} g ?t1" "\<forall>r \<in> set (orefs mt). \<not> white ?t1 r" using opt.marks [OF ok] by blast+
  have M1: "MI (insert a D) ?t1" by (rule MI_ext [OF MI e1(1)])
  have wa: "\<not> white g a" using a by (simp add: white_Some)
  have a1: "look ?t1 a = Some x" using extD(2) [OF e1(1) wa] a by simp
  obtain wk wv where m: "table_mode ?t1 mt = (wk, wv)" by fastforce
  define t2 where "t2 = (if wk \<or> wv then (setmark a (weak_bits wk wv) ?t1)\<lparr>weak := a # weak ?t1\<rparr> else ?t1)"
  have L2: "look t2 b = look ?t1 b" if "b \<noteq> a" for b using that by (simp add: t2_def look_setmark)
  define x2 where "x2 = (if wk \<or> wv then x\<lparr>marked := weak_bits wk wv (marked x)\<rparr> else x)"
  have x2: "look t2 a = Some x2" "body x2 = body x" "iswhite (marked x2) = iswhite (marked x)"
    "isblack (marked x2) = isblack (marked x)" "wk \<or> wv \<Longrightarrow> bit (marked x2) 4 = wv"
    using a1 by (auto simp: t2_def x2_def look_setmark iswhite_weak_bits bit_weak_bits isblack_iff)
  have M2: "MI (insert a D) t2"
    by (rule MI_local [OF M1, of t2 x2]) (use a x2 L2 in \<open>auto simp: t2_def waiting_def listed_def blackable_def\<close>)
  have f2: "fixedpart a g t2"
  proof (rule fixedpart_trans [OF fixedpart_ext [OF e1(1)]])
    have "mframe ?t1 (setmark a (weak_bits wk wv) ?t1)" by (rule mframe_setmark) (simp add: bit_weak_bits)
    then have "mframe ?t1 t2" unfolding t2_def by (auto intro: mframe_trans)
    then show "fixedpart a ?t1 t2" using L2 by (simp add: fixedpart_def)
  qed
  have w2: "white t2 = white ?t1" unfolding t2_def by (simp add: white_setmark_same iswhite_weak_bits)
  have ok2: "marks_ok t2" using M2 by (simp add: MI_def)
  have wa2: "\<not> white t2 a" using x2 a by (simp add: white_Some)
  show ?thesis
  proof (cases "wk \<and> wv")
    case True
    then have "w" "g' = t2" using t unfolding traversetable_def Let_def m t2_def by auto
    moreover have "wk_done t2 a" using x2 True e1(2) a(2) w2 by (auto simp: wk_done_def)
    moreover have "black t2 a" using x2 a by (simp add: black_Some)
    ultimately show ?thesis using M2 f2 wa2 True extD(5,6) [OF e1(1)] by (simp add: t2_def)
  next
    case False
    define t3 where "t3 = (if wv then t2 else fold markvalue (rev arr) t2)"
    define t4 where "t4 = fold (mark_node wk wv) (rev ns) t3"
    have g': "g' = setbody a (GTable mt arr (map (\<lambda>(k, v). if v = VNil then (removeentry k, v) else (k, v)) ns)) t4" (is "_ = setbody a ?b t4")
      and w: "w = (wk \<or> wv)"
      using t False unfolding traversetable_def Let_def m t4_def t3_def t2_def by auto
    have e3: "mext {} t2 t3" "\<not> wv \<longrightarrow> (\<forall>r \<in> set (concat (map vrefs (rev arr))). \<not> white t3 r)"
      using val.fold_marks [OF ok2, of "rev arr"] by (auto simp: t3_def)
    have ok3: "marks_ok t3" by (rule ext_marks_ok [OF e3(1) ok2])
    have e4: "mext {} t3 t4" "\<forall>r \<in> set (concat (map (node_refs wk wv) (rev ns))). \<not> white t4 r"
      using node.fold_marks [OF ok3, of "rev ns"] unfolding t4_def by simp_all
    have e: "mext {} t2 t4" by (rule ext_trans [OF e3(1) e4(1)])
    have M4: "MI (insert a D) t4" by (rule MI_ext [OF M2 e])
    have a4: "look t4 a = Some x2" using extD(2) [OF e wa2] x2 by simp
    have b4: "body_of t4 a = Some (GTable mt arr ns)" using a4 x2(2) a(2) by (simp add: body_of_def)
    have sub: "body_sub (GTable mt arr ns) ?b"
      unfolding body_sub_def 
      by (intro disjI2 exI conjI, rule refl, rule refl, simp only: clear_keys order_refl, rule clear_krefs(2))
    have f: "fixedpart a g g'"
    proof (rule fixedpart_trans [OF f2 fixedpart_trans [OF fixedpart_ext [OF e]]])
      show "fixedpart a t4 g'" unfolding fixedpart_def g' using mframe_setbody [OF b4 sub] by (simp add: look_setbody)
    qed
    have M: "MI (insert a D) g'"
      by (rule MI_local [OF M4, of g' "x2\<lparr>body := ?b\<rparr>"])
        (use a4 x2 a in \<open>auto simp: g' look_setbody waiting_def listed_def blackable_def\<close>)
    have w': "white g' = white t4" by (simp add: g')
    have l': "look g' a = Some (x2\<lparr>body := ?b\<rparr>)" using a4 by (simp add: g' look_setbody)
    have mt: "\<forall>r \<in> set (orefs mt). \<not> white g' r" using e1(2) extD(3) [OF e] w2 w' by metis
    have arr: "\<not> wv \<longrightarrow> (\<forall>r \<in> set (concat (map vrefs arr)). \<not> white g' r)" using e3(2) extD(3) [OF e4(1)] w' by auto
    have "weak g' = (if w then a # weak g else weak g)" "grayagain g' = grayagain g"
      using extD(5,6) [OF e] extD(5,6) [OF e1(1)] by (simp_all add: g' w t2_def)
    moreover have "wk_done g' a" unfolding wk_done_def using l' mt arr x2(5) by auto
    moreover have black: "\<not> white g' a" "black g' a" using l' x2 a by (simp_all add: white_Some black_Some)
    moreover have "scanned g' a \<and> okay (waiting g') g' a" if "\<not> w"
    proof -
      have "\<forall>r \<in> set (concat (map (node_refs False False) ns)). \<not> white g' r" using that e4(2) w w' by auto
      then have "\<forall>r \<in> set (refs (GTable mt arr ns)). \<not> white g' r"
        unfolding set_table_refs using mt arr that w by blast
      then have r: "\<forall>r \<in> set (refs ?b). \<not> white g' r" "\<forall>r \<in> set (krefs ?b). \<not> white g' r"
        using clear_keys [of mt arr ns] clear_krefs(1) [of mt arr ns] by auto
      have B: "body_of g' a = Some ?b" using l' by (simp add: body_of_def)
      have "okay (waiting g') g' a" by (rule okayI [OF B black(2) _ r]) (simp add: blackable_def)
      moreover have "scanned g' a" using B r(1) unfolding scanned_def by simp
      ultimately show ?thesis by blast
    qed
    ultimately show ?thesis using M f by blast
  qed
qed

definition threadlike :: "gcstate \<Rightarrow> addr \<Rightarrow> bool" where
  "threadlike g a \<longleftrightarrow> (\<exists>gt st. body_of g a = Some (GThread gt st))"

definition tablelike :: "gcstate \<Rightarrow> addr \<Rightarrow> bool" where
  "tablelike g a \<longleftrightarrow> (\<exists>mt arr ns. body_of g a = Some (GTable mt arr ns))"

lemma is_str_ext: "mext X g g' \<Longrightarrow> is_str g' r = is_str g r"
  using extD(1) by (simp add: is_str_def)

lemma start_black:
  assumes MI: "MI D g" and g: "gray g = a # gs" and b: "body_of g a = Some b" and k: "blackable b"
  defines "g1 \<equiv> setmark a gray2black (g\<lparr>gray := gs\<rparr>)"
  shows "MI (insert a D) g1 \<and> fixedpart a g g1 \<and> \<not> white g1 a \<and> black g1 a \<and> body_of g1 a = Some b \<and> names_ok g1 = names_ok g"
proof -
  have "a \<in> waiting g" using g by (simp add: waiting_def)
  then have w: "\<not> white g a" and l: "listed b" using MI b unfolding MI_def by (metis option.inject)+
  obtain x where x: "look g a = Some x" "body x = b" using body_of_look [OF b] by blast
  have L: "look g1 c = (if c = a then Some (x\<lparr>marked := gray2black (marked x)\<rparr>) else look g c)" for c
    using x by (simp add: g1_def look_setmark)
  have f: "waiting g1 \<subseteq> insert a (waiting g)" "waiting g \<subseteq> insert a (waiting g1)"
    using g by (auto simp: g1_def waiting_def)
  have MI': "MI (insert a D) g" by (rule MI_mono [OF MI]) blast
  have M: "MI (insert a D) g1"
    by (rule MI_local [where x = "x\<lparr>marked := gray2black (marked x)\<rparr>", OF MI'])
      (use L f x w k l in \<open>auto simp: white_Some mark_simps g1_def\<close>)
  have "mframe (g\<lparr>gray := gs\<rparr>) g1" unfolding g1_def by (rule mframe_setmark) (simp add: bit_colours)
  then have "mframe g g1" by (rule mframe_trans [rotated]) simp
  moreover have B: "body_of g1 c = body_of g c" for c using L x by (simp add: body_of_def)
  then have "names_ok g1 = names_ok g" by (simp add: names_ok_def is_str_def g1_def)
  ultimately show ?thesis using M L w x B [of a] b by (simp add: fixedpart_def white_def black_def mark_simps)
qed

lemma finish_black:
  assumes MI: "MI (insert a D) g1" and b: "black g1 a" "\<not> white g1 a" "body_of g1 a = Some b"
    and e: "mext {} g1 g2" and r: "\<forall>r \<in> set (refs b). \<not> white g2 r" and k: "krefs b = []"
  shows "MI D g2 \<and> \<not> white g2 a \<and> scanned g2 a \<and> fixedpart a g1 g2 \<and> weak g2 = weak g1 \<and> grayagain g2 = grayagain g1"
proof -
  have M: "MI (insert a D) g2" by (rule MI_ext [OF MI e])
  have "black g2 a" using b(1) black_same [OF extD(2) [OF e b(2)]] by simp
  moreover have B: "body_of g2 a = Some b" using b(3) extD(1) [OF e] by simp
  moreover have "blackable b" using MI b(1,3) unfolding MI_def by blast
  ultimately have "okay (waiting g2) g2 a" using okayI [OF B _ _ r] k by simp
  then have "MI D g2" by (rule MI_drop [OF M])
  then show ?thesis
    using r B extD(3) [OF e b(2)] fixedpart_ext [OF e] extD(5,6) [OF e] by (simp add: scanned_def)
qed

lemma propagatemark_spec:
  assumes MI: "MI D g" and N: "names_ok g" and g: "gray g = a # gs"
  shows "MI D (propagatemark g) \<and> fixedpart a g (propagatemark g) \<and> \<not> white (propagatemark g) a \<and> wk_done (propagatemark g) a \<and>
    (weak (propagatemark g) = weak g \<or> weak (propagatemark g) = a # weak g \<and> tablelike g a) \<and>
    (if threadlike g a then scanned (propagatemark g) a \<and> grayagain (propagatemark g) = a # grayagain g
     else grayagain (propagatemark g) = grayagain g)"
proof -
  have "a \<in> waiting g" using g by (simp add: waiting_def)
  then obtain b where w: "\<not> white g a" and b: "body_of g a = Some b" and l: "listed b" using MI unfolding MI_def by blast
  let ?g1 = "setmark a gray2black (g\<lparr>gray := gs\<rparr>)"
  have black: "MI (insert a D) ?g1" "fixedpart a g ?g1" "\<not> white ?g1 a" "black ?g1 a" "body_of ?g1 a = Some b"
    "marks_ok ?g1" if "blackable b"
    using start_black [OF MI g b that] by (simp_all add: MI_def)
  have fin: ?thesis if "blackable b" "mext {} ?g1 (propagatemark g)" "\<forall>r \<in> set (refs b). \<not> white (propagatemark g) r"
    "krefs b = []"
    using finish_black [OF black(1,4,3,5) [OF that(1)] that(2-4)] fixedpart_trans [OF black(2) [OF that(1)]] that(1) b scanned_wk
    by (auto simp: threadlike_def blackable_def)
  show ?thesis
  proof (cases b)
    case (GTable mt arr ns)
    have k: "blackable b" by (simp add: GTable blackable_def)
    note B = black [OF k]
    obtain x where x: "look ?g1 a = Some x" "body x = GTable mt arr ns" using body_of_look [OF B(5)] GTable by blast
    obtain wk g2 where t: "traversetable a mt arr ns ?g1 = (wk, g2)" by fastforce
    have T: "MI (insert a D) g2 \<and> fixedpart a ?g1 g2 \<and> \<not> white g2 a \<and> black g2 a \<and> grayagain g2 = grayagain ?g1 \<and>
        weak g2 = (if wk then a # weak ?g1 else weak ?g1) \<and> wk_done g2 a \<and> (\<not> wk \<longrightarrow> scanned g2 a \<and> okay (waiting g2) g2 a)"
      using traversetable_spec [OF B(1) x(1,2) _ _ t] B(3,4) x(1) by (simp add: white_Some black_Some)
    have p: "propagatemark g = (if wk then setmark a black2gray g2 else g2)"
      by (simp add: propagatemark_def g Let_def b GTable t)
    have th: "\<not> threadlike g a" "tablelike g a" using b GTable by (simp_all add: threadlike_def tablelike_def)
    show ?thesis
    proof (cases wk)
      case False
      then have "okay (waiting g2) g2 a" using T by blast
      then show ?thesis using T p False th MI_drop fixedpart_trans [OF B(2)] by auto
    next
      case True
      let ?g3 = "setmark a black2gray g2"
      obtain y where y: "look g2 a = Some y" using T white_None by (cases "look g2 a") (auto simp: black_def)
      have Y: "listed (body y)"
      proof -
        have "body_sub b (body y)" using mframe_body [of ?g1 g2 a] T B(5) y by (auto simp: fixedpart_def body_of_def)
        then show ?thesis using l body_sub_kind by blast
      qed
      have W: "white ?g3 = white g2" by (rule white_setmark_same) (simp add: mark_simps)
      have M: "MI (insert a D) ?g3"
        by (rule MI_local [where g = g2 and x = "y\<lparr>marked := black2gray (marked y)\<rparr>"])
          (use T y Y in \<open>auto simp: look_setmark white_Some mark_simps waiting_def\<close>)
      have "okay (waiting ?g3) ?g3 a"
        using T True by (simp add: okay_def waiting_def black_def look_setmark y mark_simps)
      then have "MI D ?g3" by (rule MI_drop [OF M])
      moreover have "fixedpart a g2 ?g3"
        using mframe_setmark [of black2gray g2 a] by (simp add: fixedpart_def look_setmark bit_colours)
      moreover have "wk_done ?g3 a" using T y by (simp add: wk_done_def look_setmark W bit_colours)
      ultimately show ?thesis
        using T p True th W fixedpart_trans [OF B(2)] fixedpart_trans [of a ?g1 g2 ?g3] by (auto simp: threadlike_def)
    qed
  next
    case (GCClosure e us)
    have p: "propagatemark g = fold markvalue us (markobject e ?g1)" by (simp add: propagatemark_def g Let_def b GCClosure)
    have k: "blackable b" by (simp add: GCClosure blackable_def)
    let ?h1 = "markobject e ?g1" and ?h2 = "fold markvalue us (markobject e ?g1)"
    have e1: "mext {} ?g1 ?h1" "\<not> white ?h1 e" using object.marks [OF black(6) [OF k] TrueI] by simp_all
    have e2: "mext {} ?h1 ?h2" "\<forall>r \<in> set (concat (map vrefs us)). \<not> white ?h2 r"
      using val.fold_marks [OF ext_marks_ok [OF e1(1) black(6) [OF k]]] by blast+
    have "mext {} ?g1 (propagatemark g)" unfolding p by (rule ext_trans [OF e1(1) e2(1)])
    moreover have "\<forall>r \<in> set (refs b). \<not> white (propagatemark g) r"
      using e2(2) extD(3) [OF e2(1) e1(2)] unfolding p by (simp add: GCClosure refs_def)
    ultimately show ?thesis by (intro fin [OF k]) (simp_all add: GCClosure)
  next
    case (GLClosure e q us)
    have p: "propagatemark g = fold markobject us (markobject q (markobject e ?g1))"
      by (simp add: propagatemark_def g Let_def b GLClosure)
    have k: "blackable b" by (simp add: GLClosure blackable_def)
    note e1 = object.fold_marks [OF black(6) [OF k], of "e # q # us"]
    have "mext {} ?g1 (propagatemark g)" using e1 p by simp
    moreover have "\<forall>r \<in> set (refs b). \<not> white (propagatemark g) r" using e1 unfolding p by (simp add: GLClosure refs_def)
    ultimately show ?thesis by (intro fin [OF k]) (simp_all add: GLClosure)
  next
    case (GProto src cs un ps ln)
    have p: "propagatemark g = traverseproto src cs un ps ln ?g1" by (simp add: propagatemark_def g Let_def b GProto)
    have k: "blackable b" by (simp add: GProto blackable_def)
    note B = black [OF k]
    have "names_ok ?g1" using start_black [OF MI g b k] N by simp
    then have names: "is_str ?g1 r" if "r \<in> set (orefs src @ concat (map orefs un) @ concat (map orefs ln))" for r
      using that B(5) unfolding names_ok_def GProto by (fastforce simp: proto_names_def)
    define h1 where "h1 = stringmark_opt src ?g1"
    define h2 where "h2 = fold markvalue cs h1"
    define h3 where "h3 = fold stringmark_opt un h2"
    define h4 where "h4 = fold mark_opt ps h3"
    define h5 where "h5 = fold stringmark_opt ln h4"
    have h: "propagatemark g = h5" by (simp add: p traverseproto_def h1_def h2_def h3_def h4_def h5_def)
    have 1: "mext {} ?g1 h1" "\<forall>r \<in> set (orefs src). \<not> white h1 r"
      using str.marks [OF B(6), of src] names unfolding h1_def by auto
    have 2: "mext {} h1 h2" "\<forall>r \<in> set (concat (map vrefs cs)). \<not> white h2 r"
      using val.fold_marks [OF ext_marks_ok [OF 1(1) B(6)]] unfolding h2_def by blast+
    have e2: "mext {} ?g1 h2" by (rule ext_trans [OF 1(1) 2(1)])
    have 3: "mext {} h2 h3" "\<forall>r \<in> set (concat (map orefs un)). \<not> white h3 r"
      using str.fold_marks [OF ext_marks_ok [OF e2 B(6)], of un] names is_str_ext [OF e2] unfolding h3_def by auto
    have e3: "mext {} ?g1 h3" by (rule ext_trans [OF e2 3(1)])
    have 4: "mext {} h3 h4" "\<forall>r \<in> set (concat (map orefs ps)). \<not> white h4 r"
      using opt.fold_marks [OF ext_marks_ok [OF e3 B(6)]] unfolding h4_def by blast+
    have e4: "mext {} ?g1 h4" by (rule ext_trans [OF e3 4(1)])
    have 5: "mext {} h4 h5" "\<forall>r \<in> set (concat (map orefs ln)). \<not> white h5 r"
      using str.fold_marks [OF ext_marks_ok [OF e4 B(6)], of ln] names is_str_ext [OF e4] unfolding h5_def by auto
    have e5: "mext {} ?g1 h5" by (rule ext_trans [OF e4 5(1)])
    have e35: "mext {} h3 h5" by (rule ext_trans [OF 4(1) 5(1)])
    have e25: "mext {} h2 h5" by (rule ext_trans [OF 3(1) e35])
    have e15: "mext {} h1 h5" by (rule ext_trans [OF 2(1) e25])
    have "\<forall>r \<in> set (orefs src). \<not> white h5 r" using 1(2) extD(3) [OF e15] by blast
    moreover have "\<forall>r \<in> set (concat (map vrefs cs)). \<not> white h5 r" using 2(2) extD(3) [OF e25] by blast
    moreover have "\<forall>r \<in> set (concat (map orefs un)). \<not> white h5 r" using 3(2) extD(3) [OF e35] by blast
    moreover have "\<forall>r \<in> set (concat (map orefs ps)). \<not> white h5 r" using 4(2) extD(3) [OF 5(1)] by blast
    ultimately have "\<forall>r \<in> set (refs b). \<not> white h5 r"
      using 5(2) by (simp only: GProto refs_def gbody.case set_append ball_Un simp_thms)
    moreover have "mext {} ?g1 (propagatemark g)" unfolding h by (rule e5)
    ultimately show ?thesis using fin [OF k] unfolding h by (simp add: GProto)
  next
    case (GThread gt st)
    let ?g2 = "setmark a black2gray (?g1\<lparr>grayagain := a # grayagain ?g1\<rparr>)"
    have p: "propagatemark g = fold markvalue (gt # st) ?g2" by (simp add: propagatemark_def g Let_def b GThread traversestack_def)
    obtain x where x: "look g a = Some x" "body x = b" using body_of_look [OF b] by blast
    have L: "look ?g2 c = (if c = a then Some (x\<lparr>marked := black2gray (gray2black (marked x))\<rparr>) else look g c)" for c
      using x by (simp add: look_setmark)
    have wt: "waiting ?g2 = waiting g" using g by (auto simp: waiting_def)
    have MI': "MI (insert a D) g" by (rule MI_mono [OF MI]) blast
    have M: "MI (insert a D) ?g2"
      by (rule MI_local [where x = "x\<lparr>marked := black2gray (gray2black (marked x))\<rparr>", OF MI'])
        (use L x w l wt in \<open>auto simp: white_Some mark_simps\<close>)
    have f2: "fixedpart a g ?g2"
    proof -
      have 1: "mframe (g\<lparr>gray := gs\<rparr>) ?g1" by (rule mframe_setmark) (simp add: bit_colours)
      have 2: "mframe (?g1\<lparr>grayagain := a # grayagain ?g1\<rparr>) ?g2" by (rule mframe_setmark) (simp add: bit_colours)
      have "mframe g ?g2" by (rule mframe_trans [OF mframe_trans [OF mframe_trans [OF _ 1] _] 2]) simp_all
      then show ?thesis using L by (simp add: fixedpart_def)
    qed
    have ok: "marks_ok ?g2" using M by (simp add: MI_def)
    note e = val.fold_marks [OF ok, of "gt # st"]
    let ?h = "fold markvalue (gt # st) ?g2"
    have e: "mext {} ?g2 ?h" "\<forall>r \<in> set (refs b). \<not> white ?h r" using e by (simp_all add: GThread refs_def)
    have w2: "\<not> white ?g2 a" using L [of a] w x by (simp add: white_Some mark_simps)
    have M': "MI (insert a D) ?h" by (rule MI_ext [OF M e(1)])
    have "look ?h a = look ?g2 a" by (rule extD(2) [OF e(1) w2])
    then have nb: "\<not> black ?h a" using L [of a] by (simp add: black_def mark_simps)
    have ga: "grayagain ?h = a # grayagain g" "weak ?h = weak g" using extD(5,6) [OF e(1)] by simp_all
    have "okay (waiting ?h) ?h a" using nb ga(1) by (simp add: okay_def waiting_def)
    then have "MI D ?h" by (rule MI_drop [OF M'])
    moreover have B: "body_of ?h a = Some b" using extD(1) [OF e(1), of a] body_same [of ?g2 a] L [of a] x by (simp add: body_of_def)
    then have "scanned ?h a" using e(2) by (simp add: scanned_def)
    moreover have "threadlike g a" using b GThread by (simp add: threadlike_def)
    ultimately show ?thesis
      unfolding p using ga extD(3) [OF e(1) w2] fixedpart_trans [OF f2 fixedpart_ext [OF e(1)]] scanned_wk by auto
  qed (use l in \<open>simp_all add: listed_def\<close>)
qed

end
