(* ===== verification/Lua_GC_Atomic.thy ===== *)
theory Lua_GC_Atomic
  imports Lua_GC_Gray
begin

text \<open>
  The atomic end of the marking (\<open>atomic\<close> of src/lib/lua/lgc.c): afterwards the marked objects are closed
  under reference, the roots are marked, and all others are dead for the sweep that follows.
\<close>

section \<open>Emptying the gray list\<close>

definition wkd :: "gcstate \<Rightarrow> bool" where
  "wkd g \<longleftrightarrow> (\<forall>a \<in> set (weak g). tablelike g a \<and> wk_done g a)"

definition gad :: "gcstate \<Rightarrow> bool" where
  "gad g \<longleftrightarrow> (\<forall>a \<in> set (grayagain g). threadlike g a \<and> scanned g a)"

definition still :: "gcstate \<Rightarrow> gcstate \<Rightarrow> bool" where
  "still g g' \<longleftrightarrow> mframe g g' \<and> (\<forall>a. \<not> white g a \<longrightarrow> \<not> white g' a)"

lemma still_refl [simp]: "still g g" by (simp add: still_def)

lemma still_trans: "still g g1 \<Longrightarrow> still g1 g2 \<Longrightarrow> still g g2"
  unfolding still_def by (blast intro: mframe_trans)

lemma still_ext: "mext {} g g' \<Longrightarrow> still g g'"
  unfolding still_def using mframe_ext extD(3) by blast

lemma still_kinds: "still g g' \<Longrightarrow> threadlike g a \<Longrightarrow> threadlike g' a" "still g g' \<Longrightarrow> tablelike g a \<Longrightarrow> tablelike g' a"
  using mframe_body [of g g' a] by (auto simp: still_def threadlike_def tablelike_def body_sub_def option_rel_Some1)

lemma wk_done_mono: "look g' a = look g a \<Longrightarrow> \<forall>b. \<not> white g b \<longrightarrow> \<not> white g' b \<Longrightarrow> wk_done g a \<Longrightarrow> wk_done g' a"
  unfolding wk_done_def by metis

lemma scanned_mono: "body_of g' a = body_of g a \<Longrightarrow> \<forall>b. \<not> white g b \<longrightarrow> \<not> white g' b \<Longrightarrow> scanned g a \<Longrightarrow> scanned g' a"
  unfolding scanned_def by metis

lemma waiting_not_white: "MI D g \<Longrightarrow> a \<in> waiting g \<Longrightarrow> \<not> white g a"
  unfolding MI_def by blast

lemma ext_lists:
  assumes "MI D g" "mext {} g g'"
  shows "(wkd g \<longrightarrow> wkd g') \<and> (gad g \<longrightarrow> gad g')"
proof -
  have s: "still g g'" by (rule still_ext [OF assms(2)])
  have m: "\<forall>b. \<not> white g b \<longrightarrow> \<not> white g' b" using s by (simp add: still_def)
  have 1: "wk_done g' a" if "wkd g" "a \<in> set (weak g)" for a
    using that wk_done_mono [OF extD(2) [OF assms(2)] m] waiting_not_white [OF assms(1)]
    by (auto simp: wkd_def waiting_def)
  have 2: "scanned g' a" if "gad g" "a \<in> set (grayagain g)" for a
    using that scanned_mono [OF extD(1) [OF assms(2)] m] by (auto simp: gad_def)
  show ?thesis using 1 2 still_kinds [OF s] extD(5,6) [OF assms(2)] unfolding wkd_def gad_def by metis
qed

lemma propagatemark_lists:
  assumes MI: "MI D g" and N: "names_ok g" and g: "gray g = a # gs"
  shows "still g (propagatemark g) \<and> (wkd g \<longrightarrow> wkd (propagatemark g)) \<and> (gad g \<longrightarrow> gad (propagatemark g))"
proof -
  let ?g = "propagatemark g"
  note P = propagatemark_spec [OF MI N g]
  have s: "still g ?g" unfolding still_def using P fixedpart_white by (auto simp: fixedpart_def)
  have m: "\<forall>b. \<not> white g b \<longrightarrow> \<not> white ?g b" using s by (simp add: still_def)
  have same: "look ?g b = look g b" if "b \<noteq> a" "b \<in> waiting g" for b
    using P that waiting_not_white [OF MI] unfolding fixedpart_def by blast
  have "wkd ?g" if w: "wkd g"
    unfolding wkd_def
  proof
    fix b assume b: "b \<in> set (weak ?g)"
    show "tablelike ?g b \<and> wk_done ?g b"
    proof (cases "b = a")
      case True
      then have "tablelike g a" using b w P unfolding wkd_def by (metis list.set_intros(1))
      then show ?thesis using True P still_kinds(2) [OF s] by blast
    next
      case False
      then have "b \<in> set (weak g)" using b P by auto
      then show ?thesis
        using w wk_done_mono [OF same [OF False] m] still_kinds(2) [OF s] by (auto simp: wkd_def waiting_def)
    qed
  qed
  moreover have "gad ?g" if w: "gad g"
    unfolding gad_def
  proof
    fix b assume b: "b \<in> set (grayagain ?g)"
    show "threadlike ?g b \<and> scanned ?g b"
    proof (cases "b = a")
      case True
      then have "threadlike g a" using b w P unfolding gad_def by (auto split: if_splits)
      then show ?thesis using True P still_kinds(1) [OF s] by auto
    next
      case False
      then have "b \<in> set (grayagain g)" using b P by (auto split: if_splits)
      then show ?thesis
        using w scanned_mono [OF body_same [OF same [OF False]] m] still_kinds(1) [OF s] by (auto simp: gad_def waiting_def)
    qed
  qed
  ultimately show ?thesis using s by blast
qed

lemma propagateall_spec:
  "MI D g \<Longrightarrow> names_ok g \<Longrightarrow>
   MI D (propagateall g) \<and> names_ok (propagateall g) \<and> gray (propagateall g) = [] \<and> still g (propagateall g) \<and>
   (wkd g \<longrightarrow> wkd (propagateall g)) \<and> (gad g \<longrightarrow> gad (propagateall g))"
proof (induction g rule: propagateall.induct)
  case (1 g)
  show ?case
  proof (cases "gray g")
    case Nil
    then show ?thesis using 1 by (simp add: propagateall.simps [of g])
  next
    case (Cons a gs)
    note P = propagatemark_spec [OF "1.prems" Cons] propagatemark_lists [OF "1.prems" Cons]
    have "names_ok (propagatemark g)" using P mframe_names "1.prems"(2) by (auto simp: still_def)
    then show ?thesis
      using "1.IH" P still_trans Cons by (simp add: propagateall.simps [of g]) blast
  qed
qed

section \<open>Finalizers\<close>

lemma MI_lists: "MI D g \<Longrightarrow> look g' = look g \<Longrightarrow> currentwhite g' = currentwhite g \<Longrightarrow> waiting g' = waiting g \<Longrightarrow> MI D g'"
  unfolding MI_def marks_ok_def okay_def white_def black_def body_of_def by simp

definition recolour :: "gcstate \<Rightarrow> gcstate \<Rightarrow> bool" where
  "recolour g g' \<longleftrightarrow> (\<forall>a. rel_option (\<lambda>x x'. body x' = body x \<and> (\<forall>n. n \<noteq> 3 \<longrightarrow> bit (marked x') n = bit (marked x) n)) (look g a) (look g' a))"

lemma recolour_trans: "recolour g g1 \<Longrightarrow> recolour g1 g2 \<Longrightarrow> recolour g g2"
  unfolding recolour_def
proof
  fix a
  assume "\<forall>a. rel_option (\<lambda>x x'. body x' = body x \<and> (\<forall>n. n \<noteq> 3 \<longrightarrow> bit (marked x') n = bit (marked x) n)) (look g a) (look g1 a)"
    and "\<forall>a. rel_option (\<lambda>x x'. body x' = body x \<and> (\<forall>n. n \<noteq> 3 \<longrightarrow> bit (marked x') n = bit (marked x) n)) (look g1 a) (look g2 a)"
  then show "rel_option (\<lambda>x x'. body x' = body x \<and> (\<forall>n. n \<noteq> 3 \<longrightarrow> bit (marked x') n = bit (marked x) n)) (look g a) (look g2 a)"
    by (cases "look g a"; cases "look g1 a"; cases "look g2 a") (force dest: spec [of _ a])+
qed

lemma recolourD:
  assumes "recolour g g'"
  shows "white g' = white g" "black g' = black g" "body_of g' = body_of g"
    "look g' a = Some x' \<Longrightarrow> \<exists>x. look g a = Some x \<and> body x' = body x \<and> (\<forall>n. n \<noteq> 3 \<longrightarrow> bit (marked x') n = bit (marked x) n)"
proof -
  have r: "rel_option (\<lambda>x x'. body x' = body x \<and> (\<forall>n. n \<noteq> 3 \<longrightarrow> bit (marked x') n = bit (marked x) n)) (look g a) (look g' a)" for a
    using assms by (simp add: recolour_def)
  show "white g' = white g"
  proof
    fix a show "white g' a = white g a" using r [of a]
      by (cases "look g a"; cases "look g' a") (simp_all add: white_def iswhite_iff)
  qed
  show "black g' = black g"
  proof
    fix a show "black g' a = black g a" using r [of a]
      by (cases "look g a"; cases "look g' a") (simp_all add: black_def isblack_iff)
  qed
  show "body_of g' = body_of g"
  proof
    fix a show "body_of g' a = body_of g a" using r [of a]
      by (cases "look g a"; cases "look g' a") (simp_all add: body_of_def)
  qed
  show "\<exists>x. look g a = Some x \<and> body x' = body x \<and> (\<forall>n. n \<noteq> 3 \<longrightarrow> bit (marked x') n = bit (marked x) n)" if "look g' a = Some x'"
    using r [of a] that by (cases "look g a") simp_all
qed

lemma recolour_invs:
  assumes "recolour g g'" "currentwhite g' = currentwhite g" "gray g' = gray g" "grayagain g' = grayagain g" "weak g' = weak g"
  shows "MI D g \<Longrightarrow> MI D g'" "wkd g \<Longrightarrow> wkd g'" "gad g \<Longrightarrow> gad g'"
proof -
  note R = recolourD [OF assms(1)]
  have W: "waiting g' = waiting g" by (simp add: waiting_def assms)
  have m: "mark_ok (marked x')" if "marks_ok g" "look g' a = Some x'" for a x'
    using R(4) [OF that(2)] that(1) by (fastforce simp: marks_ok_def mark_ok_def iswhite_iff isblack_iff)
  have d: "\<not> isdead (currentwhite g') (marked x')"
    if "\<forall>a x. look g a = Some x \<longrightarrow> \<not> isdead (currentwhite g) (marked x)" "look g' a = Some x'" for a x'
    using R(4) [OF that(2)] that(1) assms(2) by (fastforce simp: isdead_iff)
  show "MI D g'" if "MI D g"
    unfolding MI_def using that m d unfolding MI_def marks_ok_def okay_def W R(1,2,3) by blast
  show "wkd g'" if "wkd g"
    unfolding wkd_def
  proof
    fix a assume "a \<in> set (weak g')"
    then have a: "tablelike g a" "wk_done g a" using that assms(5) by (auto simp: wkd_def)
    have "wk_done g' a"
      unfolding wk_done_def R(1)
    proof (intro allI impI)
      fix x' mt arr ns assume x': "look g' a = Some x' \<and> body x' = GTable mt arr ns"
      then obtain x where "look g a = Some x" "body x = GTable mt arr ns" "bit (marked x') 4 = bit (marked x) 4" using R(4) [of a x'] by auto
      then show "(\<forall>r \<in> set (orefs mt). \<not> white g r) \<and> (\<not> bit (marked x') 4 \<longrightarrow> (\<forall>r \<in> set (concat (map vrefs arr)). \<not> white g r))"
        using a(2) unfolding wk_done_def by auto
    qed
    then show "tablelike g' a \<and> wk_done g' a" using a(1) by (simp add: tablelike_def R(3))
  qed
  show "gad g'" if "gad g"
    using that unfolding gad_def assms(4) by (simp add: threadlike_def scanned_def R)
qed

definition udatalike :: "gcstate \<Rightarrow> addr \<Rightarrow> bool" where
  "udatalike g a \<longleftrightarrow> (\<exists>mt e. body_of g a = Some (GUdata mt e))"

lemma still_udata: "still g g' \<Longrightarrow> udatalike g a \<Longrightarrow> udatalike g' a"
  using mframe_body [of g g' a] by (auto simp: still_def udatalike_def body_sub_def option_rel_Some1)

lemma recolour_markfinalized: "recolour g (markfinalized a g)"
  unfolding recolour_def
proof
  fix b
  show "rel_option (\<lambda>x x'. body x' = body x \<and> (\<forall>n. n \<noteq> 3 \<longrightarrow> bit (marked x') n = bit (marked x) n)) (look g b) (look (markfinalized a g) b)"
    by (cases "b = a"; cases "look g b") (simp_all add: markfinalized_def look_setmark setbits_def bit_simps bit_bitmask)
qed

lemma recolour_tmudata: "recolour g g' \<Longrightarrow> recolour g (g'\<lparr>tmudata := x\<rparr>)"
  by (simp add: recolour_def)

lemma markfinalized_state: "markfinalized a g = g\<lparr>heap := heap (markfinalized a g)\<rparr>" "length (heap (markfinalized a g)) = length (heap g)"
  unfolding markfinalized_def by (rule heap_setmark) simp

definition separated :: "addr list \<Rightarrow> addr list \<Rightarrow> gcstate \<Rightarrow> gcstate \<Rightarrow> bool" where
  "separated us ks g g' \<longleftrightarrow>
     recolour g g' \<and> g' = g\<lparr>heap := heap g', tmudata := tmudata g'\<rparr> \<and> length (heap g') = length (heap g) \<and>
     (\<exists>new. tmudata g' = tmudata g @ new \<and> set us = set ks \<union> set new \<and> (\<forall>u \<in> set new. udatalike g u))"

lemma separate_loop_spec: "separate_loop all us g = (ks, g') \<Longrightarrow> separated us ks g g'"
proof (induction us arbitrary: g ks g')
  case Nil
  then show ?case by (auto simp: separated_def recolour_def option.rel_refl intro: option.rel_refl)
next
  case (Cons u us)
  let ?f = "markfinalized u g"
  have step: "separated (u # us) ks' g h" if s: "separated us ks0 g1 h" and g1: "recolour g g1" "g1 = g\<lparr>heap := heap g1, tmudata := tmudata g1\<rparr>"
      "length (heap g1) = length (heap g)" and t: "tmudata g1 = tmudata g \<and> ks' = u # ks0 \<or> tmudata g1 = tmudata g @ [u] \<and> ks' = ks0 \<and> udatalike g u"
    for ks0 ks' g1 h
  proof -
    have "h = g1\<lparr>heap := heap h, tmudata := tmudata h\<rparr>" using s by (simp add: separated_def)
    also have "... = (g\<lparr>heap := heap g1, tmudata := tmudata g1\<rparr>)\<lparr>heap := heap h, tmudata := tmudata h\<rparr>" using g1(2) by metis
    finally have "h = g\<lparr>heap := heap h, tmudata := tmudata h\<rparr>" by simp
    moreover obtain new where new: "tmudata h = tmudata g1 @ new" "set us = set ks0 \<union> set new" "\<forall>u \<in> set new. udatalike g1 u"
      using s unfolding separated_def by blast
    have new': "\<forall>u \<in> set new. udatalike g u" using new(3) recolourD(3) [OF g1(1)] by (simp add: udatalike_def)
    have "\<exists>n. tmudata h = tmudata g @ n \<and> set (u # us) = set ks' \<union> set n \<and> (\<forall>u \<in> set n. udatalike g u)"
    proof (cases "tmudata g1 = tmudata g \<and> ks' = u # ks0")
      case True
      then show ?thesis using new new' by (intro exI [of _ new]) auto
    next
      case False
      then show ?thesis using t new new' by (intro exI [of _ "u # new"]) auto
    qed
    ultimately show ?thesis using s g1(1,3) recolour_trans unfolding separated_def by metis
  qed
  obtain ks1 h1 where 1: "separate_loop all us g = (ks1, h1)" by fastforce
  obtain ks2 h2 where 2: "separate_loop all us ?f = (ks2, h2)" by fastforce
  obtain ks3 h3 where 3: "separate_loop all us (?f\<lparr>tmudata := tmudata g @ [u]\<rparr>) = (ks3, h3)" by fastforce
  have gg: "recolour g g" by (simp add: recolour_def option.rel_refl)
  have F: "?f = g\<lparr>heap := heap ?f, tmudata := tmudata ?f\<rparr>" "tmudata ?f = tmudata g"
    using markfinalized_state [of u g] by (metis gcstate.surjective gcstate.update_convs(12) gcstate.update_convs(1)) (simp add: markfinalized_def)
  consider "\<not> (white g u \<or> all) \<or> isfinalized g u" "ks = u # ks1" "g' = h1"
    | "ks = u # ks2" "g' = h2" | "has_gc g u" "ks = ks3" "g' = h3"
    using Cons.prems 1 2 3 by (auto split: if_splits)
  then show ?case
  proof cases
    case 1
    then show ?thesis using step [OF Cons.IH [OF \<open>separate_loop all us g = (ks1, h1)\<close>] gg] by simp
  next
    case 2
    then show ?thesis
      using step [OF Cons.IH [OF \<open>separate_loop all us ?f = (ks2, h2)\<close>] recolour_markfinalized F(1) markfinalized_state(2)] F(2) by simp
  next
    case 3
    then have "udatalike g u" by (auto simp: has_gc_def udatalike_def split: option.splits gbody.splits)
    then show ?thesis
      using step [OF Cons.IH [OF \<open>separate_loop all us (?f\<lparr>tmudata := tmudata g @ [u]\<rparr>) = (ks3, h3)\<close>]
          recolour_tmudata [OF recolour_markfinalized]] 3 markfinalized_state [of u g] by simp
  qed
qed

lemma mark_tm_spec:
  assumes MI: "MI (insert u D) g" and u: "udatalike g u" and cw: "one_white (currentwhite g)"
  shows "MI D (mark_tm u g) \<and> still g (mark_tm u g) \<and> (wkd g \<longrightarrow> wkd (mark_tm u g)) \<and> (gad g \<longrightarrow> gad (mark_tm u g)) \<and>
    \<not> white (mark_tm u g) u"
proof -
  let ?g1 = "setmark u (makewhite (currentwhite g)) g" and ?g2 = "mark_tm u g"
  obtain x where x: "look g u = Some x" using u body_of_look by (fastforce simp: udatalike_def)
  have L: "look ?g1 b = look g b" if "b \<noteq> u" for b using that by (simp add: look_setmark)
  have w1: "white ?g1 u" using x cw by (simp add: white_setmark mark_simps)
  have ok: "marks_ok g" using MI by (simp add: MI_def)
  then have ok1: "marks_ok ?g1" using x cw by (auto simp: marks_ok_def look_setmark mark_simps)
  have "card (whites ?g1) \<le> card {..<length (heap ?g1)}" by (rule card_mono) (auto simp: whites_def dest: white_lt)
  then have "card (whites ?g1) \<le> Suc (length (heap ?g1))" by simp
  from really_mark_ext [OF this w1 ok1]
  have e: "mext {} ?g1 ?g2" "\<not> white ?g2 u" by (simp_all add: mark_tm_def reallymarkobject_def)
  have mono: "\<not> white ?g2 b" if "\<not> white g b" for b
    using that e(2) extD(3) [OF e(1), of b] L [of b] by (cases "b = u") (simp_all add: white_def)
  have same: "look ?g2 b = look g b" if "\<not> white g b" "b \<noteq> u" for b
    using that extD(2) [OF e(1), of b] L [of b] by (simp add: white_def)
  have uw: "u \<notin> waiting g" using MI u unfolding MI_def by (auto simp: udatalike_def listed_def)
  have wt: "waiting g \<subseteq> waiting ?g2" "set (gray ?g2) \<subseteq> waiting ?g2"
    using extD(4-6) [OF e(1)] by (auto simp: waiting_def)
  have new: "okay (waiting ?g2) ?g2 a" if "white ?g1 a" "\<not> white ?g2 a" for a
  proof -
    have "okay (set (gray ?g2)) ?g2 a" using that e(1) unfolding mext_def by blast
    then show ?thesis using wt(2) unfolding okay_def by (meson subsetD)
  qed
  have still: "still g ?g2"
  proof -
    have "mframe g ?g1" by (rule mframe_setmark) (simp add: bit_colours)
    then show ?thesis unfolding still_def using mframe_trans mframe_ext [OF e(1)] mono by blast
  qed
  have M: "MI D ?g2"
    unfolding MI_def
  proof (intro conjI allI impI ballI; (elim conjE)?)
    show "marks_ok ?g2" by (rule ext_marks_ok [OF e(1) ok1])
  next
    fix a y assume a: "look ?g2 a = Some y"
    show "\<not> isdead (currentwhite ?g2) (marked y)"
    proof (cases "white ?g2 a")
      case True
      then have "look ?g1 a = Some y" "a \<noteq> u" using a extD(8) [OF e(1)] e(2) by auto
      then show ?thesis using L [of a] MI extD(7) [OF e(1)] unfolding MI_def by simp
    next
      case False
      then show ?thesis using a dead_white by (auto simp: white_Some)
    qed
  next
    fix a b assume a: "black ?g2 a" "body_of ?g2 a = Some b"
    show "blackable b"
    proof (cases "white ?g1 a")
      case True
      have "\<not> white ?g2 a" using a(1) mark_okD [OF ext_marks_ok [OF e(1) ok1]] by blast
      then show ?thesis using new [OF True] a by (simp add: okay_def)
    next
      case False
      then have "a \<noteq> u" "look ?g2 a = look g a" using w1 extD(2) [OF e(1)] L by metis+
      then show ?thesis using a MI unfolding MI_def black_def body_of_def by metis
    qed
  next
    fix a assume a: "a \<in> waiting ?g2"
    show "\<not> white ?g2 a" "\<exists>b. body_of ?g2 a = Some b \<and> listed b"
    proof -
      have "\<not> white ?g2 a \<and> (\<exists>b. body_of ?g2 a = Some b \<and> listed b)"
      proof (cases "a \<in> waiting g")
        case True
        then have "\<not> white g a" "\<exists>b. body_of g a = Some b \<and> listed b" using MI unfolding MI_def by blast+
        then show ?thesis using mono same [of a] uw True by (metis body_same)
      next
        case False
        then show ?thesis using a extD(9) [OF e(1)] extD(5,6) [OF e(1)] by (auto simp: waiting_def)
      qed
      then show "\<not> white ?g2 a" "\<exists>b. body_of ?g2 a = Some b \<and> listed b" by blast+
    qed
  next
    fix a assume a: "a \<notin> D" "\<not> white ?g2 a"
    show "okay (waiting ?g2) ?g2 a"
    proof (cases "white ?g1 a")
      case True
      then show ?thesis using new a(2) by blast
    next
      case False
      then have n: "a \<noteq> u" using w1 by metis
      then have n: "a \<noteq> u" "\<not> white g a" using False L [of a] by (simp_all add: white_def)
      then have "okay (waiting g) g a" using a(1) MI unfolding MI_def by blast
      then show ?thesis using same [OF n(2,1)] mono wt(1) unfolding okay_def black_def body_of_def by (auto split: if_splits)
    qed
  qed
  have m: "\<forall>b. \<not> white g b \<longrightarrow> \<not> white ?g2 b" using mono by blast
  have G: "weak ?g2 = weak g" "grayagain ?g2 = grayagain g" using extD(5,6) [OF e(1)] by simp_all
  have "wkd ?g2" if "wkd g"
    unfolding wkd_def G
  proof
    fix a assume a: "a \<in> set (weak g)"
    then have n: "a \<noteq> u" "\<not> white g a" using uw waiting_not_white [OF MI] by (auto simp: waiting_def)
    show "tablelike ?g2 a \<and> wk_done ?g2 a"
      using a that wk_done_mono [OF same [OF n(2,1)] m] still_kinds(2) [OF still] by (simp add: wkd_def)
  qed
  moreover have "gad ?g2" if "gad g"
    unfolding gad_def G
  proof
    fix a assume a: "a \<in> set (grayagain g)"
    then have n: "a \<noteq> u" "\<not> white g a" using uw waiting_not_white [OF MI] by (auto simp: waiting_def)
    show "threadlike ?g2 a \<and> scanned ?g2 a"
      using a that scanned_mono [OF body_same [OF same [OF n(2,1)]] m] still_kinds(1) [OF still] by (simp add: gad_def)
  qed
  ultimately show ?thesis using M still e(2) by blast
qed

lemma marktmu_spec:
  "MI (set us \<union> D) g \<Longrightarrow> \<forall>u \<in> set us. udatalike g u \<Longrightarrow> one_white (currentwhite g) \<Longrightarrow>
   MI D (fold mark_tm us g) \<and> still g (fold mark_tm us g) \<and> (wkd g \<longrightarrow> wkd (fold mark_tm us g)) \<and>
   (gad g \<longrightarrow> gad (fold mark_tm us g)) \<and> (\<forall>u \<in> set us. \<not> white (fold mark_tm us g) u)"
proof (induction us arbitrary: g)
  case (Cons u us)
  have "MI (insert u (set us \<union> D)) g" using Cons.prems(1) by simp
  note S = mark_tm_spec [OF this _ Cons.prems(3)]
  have u: "udatalike g u" using Cons.prems(2) by simp
  have "mframe g (mark_tm u g)" using S [OF u] by (simp add: still_def)
  then have c: "one_white (currentwhite (mark_tm u g))" using Cons.prems(3) by (simp add: mframe_fields)
  show ?case
    using Cons.IH [of "mark_tm u g"] S [OF u] c Cons.prems(2) still_udata [of g "mark_tm u g"] still_trans
    by (simp add: still_def) blast
qed simp

section \<open>Clearing the weak tables\<close>

definition keepable :: "gcstate \<Rightarrow> gval \<Rightarrow> bool" where
  "keepable g v \<longleftrightarrow> (\<forall>r \<in> set (vrefs v). (\<exists>s h. body_of g r = Some (GString s h)) \<or> \<not> white g r)"

lemma not_cleared: "\<not> iscleared g v k \<Longrightarrow> keepable g v"
  by (auto simp: keepable_def vrefs_def iscleared_def white_None body_of_def split: gval.splits option.splits gbody.splits)

lemma keepable_ext: "mext {} g g' \<Longrightarrow> keepable g v \<Longrightarrow> keepable g' v"
  unfolding keepable_def using extD(1,3) by metis

lemma keepable_not_cleared: "keepable g k \<Longrightarrow> \<not> iscleared g k True"
  by (auto simp: keepable_def vrefs_def iscleared_def split: gval.splits option.splits gbody.splits)

lemma mark_if_string_ext:
  assumes "marks_ok g"
  shows "mext {} g (mark_if_string v g) \<and> (keepable g v \<longrightarrow> (\<forall>r \<in> set (vrefs v). \<not> white (mark_if_string v g) r))"
proof (cases "\<exists>a s h. v = VRef a \<and> body_of g a = Some (GString s h)")
  case True
  then obtain a s h where a: "v = VRef a" "body_of g a = Some (GString s h)" by blast
  then show ?thesis using stringmark_ext [OF assms, of a] by (simp add: mark_if_string_def is_str_def vrefs_def)
next
  case False
  then have "mark_if_string v g = g" by (auto simp: mark_if_string_def split: gval.split option.split gbody.split)
  then show ?thesis using False by (auto simp: keepable_def vrefs_def split: gval.splits)
qed

lemma mark_node_strings_ext:
  assumes "marks_ok g"
  shows "mext {} g (mark_node_strings (k, v) g) \<and>
    (v \<noteq> VNil \<and> keepable g k \<and> keepable g v \<longrightarrow> (\<forall>r \<in> set (vrefs k @ vrefs v). \<not> white (mark_node_strings (k, v) g) r))"
proof -
  let ?g1 = "mark_if_string k g" and ?g2 = "mark_if_string v (mark_if_string k g)"
  have 1: "mext {} g ?g1" "keepable g k \<longrightarrow> (\<forall>r \<in> set (vrefs k). \<not> white ?g1 r)" using mark_if_string_ext [OF assms] by blast+
  have 2: "mext {} ?g1 ?g2" "keepable ?g1 v \<longrightarrow> (\<forall>r \<in> set (vrefs v). \<not> white ?g2 r)"
    using mark_if_string_ext [OF ext_marks_ok [OF 1(1) assms]] by blast+
  have e: "mark_node_strings (k, v) g = (if v = VNil \<or> iscleared g k True then g else ?g2)" by (simp add: mark_node_strings_def)
  show ?thesis
    using ext_trans [OF 1(1) 2(1)] 1(2) 2(2) keepable_ext [OF 1(1)] keepable_not_cleared extD(3) [OF 2(1)] unfolding e by auto
qed

lemma fold_keeps:
  assumes "\<And>g x. marks_ok g \<Longrightarrow> mext {} g (f x g) \<and> (K g x \<longrightarrow> (\<forall>r \<in> set (R x). \<not> white (f x g) r))"
    and "\<And>g g' x. mext {} g g' \<Longrightarrow> K g x \<Longrightarrow> K g' x"
  shows "marks_ok g \<Longrightarrow> mext {} g (fold f xs g) \<and> (\<forall>x \<in> set xs. K g x \<longrightarrow> (\<forall>r \<in> set (R x). \<not> white (fold f xs g) r))"
proof (induction xs arbitrary: g)
  case (Cons x xs)
  have 1: "mext {} g (f x g)" "K g x \<longrightarrow> (\<forall>r \<in> set (R x). \<not> white (f x g) r)" using assms(1) [OF Cons.prems] by blast+
  have 2: "mext {} (f x g) (fold f xs (f x g))"
    "\<forall>y \<in> set xs. K (f x g) y \<longrightarrow> (\<forall>r \<in> set (R y). \<not> white (fold f xs (f x g)) r)"
    using Cons.IH [OF ext_marks_ok [OF 1(1) Cons.prems]] by blast+
  have "mext {} g (fold f xs (f x g))" by (rule ext_trans [OF 1(1) 2(1)])
  then show ?case using 1(2) 2(2) extD(3) [OF 2(1)] assms(2) [OF 1(1)] by auto
qed simp

lemma fold_gray: "(\<And>x g. gray (f x g) = gray g \<and> weak (f x g) = weak g) \<Longrightarrow> gray (fold f xs g) = gray g \<and> weak (fold f xs g) = weak g"
  by (induction xs arbitrary: g) simp_all

lemma string_lists: "gray (mark_if_string v g) = gray g \<and> weak (mark_if_string v g) = weak g"
  by (auto simp: mark_if_string_def stringmark_def split: gval.split option.split gbody.split)

lemma node_lists: "gray (mark_node_strings n g) = gray g \<and> weak (mark_node_strings n g) = weak g"
  by (cases n) (simp add: mark_node_strings_def string_lists)

definition node_keeps :: "gcstate \<Rightarrow> gval \<times> gval \<Rightarrow> bool" where
  "node_keeps g n \<longleftrightarrow> snd n \<noteq> VNil \<and> keepable g (fst n) \<and> keepable g (snd n)"

text \<open>After \<open>cleartable\<close> on the tables of \<open>S\<close> every marked object refers to marked ones only.\<close>

definition clean :: "addr set \<Rightarrow> gcstate \<Rightarrow> bool" where
  "clean S g \<longleftrightarrow>
     colours_ok g \<and> gray g = [] \<and> (\<forall>a \<in> S. \<not> white g a \<and> tablelike g a \<and> wk_done g a) \<and> (\<forall>a. \<not> white g a \<and> a \<notin> S \<longrightarrow> scanned g a)"

lemma cleartable_spec:
  assumes "clean (insert t S) g"
  shows "clean (S - {t}) (cleartable t g) \<and> still g (cleartable t g) \<and> weak (cleartable t g) = weak g"
proof -
  have ok: "marks_ok g" and wt: "\<not> white g t" and wk: "wk_done g t" and tt: "tablelike g t"
    using assms by (auto simp: clean_def colours_ok_def)
  obtain mt arr ns where "body_of g t = Some (GTable mt arr ns)" using tt by (auto simp: tablelike_def)
  then obtain x where x: "look g t = Some x" "body x = GTable mt arr ns" using body_of_look by blast
  let ?vw = "testbit (marked x) VALUEWEAKBIT"
  define arr' where "arr' = (if ?vw then map (\<lambda>v. if iscleared g v False then VNil else v) arr else arr)"
  define g1 where "g1 = (if ?vw then fold mark_if_string (rev arr) g else g)"
  define g2 where "g2 = fold mark_node_strings (rev ns) g1"
  define ns' where "ns' = map (clear_node g) ns"
  have c: "cleartable t g = setbody t (GTable mt arr' ns') g2"
    by (simp add: cleartable_def x Let_def arr'_def g1_def g2_def ns'_def)
  have 1: "mext {} g g1" "?vw \<longrightarrow> (\<forall>v \<in> set arr. keepable g v \<longrightarrow> (\<forall>r \<in> set (vrefs v). \<not> white g1 r))"
    using fold_keeps [of mark_if_string keepable vrefs g "rev arr", OF mark_if_string_ext keepable_ext ok] unfolding g1_def by auto
  have ok1: "marks_ok g1" by (rule ext_marks_ok [OF 1(1) ok])
  have nk: "node_keeps g' n" if "mext {} g g'" "node_keeps g n" for g g' n using that keepable_ext by (auto simp: node_keeps_def)
  have ns: "marks_ok g \<Longrightarrow> mext {} g (mark_node_strings n g) \<and>
      (node_keeps g n \<longrightarrow> (\<forall>r \<in> set ((\<lambda>(k, v). vrefs k @ vrefs v) n). \<not> white (mark_node_strings n g) r))" for g n
    using mark_node_strings_ext [of g "fst n" "snd n"] by (cases n) (simp add: node_keeps_def)
  have 2: "mext {} g1 g2" "\<forall>n \<in> set ns. node_keeps g1 n \<longrightarrow> (\<forall>r \<in> set ((\<lambda>(k, v). vrefs k @ vrefs v) n). \<not> white g2 r)"
    using fold_keeps [of mark_node_strings node_keeps "\<lambda>(k, v). vrefs k @ vrefs v" g1 "rev ns", OF ns nk ok1] unfolding g2_def by auto
  have e: "mext {} g g2" by (rule ext_trans [OF 1(1) 2(1)])
  have lists: "gray g2 = gray g" "weak g2 = weak g"
    using fold_gray [of mark_if_string, OF string_lists] fold_gray [of mark_node_strings, OF node_lists]
    by (simp_all add: g2_def g1_def)
  have gray: "gray g = []" using assms by (simp add: clean_def)
  have L2: "look g2 t = Some x" using extD(2) [OF e wt] x by simp
  have W: "white (cleartable t g) = white g2" by (simp add: c)
  have mono: "\<forall>b. \<not> white g b \<longrightarrow> \<not> white (cleartable t g) b" using extD(3) [OF e] W by simp
  have B: "body_of (cleartable t g) b = (if b = t then Some (GTable mt arr' ns') else body_of g2 b)" for b
    using L2 by (simp add: c body_of_def look_setbody)
  have mtw: "\<forall>r \<in> set (orefs mt). \<not> white g2 r" using wk x extD(3) [OF e] unfolding wk_done_def by blast
  have arrw: "\<forall>r \<in> set (concat (map vrefs arr')). \<not> white g2 r"
  proof (cases ?vw)
    case True
    show ?thesis
    proof
      fix r assume "r \<in> set (concat (map vrefs arr'))"
      then obtain v where v: "v \<in> set arr" "\<not> iscleared g v False" "r \<in> set (vrefs v)"
        using True by (auto simp: arr'_def vrefs_def split: if_splits)
      then have "\<not> white g1 r" using 1(2) True not_cleared by blast
      then show "\<not> white g2 r" by (rule extD(3) [OF 2(1)])
    qed
  next
    case False
    then have "\<not> bit (marked x) 4" by (simp add: testbit_iff)
    then have "\<forall>r \<in> set (concat (map vrefs arr)). \<not> white g r" using wk x unfolding wk_done_def by blast
    then show ?thesis using False extD(3) [OF e] by (simp add: arr'_def)
  qed
  have nsw: "\<forall>r \<in> set (concat (map (node_refs False False) ns')). \<not> white g2 r"
  proof
    fix r assume "r \<in> set (concat (map (node_refs False False) ns'))"
    then obtain k v where n: "(k, v) \<in> set ns" "r \<in> set (node_refs False False (clear_node g (k, v)))"
      by (auto simp: ns'_def)
    then have kv: "v \<noteq> VNil" "\<not> iscleared g k True" "\<not> iscleared g v False" "r \<in> set (vrefs k @ vrefs v)"
      by (auto simp: clear_node_def node_refs_def split: if_splits)
    then have "node_keeps g (k, v)" using not_cleared by (auto simp: node_keeps_def)
    then have "node_keeps g1 (k, v)" by (rule nk [OF 1(1)])
    then show "\<not> white g2 r" using 2(2) n(1) kv(4) by fastforce
  qed
  have scanned: "scanned (cleartable t g) t"
    using mtw arrw nsw unfolding scanned_def B W by (simp only: option.inject if_True set_table_refs ball_Un simp_thms)
  have look: "look (cleartable t g) b = look g b" if "b \<noteq> t" "\<not> white g b" for b
    using that extD(2) [OF e] by (simp add: c look_setbody)
  have "clean (S - {t}) (cleartable t g)"
    unfolding clean_def
  proof (intro conjI ballI allI impI)
    have c2: "colours_ok g2" using colours_ext [OF _ e] assms by (simp add: clean_def)
    have cw: "currentwhite (cleartable t g) = currentwhite g2" by (simp add: c)
    have l: "\<exists>y. look g2 a = Some y \<and> marked x = marked y" if "look (cleartable t g) a = Some x" for a x
      using that by (auto simp: c look_setbody split: if_splits)
    have bl: "black (cleartable t g) a = black g2 a" for a by (simp add: black_def c look_setbody split: option.split)
    have "blackable b" if "black g2 a" "body_of (cleartable t g) a = Some b" for a b
    proof (cases "a = t")
      case True
      then show ?thesis using that(2) by (auto simp: B blackable_def)
    next
      case False
      then show ?thesis using that c2 by (auto simp: B colours_ok_def)
    qed
    then show "colours_ok (cleartable t g)"
      using c2 l unfolding colours_ok_def marks_ok_def bl cw by metis
    show "gray (cleartable t g) = []" using lists(1) gray by (simp add: c)
  next
    fix a assume a: "a \<in> S - {t}"
    then have g: "\<not> white g a" "tablelike g a" "wk_done g a" using assms by (auto simp: clean_def)
    have l: "look (cleartable t g) a = look g a" using a g(1) look by blast
    show "\<not> white (cleartable t g) a" using mono g(1) by blast
    show "wk_done (cleartable t g) a" by (rule wk_done_mono [OF l mono g(3)])
    show "tablelike (cleartable t g) a" using g(2) body_same [OF l] by (simp add: tablelike_def)
  next
    fix a assume a: "\<not> white (cleartable t g) a \<and> a \<notin> S - {t}"
    show "scanned (cleartable t g) a"
    proof (cases "a = t")
      case True
      then show ?thesis using scanned by simp
    next
      case False
      show ?thesis
      proof (cases "white g a")
        case False
        then have "scanned g a" using a \<open>a \<noteq> t\<close> assms by (simp add: clean_def)
        then show ?thesis using scanned_mono [OF body_same [OF look] mono] \<open>a \<noteq> t\<close> False by blast
      next
        case True
        have o: "okay (set (gray g2)) g2 a" using True a W e unfolding mext_def by auto
        have "scanned g2 a"
          unfolding scanned_def
        proof (intro allI impI)
          fix b assume b: "body_of g2 a = Some b"
          then have "black g2 a \<and> (\<forall>r \<in> set (refs b). \<not> white g2 r) \<or> leaf b"
            using o lists(1) gray by (auto simp: okay_def split: if_splits)
          moreover have "refs b = []" if "leaf b" using that by (auto simp: leaf_def refs_def split: gbody.splits)
          ultimately show "\<forall>r \<in> set (refs b). \<not> white g2 r" by auto
        qed
        then show ?thesis using \<open>a \<noteq> t\<close> by (simp add: scanned_def B W)
      qed
    qed
  qed
  moreover have "still g (cleartable t g)"
  proof -
    have b: "body_of g2 t = Some (GTable mt arr ns)" using L2 x by (simp add: body_of_def)
    have "set (concat (map vrefs arr')) \<subseteq> set (concat (map vrefs arr))" by (auto simp: arr'_def vrefs_def split: if_splits)
    moreover have "set (concat (map (node_refs False False) ns')) \<subseteq> set (concat (map (node_refs False False) ns))"
      by (fastforce simp: ns'_def clear_node_def node_refs_def split: if_splits)
    ultimately have "set (refs (GTable mt arr' ns')) \<subseteq> set (refs (GTable mt arr ns))" unfolding set_table_refs by blast
    moreover have "set (krefs (GTable mt arr' ns')) \<subseteq> set (krefs (GTable mt arr ns))"
      by (fastforce simp: krefs_def ns'_def clear_node_def removeentry_def vrefs_def split: if_splits gval.splits)
    ultimately have "body_sub (GTable mt arr ns) (GTable mt arr' ns')" unfolding body_sub_def by blast
    then have "mframe g2 (cleartable t g)" unfolding c by (rule mframe_setbody [OF b])
    then show ?thesis using mframe_trans [OF mframe_ext [OF e]] mono unfolding still_def by blast
  qed
  ultimately show ?thesis using lists by (simp add: c)
qed

section \<open>The atomic step\<close>

lemma recolour_hframe: "recolour g g' \<Longrightarrow> length (heap g') = length (heap g) \<Longrightarrow> hframe g g'"
  unfolding hframe_def
proof (intro conjI allI)
  fix a assume r: "recolour g g'"
  have "rel_option (\<lambda>x x'. body x' = body x \<and> (\<forall>n. n \<noteq> 3 \<longrightarrow> bit (marked x') n = bit (marked x) n)) (look g a) (look g' a)"
    using r by (simp add: recolour_def)
  then show "same_kind (look g a) (look g' a)"
    unfolding same_kind_def by (rule option.rel_mono_strong) auto
qed

interpretation remark: marking remark_one "\<lambda>u. []" "\<lambda>g u. True"
proof
  show "mext {} g (remark_one u g) \<and> (\<forall>r \<in> set []. \<not> white (remark_one u g) r)" if "marks_ok g" for g u
    using val.marks [OF that TrueI] by (auto simp: remark_one_def split: option.split gbody.split)
qed simp

lemma markmt_ext: "marks_ok g \<Longrightarrow> mext {} g (markmt g) \<and> (\<forall>r \<in> set (concat (map orefs (basic_mt g))). \<not> white (markmt g) r)"
  using opt.fold_marks [of g "basic_mt g"] by (simp add: markmt_def)

lemma clear_weak: "clean (set ts) g \<Longrightarrow> clean {} (fold cleartable ts g) \<and> still g (fold cleartable ts g)"
proof (induction ts arbitrary: g)
  case (Cons t ts)
  have "clean (insert t (set ts)) g" using Cons.prems by simp
  note C = cleartable_spec [OF this]
  show ?case
  proof (cases "t \<in> set ts")
    case True
    note C' = cleartable_spec [of t "set ts" g]
    have c: "clean (set ts - {t}) (cleartable t g)" "still g (cleartable t g)" using C by blast+
    have "clean (set ts) (cleartable t g)"
    proof -
      have s: "scanned (cleartable t g) t" "\<not> white (cleartable t g) t" "tablelike (cleartable t g) t"
        using c Cons.prems still_kinds(2) [OF c(2)] unfolding clean_def still_def by auto
      then have "wk_done (cleartable t g) t" using scanned_wk by blast
      then show ?thesis using c(1) s unfolding clean_def by blast
    qed
    then show ?thesis using Cons.IH c(2) still_trans by auto
  next
    case False
    then show ?thesis using C Cons.IH [of "cleartable t g"] still_trans by auto
  qed
qed simp

lemma MI_clean:
  assumes "MI {} g" "wkd g" "gad g" "gray g = []"
  shows "clean (set (weak g)) g"
  unfolding clean_def
proof (intro conjI ballI allI impI)
  show "colours_ok g" "gray g = []" using assms MI_colours by blast+
next
  fix a assume a: "a \<in> set (weak g)"
  show "\<not> white g a" using a waiting_not_white [OF assms(1)] by (simp add: waiting_def)
  show "tablelike g a" "wk_done g a" using a assms(2) by (simp_all add: wkd_def)
next
  fix a assume a: "\<not> white g a \<and> a \<notin> set (weak g)"
  have o: "okay (waiting g) g a" using a assms(1) unfolding MI_def by blast
  show "scanned g a"
    unfolding scanned_def
  proof (intro allI impI)
    fix b assume b: "body_of g a = Some b"
    have "refs b = []" if "leaf b" using that by (auto simp: leaf_def refs_def split: gbody.splits)
    then show "\<forall>r \<in> set (refs b). \<not> white g r"
      using o a assms(3,4) b by (auto simp: okay_def waiting_def gad_def scanned_def split: if_splits)
  qed
qed

text \<open>The state before the white is flipped.\<close>

definition atomic_marks :: "gcstate \<Rightarrow> gcstate" where
  "atomic_marks g =
     (let g1 = propagateall (remarkupvals g);
          g2 = propagateall (markmt (markobject (mainthread g1) (g1\<lparr>gray := weak g1, weak := []\<rparr>)));
          g3 = propagateall (g2\<lparr>gray := grayagain g2, grayagain := []\<rparr>);
          g4 = propagateall (marktmu (luaC_separateudata False g3))
      in fold cleartable (weak g4) g4)"

lemma atomic_flip:
  "atomic g = (atomic_marks g)\<lparr>currentwhite := otherwhite (currentwhite (atomic_marks g)), sweepstrgc := 0,
     sweepgc := None, phase := GCSsweepstring\<rparr>"
  by (simp add: atomic_def atomic_marks_def Let_def)

lemma waiting_gray [simp]: "waiting (g\<lparr>gray := weak g, weak := []\<rparr>) = set (grayagain g) \<union> set (weak g)"
  "waiting (g\<lparr>gray := grayagain g, grayagain := []\<rparr>) = set (grayagain g) \<union> set (weak g)"
  by (auto simp: waiting_def)

lemma still_lists [simp]: "still g (g\<lparr>gray := x, weak := y\<rparr>)" "still g (g\<lparr>gray := x, grayagain := y\<rparr>)"
proof -
  have "mframe g (g\<lparr>gray := x, weak := y\<rparr>)" "mframe g (g\<lparr>gray := x, grayagain := y\<rparr>)"
    by (rule mframe_trans [of _ "g\<lparr>gray := x\<rparr>"]; simp)+
  then show "still g (g\<lparr>gray := x, weak := y\<rparr>)" "still g (g\<lparr>gray := x, grayagain := y\<rparr>)" by (simp_all add: still_def)
qed

lemma still_names: "still g g' \<Longrightarrow> names_ok g \<Longrightarrow> names_ok g'"
  unfolding still_def using mframe_names by blast

text \<open>The three passes before the finalizers are looked at.\<close>

lemma atomic_first:
  assumes M: "MI D g" and N: "names_ok g"
  defines "g1 \<equiv> propagateall (remarkupvals g)"
  defines "g2 \<equiv> propagateall (markmt (markobject (mainthread g1) (g1\<lparr>gray := weak g1, weak := []\<rparr>)))"
  defines "g3 \<equiv> propagateall (g2\<lparr>gray := grayagain g2, grayagain := []\<rparr>)"
  shows "MI D g3 \<and> gray g3 = [] \<and> wkd g3 \<and> gad g3 \<and> still g g3 \<and> (\<forall>r \<in> set (concat (map orefs (basic_mt g))). \<not> white g3 r)"
proof -
  have ok: "marks_ok g" using M by (simp add: MI_def)
  have e0: "mext {} g (remarkupvals g)" using remark.fold_marks [OF ok] by (simp add: remarkupvals_def)
  have s0: "still g (remarkupvals g)" by (rule still_ext [OF e0])
  note P1 = propagateall_spec [OF MI_ext [OF M e0] still_names [OF s0 N]]
  have 1: "MI D g1" "names_ok g1" "gray g1 = []" "still g g1" using P1 still_trans [OF s0] by (simp_all add: g1_def)
  let ?k1 = "g1\<lparr>gray := weak g1, weak := []\<rparr>" and ?k2 = "markobject (mainthread g1) (g1\<lparr>gray := weak g1, weak := []\<rparr>)"
  let ?k3 = "markmt ?k2"
  have K1: "MI D ?k1" by (rule MI_lists [OF 1(1)]) (use 1(3) in \<open>auto simp: waiting_def\<close>)
  have okk: "marks_ok ?k1" using K1 by (simp add: MI_def)
  have e1: "mext {} ?k1 ?k2" using object.marks [OF okk TrueI] by blast
  have e2: "mext {} ?k2 ?k3" "\<forall>r \<in> set (concat (map orefs (basic_mt ?k2))). \<not> white ?k3 r"
    using markmt_ext [OF ext_marks_ok [OF e1 okk]] by blast+
  have e: "mext {} ?k1 ?k3" by (rule ext_trans [OF e1 e2(1)])
  have s3: "still g1 ?k3" by (rule still_trans [OF _ still_ext [OF e]]) simp
  have w3: "wkd ?k3" using ext_lists [OF K1 e] by (simp add: wkd_def)
  note P2 = propagateall_spec [OF MI_ext [OF K1 e] still_names [OF s3 1(2)]]
  have 2: "MI D g2" "names_ok g2" "gray g2 = []" "still ?k3 g2" "wkd g2" using P2 w3 by (simp_all add: g2_def)
  have sg2: "still g g2" by (rule still_trans [OF still_trans [OF 1(4) s3] 2(4)])
  let ?k4 = "g2\<lparr>gray := grayagain g2, grayagain := []\<rparr>"
  have K4: "MI D ?k4" by (rule MI_lists [OF 2(1)]) (use 2(3) in \<open>auto simp: waiting_def\<close>)
  have N4: "names_ok ?k4" by (rule still_names [OF _ 2(2)]) simp
  have w4: "wkd ?k4" using 2(5) unfolding wkd_def by (auto simp: wk_done_def tablelike_def body_of_def)
  have g4: "gad ?k4" by (simp add: gad_def)
  note P3 = propagateall_spec [OF K4 N4]
  have 3: "MI D g3" "gray g3 = []" "still ?k4 g3" "wkd g3" "gad g3" using P3 w4 g4 by (simp_all add: g3_def)
  have s23: "still g2 g3" by (rule still_trans [OF _ 3(3)]) simp
  have "basic_mt ?k2 = basic_mt g"
    using 1(4) mframe_fields(9) [OF mframe_ext [OF e1]] by (simp add: still_def mframe_fields)
  then have "\<forall>r \<in> set (concat (map orefs (basic_mt g))). \<not> white g3 r"
    using e2(2) 2(4) s23 unfolding still_def by simp
  then show ?thesis using 3 still_trans [OF sg2 s23] by blast
qed

lemma atomic_marks_spec:
  assumes M: "MI (set (tmudata g)) g" and N: "names_ok g" and u: "\<forall>u \<in> set (tmudata g). udatalike g u"
    and cw: "one_white (currentwhite g)" and root: "\<not> white g (mainthread g)" "\<forall>r \<in> set (vrefs (registry g)). \<not> white g r"
    and mt: "mainthread g \<in> set (rootgc g)"
  defines "g' \<equiv> atomic_marks g"
  shows "clean {} g' \<and> hframe g g' \<and> (\<forall>r \<in> set (roots g') \<union> set (tmudata g'). \<not> white g' r) \<and> (\<forall>u \<in> set (tmudata g'). udatalike g' u) \<and>
    set (rootgc g) \<union> set (tmudata g) \<subseteq> set (rootgc g') \<union> set (tmudata g') \<and> mainthread g' \<in> set (rootgc g') \<and>
    currentwhite g' = currentwhite g \<and> strt_hash g' = strt_hash g \<and> openupval g' = openupval g \<and> mainthread g' = mainthread g \<and>
    registry g' = registry g \<and> basic_mt g' = basic_mt g"
proof -
  define g1 where "g1 = propagateall (remarkupvals g)"
  define g2 where "g2 = propagateall (markmt (markobject (mainthread g1) (g1\<lparr>gray := weak g1, weak := []\<rparr>)))"
  define g3 where "g3 = propagateall (g2\<lparr>gray := grayagain g2, grayagain := []\<rparr>)"
  define s where "s = luaC_separateudata False g3"
  define k where "k = marktmu s"
  define g4 where "g4 = propagateall k"
  have g': "g' = fold cleartable (weak g4) g4"
    by (simp add: g'_def atomic_marks_def Let_def g4_def k_def s_def g3_def g2_def g1_def)
  have F: "MI (set (tmudata g)) g3" "gray g3 = []" "wkd g3" "gad g3" "still g g3"
    "\<forall>r \<in> set (concat (map orefs (basic_mt g))). \<not> white g3 r"
    using atomic_first [OF M N] unfolding g3_def g2_def g1_def by blast+
  have f3: "mframe g g3" using F(5) by (simp add: still_def)
  note fields3 = mframe_fields [OF f3]
  obtain ks h where h: "separate_loop False (udata_list g3) g3 = (ks, h)" by fastforce
  note S = separate_loop_spec [OF h]
  have s: "s = h\<lparr>rootgc := before_udata g3 @ ks\<rparr>" by (simp add: s_def luaC_separateudata_def h)
  have H: "h = g3\<lparr>heap := heap h, tmudata := tmudata h\<rparr>" using S by (simp add: separated_def)
  have hf: "currentwhite h = currentwhite g3" "gray h = gray g3" "grayagain h = grayagain g3" "weak h = weak g3"
    "strt_hash h = strt_hash g3" "openupval h = openupval g3" "mainthread h = mainthread g3" "registry h = registry g3"
    "basic_mt h = basic_mt g3"
    by (subst H, simp)+
  have r: "recolour g3 s" using S by (simp add: s separated_def recolour_def)
  have lens: "length (heap s) = length (heap g3)" using S by (simp add: s separated_def)
  obtain new where new: "tmudata s = tmudata g @ new" "set (udata_list g3) = set ks \<union> set new" "\<forall>u \<in> set new. udatalike g3 u"
    using S fields3(2) by (auto simp: separated_def s)
  have us: "\<forall>u \<in> set (tmudata s). udatalike s u"
    using new u still_udata [OF F(5)] recolourD(3) [OF r] by (auto simp: udatalike_def)
  have Ms: "MI (set (tmudata s) \<union> {}) s" "wkd s" "gad s"
    using recolour_invs [OF r] F(1,3,4) hf MI_mono new(1) by (auto simp: s)
  have cws: "one_white (currentwhite s)" using cw hf fields3(1) by (simp add: s)
  note K = marktmu_spec [OF Ms(1) us cws]
  have Ns: "names_ok s" by (rule hframe_names [OF recolour_hframe [OF r lens] still_names [OF F(5) N]])
  have k: "MI {} k" "still s k" "wkd k" "gad k" "\<forall>u \<in> set (tmudata s). \<not> white k u"
    using K Ms(2,3) by (simp_all add: k_def marktmu_def)
  note P = propagateall_spec [OF k(1) still_names [OF k(2) Ns]]
  have 4: "MI {} g4" "gray g4 = []" "still k g4" "wkd g4" "gad g4" using P k by (simp_all add: g4_def)
  note C = clear_weak [OF MI_clean [OF 4(1,4,5,2)]]
  have s4: "still s g'" using still_trans [OF still_trans [OF k(2) 4(3)]] C by (simp add: g')
  have sk: "still k g'" using still_trans [OF 4(3)] C by (simp add: g')
  have s4g: "still g4 g'" using C by (simp add: g')
  have f4: "mframe s g'" using s4 by (simp add: still_def)
  note fields4 = mframe_fields [OF f4]
  have mono: "\<not> white g' a" if "\<not> white g3 a" for a using that s4 recolourD(1) [OF r] by (simp add: still_def)
  have mono0: "\<not> white g' a" if "\<not> white g a" for a using that mono F(5) by (simp add: still_def)
  have "hframe g g'"
    using hframe_trans [OF hframe_trans [OF mframe_hframe [OF f3] recolour_hframe [OF r lens]] mframe_hframe [OF f4]] .
  moreover have "\<forall>r \<in> set (roots g') \<union> set (tmudata g'). \<not> white g' r"
  proof -
    have "\<forall>r \<in> set (concat (map orefs (basic_mt g))). \<not> white g' r" using F(6) mono by blast
    moreover have "\<forall>r \<in> set (tmudata s). \<not> white g' r" using k(5) sk by (simp add: still_def)
    ultimately show ?thesis using root mono0 fields4 fields3 hf by (auto simp: roots_def s)
  qed
  moreover have "set (rootgc g) \<union> set (tmudata g) \<subseteq> set (rootgc g') \<union> set (tmudata g')"
  proof -
    have "rootgc g3 = before_udata g3 @ udata_list g3" using mt fields3 by (intro split_udata) simp
    then have "set (rootgc g3) = set (before_udata g3) \<union> set (udata_list g3)" by (metis set_append)
    then show ?thesis using new fields4 fields3 by (auto simp: s)
  qed
  moreover have "mainthread g' \<in> set (rootgc g')" using fields4 hf by (simp add: s before_udata_def)
  moreover have "\<forall>u \<in> set (tmudata g'). udatalike g' u" using us still_udata [OF s4] fields4 by simp
  moreover have "clean {} g'" using C by (simp add: g')
  ultimately show ?thesis using fields3 fields4 hf by (simp add: s)
qed

end
