(* ===== verification/Lua_GC_Inv.thy ===== *)
theory Lua_GC_Inv
  imports Lua_GC_Atomic
begin

text \<open>
  The invariant of the whole collector and the steps of the sweep (src/lib/lua/lgc.c). An object is alive when it
  exists and is not marked dead. What is alive refers only to what is alive (\<open>core\<close>), every object is in
  one of the lists the sweep goes through (\<open>cover\<close>), and each phase has a condition of its own.
\<close>

section \<open>The invariant\<close>

definition alive :: "gcstate \<Rightarrow> addr \<Rightarrow> bool" where
  "alive g a \<longleftrightarrow> (\<exists>x. look g a = Some x \<and> \<not> isdead (currentwhite g) (marked x))"

definition swept :: "gcstate \<Rightarrow> addr \<Rightarrow> bool" where
  "swept g a \<longleftrightarrow> (\<forall>x. look g a = Some x \<longrightarrow> iswhite (marked x) \<and> \<not> isdead (currentwhite g) (marked x))"

text \<open>The mask of the current white has one white and, beyond, at most the bit of fixed objects.\<close>

definition mask_ok :: "lu_byte \<Rightarrow> bool" where
  "mask_ok cw \<longleftrightarrow> one_white cw \<and> (\<forall>n \<ge> 2. bit cw n \<longrightarrow> n = FIXEDBIT)"

definition blacks_ok :: "gcstate \<Rightarrow> bool" where
  "blacks_ok g \<longleftrightarrow> (\<forall>a b. black g a \<and> body_of g a = Some b \<longrightarrow> blackable b)"

definition fixed_ok :: "gcstate \<Rightarrow> bool" where
  "fixed_ok g \<longleftrightarrow>
     (\<forall>a x. look g a = Some x \<and> bit (marked x) FIXEDBIT \<longrightarrow> a = mainthread g \<or> (\<exists>s h. body x = GString s h))"

definition kinds_ok :: "gcstate \<Rightarrow> bool" where
  "kinds_ok g \<longleftrightarrow>
     threadlike g (mainthread g) \<and> (\<forall>a. threadlike g a \<longrightarrow> a = mainthread g) \<and> (\<forall>u \<in> set (tmudata g). udatalike g u)"

definition closed :: "gcstate \<Rightarrow> bool" where
  "closed g \<longleftrightarrow> (\<forall>a b. alive g a \<and> body_of g a = Some b \<longrightarrow> (\<forall>r \<in> set (refs b). alive g r))"

definition rooted :: "gcstate \<Rightarrow> bool" where
  "rooted g \<longleftrightarrow> (\<forall>r \<in> set (roots g) \<union> set (tmudata g). alive g r)"

definition core :: "gcstate \<Rightarrow> bool" where
  "core g \<longleftrightarrow>
     mask_ok (currentwhite g) \<and> marks_ok g \<and> blacks_ok g \<and> fixed_ok g \<and> kinds_ok g \<and> names_ok g \<and> closed g \<and> rooted g"

definition cover :: "gcstate \<Rightarrow> bool" where
  "cover g \<longleftrightarrow>
     mainthread g \<in> set (rootgc g) \<and> (\<exists>k \<le> 31. length (strt_hash g) = 2 ^ k) \<and>
     (\<forall>a. look g a \<noteq> None \<longrightarrow> a \<in> set (rootgc g) \<union> set (strings g) \<union> set (openupval g) \<union> set (tmudata g))"

definition rest_ok :: "gcstate \<Rightarrow> bool" where
  "rest_ok g \<longleftrightarrow> (\<forall>a. a \<notin> set (tmudata g) \<longrightarrow> swept g a)"

definition marking_ok :: "gcstate \<Rightarrow> bool" where
  "marking_ok g \<longleftrightarrow>
     MI (set (tmudata g)) g \<and> \<not> white g (mainthread g) \<and> (\<forall>r \<in> set (vrefs (registry g)). \<not> white g r)"

definition sweep1_ok :: "gcstate \<Rightarrow> bool" where
  "sweep1_ok g \<longleftrightarrow>
     sweepstrgc g < length (strt_hash g) \<and> sweepgc g = None \<and> (\<forall>i < sweepstrgc g. \<forall>a \<in> set (strt_hash g ! i). swept g a)"

definition sweep2_ok :: "gcstate \<Rightarrow> bool" where
  "sweep2_ok g \<longleftrightarrow>
     (\<forall>a \<in> set (strings g) \<union> set (root_before g). swept g a) \<and>
     (mainthread g \<in> set (root_before g) \<longrightarrow> (\<forall>a \<in> set (openupval g). swept g a)) \<and>
     (\<forall>s. sweepgc g = Some s \<longrightarrow> s \<in> set (rootgc g))"

definition phase_ok :: "gcstate \<Rightarrow> bool" where
  "phase_ok g \<longleftrightarrow>
     (case phase g of GCSpause \<Rightarrow> rest_ok g | GCSpropagate \<Rightarrow> marking_ok g | GCSsweepstring \<Rightarrow> sweep1_ok g
      | GCSsweep \<Rightarrow> sweep2_ok g | GCSfinalize \<Rightarrow> rest_ok g)"

definition gc_inv :: "gcstate \<Rightarrow> bool" where
  "gc_inv g \<longleftrightarrow> core g \<and> cover g \<and> phase_ok g"

lemma reachable_alive: "reachable g a \<Longrightarrow> core g \<Longrightarrow> alive g a"
proof (induction rule: reachable.induct)
  case (root a)
  then show ?case by (simp add: core_def rooted_def)
next
  case (ref a b r)
  then show ?case unfolding core_def closed_def by blast
qed

section \<open>Sweeping one object\<close>

definition swp :: "gcstate \<Rightarrow> gcstate \<Rightarrow> bool" where
  "swp g g' \<longleftrightarrow>
     length (heap g') = length (heap g) \<and> currentwhite g' = currentwhite g \<and>
     (\<forall>a. look g' a = look g a \<or>
        look g' a = None \<and> \<not> alive g a \<or>
        (\<exists>x x'. look g a = Some x \<and> look g' a = Some x' \<and> body x' = body x \<and> (\<forall>n \<ge> 3. bit (marked x') n = bit (marked x) n) \<and>
           iswhite (marked x') \<and> \<not> isdead (currentwhite g) (marked x') \<and> mark_ok (marked x') \<and>
           (alive g a \<or> bit (marked x) FIXEDBIT)))"

lemma swp_refl [simp]: "swp g g" by (simp add: swp_def)

lemma swpE:
  assumes "swp g g'"
  obtains "look g' a = look g a" | "look g' a = None" "\<not> alive g a"
  | x x' where "look g a = Some x" "look g' a = Some x'" "body x' = body x" "\<forall>n \<ge> 3. bit (marked x') n = bit (marked x) n"
      "iswhite (marked x')" "\<not> isdead (currentwhite g) (marked x')" "mark_ok (marked x')" "alive g a \<or> bit (marked x) FIXEDBIT"
proof -
  from assms have "look g' a = look g a \<or> look g' a = None \<and> \<not> alive g a \<or>
      (\<exists>x x'. look g a = Some x \<and> look g' a = Some x' \<and> body x' = body x \<and> (\<forall>n \<ge> 3. bit (marked x') n = bit (marked x) n) \<and>
         iswhite (marked x') \<and> \<not> isdead (currentwhite g) (marked x') \<and> mark_ok (marked x') \<and>
         (alive g a \<or> bit (marked x) FIXEDBIT))" unfolding swp_def by blast
  then show thesis using that by blast
qed

lemma alive_look: "look g' a = look g a \<Longrightarrow> currentwhite g' = currentwhite g \<Longrightarrow> alive g' a = alive g a"
  by (simp add: alive_def)

lemma swp_alive: "swp g g' \<Longrightarrow> alive g a \<Longrightarrow> alive g' a"
proof -
  assume s: "swp g g'" and a: "alive g a"
  have c: "currentwhite g' = currentwhite g" using s by (simp add: swp_def)
  from s show "alive g' a" by (cases rule: swpE [where a = a]) (use a c in \<open>auto simp: alive_def\<close>)
qed

lemma swp_trans: "swp g g1 \<Longrightarrow> swp g1 g2 \<Longrightarrow> swp g g2"
proof -
  assume 1: "swp g g1" and 2: "swp g1 g2"
  have c: "currentwhite g1 = currentwhite g" "currentwhite g2 = currentwhite g" using 1 2 by (simp_all add: swp_def)
  have "look g2 a = look g a \<or> look g2 a = None \<and> \<not> alive g a \<or>
      (\<exists>x x'. look g a = Some x \<and> look g2 a = Some x' \<and> body x' = body x \<and> (\<forall>n \<ge> 3. bit (marked x') n = bit (marked x) n) \<and>
         iswhite (marked x') \<and> \<not> isdead (currentwhite g) (marked x') \<and> mark_ok (marked x') \<and> (alive g a \<or> bit (marked x) FIXEDBIT))" for a
    using 1
  proof (cases rule: swpE [where a = a])
    case 1
    then have al: "alive g1 a = alive g a" using c by (simp add: alive_def)
    from 2 show ?thesis by (cases rule: swpE [where a = a]) (use 1 al c in auto)
  next
    case 2
    from \<open>swp g1 g2\<close> show ?thesis by (cases rule: swpE [where a = a]) (use 2 in auto)
  next
    case (3 x x')
    then have "alive g1 a" using c by (simp add: alive_def)
    with \<open>swp g1 g2\<close> 3 show ?thesis by (cases rule: swpE [where g = g1 and a = a]) (auto simp: c)
  qed
  then show ?thesis using 1 2 unfolding swp_def by simp
qed

lemma swp_swept: "swp g g' \<Longrightarrow> swept g a \<Longrightarrow> swept g' a"
proof -
  assume s: "swp g g'" and a: "swept g a"
  have c: "currentwhite g' = currentwhite g" using s by (simp add: swp_def)
  from s show "swept g' a" by (cases rule: swpE [where a = a]) (use a c in \<open>auto simp: swept_def\<close>)
qed

lemma swp_body: "swp g g' \<Longrightarrow> body_of g' a = Some b \<Longrightarrow> body_of g a = Some b"
  by (erule swpE [where a = a]) (auto simp: body_of_def)

lemma swp_none: "swp g g' \<Longrightarrow> look g a = None \<Longrightarrow> look g' a = None"
  by (erule swpE [where a = a]) auto

text \<open>The condition of the sweep: an object not kept is dead, a dead object that is kept is fixed.\<close>

lemma sweep_test:
  assumes "mask_ok cw" "mark_ok m"
  shows "\<not> testbits (m XOR WHITEBITS) (otherwhite cw) \<Longrightarrow> isdead cw m"
    "testbits (m XOR WHITEBITS) (otherwhite cw) \<Longrightarrow> isdead cw m \<Longrightarrow> bit m FIXEDBIT"
proof -
  have t: "testbits (m XOR WHITEBITS) (otherwhite cw) \<longleftrightarrow>
      (\<exists>n. n < 8 \<and> bit m n \<noteq> bit WHITEBITS n \<and> bit cw n \<noteq> bit WHITEBITS n)"
    by (auto simp: testbits_iff otherwhite_def bit_simps dest: bit_len)
  show "isdead cw m" if "\<not> testbits (m XOR WHITEBITS) (otherwhite cw)"
  proof -
    have "bit m n" if n: "n < 2" "\<not> bit cw n" for n
    proof -
      have "n < 8" using n(1) by simp
      then have "bit m n = bit WHITEBITS n \<or> bit cw n = bit WHITEBITS n"
        using \<open>\<not> testbits (m XOR WHITEBITS) (otherwhite cw)\<close> unfolding t by blast
      then show ?thesis using n by (auto simp: bit_WHITEBITS less_2_cases_iff)
    qed
    moreover have "\<exists>n < 2. \<not> bit cw n"
    proof (cases "bit cw 0")
      case True
      then show ?thesis using assms(1) by (intro exI [of _ 1]) (simp add: mask_ok_def one_white_def)
    qed (auto intro: exI [of _ 0])
    ultimately show ?thesis by (auto simp: isdead_iff less_2_cases_iff)
  qed
  show "bit m FIXEDBIT" if h: "testbits (m XOR WHITEBITS) (otherwhite cw)" "isdead cw m"
  proof -
    obtain n where n: "bit m n \<noteq> bit WHITEBITS n" "bit cw n \<noteq> bit WHITEBITS n" using h(1) unfolding t by blast
    show ?thesis
    proof (cases "n < 2")
      case True
      then have "\<not> bit m n" "\<not> bit cw n" using n by (auto simp: bit_WHITEBITS less_2_cases_iff)
      then show ?thesis using h(2) assms True by (auto simp: isdead_iff mask_ok_def one_white_def less_2_cases_iff)
    next
      case False
      then have "bit m n" "bit cw n" using n by (auto simp: bit_WHITEBITS)
      then show ?thesis using assms(1) False unfolding mask_ok_def by (metis not_less)
    qed
  qed
qed

end
