(* ===== verification/Lua_GC_Sweep.thy ===== *)
theory Lua_GC_Sweep
  imports Lua_GC_Inv
begin

text \<open>
  The sweep (\<open>sweeplist\<close> of src/lib/lua/lgc.c) frees dead objects only, leaves every other object it has passed
  white for the next cycle, and keeps the objects that exist in the lists.
\<close>

section \<open>Lists\<close>

definition sframe :: "gcstate \<Rightarrow> gcstate \<Rightarrow> bool" where
  "sframe g g' \<longleftrightarrow> swp g g' \<and>
     g' = g\<lparr>heap := heap g', uvhead := uvhead g', strt_nuse := strt_nuse g', openupval := openupval g'\<rparr>"

lemma sframe_fields:
  assumes "sframe g g'"
  shows "currentwhite g' = currentwhite g" "tmudata g' = tmudata g" "rootgc g' = rootgc g" "strt_hash g' = strt_hash g"
    "mainthread g' = mainthread g" "registry g' = registry g" "basic_mt g' = basic_mt g" "phase g' = phase g"
    "sweepgc g' = sweepgc g" "sweepstrgc g' = sweepstrgc g"
proof -
  have E: "g' = g\<lparr>heap := heap g', uvhead := uvhead g', strt_nuse := strt_nuse g', openupval := openupval g'\<rparr>"
    using assms by (simp add: sframe_def)
  show "currentwhite g' = currentwhite g" "tmudata g' = tmudata g" "rootgc g' = rootgc g" "strt_hash g' = strt_hash g"
    "mainthread g' = mainthread g" "registry g' = registry g" "basic_mt g' = basic_mt g" "phase g' = phase g"
    "sweepgc g' = sweepgc g" "sweepstrgc g' = sweepstrgc g"
    by (subst E, simp)+
qed

lemma sframe_refl [simp]: "sframe g g" by (simp add: sframe_def)

lemma sframe_trans: "sframe g g1 \<Longrightarrow> sframe g1 g2 \<Longrightarrow> sframe g g2"
proof -
  assume 1: "sframe g g1" and 2: "sframe g1 g2"
  have "g2 = g1\<lparr>heap := heap g2, uvhead := uvhead g2, strt_nuse := strt_nuse g2, openupval := openupval g2\<rparr>"
    using 2 by (simp add: sframe_def)
  also have "... = (g\<lparr>heap := heap g1, uvhead := uvhead g1, strt_nuse := strt_nuse g1, openupval := openupval g1\<rparr>)
      \<lparr>heap := heap g2, uvhead := uvhead g2, strt_nuse := strt_nuse g2, openupval := openupval g2\<rparr>"
    using 1 unfolding sframe_def by metis
  finally have "g2 = g\<lparr>heap := heap g2, uvhead := uvhead g2, strt_nuse := strt_nuse g2, openupval := openupval g2\<rparr>" by simp
  then show ?thesis using 1 2 swp_trans unfolding sframe_def by metis
qed

lemma swp_one:
  assumes "length (heap g') = length (heap g)" "currentwhite g' = currentwhite g" "\<And>b. b \<noteq> a \<Longrightarrow> look g' b = look g b"
    "look g a = Some x" "look g' a = Some x'" "body x' = body x" "\<forall>n \<ge> 3. bit (marked x') n = bit (marked x) n"
    "iswhite (marked x')" "\<not> isdead (currentwhite g) (marked x')" "mark_ok (marked x')" "alive g a \<or> bit (marked x) FIXEDBIT"
  shows "swp g g'"
  unfolding swp_def
proof (intro conjI allI)
  fix b show "look g' b = look g b \<or> look g' b = None \<and> \<not> alive g b \<or>
      (\<exists>x x'. look g b = Some x \<and> look g' b = Some x' \<and> body x' = body x \<and> (\<forall>n \<ge> 3. bit (marked x') n = bit (marked x) n) \<and>
         iswhite (marked x') \<and> \<not> isdead (currentwhite g) (marked x') \<and> mark_ok (marked x') \<and>
         (alive g b \<or> bit (marked x) FIXEDBIT))"
    using assms by (cases "b = a") blast+
qed (fact assms)+

lemma look_freeobj: "look (freeobj a g) b = (if b = a then None else look g b)"
proof (cases "look g a")
  case None
  then show ?thesis by (simp add: freeobj_def body_of_def)
next
  case (Some x)
  then have "a < length (heap g)" by (rule look_lt)
  then show ?thesis
    using Some by (auto simp: freeobj_def luaF_freeupval_def unlinkupval_def body_of_def put_def look_def split: gbody.split)
qed

lemma freeobj_frame: "freeobj a g = g\<lparr>heap := heap (freeobj a g), uvhead := uvhead (freeobj a g), strt_nuse := strt_nuse (freeobj a g), openupval := openupval (freeobj a g)\<rparr>"
  "length (heap (freeobj a g)) = length (heap g)" "openupval (freeobj a g) = openupval g" "currentwhite (freeobj a g) = currentwhite g"
  by (auto simp: freeobj_def luaF_freeupval_def unlinkupval_def put_def split: option.split gbody.split)

lemma sweep_obj_spec:
  assumes m: "mask_ok (currentwhite g)" "marks_ok g" and s: "sweep_obj a g = (keep, g')"
  shows "sframe g g' \<and> openupval g' = openupval g \<and> swept g' a \<and> (\<not> keep \<longrightarrow> look g' a = None)"
proof (cases "look g a")
  case None
  then show ?thesis using s by (auto simp: sweep_obj_def swept_def)
next
  case (Some x)
  have mx: "mark_ok (marked x)" using m(2) Some by (simp add: marks_ok_def)
  note T = sweep_test [OF m(1) mx]
  have ow: "one_white (currentwhite g)" using m(1) by (simp add: mask_ok_def)
  show ?thesis
  proof (cases "testbits (marked x XOR WHITEBITS) (otherwhite (currentwhite g))")
    case True
    then have k: "keep" "g' = setmark a (makewhite (currentwhite g)) g" using s Some by (auto simp: sweep_obj_def)
    have "alive g a \<or> bit (marked x) FIXEDBIT" using T(2) True Some by (auto simp: alive_def)
    then have "swp g g'"
      by (intro swp_one [of _ _ a x "x\<lparr>marked := makewhite (currentwhite g) (marked x)\<rparr>"])
        (simp_all add: k look_setmark Some ow mark_simps bit_colours)
    then show ?thesis using k Some ow heap_setmark [of a _ g] by (simp add: sframe_def swept_def look_setmark mark_simps)
  next
    case False
    then have k: "\<not> keep" "g' = freeobj a g" using s Some by (auto simp: sweep_obj_def)
    have "\<not> alive g a" using T(1) False Some by (simp add: alive_def)
    then have "swp g g'" unfolding swp_def k look_freeobj freeobj_frame(2,4) by simp
    then show ?thesis using k freeobj_frame [of a g] by (simp add: sframe_def swept_def look_freeobj)
  qed
qed

lemma sframe_marks: "sframe g g' \<Longrightarrow> marks_ok g \<Longrightarrow> marks_ok g'"
  unfolding marks_ok_def
proof (intro allI impI)
  fix a y assume s: "sframe g g'" and m: "\<forall>a x. look g a = Some x \<longrightarrow> mark_ok (marked x)" and y: "look g' a = Some y"
  from s have "swp g g'" unfolding sframe_def by blast
  then show "mark_ok (marked y)" by (cases rule: swpE [where a = a]) (use m y in auto)
qed

lemma sframe_none: "sframe g g' \<Longrightarrow> look g a = None \<Longrightarrow> look g' a = None"
  unfolding sframe_def by (blast intro: swp_none)

lemma sframe_swept: "sframe g g' \<Longrightarrow> swept g a \<Longrightarrow> swept g' a"
  unfolding sframe_def by (blast intro: swp_swept)

lemma sweep_flat_spec:
  "mask_ok (currentwhite g) \<Longrightarrow> marks_ok g \<Longrightarrow> sweep_flat as g = (ks, g') \<Longrightarrow>
   sframe g g' \<and> openupval g' = openupval g \<and> set ks \<subseteq> set as \<and>
   (\<forall>a \<in> set as. swept g' a \<and> (look g' a \<noteq> None \<longrightarrow> a \<in> set ks))"
proof (induction as arbitrary: g ks g')
  case (Cons a as)
  obtain keep g1 where 1: "sweep_obj a g = (keep, g1)" by fastforce
  obtain ks1 where 2: "sweep_flat as g1 = (ks1, g')" "ks = (if keep then a # ks1 else ks1)"
    using Cons.prems(3) 1 by (auto split: prod.splits)
  note S = sweep_obj_spec [OF Cons.prems(1,2) 1]
  have "sframe g g1" using S by blast
  then have "mask_ok (currentwhite g1)" using Cons.prems(1) by (simp add: sframe_fields)
  note I = Cons.IH [OF this sframe_marks [OF _ Cons.prems(2)] 2(1)]
  have I: "sframe g1 g'" "openupval g' = openupval g1" "set ks1 \<subseteq> set as" "\<forall>a \<in> set as. swept g' a \<and> (look g' a \<noteq> None \<longrightarrow> a \<in> set ks1)"
    using I S by blast+
  then show ?case using S 2(2) sframe_trans sframe_swept [OF I(1)] sframe_none [OF I(1)] by auto
qed simp

lemma sweep_thread_spec:
  assumes m: "mask_ok (currentwhite g)" "marks_ok g"
  shows "sframe g (sweep_thread a g) \<and> set (openupval (sweep_thread a g)) \<subseteq> set (openupval g) \<and>
    (\<forall>u \<in> set (openupval g). look (sweep_thread a g) u \<noteq> None \<longrightarrow> u \<in> set (openupval (sweep_thread a g))) \<and>
    (threadlike g a \<longrightarrow> (\<forall>u \<in> set (openupval g). swept (sweep_thread a g) u))"
proof (cases "threadlike g a")
  case True
  then obtain gt st where b: "body_of g a = Some (GThread gt st)" by (auto simp: threadlike_def)
  obtain ks g1 where 1: "sweep_flat (openupval g) g = (ks, g1)" by fastforce
  note S = sweep_flat_spec [OF m 1]
  have e: "sweep_thread a g = g1\<lparr>openupval := ks\<rparr>" by (simp add: sweep_thread_def b 1)
  have "sframe g (g1\<lparr>openupval := ks\<rparr>)"
  proof -
    have E: "g1 = g\<lparr>heap := heap g1, uvhead := uvhead g1, strt_nuse := strt_nuse g1, openupval := openupval g1\<rparr>"
      using S unfolding sframe_def by blast
    have "g1\<lparr>openupval := ks\<rparr> =
        (g\<lparr>heap := heap g1, uvhead := uvhead g1, strt_nuse := strt_nuse g1, openupval := openupval g1\<rparr>)\<lparr>openupval := ks\<rparr>"
      by (rule arg_cong [OF E])
    then have "g1\<lparr>openupval := ks\<rparr> = g\<lparr>heap := heap (g1\<lparr>openupval := ks\<rparr>), uvhead := uvhead (g1\<lparr>openupval := ks\<rparr>),
        strt_nuse := strt_nuse (g1\<lparr>openupval := ks\<rparr>), openupval := openupval (g1\<lparr>openupval := ks\<rparr>)\<rparr>" by simp
    moreover have "swp g g1" using S unfolding sframe_def by blast
    then have "swp g (g1\<lparr>openupval := ks\<rparr>)" by (simp add: swp_def)
    ultimately show ?thesis unfolding sframe_def by blast
  qed
  then show ?thesis using S by (auto simp: e swept_def)
next
  case False
  then have "sweep_thread a g = g"
    by (auto simp: sweep_thread_def threadlike_def split: option.split gbody.split)
  then show ?thesis using False by simp
qed

lemma sweeplist_spec:
  "mask_ok (currentwhite g) \<Longrightarrow> marks_ok g \<Longrightarrow> sweeplist n as g = (ks, rest, g') \<Longrightarrow>
   sframe g g' \<and> (\<exists>p. as = p @ rest \<and> set ks \<subseteq> set p \<and> (\<forall>a \<in> set p. swept g' a \<and> (look g' a \<noteq> None \<longrightarrow> a \<in> set ks)) \<and>
     (\<forall>a \<in> set p. threadlike g' a \<longrightarrow> (\<forall>u \<in> set (openupval g'). swept g' u))) \<and>
   set (openupval g') \<subseteq> set (openupval g) \<and> (\<forall>u \<in> set (openupval g). look g' u \<noteq> None \<longrightarrow> u \<in> set (openupval g'))"
proof (induction n as g arbitrary: ks rest g' rule: sweeplist.induct)
  case (3 n a as g)
  let ?t = "sweep_thread a g"
  obtain keep g1 where 1: "sweep_obj a ?t = (keep, g1)" by fastforce
  obtain ks1 where 2: "sweeplist n as g1 = (ks1, rest, g')" "ks = (if keep then a # ks1 else ks1)"
    using "3.prems"(3) 1 by (auto split: prod.splits)
  note T = sweep_thread_spec [OF "3.prems"(1,2), of a]
  have ft: "sframe g ?t" using T by blast
  have mt: "mask_ok (currentwhite ?t)" "marks_ok ?t"
    using "3.prems"(1,2) sframe_marks [OF ft] sframe_fields(1) [OF ft] by simp_all
  note S = sweep_obj_spec [OF mt 1]
  have fs: "sframe ?t g1" using S by blast
  have m1: "mask_ok (currentwhite g1)" "marks_ok g1" using mt sframe_marks [OF fs] sframe_fields(1) [OF fs] by simp_all
  have I: "sframe g1 g'" "set (openupval g') \<subseteq> set (openupval g1)" "\<forall>u \<in> set (openupval g1). look g' u \<noteq> None \<longrightarrow> u \<in> set (openupval g')"
    using "3.IH" [OF 1 [symmetric] m1 2(1)] by blast+
  obtain p where p: "as = p @ rest" "set ks1 \<subseteq> set p" "\<forall>a \<in> set p. swept g' a \<and> (look g' a \<noteq> None \<longrightarrow> a \<in> set ks1)"
      "\<forall>a \<in> set p. threadlike g' a \<longrightarrow> (\<forall>u \<in> set (openupval g'). swept g' u)"
    using "3.IH" [OF 1 [symmetric] m1 2(1)] by blast
  have t1: "sframe ?t g'" using S I(1) sframe_trans by blast
  have f: "sframe g g'" using T t1 sframe_trans by blast
  have ka: "swept g' a" "look g' a \<noteq> None \<longrightarrow> a \<in> set ks"
    using S sframe_swept [OF I(1)] sframe_none [OF I(1), of a] 2(2) by auto
  have up: "\<forall>u \<in> set (openupval g'). swept g' u" if "threadlike g' a"
  proof -
    have "swp g g'" using f unfolding sframe_def by blast
    then have "threadlike g a" using that swp_body by (auto simp: threadlike_def)
    then show ?thesis using T I(2) S sframe_swept [OF t1] by auto
  qed
  have "as = p @ rest" by (rule p(1))
  then have "a # as = (a # p) @ rest" by simp
  moreover have "set ks \<subseteq> set (a # p)" using p(2) 2(2) by auto
  moreover have "\<forall>b \<in> set (a # p). swept g' b \<and> (look g' b \<noteq> None \<longrightarrow> b \<in> set ks)" using p(3) ka 2(2) by auto
  moreover have "\<forall>b \<in> set (a # p). threadlike g' b \<longrightarrow> (\<forall>u \<in> set (openupval g'). swept g' u)" using p(4) up by auto
  ultimately have "\<exists>p. a # as = p @ rest \<and> set ks \<subseteq> set p \<and> (\<forall>b \<in> set p. swept g' b \<and> (look g' b \<noteq> None \<longrightarrow> b \<in> set ks)) \<and>
      (\<forall>b \<in> set p. threadlike g' b \<longrightarrow> (\<forall>u \<in> set (openupval g'). swept g' u))" by blast
  moreover have "\<forall>u \<in> set (openupval g). look g' u \<noteq> None \<longrightarrow> u \<in> set (openupval g')"
    using T S I(3) sframe_none [OF t1] by metis
  ultimately show ?case using f I(2) S T by auto
qed auto

end
