(* ===== verification/Lua_GC_Cycle.thy ===== *)
theory Lua_GC_Cycle
  imports Lua_GC_Sweep
begin

text \<open>Every step of the collector (\<open>singlestep\<close> of src/lib/lua/lgc.c) keeps the invariant \<open>gc_inv\<close>.\<close>

section \<open>What lives stays\<close>

lemma fixedD: "fixed_ok g \<Longrightarrow> look g a = Some x \<Longrightarrow> bit (marked x) FIXEDBIT \<Longrightarrow> a = mainthread g \<or> (\<exists>s h. body x = GString s h)"
  unfolding fixed_ok_def by blast

lemma core_fields:
  assumes "look g' = look g" "length (heap g') = length (heap g)" "currentwhite g' = currentwhite g" "mainthread g' = mainthread g"
    "registry g' = registry g" "basic_mt g' = basic_mt g" "tmudata g' = tmudata g"
  shows "core g' = core g"
proof -
  have "body_of g' = body_of g" "white g' = white g" "black g' = black g" "alive g' = alive g"
    using assms(1,3) by (auto simp: body_of_def white_def black_def alive_def)
  then show ?thesis
    using assms by (simp add: core_def marks_ok_def blacks_ok_def fixed_ok_def kinds_ok_def threadlike_def udatalike_def
        names_ok_def is_str_def closed_def rooted_def roots_def)
qed

lemma alive_body: "alive g a \<Longrightarrow> \<exists>b. body_of g a = Some b"
  by (auto simp: alive_def body_of_def)

lemma swp_body_alive: "swp g g' \<Longrightarrow> alive g a \<Longrightarrow> body_of g' a = body_of g a"
  by (erule swpE [where a = a]) (auto simp: body_of_def)

lemma core_swp:
  assumes c: "core g" and f: "sframe g g'"
  shows "core g'"
proof -
  have s: "swp g g'" using f unfolding sframe_def by blast
  note F = sframe_fields [OF f]
  note A = swp_alive [OF s] swp_body_alive [OF s] swp_body [OF s]
  have C: "marks_ok g" "blacks_ok g" "fixed_ok g" "kinds_ok g" "names_ok g" "closed g" "rooted g" "mask_ok (currentwhite g)"
    using c by (simp_all add: core_def)
  have rooted: "rooted g'" using C(7) A(1) by (auto simp: rooted_def roots_def F)
  have "blacks_ok g'"
    unfolding blacks_ok_def
  proof (intro allI impI)
    fix a b assume a: "black g' a \<and> body_of g' a = Some b"
    have "black g a"
      using s
    proof (cases rule: swpE [where a = a])
      case 1
      then show ?thesis using a by (simp add: black_def)
    next
      case 2
      then show ?thesis using a by (simp add: black_def)
    next
      case (3 x x')
      then show ?thesis using a by (simp add: black_def mark_ok_def)
    qed
    then show "blackable b" using a A(3) C(2) by (auto simp: blacks_ok_def)
  qed
  moreover have "fixed_ok g'"
    unfolding fixed_ok_def
  proof (intro allI impI)
    fix a y assume y: "look g' a = Some y \<and> bit (marked y) FIXEDBIT"
    from s have "\<exists>x. look g a = Some x \<and> body y = body x \<and> bit (marked x) FIXEDBIT"
    proof (cases rule: swpE [where a = a])
      case 1
      then show ?thesis using y by (intro exI [of _ y]) simp
    qed (use y in auto)
    then show "a = mainthread g' \<or> (\<exists>s h. body y = GString s h)" using fixedD [OF C(3)] F(5) by metis
  qed
  moreover have "kinds_ok g'"
  proof -
    have "alive g (mainthread g)" "\<forall>u \<in> set (tmudata g). alive g u" using C(7) by (auto simp: rooted_def roots_def)
    then have "threadlike g' (mainthread g)" "\<forall>u \<in> set (tmudata g). udatalike g' u"
      using C(4) A(2) by (auto simp: kinds_ok_def threadlike_def udatalike_def)
    moreover have "\<forall>a. threadlike g' a \<longrightarrow> a = mainthread g" using C(4) A(3) by (auto simp: kinds_ok_def threadlike_def)
    ultimately show ?thesis unfolding kinds_ok_def F by blast
  qed
  moreover have "names_ok g'"
  proof -
    have "length (heap g') = length (heap g)" using s by (simp add: swp_def)
    moreover have "is_str g' r" if "is_str g r" for r using that A(3) by (auto simp: is_str_def)
    ultimately show ?thesis using C(5) A(3) unfolding names_ok_def by simp blast
  qed
  moreover have "closed g'"
    unfolding closed_def
  proof (intro allI impI ballI)
    fix a b r assume a: "alive g' a \<and> body_of g' a = Some b" and r: "r \<in> set (refs b)"
    have b: "body_of g a = Some b" using a A(3) by blast
    have "alive g a \<or> refs b = []"
      using s
    proof (cases rule: swpE [where a = a])
      case 1
      then show ?thesis using a F(1) by (simp add: alive_def)
    next
      case 2
      then show ?thesis using a by (simp add: alive_def)
    next
      case (3 x x')
      have "alive g (mainthread g)" using C(7) by (simp add: rooted_def roots_def)
      then show ?thesis using 3 fixedD [OF C(3) 3(1)] b by (auto simp: body_of_def refs_def)
    qed
    then show "alive g' r" using r b C(6) A(1) by (auto simp: closed_def)
  qed
  ultimately show ?thesis using sframe_marks [OF f C(1)] rooted C(8) by (simp add: core_def F)
qed

lemma hframe_kinds:
  assumes h: "hframe g g'" and m: "mainthread g' = mainthread g"
  shows "fixed_ok g \<Longrightarrow> fixed_ok g'" "threadlike g' a \<longleftrightarrow> threadlike g a" "udatalike g' a \<longleftrightarrow> udatalike g a"
    "look g' a = None \<longleftrightarrow> look g a = None"
proof -
  have b: "rel_option body_sub (body_of g a) (body_of g' a)" for a by (rule hframe_body [OF h])
  show "threadlike g' a \<longleftrightarrow> threadlike g a" "udatalike g' a \<longleftrightarrow> udatalike g a"
    using b [of a] by (cases "body_of g a"; cases "body_of g' a"; auto simp: threadlike_def udatalike_def body_sub_def)+
  show "look g' a = None \<longleftrightarrow> look g a = None"
    using b [of a] by (cases "look g a"; cases "look g' a") (auto simp: body_of_def)
  show "fixed_ok g'" if f: "fixed_ok g"
    unfolding fixed_ok_def
  proof (intro allI impI)
    fix a y assume y: "look g' a = Some y \<and> bit (marked y) FIXEDBIT"
    have k: "same_kind (look g a) (look g' a)" using h by (simp add: hframe_def)
    then obtain x where x: "look g a = Some x" "body_sub (body x) (body y)" "bit (marked x) FIXEDBIT"
      using y by (cases "look g a") (auto simp: same_kind_def)
    then show "a = mainthread g' \<or> (\<exists>s h. body y = GString s h)" using f [unfolded fixed_ok_def, rule_format, of a x] m by (auto simp: body_sub_def)
  qed
qed

lemma alive_exists: "colours_ok g \<Longrightarrow> alive g a \<longleftrightarrow> look g a \<noteq> None"
  by (auto simp: colours_ok_def alive_def)

lemma core_mark:
  assumes c: "core g" and h: "hframe g g'" and k: "colours_ok g" "colours_ok g'"
    and F: "currentwhite g' = currentwhite g" "mainthread g' = mainthread g" "registry g' = registry g" "basic_mt g' = basic_mt g"
      "tmudata g' = tmudata g"
  shows "core g'"
proof -
  note K = hframe_kinds [OF h F(2)]
  have al: "alive g' a = alive g a" for a using alive_exists [OF k(1)] alive_exists [OF k(2)] K(4) by simp
  have C: "fixed_ok g" "kinds_ok g" "names_ok g" "closed g" "rooted g" "mask_ok (currentwhite g)"
    using c by (simp_all add: core_def)
  have "kinds_ok g'" using C(2) by (simp add: kinds_ok_def K F)
  moreover have "closed g'"
    unfolding closed_def
  proof (intro allI impI ballI)
    fix a b r assume a: "alive g' a \<and> body_of g' a = Some b" and r: "r \<in> set (refs b)"
    then obtain b0 where "body_of g a = Some b0" "body_sub b0 b" using hframe_body [OF h, of a] by (auto simp: option_rel_Some2)
    then show "alive g' r" using C(4) a r al body_sub_refs unfolding closed_def by blast
  qed
  moreover have "rooted g'" using C(5) by (simp add: rooted_def roots_def F al)
  ultimately show ?thesis
    using k(2) hframe_names [OF h C(3)] K(1) [OF C(1)] C(6) by (auto simp: core_def colours_ok_def blacks_ok_def F)
qed

lemma cover_fields:
  assumes "\<And>a. look g' a \<noteq> None \<Longrightarrow> look g a \<noteq> None" "rootgc g' = rootgc g" "strt_hash g' = strt_hash g" "openupval g' = openupval g" "tmudata g' = tmudata g"
    "mainthread g' = mainthread g"
  shows "cover g \<Longrightarrow> cover g'"
  using assms unfolding cover_def strings_def by auto

section \<open>Marking\<close>

lemma markroot_inv:
  assumes c: "core g" and v: "cover g" and r: "rest_ok g"
  shows "gc_inv (markroot g)"
proof -
  let ?g0 = "g\<lparr>gray := [], grayagain := [], weak := []\<rparr>"
  let ?g1 = "markobject (mainthread g) ?g0"
  define gt where "gt = (case body_of ?g1 (mainthread ?g1) of Some (GThread gt st) \<Rightarrow> gt | _ \<Rightarrow> VNil)"
  let ?g2 = "markvalue gt ?g1"
  let ?g3 = "markvalue (registry ?g2) ?g2"
  let ?g4 = "markmt ?g3"
  have e: "markroot g = ?g4\<lparr>phase := GCSpropagate\<rparr>"
  proof (cases "\<exists>gt st. body_of ?g1 (mainthread ?g1) = Some (GThread gt st)")
    case True
    then show ?thesis by (auto simp: markroot_def Let_def gt_def)
  next
    case False
    then have "(case body_of ?g1 (mainthread ?g1) of Some (GThread gt st) \<Rightarrow> markvalue gt ?g1 | _ \<Rightarrow> ?g1) = ?g2"
      by (auto simp: gt_def markvalue_def split: option.split gbody.split)
    then show ?thesis by (simp add: markroot_def Let_def)
  qed
  have L0: "look ?g0 = look g" by simp
  have C: "marks_ok g" "blacks_ok g" "rooted g" using c by (simp_all add: core_def)
  have c0: "core ?g0" using c by (subst core_fields) simp_all
  have dead: "\<not> isdead (currentwhite g) (marked x)" if "look g a = Some x" for a x
  proof (cases "a \<in> set (tmudata g)")
    case True
    then have "alive g a" using C(3) by (simp add: rooted_def)
    then show ?thesis using that by (simp add: alive_def)
  next
    case False
    then show ?thesis using that r by (simp add: rest_ok_def swept_def)
  qed
  have k0: "colours_ok ?g0" using C dead by (simp add: colours_ok_def marks_ok_def blacks_ok_def black_def body_of_def)
  have M0: "MI (set (tmudata ?g0)) ?g0"
    unfolding MI_def
  proof (intro conjI)
    show "\<forall>a. a \<notin> set (tmudata ?g0) \<and> \<not> white ?g0 a \<longrightarrow> okay (waiting ?g0) ?g0 a"
      using r by (auto simp: rest_ok_def swept_def okay_def white_def body_of_def)
  qed (use k0 in \<open>simp_all add: colours_ok_def waiting_def\<close>)
  have ok0: "marks_ok ?g0" using k0 by (simp add: colours_ok_def)
  have 1: "mext {} ?g0 ?g1" "\<not> white ?g1 (mainthread g)" using object.marks [OF ok0 TrueI] by simp_all
  have ok1: "marks_ok ?g1" by (rule ext_marks_ok [OF 1(1) ok0])
  have 2: "mext {} ?g1 ?g2" using val.marks [OF ok1 TrueI] by blast
  have ok2: "marks_ok ?g2" by (rule ext_marks_ok [OF 2 ok1])
  have 3: "mext {} ?g2 ?g3" "\<forall>r \<in> set (vrefs (registry ?g2)). \<not> white ?g3 r" using val.marks [OF ok2 TrueI] by blast+
  have 4: "mext {} ?g3 ?g4" using markmt_ext [OF ext_marks_ok [OF 3(1) ok2]] by blast
  have e34: "mext {} ?g1 ?g4" by (rule ext_trans [OF 2 ext_trans [OF 3(1) 4]])
  have e04: "mext {} ?g0 ?g4" by (rule ext_trans [OF 1(1) e34])
  note F = mframe_fields [OF mframe_ext [OF e04]] and F2 = mframe_fields [OF mframe_ext [OF ext_trans [OF 1(1) 2]]]
  have h: "hframe ?g0 ?g4" by (rule mframe_hframe [OF mframe_ext [OF e04]])
  have c4: "core ?g4" by (rule core_mark [OF c0 h k0 colours_ext [OF k0 e04]]) (simp_all add: F)
  have v4: "cover ?g4" by (rule cover_fields [OF _ _ _ _ _ _ v]) (use hframe_kinds(4) [OF h] F in simp_all)
  have M4: "MI (set (tmudata g)) ?g4" using MI_ext [OF M0 e04] by simp
  have m4: "\<not> white ?g4 (mainthread g)" by (rule extD(3) [OF e34 1(2)])
  have r4: "\<forall>r \<in> set (vrefs (registry g)). \<not> white ?g4 r" using 3(2) extD(3) [OF 4] F2 by simp
  have "core (?g4\<lparr>phase := GCSpropagate\<rparr>)" using c4 by (subst core_fields) simp_all
  moreover have "cover (?g4\<lparr>phase := GCSpropagate\<rparr>)" by (rule cover_fields [OF _ _ _ _ _ _ v4]) simp_all
  moreover have "marking_ok (?g4\<lparr>phase := GCSpropagate\<rparr>)"
    unfolding marking_ok_def using M4 m4 r4 F MI_lists [of "set (tmudata g)" ?g4 "?g4\<lparr>phase := GCSpropagate\<rparr>"]
    by (simp add: waiting_def white_def)
  ultimately show ?thesis unfolding e gc_inv_def by (simp add: phase_ok_def)
qed

lemma propagatemark_inv:
  assumes c: "core g" and v: "cover g" and p: "marking_ok g" "phase g = GCSpropagate" and g: "gray g \<noteq> []"
  shows "gc_inv (propagatemark g)"
proof -
  obtain a gs where a: "gray g = a # gs" using g by (cases "gray g") auto
  have M: "MI (set (tmudata g)) g" using p by (simp add: marking_ok_def)
  have N: "names_ok g" using c by (simp add: core_def)
  note P = propagatemark_spec [OF M N a] propagatemark_lists [OF M N a]
  have s: "still g (propagatemark g)" using P by blast
  then have f: "mframe g (propagatemark g)" by (simp add: still_def)
  note F = mframe_fields [OF f]
  note h = mframe_hframe [OF f]
  have M': "MI (set (tmudata g)) (propagatemark g)" using P by blast
  have "core (propagatemark g)"
    by (rule core_mark [OF c h MI_colours [OF M] MI_colours [OF M']]) (simp_all add: F)
  moreover have "cover (propagatemark g)" by (rule cover_fields [OF _ _ _ _ _ _ v]) (use hframe_kinds(4) [OF h] F in simp_all)
  moreover have "marking_ok (propagatemark g)" using p(1) M' s F by (simp add: marking_ok_def still_def)
  ultimately show ?thesis using p(2) F by (simp add: gc_inv_def phase_ok_def)
qed

lemma atomic_inv:
  assumes c: "core g" and v: "cover g" and p: "marking_ok g"
  shows "gc_inv (atomic g)"
proof -
  let ?g = "atomic_marks g"
  have C: "names_ok g" "kinds_ok g" "closed g" "rooted g" "fixed_ok g" "mask_ok (currentwhite g)" using c by (simp_all add: core_def)
  have ow: "one_white (currentwhite g)" using C(6) by (simp add: mask_ok_def)
  have P: "MI (set (tmudata g)) g" "\<not> white g (mainthread g)" "\<forall>r \<in> set (vrefs (registry g)). \<not> white g r"
    using p by (simp_all add: marking_ok_def)
  have k: "\<forall>u \<in> set (tmudata g). udatalike g u" using C(2) by (simp add: kinds_ok_def)
  have mr: "mainthread g \<in> set (rootgc g)" using v by (simp add: cover_def)
  note A = atomic_marks_spec [OF P(1) C(1) k ow P(2,3) mr]
  have cl: "clean {} ?g" and h: "hframe g ?g" and rt: "\<forall>r \<in> set (roots ?g) \<union> set (tmudata ?g). \<not> white ?g r"
    and us: "\<forall>u \<in> set (tmudata ?g). udatalike ?g u"
    and ls: "set (rootgc g) \<union> set (tmudata g) \<subseteq> set (rootgc ?g) \<union> set (tmudata ?g)" "mainthread ?g \<in> set (rootgc ?g)"
    and F: "currentwhite ?g = currentwhite g" "strt_hash ?g = strt_hash g" "openupval ?g = openupval g" "mainthread ?g = mainthread g"
      "registry ?g = registry g" "basic_mt ?g = basic_mt g"
    using A by blast+
  note K = hframe_kinds [OF h F(4)]
  have co: "colours_ok ?g" using cl by (simp add: clean_def)
  have e: "atomic g = ?g\<lparr>currentwhite := otherwhite (currentwhite g), sweepstrgc := 0, sweepgc := None, phase := GCSsweepstring\<rparr>" (is "_ = ?g'")
    using atomic_flip [of g] F(1) by simp
  have L: "look ?g' = look ?g" by (simp add: look_def fun_eq_iff)
  have B: "body_of ?g' = body_of ?g" "black ?g' = black ?g" by (simp_all add: body_of_def black_def L fun_eq_iff)
  have dead: "isdead (otherwhite (currentwhite g)) (marked x) = iswhite (marked x)" if "look ?g a = Some x" for a x
    using dead_flip [OF ow] co that F(1) by (auto simp: colours_ok_def marks_ok_def)
  have al: "alive ?g' a \<longleftrightarrow> look ?g a \<noteq> None \<and> \<not> white ?g a" for a
    unfolding alive_def L by (auto simp: white_def dead split: option.splits)
  have ex: "look ?g r \<noteq> None" if "look g r \<noteq> None" for r using that K(4) [of r] by simp
  have "mask_ok (currentwhite ?g')"
    using C(6) one_white_other [OF ow] by (auto simp: mask_ok_def otherwhite_def bit_simps bit_WHITEBITS)
  moreover have "marks_ok ?g'" using co by (simp add: marks_ok_def colours_ok_def L)
  moreover have "blacks_ok ?g'" using co by (simp add: blacks_ok_def colours_ok_def B)
  moreover have "fixed_ok ?g'" using K(1) [OF C(5)] by (simp add: fixed_ok_def L)
  moreover have "kinds_ok ?g'" using C(2) us by (simp add: kinds_ok_def K threadlike_def udatalike_def B F)
      (simp add: threadlike_def [symmetric] udatalike_def [symmetric] K)
  moreover have "names_ok ?g'" using hframe_names [OF h C(1)] by (simp add: names_ok_def is_str_def B)
  moreover have "closed ?g'"
    unfolding closed_def
  proof (intro allI impI ballI)
    fix a b r assume a: "alive ?g' a \<and> body_of ?g' a = Some b" and r: "r \<in> set (refs b)"
    have w: "\<not> white ?g a" "body_of ?g a = Some b" using a al B by simp_all
    then have "\<not> white ?g r" using cl r by (auto simp: clean_def scanned_def)
    moreover obtain b0 where "body_of g a = Some b0" "body_sub b0 b" using hframe_body [OF h, of a] w(2) by (auto simp: option_rel_Some2)
    then have "alive g r" using C(3) r body_sub_refs alive_exists [OF MI_colours [OF P(1)]] unfolding closed_def
      by (metis body_of_def map_option_is_None option.distinct(1) subsetD)
    then have "look ?g r \<noteq> None" using ex by (auto simp: alive_def)
    ultimately show "alive ?g' r" using al by simp
  qed
  moreover have "rooted ?g'"
  proof -
    have "look ?g r \<noteq> None" if "r \<in> set (roots ?g)" for r
    proof -
      have "alive g r" using that C(4) by (auto simp: rooted_def roots_def F)
      then show ?thesis using ex by (auto simp: alive_def)
    qed
    moreover have "look ?g r \<noteq> None" if "r \<in> set (tmudata ?g)" for r
      using that us by (auto simp: udatalike_def body_of_def)
    ultimately show ?thesis using rt by (auto simp: rooted_def al roots_def)
  qed
  ultimately have core: "core ?g'" by (simp add: core_def)
  have cover: "cover ?g'"
  proof -
    have "look ?g a \<noteq> None \<Longrightarrow> a \<in> set (rootgc ?g) \<union> set (strings ?g) \<union> set (openupval ?g) \<union> set (tmudata ?g)" for a
      using v K(4) [of a] ls(1) by (fastforce simp: cover_def strings_def F)
    then show ?thesis using v ls(2) by (simp add: cover_def strings_def L F)
  qed
  obtain q where "length (strt_hash g) = 2 ^ q" using v by (auto simp: cover_def)
  then have "sweep1_ok ?g'" by (simp add: sweep1_ok_def F)
  then show ?thesis unfolding e gc_inv_def using core cover by (simp add: phase_ok_def)
qed

section \<open>Sweeping\<close>

lemma strings_nth: "a \<in> set (strings g) \<longleftrightarrow> (\<exists>i < length (strt_hash g). a \<in> set (strt_hash g ! i))"
  unfolding strings_def by (auto dest: nth_mem) (metis in_set_conv_nth)

lemma core_masks: "core g \<Longrightarrow> mask_ok (currentwhite g) \<and> marks_ok g"
  by (simp add: core_def)

lemma swept_look: "look g' a = look g a \<Longrightarrow> currentwhite g' = currentwhite g \<Longrightarrow> swept g' a = swept g a"
  by (simp add: swept_def)

lemma sweep_strings_inv:
  assumes c: "core g" and v: "cover g" and p: "sweep1_ok g" "phase g = GCSsweepstring"
  shows "gc_inv (sweep_strings g)"
proof -
  let ?i = "sweepstrgc g"
  obtain ks g1 where 1: "sweep_flat (strt_hash g ! ?i) g = (ks, g1)" by fastforce
  note S = sweep_flat_spec [OF _ _ 1]
  have f: "sframe g g1" and op: "openupval g1 = openupval g" and ks: "set ks \<subseteq> set (strt_hash g ! ?i)"
    "\<forall>a \<in> set (strt_hash g ! ?i). swept g1 a \<and> (look g1 a \<noteq> None \<longrightarrow> a \<in> set ks)"
    using S core_masks [OF c] by blast+
  note F = sframe_fields [OF f]
  define g2 where "g2 = g1\<lparr>strt_hash := (strt_hash g)[?i := ks], sweepstrgc := Suc ?i\<rparr>"
  have e: "sweep_strings g = (if length (strt_hash g) \<le> Suc ?i then g2\<lparr>phase := GCSsweep\<rparr> else g2)"
    by (simp add: sweep_strings_def 1 Let_def g2_def F)
  have i: "?i < length (strt_hash g)" "sweepgc g = None" using p(1) by (simp_all add: sweep1_ok_def)
  have G: "look g2 = look g1" "length (heap g2) = length (heap g1)" "currentwhite g2 = currentwhite g1"
    "mainthread g2 = mainthread g1" "registry g2 = registry g1" "basic_mt g2 = basic_mt g1" "tmudata g2 = tmudata g1"
    "rootgc g2 = rootgc g1" "openupval g2 = openupval g1" "sweepgc g2 = sweepgc g1" "strt_hash g2 = (strt_hash g)[?i := ks]"
    "phase g2 = phase g1"
    by (simp_all add: g2_def)
  have c2: "core g2" using core_swp [OF c f] core_fields [OF G(1-7)] by simp
  have v2: "cover g2"
    unfolding cover_def
  proof (intro conjI allI impI)
    show "mainthread g2 \<in> set (rootgc g2)" "\<exists>k \<le> 31. length (strt_hash g2) = 2 ^ k" using v by (simp_all add: cover_def G F)
    fix a assume a: "look g2 a \<noteq> None"
    then have "look g a \<noteq> None" using sframe_none [OF f, of a] G(1) by metis
    then have "a \<in> set (rootgc g) \<union> set (strings g) \<union> set (openupval g) \<union> set (tmudata g)" using v unfolding cover_def by blast
    moreover have "a \<in> set (strings g2)" if s: "a \<in> set (strings g)"
    proof -
      obtain j where j: "j < length (strt_hash g)" "a \<in> set (strt_hash g ! j)" using s strings_nth by blast
      then have "a \<in> set (strt_hash g2 ! j)" using ks(2) a by (cases "j = ?i") (auto simp: G)
      then show ?thesis using j(1) by (auto simp: strings_nth G)
    qed
    ultimately show "a \<in> set (rootgc g2) \<union> set (strings g2) \<union> set (openupval g2) \<union> set (tmudata g2)" by (auto simp: G F op)
  qed
  have sw: "swept g2 a" if "j < Suc ?i" "a \<in> set (strt_hash g2 ! j)" for a j
  proof (cases "j = ?i")
    case True
    then have "a \<in> set ks" using that(2) i(1) by (simp add: G)
    then show ?thesis using ks swept_look [of g2 a g1] G by auto
  next
    case False
    then have "j < ?i" "a \<in> set (strt_hash g ! j)" using that by (auto simp: G)
    then have "swept g a" using p(1) unfolding sweep1_ok_def by blast
    then show ?thesis using sframe_swept [OF f] swept_look [of g2 a g1] G by auto
  qed
  show ?thesis
  proof (cases "length (strt_hash g) \<le> Suc ?i")
    case True
    let ?g = "g2\<lparr>phase := GCSsweep\<rparr>"
    have "\<forall>a \<in> set (strings g2). swept g2 a"
    proof
      fix a assume "a \<in> set (strings g2)"
      then obtain j where "j < length (strt_hash g)" "a \<in> set (strt_hash g2 ! j)" by (auto simp: strings_nth G(11))
      then show "swept g2 a" using sw [of j a] True by simp
    qed
    then have "sweep2_ok ?g" using i(2) G F by (simp add: sweep2_ok_def root_before_def strings_def swept_def)
    moreover have "core ?g" using c2 by (subst core_fields) simp_all
    moreover have "cover ?g" using v2 by (simp add: cover_def strings_def)
    ultimately show ?thesis unfolding e using True by (simp add: gc_inv_def phase_ok_def)
  next
    case False
    then have "sweep1_ok g2" using sw i(2) G F by (simp add: sweep1_ok_def g2_def)
    then show ?thesis unfolding e using False c2 v2 p(2) G F by (simp add: gc_inv_def phase_ok_def)
  qed
qed

lemma root_split:
  assumes "\<forall>s. sweepgc g = Some s \<longrightarrow> s \<in> set (rootgc g)"
  shows "rootgc g = root_before g @ root_after g"
proof (cases "sweepgc g")
  case (Some s)
  then have s: "s \<in> set (rootgc g)" using assms by simp
  then obtain ys zs where "rootgc g = ys @ s # zs" "s \<notin> set ys" by (metis split_list_first)
  moreover from this(2) have "takeWhile (\<lambda>a. a \<noteq> s) (ys @ s # zs) = ys" "dropWhile (\<lambda>a. a \<noteq> s) (ys @ s # zs) = s # zs"
    by (subst takeWhile_append2 dropWhile_append2; auto)+
  ultimately show ?thesis by (simp add: root_before_def root_after_def Some)
qed (simp add: root_before_def root_after_def)

lemma takeWhile_first: "x \<in> set xs \<Longrightarrow> set (takeWhile (\<lambda>a. a \<noteq> x) (xs @ ys)) \<subseteq> set xs"
proof (induction xs)
  case (Cons a xs)
  then show ?case by (cases "a = x") (simp_all, blast)
qed simp

lemma sweep_root_spec:
  fixes n :: nat
  assumes c: "core g" and v: "cover g" and p: "sweep2_ok g"
  defines "g' \<equiv> sweep_root n g"
  shows "core g' \<and> cover g' \<and> sweep2_ok g' \<and> phase g' = phase g \<and> (root_after g' = [] \<longrightarrow> rest_ok g')"
proof -
  obtain ks rest g1 where 1: "sweeplist n (root_after g) g = (ks, rest, g1)" by (metis prod_cases3)
  note S = sweeplist_spec [OF _ _ 1]
  have f: "sframe g g1" and op: "set (openupval g1) \<subseteq> set (openupval g)" "\<forall>u \<in> set (openupval g). look g1 u \<noteq> None \<longrightarrow> u \<in> set (openupval g1)"
    using S core_masks [OF c] by blast+
  obtain q where q: "root_after g = q @ rest" "set ks \<subseteq> set q" "\<forall>a \<in> set q. swept g1 a \<and> (look g1 a \<noteq> None \<longrightarrow> a \<in> set ks)"
     "\<forall>a \<in> set q. threadlike g1 a \<longrightarrow> (\<forall>u \<in> set (openupval g1). swept g1 u)"
    using S core_masks [OF c] by blast
  note F = sframe_fields [OF f]
  let ?b = "root_before g"
  have g': "g' = g1\<lparr>rootgc := ?b @ ks @ rest, sweepgc := (if ks = [] then sweepgc g else Some (last ks))\<rparr>"
    by (simp add: g'_def sweep_root_def 1)
  have G: "look g' = look g1" "length (heap g') = length (heap g1)" "currentwhite g' = currentwhite g1"
    "mainthread g' = mainthread g1" "registry g' = registry g1" "basic_mt g' = basic_mt g1" "tmudata g' = tmudata g1"
    "strt_hash g' = strt_hash g1" "openupval g' = openupval g1" "phase g' = phase g1"
    "rootgc g' = ?b @ ks @ rest" "sweepgc g' = (if ks = [] then sweepgc g else Some (last ks))"
    by (simp_all add: g')
  have P: "\<forall>a \<in> set (strings g) \<union> set ?b. swept g a" "mainthread g \<in> set ?b \<longrightarrow> (\<forall>a \<in> set (openupval g). swept g a)"
    "\<forall>s. sweepgc g = Some s \<longrightarrow> s \<in> set (rootgc g)" using p by (simp_all add: sweep2_ok_def)
  have rs: "rootgc g = ?b @ q @ rest" using root_split [OF P(3)] q(1) by simp
  have c': "core g'" using core_swp [OF c f] core_fields [OF G(1-7)] by simp
  have ex: "look g a \<noteq> None" if "look g' a \<noteq> None" for a using that sframe_none [OF f, of a] G(1) by metis
  have str: "strings g' = strings g" by (simp add: strings_def G F)
  have keep: "a \<in> set (rootgc g')" if "look g' a \<noteq> None" "a \<in> set (rootgc g)" for a
    using that q(3) rs G(1,11) by auto
  have v': "cover g'"
    unfolding cover_def
  proof (intro conjI allI impI)
    have "alive g' (mainthread g')" using c' by (simp add: core_def rooted_def roots_def)
    then show "mainthread g' \<in> set (rootgc g')" using keep v by (auto simp: alive_def cover_def G F)
    show "\<exists>k \<le> 31. length (strt_hash g') = 2 ^ k" using v by (simp add: cover_def G F)
    fix a assume a: "look g' a \<noteq> None"
    then have "a \<in> set (rootgc g) \<union> set (strings g) \<union> set (openupval g) \<union> set (tmudata g)" using v ex unfolding cover_def by blast
    then show "a \<in> set (rootgc g') \<union> set (strings g') \<union> set (openupval g') \<union> set (tmudata g')"
      using keep [OF a] op(2) a str by (auto simp: G F)
  qed
  have sw: "swept g' a" if "swept g1 a" for a using that swept_look [of g' a g1] G by simp
  have sb: "swept g' a" if "swept g a" for a using sw [OF sframe_swept [OF f that]] .
  have before: "set (root_before g') \<subseteq> set (?b @ ks)"
  proof (cases "ks = []")
    case True
    show ?thesis
    proof (cases "sweepgc g")
      case (Some s)
      then have "s \<in> set ?b" by (simp add: root_before_def)
      then show ?thesis using takeWhile_first [of s ?b rest] True Some by (auto simp: root_before_def [of g'] G)
    qed (simp add: root_before_def G True)
  next
    case False
    then have l: "last ks \<in> set (?b @ ks)" by simp
    then show ?thesis using takeWhile_first [OF l, of rest] False by (auto simp: root_before_def [of g'] G)
  qed
  have sks: "swept g' a" if "a \<in> set ks" for a using that q(2,3) sw by blast
  have up: "swept g' u" if "mainthread g' \<in> set (?b @ ks)" "u \<in> set (openupval g')" for u
  proof (cases "mainthread g \<in> set ?b")
    case True
    then show ?thesis using P(2) that(2) op(1) sb by (auto simp: G)
  next
    case False
    then have "mainthread g \<in> set q" using that(1) q(2) by (auto simp: G F)
    moreover have "threadlike g1 (mainthread g)" using core_swp [OF c f] by (simp add: core_def kinds_ok_def F)
    ultimately show ?thesis using q(4) that(2) sw by (auto simp: G)
  qed
  have sw2: "sweep2_ok g'"
    unfolding sweep2_ok_def
  proof (intro conjI ballI allI impI)
    fix a assume "a \<in> set (strings g') \<union> set (root_before g')"
    then show "swept g' a" using P(1) sb sks before str by auto
  next
    fix a assume "mainthread g' \<in> set (root_before g')" "a \<in> set (openupval g')"
    then show "swept g' a" using up before by blast
  next
    fix s assume s: "sweepgc g' = Some s"
    show "s \<in> set (rootgc g')"
    proof (cases "ks = []")
      case True
      then have "sweepgc g = Some s" using s by (simp add: G)
      then show ?thesis by (simp add: G root_before_def)
    next
      case False
      then have "s \<in> set ks" using s last_in_set [of ks] by (simp add: G)
      then show ?thesis by (simp add: G)
    qed
  qed
  have "rest_ok g'" if ra: "root_after g' = []"
  proof -
    have "rootgc g' = root_before g'" using root_split [of g'] sw2 ra by (simp add: sweep2_ok_def)
    moreover have "mainthread g' \<in> set (rootgc g')" using v' by (simp add: cover_def)
    ultimately have "\<forall>a \<in> set (rootgc g') \<union> set (strings g') \<union> set (openupval g'). swept g' a" using sw2 by (auto simp: sweep2_ok_def)
    then show ?thesis
      unfolding rest_ok_def using v' unfolding cover_def swept_def by (metis UnE option.distinct(1))
  qed
  then show ?thesis using c' v' sw2 G F by simp
qed

lemma resize_strings:
  assumes "k \<le> 31"
  shows "set (strings (luaS_resize (2 ^ k) g)) = set (strings g)"
proof (cases "phase g = GCSsweepstring")
  case False
  let ?n = "2 ^ k :: nat" and ?ps = "concat (strt_hash g)" and ?f = "\<lambda>p. hash_lmod (str_hash g p) (2 ^ k)"
  have f: "\<forall>p \<in> set ?ps. ?f p < ?n" using hash_lmod_less [OF assms] by blast
  have nh: "fold (rehash_one g ?n) ?ps (replicate ?n []) = map (\<lambda>i. rev (filter (\<lambda>p. ?f p = i) ?ps)) [0..<?n]"
    using rehash_mem [of ?ps g ?n "replicate ?n []"] f by (intro nth_equalityI) (simp_all add: length_rehash)
  have "set (strings (luaS_resize ?n g)) = set (concat (map (\<lambda>i. rev (filter (\<lambda>p. ?f p = i) ?ps)) [0..<?n]))"
    using False by (simp add: luaS_resize_def strings_def nh)
  also have "... = set ?ps" using f by auto
  finally show ?thesis by (simp add: strings_def)
qed (simp add: luaS_resize_def)

lemma resize_inv:
  assumes c: "core g" and v: "cover g" and r: "rest_ok g" and k: "k \<le> 31" and n: "n = 2 ^ k"
  defines "g' \<equiv> luaS_resize n g"
  shows "core g' \<and> cover g' \<and> rest_ok g'"
proof (cases "phase g = GCSsweepstring")
  case True
  then show ?thesis using assms by (simp add: luaS_resize_def)
next
  case False
  have G: "look g' = look g" "length (heap g') = length (heap g)" "currentwhite g' = currentwhite g" "mainthread g' = mainthread g"
    "registry g' = registry g" "basic_mt g' = basic_mt g" "tmudata g' = tmudata g" "rootgc g' = rootgc g" "openupval g' = openupval g"
    by (auto simp: g'_def luaS_resize_def)
  have "core g'" using c core_fields [OF G(1-7)] by simp
  moreover have "length (strt_hash g') = 2 ^ k" using False by (simp add: g'_def luaS_resize_def length_rehash n)
  then have "cover g'" using v k resize_strings [OF k, of g] G by (auto simp: cover_def g'_def n)
  moreover have "rest_ok g'" using r G by (simp add: rest_ok_def swept_def)
  ultimately show ?thesis by blast
qed

lemma checkSizes_inv: "core g \<Longrightarrow> cover g \<Longrightarrow> rest_ok g \<Longrightarrow> core (checkSizes g) \<and> cover (checkSizes g) \<and> rest_ok (checkSizes g)"
proof -
  assume a: "core g" "cover g" "rest_ok g"
  obtain k where k: "k \<le> 31" "length (strt_hash g) = 2 ^ k" using a(2) by (auto simp: cover_def)
  show ?thesis
  proof (cases "MINSTRTABSIZE * 2 < length (strt_hash g)")
    case True
    then have "k \<noteq> 0" using k(2) by (cases k) auto
    then obtain j where j: "k = Suc j" by (cases k) auto
    have "core (luaS_resize (2 ^ j) g) \<and> cover (luaS_resize (2 ^ j) g) \<and> rest_ok (luaS_resize (2 ^ j) g)"
      using resize_inv [OF a, of j "2 ^ j"] k(1) j by simp
    then show ?thesis using a k(2) j by (simp add: checkSizes_def Let_def)
  qed (use a in \<open>simp add: checkSizes_def Let_def\<close>)
qed

lemma sweep_step_inv:
  assumes c: "core g" and v: "cover g" and p: "sweep2_ok g" "phase g = GCSsweep"
  shows "gc_inv (singlestep g)"
proof -
  let ?g = "sweep_root GCSWEEPMAX g"
  note S = sweep_root_spec [OF c v p(1), of GCSWEEPMAX]
  show ?thesis
  proof (cases "root_after ?g = []")
    case True
    then have C: "core (checkSizes ?g)" "cover (checkSizes ?g)" "rest_ok (checkSizes ?g)" using checkSizes_inv S by blast+
    let ?h = "(checkSizes ?g)\<lparr>phase := GCSfinalize\<rparr>"
    have "core ?h" using C(1) by (subst core_fields) simp_all
    moreover have "cover ?h" using C(2) by (simp add: cover_def strings_def)
    moreover have "rest_ok ?h" using C(3) by (simp add: rest_ok_def swept_def)
    ultimately show ?thesis using True p(2) by (simp add: singlestep_def gc_inv_def phase_ok_def Let_def)
  next
    case False
    then show ?thesis using S p(2) by (simp add: singlestep_def gc_inv_def phase_ok_def Let_def)
  qed
qed

end
