(* ===== verification/Lua_GC_Mutator.thy ===== *)
theory Lua_GC_Mutator
  imports Lua_GC_Cycle
begin

text \<open>
  The program between the steps of the collector: what it creates, stores and closes keeps the invariant,
  with the barriers of src/lib/lua/lgc.h where the sources have them.
\<close>

section \<open>Changing the references of an object\<close>

definition bstring :: "gbody \<Rightarrow> bool" where
  "bstring b \<longleftrightarrow> (\<exists>s h. b = GString s h)"

definition bthread :: "gbody \<Rightarrow> bool" where
  "bthread b \<longleftrightarrow> (\<exists>gt st. b = GThread gt st)"

definition budata :: "gbody \<Rightarrow> bool" where
  "budata b \<longleftrightarrow> (\<exists>mt e. b = GUdata mt e)"

lemma thread_body: "threadlike g a \<longleftrightarrow> (\<exists>b. body_of g a = Some b \<and> bthread b)"
  by (auto simp: threadlike_def bthread_def)

lemma udata_body: "udatalike g a \<longleftrightarrow> (\<exists>b. body_of g a = Some b \<and> budata b)"
  by (auto simp: udatalike_def budata_def)

lemma str_body: "is_str g a \<longleftrightarrow> (\<forall>b. body_of g a = Some b \<longrightarrow> bstring b)"
  by (simp add: is_str_def bstring_def)

lemma body_setbody: "body_of (setbody a b g) c = (if c = a \<and> look g a \<noteq> None then Some b else body_of g c)"
  by (auto simp: body_of_def look_setbody split: option.split)

lemma body_setbody_Some: "body_of g a = Some b \<Longrightarrow> body_of (setbody a b' g) c = (if c = a then Some b' else body_of g c)"
proof -
  assume "body_of g a = Some b"
  then have "look g a \<noteq> None" by (auto simp: body_of_def)
  then show ?thesis by (simp add: body_setbody)
qed

lemma alive_setbody [simp]: "alive (setbody a b g) = alive g"
  by (auto simp: alive_def look_setbody fun_eq_iff)

lemma swept_setbody [simp]: "swept (setbody a b g) = swept g"
  by (auto simp: swept_def look_setbody fun_eq_iff)

lemma black_setbody [simp]: "black (setbody a b g) = black g"
  by (auto simp: black_def look_setbody fun_eq_iff split: option.split)

lemma look_setbody_None [simp]: "look (setbody a b g) c = None \<longleftrightarrow> look g c = None"
  by (auto simp: look_setbody)

lemma core_setbody:
  assumes c: "core g" and a: "body_of g a = Some b" and nb: "\<not> bstring b" "\<not> bstring b'"
    and k: "bthread b' = bthread b" "budata b' = budata b" "black g a \<longrightarrow> blackable b'"
    and r: "alive g a \<longrightarrow> (\<forall>r \<in> set (refs b'). alive g r)"
    and n: "\<forall>r \<in> set (proto_names b'). r < length (heap g) \<and> is_str g r" "\<forall>r \<in> set (krefs b'). r < length (heap g)"
  shows "core (setbody a b' g)"
proof -
  let ?g = "setbody a b' g"
  have C: "marks_ok g" "blacks_ok g" "fixed_ok g" "kinds_ok g" "names_ok g" "closed g" "rooted g" "mask_ok (currentwhite g)"
    using c by (simp_all add: core_def)
  have B: "body_of ?g x = (if x = a then Some b' else body_of g x)" for x by (rule body_setbody_Some [OF a])
  have "marks_ok ?g" using C(1) by (auto simp: marks_ok_def look_setbody)
  moreover have "blacks_ok ?g" using C(2) k(3) by (auto simp: blacks_ok_def B)
  moreover have "fixed_ok ?g"
    unfolding fixed_ok_def
  proof (intro allI impI)
    fix x y assume y: "look ?g x = Some y \<and> bit (marked y) FIXEDBIT"
    show "x = mainthread ?g \<or> (\<exists>s h. body y = GString s h)"
    proof (cases "x = a")
      case True
      obtain z where z: "look g a = Some z" "body z = b" using body_of_look [OF a] by blast
      then have "bit (marked z) FIXEDBIT" using y True by (auto simp: look_setbody)
      then have "a = mainthread g \<or> (\<exists>s h. body z = GString s h)" by (rule fixedD [OF C(3) z(1)])
      then show ?thesis using True nb(1) z(2) by (auto simp: bstring_def)
    next
      case False
      then have "look g x = Some y" using y by (simp add: look_setbody)
      then show ?thesis using fixedD [OF C(3)] y by simp
    qed
  qed
  moreover have th: "threadlike ?g x = threadlike g x" and us: "udatalike ?g x = udatalike g x" for x
    using a k by (auto simp: thread_body udata_body B)
  have "kinds_ok ?g" using C(4) unfolding kinds_ok_def th us setbody_fields .
  moreover have "names_ok ?g"
  proof -
    have s: "is_str ?g x" if "is_str g x" for x using that a nb(1) by (auto simp: str_body B)
    show ?thesis
      unfolding names_ok_def
    proof (intro allI impI)
      fix x bd assume x: "body_of ?g x = Some bd"
      have "(\<forall>q \<in> set (proto_names bd). q < length (heap g) \<and> is_str g q) \<and> (\<forall>q \<in> set (krefs bd). q < length (heap g))"
      proof (cases "x = a")
        case True
        then show ?thesis using x n by (simp add: B)
      next
        case False
        then have "body_of g x = Some bd" using x by (simp add: B)
        then show ?thesis using C(5) unfolding names_ok_def by blast
      qed
      then show "(\<forall>q \<in> set (proto_names bd). q < length (heap ?g) \<and> is_str ?g q) \<and> (\<forall>q \<in> set (krefs bd). q < length (heap ?g))"
        using s by simp
    qed
  qed
  moreover have "closed ?g"
    unfolding closed_def alive_setbody
  proof (intro allI impI ballI)
    fix x bd q assume x: "alive g x \<and> body_of ?g x = Some bd" "q \<in> set (refs bd)"
    show "alive g q"
    proof (cases "x = a")
      case True
      then show ?thesis using x r B [of x] by simp
    next
      case False
      then have "body_of g x = Some bd" using x(1) B [of x] by simp
      then show ?thesis using x C(6) unfolding closed_def by blast
    qed
  qed
  moreover have "rooted ?g" using C(7) by (simp add: rooted_def roots_def)
  ultimately show ?thesis using C(8) by (simp add: core_def)
qed

lemma cover_setbody: "cover (setbody a b g) = cover g"
  by (simp add: cover_def strings_def)

lemma rest_setbody: "rest_ok (setbody a b g) = rest_ok g" "sweep1_ok (setbody a b g) = sweep1_ok g"
  "sweep2_ok (setbody a b g) = sweep2_ok g"
  by (simp_all add: rest_ok_def sweep1_ok_def sweep2_ok_def strings_def root_before_def)

lemma waiting_setbody [simp]: "waiting (setbody a b g) = waiting g"
  by (simp add: waiting_def)

lemma MI_setbody:
  assumes M: "MI D g" and a: "body_of g a = Some b" and k: "a \<in> waiting g \<Longrightarrow> listed b' = listed b" "black g a \<Longrightarrow> blackable b'"
  shows "MI (insert a D) (setbody a b' g)"
    and "leaf b' = leaf b \<Longrightarrow> a \<notin> D \<longrightarrow> black g a \<longrightarrow> (\<forall>r \<in> set (refs b') \<union> set (krefs b'). \<not> white g r) \<Longrightarrow> MI D (setbody a b' g)"
proof -
  let ?g = "setbody a b' g"
  have B: "body_of ?g x = (if x = a then Some b' else body_of g x)" for x by (rule body_setbody_Some [OF a])
  have C: "marks_ok g" "\<forall>x y. look g x = Some y \<longrightarrow> \<not> isdead (currentwhite g) (marked y)"
    "\<forall>x bd. black g x \<and> body_of g x = Some bd \<longrightarrow> blackable bd"
    "\<forall>x \<in> waiting g. \<not> white g x \<and> (\<exists>bd. body_of g x = Some bd \<and> listed bd)" "\<forall>x. x \<notin> D \<and> \<not> white g x \<longrightarrow> okay (waiting g) g x"
    using M by (simp_all add: MI_def)
  have 1: "marks_ok ?g" using C(1) by (auto simp: marks_ok_def look_setbody)
  have 2: "\<forall>x y. look ?g x = Some y \<longrightarrow> \<not> isdead (currentwhite ?g) (marked y)" using C(2) by (auto simp: look_setbody)
  have 3: "\<forall>x bd. black ?g x \<and> body_of ?g x = Some bd \<longrightarrow> blackable bd" using C(3) k(2) by (auto simp: B)
  have 4: "\<forall>x \<in> waiting ?g. \<not> white ?g x \<and> (\<exists>bd. body_of ?g x = Some bd \<and> listed bd)" using C(4) a k(1) by (auto simp: B)
  have 5: "okay (waiting ?g) ?g x" if "x \<noteq> a" "x \<notin> D" "\<not> white ?g x" for x
    using that C(5) by (simp add: okay_def B)
  show "MI (insert a D) ?g" unfolding MI_def using 1 2 3 4 5 by blast
  assume l: "leaf b' = leaf b" and r: "a \<notin> D \<longrightarrow> black g a \<longrightarrow> (\<forall>r \<in> set (refs b') \<union> set (krefs b'). \<not> white g r)"
  have "okay (waiting ?g) ?g a" if d: "a \<notin> D" "\<not> white ?g a"
  proof -
    have "okay (waiting g) g a" using C(5) d by simp
    then show ?thesis using r l d(1) a k(2) by (auto simp: okay_def B)
  qed
  then have 6: "\<forall>x. x \<notin> D \<and> \<not> white ?g x \<longrightarrow> okay (waiting ?g) ?g x" using 5 by metis
  show "MI D ?g" unfolding MI_def by (intro conjI 1 2 3 4 6)
qed

lemma marking_not_black: "core g \<Longrightarrow> \<not> black g (mainthread g)"
  unfolding core_def blacks_ok_def kinds_ok_def threadlike_def blackable_def by fastforce

text \<open>The stack and the globals change without a barrier.\<close>

lemma set_thread_inv:
  assumes g: "gc_inv g" and r: "\<forall>r \<in> set (vrefs gt) \<union> set (concat (map vrefs st)). alive g r"
  shows "gc_inv (setbody (mainthread g) (GThread gt st) g)"
proof -
  have c: "core g" and v: "cover g" and p: "phase_ok g" using g by (simp_all add: gc_inv_def)
  obtain gt0 st0 where b: "body_of g (mainthread g) = Some (GThread gt0 st0)"
    using c by (auto simp: core_def kinds_ok_def threadlike_def)
  have nb: "\<not> black g (mainthread g)" by (rule marking_not_black [OF c])
  have "core (setbody (mainthread g) (GThread gt st) g)"
    by (rule core_setbody [OF c b]) (use r nb in \<open>auto simp: bstring_def bthread_def budata_def refs_def proto_names_def\<close>)
  moreover have "marking_ok (setbody (mainthread g) (GThread gt st) g)" if "marking_ok g"
    using that MI_setbody(2) [OF _ b, of "set (tmudata g)" "GThread gt st"] nb
    by (simp add: marking_ok_def leaf_def listed_def blackable_def)
  ultimately show ?thesis
    using v p by (auto simp: gc_inv_def phase_ok_def cover_setbody rest_setbody split: gcphase.split)
qed

lemma push_stack_inv: "gc_inv g \<Longrightarrow> \<forall>r \<in> set (concat (map vrefs vs)). alive g r \<Longrightarrow> gc_inv (push_stack vs g)"
proof -
  assume g: "gc_inv g" and r: "\<forall>r \<in> set (concat (map vrefs vs)). alive g r"
  then have c: "core g" by (simp add: gc_inv_def)
  obtain gt st where b: "body_of g (mainthread g) = Some (GThread gt st)"
    using c by (auto simp: core_def kinds_ok_def threadlike_def)
  have "alive g (mainthread g)" using c by (simp add: core_def rooted_def roots_def)
  then have "\<forall>r \<in> set (refs (GThread gt st)). alive g r" using c b by (auto simp: core_def closed_def)
  then show ?thesis using set_thread_inv [OF g, of gt "st @ vs"] r by (auto simp: push_stack_def b refs_def)
qed

section \<open>Finalizers\<close>

lemma getstr_alive: "core g \<Longrightarrow> alive g m \<Longrightarrow> r \<in> set (vrefs (getstr g (Some m) k)) \<Longrightarrow> alive g r"
proof -
  assume c: "core g" and m: "alive g m" and r: "r \<in> set (vrefs (getstr g (Some m) k))"
  obtain mt arr ns where b: "body_of g m = Some (GTable mt arr ns)"
    using r by (auto simp: getstr_def vrefs_def split: option.splits gbody.splits)
  then obtain k' v where f: "find (\<lambda>(k', v). k' = VRef k) ns = Some (k', v)" "r \<in> set (vrefs v)"
    using r by (auto simp: getstr_def vrefs_def split: option.splits)
  then have "(k', v) \<in> set ns" by (metis find_Some_iff nth_mem)
  then have "r \<in> set (concat (map (node_refs False False) ns))" using f(2) by (force simp: node_refs_def vrefs_def)
  then have "r \<in> set (refs (GTable mt arr ns))" unfolding set_table_refs by blast
  then show "alive g r" using c m b unfolding core_def closed_def by blast
qed

lemma GCTM_inv:
  assumes c: "core g" and v: "cover g" and p: "rest_ok g" "phase g = GCSfinalize"
  shows "gc_inv (GCTM g)"
proof (cases "tmudata g")
  case Nil
  then show ?thesis using assms by (simp add: GCTM_def gc_inv_def phase_ok_def)
next
  case (Cons u us)
  define g0 where "g0 = setmark u (makewhite (currentwhite g)) g"
  define g1 where "g1 = setmark u (makewhite (currentwhite g)) (g\<lparr>tmudata := us, rootgc := before_udata g @ u # udata_list g\<rparr>)"
  have C: "marks_ok g" "blacks_ok g" "fixed_ok g" "kinds_ok g" "names_ok g" "closed g" "rooted g" "mask_ok (currentwhite g)"
    using c by (simp_all add: core_def)
  have ow: "one_white (currentwhite g)" using C(8) by (simp add: mask_ok_def)
  have "alive g u" using C(7) Cons by (simp add: rooted_def)
  then obtain x where x: "look g u = Some x" by (auto simp: alive_def)
  have L: "look g1 b = (if b = u then Some (x\<lparr>marked := makewhite (currentwhite g) (marked x)\<rparr>) else look g b)" for b
    using x by (simp add: g1_def look_setmark)
  have B: "body_of g1 = body_of g" using x by (auto simp: body_of_def L fun_eq_iff)
  have F: "currentwhite g1 = currentwhite g" "mainthread g1 = mainthread g" "registry g1 = registry g" "basic_mt g1 = basic_mt g"
    "tmudata g1 = us" "rootgc g1 = before_udata g @ u # udata_list g" "strt_hash g1 = strt_hash g" "openupval g1 = openupval g"
    "phase g1 = GCSfinalize" "length (heap g1) = length (heap g)"
    using p(2) by (simp_all add: g1_def)
  have al: "alive g1 a \<longleftrightarrow> alive g a" for a
    using \<open>alive g u\<close> ow by (auto simp: alive_def L F mark_simps)
  have "marks_ok g1" using C(1) ow by (auto simp: marks_ok_def L mark_simps)
  moreover have "blacks_ok g1"
  proof -
    have "black g a" if "black g1 a" for a using that by (auto simp: black_def L mark_simps split: if_splits)
    then show ?thesis using C(2) by (auto simp: blacks_ok_def B)
  qed
  moreover have "fixed_ok g1"
    unfolding fixed_ok_def
  proof (intro allI impI)
    fix a y assume y: "look g1 a = Some y \<and> bit (marked y) FIXEDBIT"
    then have "\<exists>z. look g a = Some z \<and> body z = body y \<and> bit (marked z) FIXEDBIT"
      using x by (auto simp: L bit_colours split: if_splits)
    then show "a = mainthread g1 \<or> (\<exists>s h. body y = GString s h)" using fixedD [OF C(3)] F(2) by metis
  qed
  moreover have "kinds_ok g1" using C(4) Cons by (simp add: kinds_ok_def threadlike_def udatalike_def B F)
  moreover have "names_ok g1" using C(5) by (simp add: names_ok_def is_str_def B F)
  moreover have "closed g1" using C(6) by (simp add: closed_def B al)
  moreover have "rooted g1" using C(7) Cons by (simp add: rooted_def roots_def F al)
  ultimately have c1: "core g1" using C(8) by (simp add: core_def F)
  have sp: "rootgc g = before_udata g @ udata_list g" using v by (intro split_udata) (simp add: cover_def)
  have v1: "cover g1"
    unfolding cover_def
  proof (intro conjI allI impI)
    show "mainthread g1 \<in> set (rootgc g1)" by (simp add: F before_udata_def)
    show "\<exists>k \<le> 31. length (strt_hash g1) = 2 ^ k" using v by (simp add: cover_def F)
    fix a assume "look g1 a \<noteq> None"
    then have "look g a \<noteq> None" using x by (auto simp: L split: if_splits)
    then have "a \<in> set (rootgc g) \<union> set (strings g) \<union> set (openupval g) \<union> set (tmudata g)" using v unfolding cover_def by blast
    then show "a \<in> set (rootgc g1) \<union> set (strings g1) \<union> set (openupval g1) \<union> set (tmudata g1)"
      unfolding sp by (auto simp: F Cons strings_def)
  qed
  have r1: "rest_ok g1"
    using p(1) ow Cons by (auto simp: rest_ok_def swept_def L F mark_simps)
  have i1: "gc_inv g1" using c1 v1 r1 by (simp add: gc_inv_def phase_ok_def F)
  have m: "alive g1 r" if "r \<in> set (vrefs (getstr g1 (udata_metatable g1 u) (tm_gc g1)))" for r
  proof (cases "udata_metatable g1 u")
    case None
    then show ?thesis using that by (simp add: getstr_def vrefs_def)
  next
    case (Some m)
    then obtain e where "body_of g1 u = Some (GUdata (Some m) e)"
      by (auto simp: udata_metatable_def split: option.splits gbody.splits)
    then have "alive g1 m" using c1 al \<open>alive g u\<close> by (auto simp: core_def closed_def refs_def orefs_def)
    then show ?thesis using getstr_alive [OF c1] that Some by simp
  qed
  have "GCTM g = (let tm = getstr g1 (udata_metatable g1 u) (tm_gc g1) in if tm = VNil then g1 else push_stack [tm, VRef u] g1)"
    by (simp add: GCTM_def Cons g1_def Let_def)
  then show ?thesis using i1 push_stack_inv [OF i1] m al \<open>alive g u\<close> by (simp add: Let_def vrefs_def)
qed

text \<open>Every step of the collector keeps the invariant.\<close>

lemma singlestep_inv: "gc_inv g \<Longrightarrow> gc_inv (singlestep g)"
proof -
  assume g: "gc_inv g"
  then have c: "core g" and v: "cover g" and p: "phase_ok g" by (simp_all add: gc_inv_def)
  show ?thesis
  proof (cases "phase g")
    case GCSpause
    then show ?thesis using markroot_inv [OF c v] p by (simp add: singlestep_def phase_ok_def)
  next
    case GCSpropagate
    then show ?thesis using propagatemark_inv [OF c v] atomic_inv [OF c v] p by (simp add: singlestep_def phase_ok_def)
  next
    case GCSsweepstring
    then show ?thesis using sweep_strings_inv [OF c v] p by (simp add: singlestep_def phase_ok_def)
  next
    case GCSsweep
    then show ?thesis using sweep_step_inv [OF c v] p by (simp add: phase_ok_def)
  next
    case GCSfinalize
    have "gc_inv (g\<lparr>phase := GCSpause\<rparr>)"
      using c v p GCSfinalize core_fields [of "g\<lparr>phase := GCSpause\<rparr>" g]
      by (simp add: gc_inv_def phase_ok_def cover_def strings_def rest_ok_def swept_def)
    then show ?thesis using GCSfinalize GCTM_inv [OF c v] p by (simp add: singlestep_def phase_ok_def)
  qed
qed

lemma fullgc_reset_inv: "gc_inv g \<Longrightarrow> gc_inv (fullgc_reset g)"
proof -
  assume g: "gc_inv g"
  then have c: "core g" and v: "cover g" by (simp_all add: gc_inv_def)
  let ?g = "g\<lparr>sweepstrgc := 0, sweepgc := None, gray := [], grayagain := [], weak := [], phase := GCSsweepstring\<rparr>"
  have L: "look ?g = look g" by (simp add: look_def fun_eq_iff)
  have "core ?g" using c core_fields [OF L] by simp
  moreover have "cover ?g" using v by (simp add: cover_def L strings_def)
  moreover obtain k where "length (strt_hash g) = 2 ^ k" using v by (auto simp: cover_def)
  then have "sweep1_ok ?g" by (simp add: sweep1_ok_def)
  ultimately have "gc_inv ?g" by (simp add: gc_inv_def phase_ok_def)
  then show ?thesis using g by (simp add: fullgc_reset_def)
qed

end
