(* ===== verification/Lua_GC_Program.thy ===== *)
theory Lua_GC_Program
  imports Lua_GC_Mutator
begin

text \<open>
  What the program does between the steps of the collector keeps the invariant: assignments with their
  barriers (src/lib/lua/lgc.h, src/lib/lua/lgc.c), new objects (src/lib/lua/lfunc.c, src/lib/lua/lstring.c)
  and upvalues.
\<close>

section \<open>Changing a mark\<close>

lemma core_remark:
  assumes c: "core g" and a: "look g a = Some x" and m: "mark_ok (f (marked x))" "isblack (f (marked x)) \<longrightarrow> blackable (body x)"
    and f: "bit (f (marked x)) FIXEDBIT \<longrightarrow> bit (marked x) FIXEDBIT \<or> bstring (body x)"
    and d: "isdead (currentwhite g) (f (marked x)) = isdead (currentwhite g) (marked x) \<or>
      \<not> isdead (currentwhite g) (f (marked x)) \<and> refs (body x) = []"
  shows "core (setmark a f g)"
proof -
  let ?g = "setmark a f g"
  have C: "marks_ok g" "blacks_ok g" "fixed_ok g" "kinds_ok g" "names_ok g" "closed g" "rooted g" "mask_ok (currentwhite g)"
    using c by (simp_all add: core_def)
  have L: "look ?g b = (if b = a then Some (x\<lparr>marked := f (marked x)\<rparr>) else look g b)" for b using a by (simp add: look_setmark)
  have B: "body_of ?g = body_of g" by (auto simp: fun_eq_iff)
  have up: "alive ?g q" if "alive g q" for q using that a d by (auto simp: alive_def L)
  have down: "alive g q \<or> q = a \<and> refs (body x) = []" if "alive ?g q" for q
    using that a d by (cases "q = a") (auto simp: alive_def L)
  have "marks_ok ?g" using C(1) m(1) by (auto simp: marks_ok_def L)
  moreover have "blacks_ok ?g"
    unfolding blacks_ok_def B
  proof (intro allI impI)
    fix b bd assume b: "black ?g b \<and> body_of g b = Some bd"
    show "blackable bd"
    proof (cases "b = a")
      case True
      then show ?thesis using b a m(2) by (auto simp: black_def L body_of_def)
    next
      case False
      then have "black g b" using b by (simp add: black_def L)
      then show ?thesis using b C(2) unfolding blacks_ok_def by blast
    qed
  qed
  moreover have "fixed_ok ?g"
    unfolding fixed_ok_def
  proof (intro allI impI)
    fix b y assume y: "look ?g b = Some y \<and> bit (marked y) FIXEDBIT"
    show "b = mainthread ?g \<or> (\<exists>s h. body y = GString s h)"
    proof (cases "b = a")
      case True
      then have y': "y = x\<lparr>marked := f (marked x)\<rparr>" using y by (simp add: L)
      then have "bit (marked x) FIXEDBIT \<or> bstring (body x)" using y f by simp
      then show ?thesis using fixedD [OF C(3) a] True y' by (auto simp: bstring_def)
    next
      case False
      then show ?thesis using y fixedD [OF C(3)] by (simp add: L)
    qed
  qed
  moreover have "kinds_ok ?g" using C(4) unfolding kinds_ok_def threadlike_def udatalike_def B setmark_fields .
  moreover have "names_ok ?g" using C(5) by (simp add: names_ok_def is_str_def)
  moreover have "closed ?g"
    unfolding closed_def B
  proof (intro allI impI ballI)
    fix q bd r assume q: "alive ?g q \<and> body_of g q = Some bd" "r \<in> set (refs bd)"
    have "alive g q" using down [of q] q a by (auto simp: body_of_def)
    then show "alive ?g r" using q C(6) up unfolding closed_def by blast
  qed
  moreover have "rooted ?g" using C(7) up by (simp add: rooted_def roots_def)
  ultimately show ?thesis using C(8) by (simp add: core_def)
qed

lemma cover_setmark: "cover (setmark a f g) = cover g"
  by (auto simp: cover_def strings_def look_setmark)

lemma cover_grayagain: "cover (g\<lparr>grayagain := x\<rparr>) = cover g"
  by (simp add: cover_def strings_def)

lemma core_grayagain: "core (g\<lparr>grayagain := x\<rparr>) = core g"
  by (rule core_fields) simp_all

text \<open>The conditions of the other phases only get easier when more objects have been swept.\<close>

definition same_lists :: "gcstate \<Rightarrow> gcstate \<Rightarrow> bool" where
  "same_lists g g' \<longleftrightarrow>
     strt_hash g' = strt_hash g \<and> rootgc g' = rootgc g \<and> openupval g' = openupval g \<and> tmudata g' = tmudata g \<and>
     sweepgc g' = sweepgc g \<and> sweepstrgc g' = sweepstrgc g \<and> mainthread g' = mainthread g \<and> phase g' = phase g"

lemma phase_mono:
  assumes "same_lists g g'" "\<And>a. swept g a \<Longrightarrow> swept g' a" "phase g = GCSpropagate \<Longrightarrow> marking_ok g \<Longrightarrow> marking_ok g'"
  shows "phase_ok g \<Longrightarrow> phase_ok g'"
  using assms unfolding same_lists_def
  by (cases "phase g") (auto simp: phase_ok_def rest_ok_def sweep1_ok_def sweep2_ok_def strings_def root_before_def)

lemma same_lists_setmark [simp]: "same_lists g (setmark a f g)" "same_lists g (setbody a b g)" "same_lists g (g\<lparr>grayagain := x\<rparr>)"
  "same_lists g g"
  by (simp_all add: same_lists_def)

lemma same_lists_trans: "same_lists g g1 \<Longrightarrow> same_lists g1 g2 \<Longrightarrow> same_lists g g2"
  by (simp add: same_lists_def)

section \<open>Assignment to a table\<close>

lemma marks_at: "core g \<Longrightarrow> look g a = Some x \<Longrightarrow> mark_ok (marked x)"
  by (auto simp: core_def marks_ok_def)

lemma barrierback_inv:
  assumes c: "core g" and v: "cover g" and p: "phase g \<noteq> GCSpropagate \<longrightarrow> phase_ok g"
    and t: "body_of g t = Some (GTable mt arr ns)" "\<not> white g t"
    and M: "phase g = GCSpropagate \<longrightarrow> MI (insert t D) g"
  shows "core (luaC_barrierback t g) \<and> cover (luaC_barrierback t g) \<and>
    (phase g \<noteq> GCSpropagate \<longrightarrow> phase_ok (luaC_barrierback t g)) \<and> (phase g = GCSpropagate \<longrightarrow> MI D (luaC_barrierback t g)) \<and>
    \<not> black (luaC_barrierback t g) t \<and> white (luaC_barrierback t g) = white g \<and> same_lists g (luaC_barrierback t g)"
proof -
  let ?h = "g\<lparr>grayagain := t # grayagain g\<rparr>" and ?g = "luaC_barrierback t g"
  obtain x where x: "look g t = Some x" "body x = GTable mt arr ns" using body_of_look [OF t(1)] by blast
  have e: "?g = setmark t black2gray ?h" by (simp add: luaC_barrierback_def)
  have L: "look ?g b = (if b = t then Some (x\<lparr>marked := black2gray (marked x)\<rparr>) else look g b)" for b
    using x by (simp add: e look_setmark)
  have "core ?g"
    unfolding e
    by (rule core_remark [where x = x])
      (use c x marks_at [OF c x(1)] in \<open>simp_all add: core_grayagain mark_simps bit_colours\<close>)
  moreover have "cover ?g" using v by (simp add: e cover_setmark cover_grayagain)
  moreover have sl: "same_lists g ?g" by (simp add: e same_lists_def)
  moreover have cw: "currentwhite ?g = currentwhite g" by (simp add: e)
  have "swept ?g b" if "swept g b" for b
    using that x by (cases "b = t") (simp_all add: swept_def L mark_simps cw)
  then have "phase g \<noteq> GCSpropagate \<longrightarrow> phase_ok ?g" using p phase_mono [OF sl] by blast
  moreover have w: "white ?g = white g"
    unfolding e by (subst white_setmark_same) (simp_all add: mark_simps)
  moreover have W: "waiting ?g = insert t (waiting g)" by (auto simp: e waiting_def)
  moreover have nb: "\<not> black ?g t" using x by (simp add: black_def L mark_simps)
  moreover have "MI D ?g" if "phase g = GCSpropagate"
  proof -
    have "MI (insert t D) g" using M that by simp
    then have "MI (insert t D) ?g"
      by (rule MI_local [where x = "x\<lparr>marked := black2gray (marked x)\<rparr>"])
        (use x t(2) W cw in \<open>auto simp: L white_Some mark_simps listed_def\<close>)
    moreover have "okay (waiting ?g) ?g t" using nb by (simp add: okay_def e waiting_def)
    ultimately show ?thesis by (rule MI_drop)
  qed
  ultimately show ?thesis by blast
qed

text \<open>An assignment to a table: the new contents, then the barriers for the key and for the value.\<close>

definition table_store :: "addr \<Rightarrow> gval \<Rightarrow> gval \<Rightarrow> gbody \<Rightarrow> gcstate \<Rightarrow> gcstate" where
  "table_store t k v b g = luaC_barriert t v (luaC_barriert t k (setbody t b g))"

lemma barriert_cases: "luaC_barriert t v g = (if black g t \<and> (\<exists>r \<in> set (vrefs v). white g r) then luaC_barrierback t g else g)"
  by (auto simp: luaC_barriert_def luaC_objbarriert_def vrefs_def split: gval.split)

lemma core_black_white: "core g \<Longrightarrow> black g a \<Longrightarrow> \<not> white g a"
  using mark_okD unfolding core_def by blast

lemma table_store_inv:
  assumes g: "gc_inv g" and t: "body_of g t = Some (GTable mt arr ns)" and b: "b = GTable mt' arr' ns'"
    and r: "set (refs b) \<subseteq> set (refs (GTable mt arr ns)) \<union> K \<union> set (vrefs k) \<union> set (vrefs v)"
    and K: "K \<subseteq> set (krefs (GTable mt arr ns))" "set (krefs b) \<subseteq> set (krefs (GTable mt arr ns)) \<union> set (vrefs k)"
    and al: "alive g t" "\<forall>r \<in> K \<union> set (vrefs k) \<union> set (vrefs v). alive g r"
  shows "gc_inv (table_store t k v b g)"
proof -
  let ?g1 = "setbody t b g"
  have c: "core g" and cv: "cover g" and p: "phase_ok g" using g by (simp_all add: gc_inv_def)
  have c1: "core ?g1"
  proof (rule core_setbody [OF c t])
    have "\<forall>q \<in> set (refs (GTable mt arr ns)). alive g q" using c t al(1) unfolding core_def closed_def by blast
    then show "alive g t \<longrightarrow> (\<forall>r \<in> set (refs b). alive g r)" using r al(2) by blast
    have "\<forall>q \<in> set (krefs (GTable mt arr ns)). q < length (heap g)" using c t unfolding core_def names_ok_def by blast
    moreover have "q < length (heap g)" if "alive g q" for q using that look_lt by (auto simp: alive_def)
    ultimately show "\<forall>q \<in> set (krefs b). q < length (heap g)" using K(2) al(2) by blast
  qed (auto simp: b bstring_def bthread_def budata_def blackable_def proto_names_def)
  have v1: "cover ?g1" using cv by (simp add: cover_setbody)
  have b1: "body_of ?g1 t = Some (GTable mt' arr' ns')" by (simp add: body_setbody_Some [OF t] b)
  have p1: "phase_ok ?g1" if "phase g \<noteq> GCSpropagate"
    using phase_mono [of g ?g1] that p by simp
  let ?D = "set (tmudata g)"
  have tD: "t \<notin> ?D" using c t by (auto simp: core_def kinds_ok_def udatalike_def)
  have M: "MI ?D g" if "phase g = GCSpropagate" using p that by (simp add: phase_ok_def marking_ok_def)
  have M1: "MI (insert t ?D) ?g1" if "phase g = GCSpropagate"
    by (rule MI_setbody(1) [OF M [OF that] t]) (simp_all add: b leaf_def listed_def blackable_def)
  show ?thesis
  proof (cases "black ?g1 t \<and> (\<exists>r \<in> set (vrefs k) \<union> set (vrefs v). white ?g1 r)")
    case True
    have w: "\<not> white ?g1 t" using True core_black_white [OF c1] by blast
    let ?h = "luaC_barrierback t ?g1"
    have H: "core ?h" "cover ?h" "phase g \<noteq> GCSpropagate \<longrightarrow> phase_ok ?h" "phase g = GCSpropagate \<longrightarrow> MI ?D ?h"
      "\<not> black ?h t" "white ?h = white ?g1" "same_lists ?g1 ?h"
      using barrierback_inv [OF c1 v1 _ b1 w, of ?D] p1 M1 by simp_all
    have "table_store t k v b g = ?h"
      unfolding table_store_def using True H(5) by (auto simp: barriert_cases)
    moreover have "marking_ok ?h" if "phase g = GCSpropagate"
      using H(4,6,7) that p by (simp add: marking_ok_def phase_ok_def same_lists_def)
        (simp add: luaC_barrierback_def)
    then have "phase_ok ?h" using H(3,7) by (cases "phase g = GCSpropagate") (simp_all add: phase_ok_def same_lists_def)
    ultimately show ?thesis using H by (simp add: gc_inv_def)
  next
    case False
    then have e: "table_store t k v b g = ?g1" by (auto simp: table_store_def barriert_cases)
    have "marking_ok ?g1" if ph: "phase g = GCSpropagate"
    proof -
      have "MI ?D ?g1"
      proof (rule MI_setbody(2) [OF M [OF ph] t])
        show "t \<notin> ?D \<longrightarrow> black g t \<longrightarrow> (\<forall>r \<in> set (refs b) \<union> set (krefs b). \<not> white g r)"
        proof (intro impI ballI)
          fix q assume q: "black g t" "q \<in> set (refs b) \<union> set (krefs b)"
          have "\<not> white g t" by (rule core_black_white [OF c q(1)])
          then have "okay (waiting g) g t" using M [OF ph] tD unfolding MI_def by blast
          then have "\<forall>r \<in> set (refs (GTable mt arr ns)) \<union> set (krefs (GTable mt arr ns)). \<not> white g r"
            using q(1) t by (simp add: okay_def)
          moreover have "q \<in> set (refs (GTable mt arr ns)) \<union> set (krefs (GTable mt arr ns)) \<union> set (vrefs k) \<union> set (vrefs v)"
            using q(2) r K by blast
          ultimately show "\<not> white g q" using q(1) False by auto
        qed
      qed (simp_all add: b leaf_def listed_def blackable_def)
      then show ?thesis using p ph by (simp add: marking_ok_def phase_ok_def)
    qed
    then have "phase_ok ?g1" using p1 by (cases "phase g = GCSpropagate") (simp_all add: phase_ok_def)
    then show ?thesis using c1 v1 e by (simp add: gc_inv_def)
  qed
qed

section \<open>Assignment to other objects\<close>

text \<open>The objects whose assignments have a forward barrier: userdata, closed upvalues, closures, prototypes.\<close>

definition assignable :: "gbody \<Rightarrow> gbody \<Rightarrow> bool" where
  "assignable b b' \<longleftrightarrow>
     (case (b, b') of
        (GUdata mt e, GUdata mt' e') \<Rightarrow> True | (GClosed v, GClosed v') \<Rightarrow> True
      | (GCClosure e us, GCClosure e' us') \<Rightarrow> True | (GLClosure e p us, GLClosure e' p' us') \<Rightarrow> True
      | (GProto s k un ps ln, GProto s' k' un' ps' ln') \<Rightarrow> True
      | _ \<Rightarrow> False)"

definition object_store :: "addr \<Rightarrow> gval \<Rightarrow> gbody \<Rightarrow> gcstate \<Rightarrow> gcstate" where
  "object_store a v b g = luaC_barrier a v (setbody a b g)"

lemma assignable_kind:
  assumes "assignable b b'"
  shows "leaf b' = leaf b" "listed b' = listed b" "blackable b'" "blackable b" "\<not> bthread b" "\<not> bthread b'"
    "budata b' = budata b" "\<not> bstring b" "\<not> bstring b'" "krefs b = []" "krefs b' = []"
  using assms
  by (auto simp: assignable_def leaf_def listed_def blackable_def bthread_def budata_def bstring_def split: gbody.splits)

lemma reallymark_ext: "marks_ok g \<Longrightarrow> white g a \<Longrightarrow> mext {} g (reallymarkobject a g) \<and> \<not> white (reallymarkobject a g) a"
  using markobject_ext [of g a] by (simp add: markobject_def mark_if_def)

lemma same_lists_mframe: "mframe g g' \<Longrightarrow> same_lists g g'"
  by (simp add: same_lists_def mframe_fields)

text \<open>A forward barrier on an object that is black and has just been given a white reference.\<close>

lemma barrierf_inv:
  assumes c: "core g" and v: "cover g" and p: "phase g \<noteq> GCSpropagate \<longrightarrow> phase_ok g"
    and a: "body_of g a = Some b" "alive g a" "black g a" and r: "white g r"
    and M: "phase g = GCSpropagate \<longrightarrow> MI (insert a D) g"
    and old: "phase g = GCSpropagate \<longrightarrow> (\<forall>q \<in> set (refs b). q = r \<or> a \<in> D \<or> \<not> white g q)"
    and roots: "phase g = GCSpropagate \<longrightarrow> \<not> white g (mainthread g) \<and> (\<forall>q \<in> set (vrefs (registry g)). \<not> white g q)"
    and D: "D = set (tmudata g)" and k: "krefs b = []"
  shows "gc_inv (luaC_barrierf a r g)"
proof (cases "phase g = GCSpropagate")
  case True
  let ?g = "reallymarkobject r g"
  have e: "luaC_barrierf a r g = ?g" using True by (simp add: luaC_barrierf_def)
  have MI: "MI (insert a D) g" using M True by simp
  have ok: "marks_ok g" using MI by (simp add: MI_def)
  have x: "mext {} g ?g" "\<not> white ?g r" using reallymark_ext [OF ok r] by blast+
  have f: "mframe g ?g" by (rule mframe_ext [OF x(1)])
  note F = mframe_fields [OF f]
  note h = mframe_hframe [OF f]
  have MI': "MI D ?g"
  proof (cases "a \<in> D")
    case True
    then have "MI D g" using MI by (simp add: insert_absorb)
    then show ?thesis by (rule MI_ext [OF _ x(1)])
  next
    case False
    have "\<forall>q \<in> set (refs b). \<not> white ?g q"
    proof
      fix q assume "q \<in> set (refs b)"
      then have "q = r \<or> \<not> white g q" using old \<open>phase g = GCSpropagate\<close> False by blast
      then show "\<not> white ?g q" using x(2) extD(3) [OF x(1)] by blast
    qed
    then show ?thesis using finish_black [OF MI a(3) core_black_white [OF c a(3)] a(1) x(1)] k by blast
  qed
  have "core ?g" by (rule core_mark [OF c h MI_colours [OF MI] MI_colours [OF MI']]) (simp_all add: F)
  moreover have "cover ?g" by (rule cover_fields [OF _ _ _ _ _ _ v]) (use hframe_kinds(4) [OF h] F in simp_all)
  moreover have "marking_ok ?g" using MI' roots True D extD(3) [OF x(1)] by (simp add: marking_ok_def F)
  ultimately show ?thesis unfolding e using True F by (simp add: gc_inv_def phase_ok_def)
next
  case False
  let ?g = "setmark a (makewhite (currentwhite g)) g"
  have e: "luaC_barrierf a r g = ?g" using False by (simp add: luaC_barrierf_def)
  obtain x where x: "look g a = Some x" "\<not> isdead (currentwhite g) (marked x)" using a(2) by (auto simp: alive_def)
  have ow: "one_white (currentwhite g)" using c by (simp add: core_def mask_ok_def)
  have L: "look ?g b = (if b = a then Some (x\<lparr>marked := makewhite (currentwhite g) (marked x)\<rparr>) else look g b)" for b
    using x by (simp add: look_setmark)
  have "core ?g" by (rule core_remark [OF c x(1)]) (use x ow in \<open>simp_all add: mark_simps bit_colours\<close>)
  moreover have "cover ?g" using v by (simp add: cover_setmark)
  moreover have "swept ?g b" if "swept g b" for b
    using that ow by (cases "b = a") (simp_all add: swept_def L mark_simps)
  then have "phase_ok ?g" using phase_mono [of g ?g] False p by simp
  ultimately show ?thesis unfolding e by (simp add: gc_inv_def)
qed

lemma object_store_inv:
  assumes g: "gc_inv g" and a: "body_of g a = Some b" and k: "assignable b b'"
    and r: "set (refs b') \<subseteq> set (refs b) \<union> set (vrefs v)"
    and n: "\<forall>q \<in> set (proto_names b'). q < length (heap g) \<and> is_str g q"
    and al: "alive g a" "\<forall>q \<in> set (vrefs v). alive g q"
  shows "gc_inv (object_store a v b' g)"
proof -
  let ?g1 = "setbody a b' g" and ?D = "set (tmudata g)"
  note K = assignable_kind [OF k]
  have c: "core g" and cv: "cover g" and p: "phase_ok g" using g by (simp_all add: gc_inv_def)
  have c1: "core ?g1"
  proof (rule core_setbody [OF c a])
    show "alive g a \<longrightarrow> (\<forall>q \<in> set (refs b'). alive g q)" using c a r al by (auto simp: core_def closed_def)
  qed (use K n in simp_all)
  have v1: "cover ?g1" using cv by (simp add: cover_setbody)
  have p1: "phase_ok ?g1" if "phase g \<noteq> GCSpropagate" using phase_mono [of g ?g1] that p by simp
  have M: "MI ?D g" "\<not> white g (mainthread g)" "\<forall>q \<in> set (vrefs (registry g)). \<not> white g q" if "phase g = GCSpropagate"
    using p that by (simp_all add: phase_ok_def marking_ok_def)
  have MIx: "MI (insert a ?D) ?g1" if "phase g = GCSpropagate"
    by (rule MI_setbody(1) [OF M(1) [OF that] a]) (use K in simp_all)
  have b1: "body_of ?g1 a = Some b'" by (simp add: body_setbody_Some [OF a])
  have old: "\<forall>q \<in> set (refs b). \<not> white g q" if "phase g = GCSpropagate" "a \<notin> ?D" "black g a"
  proof -
    have "\<not> white g a" by (rule core_black_white [OF c that(3)])
    then have "okay (waiting g) g a" using M(1) [OF that(1)] that(2) unfolding MI_def by blast
    then show ?thesis using that(3) a by (simp add: okay_def)
  qed
  show ?thesis
  proof (cases "black g a \<and> (\<exists>q. v = VRef q \<and> white g q)")
    case True
    then obtain q where q: "v = VRef q" "white g q" by blast
    have e: "object_store a v b' g = luaC_barrierf a q ?g1"
      using q True by (simp add: object_store_def luaC_barrier_def luaC_objbarrier_def)
    show ?thesis
      unfolding e
    proof (rule barrierf_inv [OF c1 v1 _ b1, where D = ?D])
      show "phase ?g1 = GCSpropagate \<longrightarrow> (\<forall>s \<in> set (refs b'). s = q \<or> a \<in> ?D \<or> \<not> white ?g1 s)"
        using old True r q(1) by (auto simp: vrefs_def)
    qed (use True q MIx M p1 al K in simp_all)
  next
    case False
    then have e: "object_store a v b' g = ?g1"
      by (auto simp: object_store_def luaC_barrier_def luaC_objbarrier_def split: gval.split)
    have "marking_ok ?g1" if ph: "phase g = GCSpropagate"
    proof -
      have "MI ?D ?g1"
      proof (rule MI_setbody(2) [OF M(1) [OF ph] a])
        show "a \<notin> ?D \<longrightarrow> black g a \<longrightarrow> (\<forall>q \<in> set (refs b') \<union> set (krefs b'). \<not> white g q)"
          using old ph r False K(11) by (auto simp: vrefs_def split: gval.splits)
      qed (use K in simp_all)
      then show ?thesis using M [OF ph] by (simp add: marking_ok_def)
    qed
    then have "phase_ok ?g1" using p1 by (cases "phase g = GCSpropagate") (simp_all add: phase_ok_def)
    then show ?thesis unfolding e using c1 v1 by (simp add: gc_inv_def)
  qed
qed

section \<open>New objects\<close>

lemma new_core:
  assumes c: "core g" and n: "newobj b g = (a, g')" and r: "\<forall>q \<in> set (refs b). alive g q"
    and nm: "\<forall>q \<in> set (proto_names b). q < length (heap g) \<and> is_str g q" and k: "\<not> bthread b"
    and ks: "\<forall>q \<in> set (krefs b). q < length (heap g)"
  shows "core g' \<and> alive g' a \<and> swept g' a \<and> look g a = None \<and> look g' a \<noteq> None \<and>
    body_of g' a = Some b \<and> (\<forall>q. q \<noteq> a \<longrightarrow> look g' q = look g q)"
proof -
  have C: "marks_ok g" "blacks_ok g" "fixed_ok g" "kinds_ok g" "names_ok g" "closed g" "rooted g" "mask_ok (currentwhite g)"
    using c by (simp_all add: core_def)
  have ow: "one_white (currentwhite g)" using C(8) by (simp add: mask_ok_def)
  note L = look_newobj [OF n] and F = newobj_fields [OF n]
  have a: "a = length (heap g)" using n by (simp add: newobj_def)
  have none: "look g a = None" by (simp add: a look_def)
  have lq: "look g' q = (if q = a then Some \<lparr>marked = luaC_white (currentwhite g), body = b\<rparr> else look g q)" for q
    using L [of q] by blast
  have la: "look g' a = Some \<lparr>marked = luaC_white (currentwhite g), body = b\<rparr>" by (simp add: lq)
  have lb: "look g' q = look g q" if "q \<noteq> a" for q using that by (simp add: lq)
  have B: "body_of g' q = (if q = a then Some b else body_of g q)" for q by (simp add: lq body_of_def)
  have al: "alive g' q \<longleftrightarrow> q = a \<or> alive g q" for q
    using la lb [of q] none F by (cases "q = a") (simp_all add: alive_def mark_simps)
  have len: "length (heap g') = Suc (length (heap g))" using n by (auto simp: newobj_def)
  have exl: "q < length (heap g)" if "alive g q" for q using that look_lt by (auto simp: alive_def)
  have "marks_ok g'" using C(1) ow by (auto simp: marks_ok_def lq mark_simps split: if_splits)
  moreover have "blacks_ok g'"
  proof -
    have "black g' q \<longleftrightarrow> q \<noteq> a \<and> black g q" for q
      using la lb [of q] ow by (cases "q = a") (simp_all add: black_def mark_simps)
    then show ?thesis using C(2) unfolding blacks_ok_def by (auto simp: B)
  qed
  moreover have "fixed_ok g'"
    unfolding fixed_ok_def
  proof (intro allI impI)
    fix q y assume y: "look g' q = Some y \<and> bit (marked y) FIXEDBIT"
    have "q \<noteq> a" using y la by (auto simp: bit_marks)
    then show "q = mainthread g' \<or> (\<exists>s h. body y = GString s h)" using y lb fixedD [OF C(3)] F by metis
  qed
  moreover have "kinds_ok g'"
  proof -
    have th: "threadlike g' q = (q \<noteq> a \<and> threadlike g q)" for q using k by (auto simp: thread_body B)
    have u: "udatalike g' q" if "udatalike g q" for q
    proof -
      have "q \<noteq> a" using that none by (auto simp: udata_body body_of_def)
      then show ?thesis using that by (simp add: udata_body B)
    qed
    have "threadlike g (mainthread g)" using C(4) by (simp add: kinds_ok_def)
    then have "mainthread g \<noteq> a" using none by (auto simp: threadlike_def body_of_def)
    moreover have "mainthread g' = mainthread g" "tmudata g' = tmudata g" using F by blast+
    ultimately show ?thesis using C(4) u unfolding kinds_ok_def th by simp
  qed
  moreover have "names_ok g'"
    unfolding names_ok_def
  proof (intro allI impI)
    fix x bd assume x: "body_of g' x = Some bd"
    have "(\<forall>q \<in> set (proto_names bd). q < length (heap g) \<and> is_str g q) \<and> (\<forall>q \<in> set (krefs bd). q < length (heap g))"
    proof (cases "x = a")
      case True
      then show ?thesis using x nm ks by (simp add: B)
    next
      case False
      then have "body_of g x = Some bd" using x by (simp add: B)
      then show ?thesis using C(5) unfolding names_ok_def by blast
    qed
    then show "(\<forall>q \<in> set (proto_names bd). q < length (heap g') \<and> is_str g' q) \<and> (\<forall>q \<in> set (krefs bd). q < length (heap g'))"
      using a len by (auto simp: str_body B)
  qed
  moreover have "closed g'"
    unfolding closed_def
  proof (intro allI impI ballI)
    fix x bd q assume x: "alive g' x \<and> body_of g' x = Some bd" "q \<in> set (refs bd)"
    show "alive g' q"
    proof (cases "x = a")
      case True
      then show ?thesis using x r by (simp add: B al)
    next
      case False
      then have "alive g x" "body_of g x = Some bd" using x(1) by (simp_all add: B al)
      then show ?thesis using x(2) C(6) al unfolding closed_def by blast
    qed
  qed
  moreover have "rooted g'" using C(7) by (auto simp: rooted_def roots_def F al)
  ultimately show ?thesis
    using C(8) F la lb none B al ow by (simp add: core_def swept_def mark_simps)
qed

lemma new_marking:
  assumes c: "core g" and m: "marking_ok g" and n: "newobj b g = (a, g')"
  shows "marking_ok g'"
proof -
  let ?D = "set (tmudata g)"
  have C: "closed g" "rooted g" "mask_ok (currentwhite g)" using c by (simp_all add: core_def)
  have ow: "one_white (currentwhite g)" using C(3) by (simp add: mask_ok_def)
  have M: "MI ?D g" using m by (simp add: marking_ok_def)
  have F: "currentwhite g' = currentwhite g" "gray g' = gray g" "grayagain g' = grayagain g" "weak g' = weak g"
    "tmudata g' = tmudata g" "mainthread g' = mainthread g" "registry g' = registry g"
    using newobj_fields [OF n] by blast+
  have lq: "look g' q = (if q = a then Some \<lparr>marked = luaC_white (currentwhite g), body = b\<rparr> else look g q)" for q
    using look_newobj [OF n, of q] by blast
  have none: "look g a = None" using look_newobj [OF n, of a] by blast
  have wt: "waiting g' = waiting g" by (simp add: waiting_def F)
  have w: "white g' q \<longleftrightarrow> q = a \<or> white g q" for q using ow by (simp add: white_def lq mark_simps)
  have bl: "black g' q \<longleftrightarrow> q \<noteq> a \<and> black g q" for q using ow by (simp add: black_def lq mark_simps)
  have B: "body_of g' q = (if q = a then Some b else body_of g q)" for q by (simp add: body_of_def lq)
  have co: "colours_ok g" by (rule MI_colours [OF M])
  have ex: "r \<noteq> a" if "alive g r" for r using that none by (auto simp: alive_def)
  have nk: "r \<noteq> a" if "body_of g q = Some bd" "r \<in> set (krefs bd)" for q bd r
  proof -
    have "r < length (heap g)" using c that unfolding core_def names_ok_def by blast
    moreover have "a = length (heap g)" using n by (simp add: newobj_def)
    ultimately show ?thesis by simp
  qed
  have na: "r \<noteq> a" if "body_of g q = Some bd" "r \<in> set (refs bd)" for q bd r
  proof -
    have "look g q \<noteq> None" using that(1) by (auto simp: body_of_def)
    then have "alive g q" using alive_exists [OF co] by blast
    then show ?thesis using that C(1) ex unfolding closed_def by blast
  qed
  have "MI ?D g'"
    unfolding MI_def wt
  proof (intro conjI allI impI ballI; (elim conjE)?)
    show "marks_ok g'" using co ow by (auto simp: marks_ok_def colours_ok_def lq mark_simps split: if_splits)
    show "\<not> isdead (currentwhite g') (marked x)" if "look g' q = Some x" for q x
      using that co by (auto simp: colours_ok_def lq F mark_simps split: if_splits)
    show "blackable bd" if "black g' q" "body_of g' q = Some bd" for q bd
      using that co by (auto simp: colours_ok_def bl B)
    show "\<not> white g' q" "\<exists>bd. body_of g' q = Some bd \<and> listed bd" if "q \<in> waiting g" for q
    proof -
      have q: "\<not> white g q" "\<exists>bd. body_of g q = Some bd \<and> listed bd" using M that unfolding MI_def by blast+
      then have "q \<noteq> a" using none by (auto simp: body_of_def)
      then show "\<not> white g' q" "\<exists>bd. body_of g' q = Some bd \<and> listed bd" using q by (simp_all add: w B)
    qed
    show "okay (waiting g) g' q" if "q \<notin> ?D" "\<not> white g' q" for q
    proof -
      have q: "q \<noteq> a" "\<not> white g q" using that(2) by (simp_all add: w)
      then have "okay (waiting g) g q" using M that(1) unfolding MI_def by blast
      then show ?thesis using q(1) by (auto simp: okay_def w bl B dest: na nk)
    qed
  qed
  moreover have "mainthread g \<noteq> a" "\<forall>r \<in> set (vrefs (registry g)). r \<noteq> a" using C(2) ex by (auto simp: rooted_def roots_def)
  ultimately show ?thesis using m by (simp add: marking_ok_def F w)
qed

text \<open>The new object is put into one of the lists.\<close>

definition extends :: "addr \<Rightarrow> addr list \<Rightarrow> addr list \<Rightarrow> bool" where
  "extends a xs ys \<longleftrightarrow> set xs \<subseteq> set ys \<and> set ys \<subseteq> insert a (set xs)"

lemma extends_refl [simp]: "extends a xs xs" by (auto simp: extends_def)

lemma takeWhile_insert: "set (takeWhile P (xs @ a # ys)) \<subseteq> insert a (set (takeWhile P (xs @ ys)))"
  by (induction xs) auto

lemma new_inv:
  assumes g: "gc_inv g" and n: "newobj b g = (a, g1)" and r: "\<forall>q \<in> set (refs b). alive g q"
    and nm: "\<forall>q \<in> set (proto_names b). q < length (heap g) \<and> is_str g q" and k: "\<not> bthread b"
    and g2: "g2 = g1\<lparr>rootgc := R, strt_hash := H, openupval := Ou, uvhead := U, strt_nuse := Nu\<rparr>"
    and R: "extends a (rootgc g) R" "\<And>s. set (takeWhile (\<lambda>x. x \<noteq> s) R) \<subseteq> insert a (set (takeWhile (\<lambda>x. x \<noteq> s) (rootgc g)))"
    and Ou: "extends a (openupval g) Ou"
    and H: "length H = length (strt_hash g)" "\<And>i. i < length H \<Longrightarrow> extends a (strt_hash g ! i) (H ! i)"
    and a: "a \<in> set R \<union> set (concat H) \<union> set Ou" and ks: "\<forall>q \<in> set (krefs b). q < length (heap g)"
  shows "gc_inv g2 \<and> alive g2 a \<and> (\<forall>q. alive g q \<longrightarrow> alive g2 q)"
proof -
  have c: "core g" and v: "cover g" and p: "phase_ok g" using g by (simp_all add: gc_inv_def)
  note N = new_core [OF c n r nm k ks]
  have F: "phase g1 = phase g" "currentwhite g1 = currentwhite g" "tmudata g1 = tmudata g" "mainthread g1 = mainthread g"
    "sweepgc g1 = sweepgc g" "sweepstrgc g1 = sweepstrgc g"
    using newobj_fields [OF n] by blast+
  have G: "look g2 = look g1" "length (heap g2) = length (heap g1)" "currentwhite g2 = currentwhite g1"
    "mainthread g2 = mainthread g1" "registry g2 = registry g1" "basic_mt g2 = basic_mt g1" "tmudata g2 = tmudata g1"
    "rootgc g2 = R" "strt_hash g2 = H" "openupval g2 = Ou" "phase g2 = phase g1" "sweepgc g2 = sweepgc g1"
    "sweepstrgc g2 = sweepstrgc g1" "waiting g2 = waiting g1"
    by (auto simp: g2 look_def fun_eq_iff waiting_def)
  have lb: "look g2 q = look g q" if "q \<noteq> a" for q using N that G(1) by simp
  have c2: "core g2" using N core_fields [OF G(1-7)] by simp
  have sa: "swept g2 a" using N G by (simp add: swept_def)
  have sw: "swept g2 q" if "swept g q" for q
    using that sa lb [of q] F G by (cases "q = a") (simp_all add: swept_def)
  have strs: "set (strings g) \<subseteq> set (concat H)" "set (concat H) \<subseteq> insert a (set (strings g))"
  proof -
    show "set (strings g) \<subseteq> set (concat H)"
    proof
      fix q assume "q \<in> set (strings g)"
      then obtain i where "i < length (strt_hash g)" "q \<in> set (strt_hash g ! i)" using strings_nth by blast
      then have "i < length H" "q \<in> set (H ! i)" using H by (auto simp: extends_def)
      then show "q \<in> set (concat H)" by auto
    qed
    show "set (concat H) \<subseteq> insert a (set (strings g))"
    proof
      fix q assume "q \<in> set (concat H)"
      then obtain i where "i < length H" "q \<in> set (H ! i)" by (auto simp: in_set_conv_nth [of _ H])
      then have "q = a \<or> i < length (strt_hash g) \<and> q \<in> set (strt_hash g ! i)" using H by (auto simp: extends_def)
      then show "q \<in> insert a (set (strings g))" using strings_nth by blast
    qed
  qed
  have v2: "cover g2"
    unfolding cover_def
  proof (intro conjI allI impI)
    show "mainthread g2 \<in> set (rootgc g2)" "\<exists>k \<le> 31. length (strt_hash g2) = 2 ^ k"
      using v R(1) H(1) by (auto simp: cover_def G F extends_def)
    fix q assume q: "look g2 q \<noteq> None"
    show "q \<in> set (rootgc g2) \<union> set (strings g2) \<union> set (openupval g2) \<union> set (tmudata g2)"
    proof (cases "q = a")
      case True
      then show ?thesis using a by (simp add: G strings_def)
    next
      case False
      then have "q \<in> set (rootgc g) \<union> set (strings g) \<union> set (openupval g) \<union> set (tmudata g)"
        using q lb v unfolding cover_def by metis
      then show ?thesis using R(1) Ou strs(1) by (auto simp: G F strings_def extends_def)
    qed
  qed
  have "phase_ok g2"
  proof (cases "phase g")
    case GCSpause
    then show ?thesis using p sw by (simp add: phase_ok_def G F rest_ok_def)
  next
    case GCSpropagate
    then have "marking_ok g1" using new_marking [OF c _ n] p by (simp add: phase_ok_def)
    then have "marking_ok g2"
      unfolding marking_ok_def using MI_lists [OF _ G(1,3,14)] G by (simp add: white_def)
    then show ?thesis using GCSpropagate by (simp add: phase_ok_def G F)
  next
    case GCSsweepstring
    have "swept g2 q" if "i < sweepstrgc g" "q \<in> set (H ! i)" for i q
    proof -
      have "i < length H" using that p GCSsweepstring H(1) by (simp add: phase_ok_def sweep1_ok_def)
      then have "q = a \<or> q \<in> set (strt_hash g ! i)" using H(2) that(2) by (auto simp: extends_def)
      then show ?thesis using sa sw that(1) p GCSsweepstring by (auto simp: phase_ok_def sweep1_ok_def)
    qed
    then show ?thesis using p GCSsweepstring H(1) by (simp add: phase_ok_def sweep1_ok_def G F)
  next
    case GCSsweep
    then have P: "\<forall>q \<in> set (strings g) \<union> set (root_before g). swept g q"
      "mainthread g \<in> set (root_before g) \<longrightarrow> (\<forall>q \<in> set (openupval g). swept g q)"
      "\<forall>s. sweepgc g = Some s \<longrightarrow> s \<in> set (rootgc g)"
      using p by (simp_all add: phase_ok_def sweep2_ok_def)
    have rb: "set (root_before g2) \<subseteq> insert a (set (root_before g))"
      using R(2) by (fastforce simp: root_before_def G F split: option.splits)
    have ma: "mainthread g \<noteq> a"
    proof -
      have "alive g (mainthread g)" using c by (simp add: core_def rooted_def roots_def)
      then show ?thesis using N by (auto simp: alive_def)
    qed
    have "sweep2_ok g2"
      unfolding sweep2_ok_def
    proof (intro conjI ballI allI impI)
      fix q assume "q \<in> set (strings g2) \<union> set (root_before g2)"
      then have "q = a \<or> q \<in> set (strings g) \<union> set (root_before g)" using rb strs(2) by (auto simp: G strings_def)
      then show "swept g2 q" using sa sw P(1) by blast
    next
      fix q assume m: "mainthread g2 \<in> set (root_before g2)" "q \<in> set (openupval g2)"
      then have "mainthread g \<in> set (root_before g)" using rb ma by (auto simp: G F)
      moreover have "q = a \<or> q \<in> set (openupval g)" using m(2) Ou by (auto simp: G extends_def)
      ultimately show "swept g2 q" using sa sw P(2) by blast
    next
      fix s assume "sweepgc g2 = Some s"
      then show "s \<in> set (rootgc g2)" using P(3) R(1) by (auto simp: G F extends_def)
    qed
    then show ?thesis using GCSsweep by (simp add: phase_ok_def G F)
  next
    case GCSfinalize
    then show ?thesis using p sw by (simp add: phase_ok_def G F rest_ok_def)
  qed
  moreover have "alive g2 a" using N G by (simp add: alive_def)
  moreover have "alive g2 q" if "alive g q" for q
    using that lb [of q] \<open>alive g2 a\<close> F G by (cases "q = a") (simp_all add: alive_def)
  ultimately show ?thesis using c2 v2 by (simp add: gc_inv_def)
qed

lemma link_inv:
  assumes "gc_inv g" "luaC_link b g = (a, g')" "\<forall>q \<in> set (refs b). alive g q"
    "\<forall>q \<in> set (proto_names b). q < length (heap g) \<and> is_str g q" "\<not> bthread b" "\<forall>q \<in> set (krefs b). q < length (heap g)"
  shows "gc_inv g' \<and> alive g' a \<and> (\<forall>q. alive g q \<longrightarrow> alive g' q) \<and> body_of g' a = Some b"
proof -
  obtain g1 where n: "newobj b g = (a, g1)" and g': "g' = g1\<lparr>rootgc := a # rootgc g1\<rparr>"
    using assms(2) by (auto simp: luaC_link_def split: prod.splits)
  have F: "rootgc g1 = rootgc g" "strt_hash g1 = strt_hash g" "openupval g1 = openupval g" using newobj_fields [OF n] by blast+
  have e: "g' = g1\<lparr>rootgc := a # rootgc g, strt_hash := strt_hash g, openupval := openupval g, uvhead := uvhead g1, strt_nuse := strt_nuse g1\<rparr>"
    using F by (simp add: g')
  have "gc_inv g' \<and> alive g' a \<and> (\<forall>q. alive g q \<longrightarrow> alive g' q)"
    by (rule new_inv [OF assms(1) n assms(3,4,5) e]) (use assms(6) in \<open>auto simp: extends_def\<close>)
  moreover have "body_of g' a = body_of g1 a" by (simp add: body_of_def g')
  ultimately show ?thesis using body_newobj [OF n] by simp
qed

lemma newudata_inv:
  assumes "gc_inv g" "luaS_newudata e g = (a, g')" "alive g e"
  shows "gc_inv g' \<and> alive g' a \<and> (\<forall>q. alive g q \<longrightarrow> alive g' q)"
proof -
  obtain g1 where n: "newobj (GUdata None e) g = (a, g1)" and g': "g' = g1\<lparr>rootgc := before_udata g1 @ a # udata_list g1\<rparr>"
    using assms(2) by (auto simp: luaS_newudata_def split: prod.splits)
  have F: "rootgc g1 = rootgc g" "strt_hash g1 = strt_hash g" "openupval g1 = openupval g" "mainthread g1 = mainthread g"
    using newobj_fields [OF n] by blast+
  have e: "g' = g1\<lparr>rootgc := before_udata g @ a # udata_list g, strt_hash := strt_hash g, openupval := openupval g,
      uvhead := uvhead g1, strt_nuse := strt_nuse g1\<rparr>"
    using F by (simp add: g' before_udata_def udata_list_def)
  have sp: "rootgc g = before_udata g @ udata_list g" using assms(1) by (intro split_udata) (simp add: gc_inv_def cover_def)
  show ?thesis
  proof (rule new_inv [OF assms(1) n _ _ _ e])
    show "extends a (rootgc g) (before_udata g @ a # udata_list g)" by (subst sp) (auto simp: extends_def)
    show "set (takeWhile (\<lambda>x. x \<noteq> s) (before_udata g @ a # udata_list g)) \<subseteq> insert a (set (takeWhile (\<lambda>x. x \<noteq> s) (rootgc g)))" for s
      by (subst sp) (rule takeWhile_insert)
  qed (use assms(3) in \<open>auto simp: refs_def orefs_def proto_names_def bthread_def\<close>)
qed

section \<open>Strings\<close>

lemma resurrect_inv:
  assumes g: "gc_inv g" and b: "body_of g a = Some b" "refs b = []"
  shows "gc_inv (resurrect a g) \<and> alive (resurrect a g) a \<and> (\<forall>q. alive g q \<longrightarrow> alive (resurrect a g) q)"
proof (cases "alive g a")
  case True
  then have "resurrect a g = g" by (auto simp: resurrect_def alive_def)
  then show ?thesis using g True by simp
next
  case False
  have c: "core g" and v: "cover g" and p: "phase_ok g" using g by (simp_all add: gc_inv_def)
  obtain x where x: "look g a = Some x" "body x = b" using body_of_look [OF b(1)] by blast
  have d: "isdead (currentwhite g) (marked x)" using False x by (simp add: alive_def)
  have ow: "one_white (currentwhite g)" using c by (simp add: core_def mask_ok_def)
  have m: "mark_ok (marked x)" by (rule marks_at [OF c x(1)])
  have w: "iswhite (marked x)" using d by (rule dead_white)
  let ?g = "setmark a changewhite g"
  have e: "resurrect a g = ?g" using x d by (simp add: resurrect_def)
  have L: "look ?g q = (if q = a then Some (x\<lparr>marked := changewhite (marked x)\<rparr>) else look g q)" for q using x by (simp add: look_setmark)
  have nd: "\<not> isdead (currentwhite g) (changewhite (marked x))" using ow m d by (simp add: mark_simps)
  have nb: "\<not> isblack (changewhite (marked x))"
    using w m by (auto simp: mark_ok_def isblack_iff bit_marks)
  have "core ?g"
  proof (rule core_remark [OF c x(1)])
    show "mark_ok (changewhite (marked x))" using m w by (rule mark_ok_marks)
    show "bit (changewhite (marked x)) FIXEDBIT \<longrightarrow> bit (marked x) FIXEDBIT \<or> bstring (body x)" by (simp add: bit_marks)
  qed (use nd nb b x in simp_all)
  moreover have "cover ?g" using v by (simp add: cover_setmark)
  moreover have "swept ?g q" if "swept g q" for q using that x d by (cases "q = a") (simp_all add: swept_def L)
  moreover have "marking_ok ?g" if "marking_ok g" using that x d by (auto simp: marking_ok_def MI_def)
  ultimately have "gc_inv ?g" using p phase_mono [of g ?g] by (simp add: gc_inv_def)
  moreover have "alive ?g a" using nd by (simp add: alive_def L)
  moreover have "alive ?g q" if "alive g q" for q using that nd by (cases "q = a") (simp_all add: alive_def L)
  ultimately show ?thesis by (simp add: e)
qed

lemma resize_gc_inv:
  assumes g: "gc_inv g" and k: "k \<le> 31"
  shows "gc_inv (luaS_resize (2 ^ k) g) \<and> alive (luaS_resize (2 ^ k) g) = alive g"
proof (cases "phase g = GCSsweepstring")
  case True
  then show ?thesis using g by (simp add: luaS_resize_def)
next
  case False
  let ?g = "luaS_resize (2 ^ k) g"
  have c: "core g" and v: "cover g" and p: "phase_ok g" using g by (simp_all add: gc_inv_def)
  have G: "look ?g = look g" "length (heap ?g) = length (heap g)" "currentwhite ?g = currentwhite g" "mainthread ?g = mainthread g"
    "registry ?g = registry g" "basic_mt ?g = basic_mt g" "tmudata ?g = tmudata g" "rootgc ?g = rootgc g" "openupval ?g = openupval g"
    "phase ?g = phase g" "sweepgc ?g = sweepgc g" "waiting ?g = waiting g"
    by (auto simp: luaS_resize_def waiting_def)
  have "core ?g" using c core_fields [OF G(1-7)] by simp
  moreover have "length (strt_hash ?g) = 2 ^ k" using False by (simp add: luaS_resize_def length_rehash)
  then have "cover ?g" using v k resize_strings [OF k, of g] G by (auto simp: cover_def)
  moreover have "phase_ok ?g"
    using p False MI_lists [OF _ G(1,3,12)] resize_strings [OF k, of g] G
    by (cases "phase g")
      (auto simp: phase_ok_def rest_ok_def swept_def marking_ok_def sweep2_ok_def root_before_def white_def)
  moreover have "alive ?g = alive g" using G by (simp add: alive_def fun_eq_iff)
  ultimately show ?thesis by (simp add: gc_inv_def)
qed

lemma newlstr_inv:
  assumes g: "gc_inv g" and s: "luaS_newlstr s g = (a, g')"
  shows "gc_inv g' \<and> alive g' a \<and> (\<forall>q. alive g q \<longrightarrow> alive g' q) \<and> is_string s g' a"
proof (cases "find (is_string s g) (strt_hash g ! hash_lmod (luaS_hash s) (length (strt_hash g)))")
  case (Some b)
  have e: "a = b" "g' = resurrect b g" using s Some by (auto simp: luaS_newlstr_def Let_def)
  have b: "is_string s g b" using Some by (auto simp: find_Some_iff)
  obtain h where h: "body_of g b = Some (GString s h)" using b by (auto simp: is_string_def split: option.splits gbody.splits)
  then show ?thesis using resurrect_inv [OF g h] by (simp add: e refs_def is_string_def)
next
  case None
  let ?n = "length (strt_hash g)" and ?i = "hash_lmod (luaS_hash s) (length (strt_hash g))"
  have v: "cover g" using g by (simp add: gc_inv_def)
  obtain k where k: "k \<le> 31" "?n = 2 ^ k" using v by (auto simp: cover_def)
  have i: "?i < ?n" using hash_lmod_less [OF k(1)] k(2) by simp
  have l: "newlstr s (luaS_hash s) g = (a, g')" using s None by (simp add: luaS_newlstr_def Let_def)
  obtain g1 where n: "newobj (GString s (luaS_hash s)) g = (a, g1)"
    using l by (auto simp: newlstr_def Let_def split: prod.splits)
  have F: "rootgc g1 = rootgc g" "strt_hash g1 = strt_hash g" "openupval g1 = openupval g" using newobj_fields [OF n] by blast+
  define g2 where "g2 = g1\<lparr>strt_hash := (strt_hash g1)[?i := a # strt_hash g1 ! ?i], strt_nuse := strt_nuse g1 + 1\<rparr>"
  have g': "g' = (if of_nat ?n < strt_nuse g2 \<and> int ?n \<le> MAX_INT div 2 then luaS_resize (?n * 2) g2 else g2)"
    using l F by (auto simp: newlstr_def n Let_def g2_def)
  have e: "g2 = g1\<lparr>rootgc := rootgc g, strt_hash := (strt_hash g)[?i := a # strt_hash g ! ?i], openupval := openupval g,
      uvhead := uvhead g1, strt_nuse := strt_nuse g1 + 1\<rparr>"
    using F by (simp add: g2_def)
  have I: "gc_inv g2 \<and> alive g2 a \<and> (\<forall>q. alive g q \<longrightarrow> alive g2 q)"
  proof (rule new_inv [OF g n _ _ _ e])
    show "extends a (strt_hash g ! j) ((strt_hash g)[?i := a # strt_hash g ! ?i] ! j)"
      if "j < length ((strt_hash g)[?i := a # strt_hash g ! ?i])" for j
      using that i by (cases "j = ?i") (auto simp: extends_def)
    show "a \<in> set (rootgc g) \<union> set (concat ((strt_hash g)[?i := a # strt_hash g ! ?i])) \<union> set (openupval g)"
      using set_update_memI [OF i, of "a # strt_hash g ! ?i"] by (metis UnI1 UnI2 UN_I list.set_intros(1) set_concat)
  qed (auto simp: refs_def proto_names_def bthread_def)
  have "body_of g2 a = body_of g1 a" by (simp add: body_of_def g2_def)
  then have st: "is_string s g2 a" using body_newobj [OF n] by (simp add: is_string_def)
  show ?thesis
  proof (cases "of_nat ?n < strt_nuse g2 \<and> int ?n \<le> MAX_INT div 2")
    case True
    have "int (2 ^ k) < int (2 ^ 30)" using True k(2) by simp
    then have "(2 :: nat) ^ k < 2 ^ 30" by (simp only: of_nat_less_iff)
    then have "k < 30" by (rule power_less_imp_less_exp [rotated]) simp
    then have "gc_inv (luaS_resize (2 ^ Suc k) g2) \<and> alive (luaS_resize (2 ^ Suc k) g2) = alive g2"
      using I resize_gc_inv [of g2 "Suc k"] by simp
    moreover have "g' = luaS_resize (2 ^ Suc k) g2" using True g' k(2) by (simp add: mult.commute)
    ultimately show ?thesis using I st by (simp add: is_string_def)
  next
    case False
    then have "g' = g2" unfolding g' by (rule if_not_P)
    then show ?thesis using I st by simp
  qed
qed

lemma fix_inv:
  assumes g: "gc_inv g" and a: "body_of g a = Some (GString s h)"
  shows "gc_inv (luaS_fix a g) \<and> alive (luaS_fix a g) = alive g"
proof -
  have c: "core g" and v: "cover g" and p: "phase_ok g" using g by (simp_all add: gc_inv_def)
  obtain x where x: "look g a = Some x" "body x = GString s h" using body_of_look [OF a] by blast
  let ?f = "\<lambda>m. setbits m (bitmask FIXEDBIT)" and ?g = "luaS_fix a g"
  have f: "iswhite (?f m) = iswhite m" "isblack (?f m) = isblack m" "mark_ok (?f m) = mark_ok m" "isdead cw (?f m) = isdead cw m" for m cw
    by (simp_all add: iswhite_iff isblack_iff mark_ok_def isdead_iff setbits_def bit_simps bit_bitmask)
  have L: "look ?g q = (if q = a then Some (x\<lparr>marked := ?f (marked x)\<rparr>) else look g q)" for q using x by (simp add: luaS_fix_def look_setmark)
  have cw: "currentwhite ?g = currentwhite g" "same_lists g ?g" by (simp_all add: luaS_fix_def)
  have "core ?g" unfolding luaS_fix_def
    by (rule core_remark [OF c x(1)]) (use marks_at [OF c x(1)] x in \<open>simp_all add: f bstring_def blackable_def\<close>)
  moreover have "cover ?g" using v by (simp add: luaS_fix_def cover_setmark)
  moreover have "swept ?g q" if "swept g q" for q using that x by (cases "q = a") (simp_all add: swept_def L f cw)
  moreover have "marking_ok ?g" if m: "marking_ok g"
  proof -
    have W: "white ?g = white g" "black ?g = black g" "body_of ?g = body_of g" "waiting ?g = waiting g"
      by (auto simp: white_def black_def L f x luaS_fix_def[symmetric] fun_eq_iff) (simp_all add: luaS_fix_def waiting_def)
    have "MI (set (tmudata g)) ?g"
      using m x unfolding marking_ok_def MI_def marks_ok_def W okay_def cw by (auto simp: L f)
    then show ?thesis using m by (simp add: marking_ok_def W) (simp add: luaS_fix_def)
  qed
  ultimately have "gc_inv ?g" using p phase_mono [OF cw(2)] by (simp add: gc_inv_def)
  moreover have "alive ?g = alive g" using x by (auto simp: alive_def L f cw fun_eq_iff)
  ultimately show ?thesis by simp
qed

section \<open>Metatables of the basic types\<close>

lemma basic_mt_inv:
  assumes g: "gc_inv g" and r: "\<forall>q \<in> set (concat (map orefs ms)). alive g q"
  shows "gc_inv (g\<lparr>basic_mt := ms\<rparr>)"
proof -
  let ?g = "g\<lparr>basic_mt := ms\<rparr>"
  have c: "core g" and v: "cover g" and p: "phase_ok g" using g by (simp_all add: gc_inv_def)
  have B: "body_of ?g = body_of g" "white ?g = white g" "black ?g = black g" "alive ?g = alive g"
    by (simp_all add: body_of_def white_def black_def alive_def fun_eq_iff)
  have C: "marks_ok g" "blacks_ok g" "fixed_ok g" "kinds_ok g" "names_ok g" "closed g" "rooted g" "mask_ok (currentwhite g)"
    using c by (simp_all add: core_def)
  have "kinds_ok ?g" using C(4) unfolding kinds_ok_def threadlike_def udatalike_def B by simp
  moreover have "rooted ?g" using C(7) r unfolding rooted_def roots_def B by auto
  moreover have "marks_ok ?g" "blacks_ok ?g" "fixed_ok ?g" "names_ok ?g" "closed ?g"
    using C by (simp_all add: marks_ok_def blacks_ok_def fixed_ok_def names_ok_def is_str_def closed_def B)
  ultimately have "core ?g" using C(8) by (simp add: core_def)
  moreover have "cover ?g" using v by (simp add: cover_def strings_def)
  moreover have "same_lists g ?g" by (simp add: same_lists_def)
  then have "phase_ok ?g"
    using p phase_mono [of g ?g] MI_lists [of "set (tmudata g)" g ?g]
    by (auto simp: swept_def marking_ok_def B waiting_def)
  ultimately show ?thesis by (simp add: gc_inv_def)
qed

end
