(* ===== verification/Lua_GC_Safe.thy ===== *)
theory Lua_GC_Safe
  imports Lua_GC_Program
begin

text \<open>
  The collector is safe: however its steps and the program's are interleaved, nothing the program can reach
  is ever freed. First the upvalues (src/lib/lua/lfunc.c), then the steps of the program as a relation.
\<close>

section \<open>Upvalues\<close>

lemma findupval_inv:
  assumes g: "gc_inv g" and f: "luaF_findupval l g = (u, g')"
  shows "gc_inv g' \<and> alive g' u \<and> (\<forall>q. alive g q \<longrightarrow> alive g' q)"
proof -
  let ?pre = "takeWhile (above g l) (openupval g)" and ?post = "dropWhile (above g l) (openupval g)"
  have new: "gc_inv g2 \<and> alive g2 a \<and> (\<forall>q. alive g q \<longrightarrow> alive g2 q)"
    if n: "newobj (GOpen l) g = (a, g1)" and g2: "g2 = g1\<lparr>openupval := ?pre @ a # ?post, uvhead := a # uvhead g1\<rparr>" for a g1 g2
  proof -
    have F: "rootgc g1 = rootgc g" "strt_hash g1 = strt_hash g" using newobj_fields [OF n] by blast+
    have e: "g2 = g1\<lparr>rootgc := rootgc g, strt_hash := strt_hash g, openupval := ?pre @ a # ?post,
        uvhead := a # uvhead g1, strt_nuse := strt_nuse g1\<rparr>"
      using F by (simp add: g2)
    have "set (openupval g) = set ?pre \<union> set ?post" by (metis set_append takeWhile_dropWhile_id)
    then have x: "extends a (openupval g) (?pre @ a # ?post)" by (auto simp: extends_def)
    show ?thesis
      by (rule new_inv [OF g n _ _ _ e]) (use x in \<open>auto simp: refs_def proto_names_def bthread_def\<close>)
  qed
  obtain a g1 where n: "newobj (GOpen l) g = (a, g1)" by fastforce
  let ?g2 = "g1\<lparr>openupval := ?pre @ a # ?post, uvhead := a # uvhead g1\<rparr>"
  consider p ps where "?post = p # ps" "body_of g p = Some (GOpen l)" "u = p" "g' = resurrect p g" | "u = a" "g' = ?g2"
    using f n by (auto simp: luaF_findupval_def Let_def split: list.splits if_splits)
  then show ?thesis
  proof cases
    case 1
    then show ?thesis using resurrect_inv [OF g 1(2)] by (simp add: refs_def)
  next
    case 2
    then show ?thesis using new [OF n] by simp
  qed
qed

lemma stack_alive: "core g \<Longrightarrow> r \<in> set (vrefs (stack_value g k)) \<Longrightarrow> alive g r"
proof -
  assume c: "core g" and r: "r \<in> set (vrefs (stack_value g k))"
  obtain gt st where b: "body_of g (mainthread g) = Some (GThread gt st)"
    using c by (auto simp: core_def kinds_ok_def threadlike_def)
  have "r \<in> set (refs (GThread gt st))"
    using r b by (auto simp: stack_value_def refs_def vrefs_def split: if_splits gval.splits)
  moreover have "alive g (mainthread g)" using c by (simp add: core_def rooted_def roots_def)
  ultimately show "alive g r" using c b unfolding core_def closed_def by blast
qed

text \<open>The open upvalue at the head of the list is closed, or freed when it is dead.\<close>

lemma close_dead:
  assumes g: "gc_inv g" and o: "openupval g = u # us" and b: "body_of g u = Some (GOpen k)" and d: "\<not> alive g u"
  defines "g' \<equiv> luaF_freeupval u (g\<lparr>openupval := us\<rparr>)"
  shows "gc_inv g' \<and> openupval g' = us \<and> (\<forall>q. alive g q \<longrightarrow> alive g' q)"
proof -
  have c: "core g" and v: "cover g" and p: "phase_ok g" using g by (simp_all add: gc_inv_def)
  have ex: "u < length (heap g)" using b look_lt by (auto simp: body_of_def)
  have B: "body_of (g\<lparr>openupval := us\<rparr>) u = Some (GOpen k)" using b by (simp add: body_of_def)
  have e: "g' = g\<lparr>heap := (heap g)[u := None], openupval := us, uvhead := remove1 u (uvhead g)\<rparr>"
    by (simp add: g'_def luaF_freeupval_def B unlinkupval_def put_def)
  have L: "look g' q = (if q = u then None else look g q)" for q using ex by (simp add: e look_def)
  have cw: "currentwhite g' = currentwhite g" "length (heap g') = length (heap g)" by (simp_all add: e)
  have s: "swp g g'"
    unfolding swp_def
  proof (intro conjI allI)
    show "length (heap g') = length (heap g)" "currentwhite g' = currentwhite g" by (rule cw)+
  next
    fix q show "look g' q = look g q \<or> look g' q = None \<and> \<not> alive g q \<or>
        (\<exists>x x'. look g q = Some x \<and> look g' q = Some x' \<and> body x' = body x \<and> (\<forall>n \<ge> 3. bit (marked x') n = bit (marked x) n) \<and>
           iswhite (marked x') \<and> \<not> isdead (currentwhite g) (marked x') \<and> mark_ok (marked x') \<and> (alive g q \<or> bit (marked x) FIXEDBIT))"
      using L [of q] d by (cases "q = u") simp_all
  qed
  then have f: "sframe g g'" unfolding sframe_def by (simp add: e)
  note F = sframe_fields [OF f]
  have c': "core g'" by (rule core_swp [OF c f])
  have v': "cover g'"
    unfolding cover_def
  proof (intro conjI allI impI)
    show "mainthread g' \<in> set (rootgc g')" "\<exists>k \<le> 31. length (strt_hash g') = 2 ^ k" using v by (simp_all add: cover_def F)
    fix q assume q: "look g' q \<noteq> None"
    then have "q \<noteq> u" "look g q \<noteq> None" using L [of q] by (auto split: if_splits)
    then show "q \<in> set (rootgc g') \<union> set (strings g') \<union> set (openupval g') \<union> set (tmudata g')"
      using v o unfolding cover_def by (auto simp: F e strings_def)
  qed
  have sw: "swept g' q" if "swept g q" for q by (rule sframe_swept [OF f that])
  have np: "phase g \<noteq> GCSpropagate"
  proof
    assume "phase g = GCSpropagate"
    then have "colours_ok g" using p MI_colours by (auto simp: phase_ok_def marking_ok_def)
    then show False using d b alive_exists by (auto simp: body_of_def)
  qed
  have "openupval g' = us" by (simp add: e)
  then have "phase_ok g'"
    using p np sw o by (cases "phase g")
      (auto simp: phase_ok_def rest_ok_def sweep1_ok_def sweep2_ok_def F strings_def root_before_def)
  moreover have "alive g' q" if "alive g q" for q using swp_alive [OF s that] .
  ultimately show ?thesis using c' v' by (simp add: gc_inv_def e)
qed

lemma MI_white: "MI (insert a D) g \<Longrightarrow> white g a \<Longrightarrow> MI D g"
  unfolding MI_def by (metis insert_iff)

lemma close_alive:
  assumes g: "gc_inv g" and o: "openupval g = u # us" and b: "body_of g u = Some (GOpen k)" and al: "alive g u"
    and v: "\<forall>r \<in> set (vrefs v). alive g r"
  defines "g' \<equiv> luaC_linkupval u v (setbody u (GClosed v) (unlinkupval u (g\<lparr>openupval := us\<rparr>)))"
  shows "gc_inv g'"
proof -
  have c: "core g" and cv: "cover g" and p: "phase_ok g" using g by (simp_all add: gc_inv_def)
  let ?g0 = "g\<lparr>openupval := us, uvhead := remove1 u (uvhead g), rootgc := u # rootgc g\<rparr>"
  let ?h = "setbody u (GClosed v) ?g0" and ?D = "set (tmudata g)"
  obtain x where x: "look g u = Some x" "body x = GOpen k" "\<not> isdead (currentwhite g) (marked x)"
    using al b by (auto simp: alive_def body_of_def)
  have nb: "\<not> black g u"
  proof
    assume "black g u"
    then have "blackable (GOpen k)" using c b by (auto simp: core_def blacks_ok_def)
    then show False by (simp add: blackable_def)
  qed
  have G0: "look ?g0 = look g" by simp
  have B0: "body_of ?g0 = body_of g" "white ?g0 = white g" "black ?g0 = black g" "alive ?g0 = alive g" "waiting ?g0 = waiting g"
    by (simp_all add: body_of_def white_def black_def alive_def waiting_def fun_eq_iff)
  have c0: "core ?g0" using c by (subst core_fields) simp_all
  have b0: "body_of ?g0 u = Some (GOpen k)" using b B0 by simp
  have ch: "core ?h"
    by (rule core_setbody [OF c0 b0])
      (use v B0 in \<open>auto simp: bstring_def bthread_def budata_def blackable_def refs_def proto_names_def\<close>)
  have vh: "cover ?h"
    unfolding cover_setbody using cv o by (auto simp: cover_def strings_def)
  have e: "g' = (if isgray (marked x) then
      (if phase g = GCSpropagate then luaC_barrier u v (setmark u gray2black ?h) else setmark u (makewhite (currentwhite g)) ?h) else ?h)"
  proof -
    have h: "(setbody u (GClosed v) (unlinkupval u (g\<lparr>openupval := us\<rparr>)))\<lparr>rootgc := u # rootgc g\<rparr> = ?h"
      by (simp add: setbody_def unlinkupval_def put_def look_def split: option.split)
    have l: "look ?h u = Some (x\<lparr>body := GClosed v\<rparr>)" using x by (simp add: look_setbody)
    have r: "rootgc (setbody u (GClosed v) (unlinkupval u (g\<lparr>openupval := us\<rparr>))) = rootgc g"
      by (simp add: unlinkupval_def)
    show ?thesis unfolding g'_def luaC_linkupval_def Let_def r h l by simp
  qed
  have gray: "isgray (marked x) \<longleftrightarrow> \<not> white g u" using nb x by (simp add: isgray_def white_Some black_Some)
  have ph: "phase ?h = phase g" by simp
  have uh: "u \<in> set (rootgc ?h)" by simp
  have swh: "swept ?h q = swept g q" for q by (simp add: swept_def)
  have swu: "swept g u" if "white g u" using that x by (simp add: swept_def white_Some)
  have other: "phase_ok h'" if np: "phase g \<noteq> GCSpropagate" and sl: "same_lists ?h h'" and m: "\<And>q. swept g q \<Longrightarrow> swept h' q" and su: "swept h' u" for h'
  proof -
    have F: "strt_hash h' = strt_hash g" "rootgc h' = u # rootgc g" "openupval h' = us" "tmudata h' = tmudata g" "sweepgc h' = sweepgc g"
      "sweepstrgc h' = sweepstrgc g" "mainthread h' = mainthread g" "phase h' = phase g"
      using sl by (simp_all add: same_lists_def)
    have rb: "set (root_before h') \<subseteq> insert u (set (root_before g))"
      by (auto simp: root_before_def F split: option.splits if_splits)
    have um: "mainthread g \<noteq> u" using c b by (auto simp: core_def kinds_ok_def threadlike_def)
    have "sweep2_ok h'" if "sweep2_ok g"
      using that rb um m su o unfolding sweep2_ok_def strings_def F by auto
    then show ?thesis
      using p np m by (cases "phase g") (auto simp: phase_ok_def rest_ok_def sweep1_ok_def F)
  qed
  have MIh: "MI (insert u ?D) ?h" if "phase g = GCSpropagate"
  proof -
    have M: "MI ?D g" using p that by (simp add: phase_ok_def marking_ok_def)
    have "u \<notin> waiting g" using M b unfolding MI_def by (auto simp: listed_def)
    moreover have "MI ?D ?g0" by (rule MI_lists [OF M]) (simp_all add: B0)
    ultimately show ?thesis using MI_setbody(1) [OF _ b0, of ?D "GClosed v"] B0 nb by (simp add: waiting_def)
  qed
  have roots: "\<not> white ?h (mainthread g)" "\<forall>q \<in> set (vrefs (registry g)). \<not> white ?h q" if "phase g = GCSpropagate"
    using p that B0 by (simp_all add: phase_ok_def marking_ok_def)
  have bh: "body_of ?h u = Some (GClosed v)" by (simp add: body_setbody_Some [OF b0])
  show ?thesis
  proof (cases "isgray (marked x)")
    case False
    then have w: "white g u" using gray by simp
    have "phase_ok ?h"
    proof (cases "phase g = GCSpropagate")
      case True
      have "MI ?D ?h" by (rule MI_white [OF MIh [OF True]]) (use w B0 in simp)
      then show ?thesis using True roots by (simp add: phase_ok_def marking_ok_def)
    next
      case False
      then show ?thesis using other [OF False, of ?h] swh swu [OF w] by simp
    qed
    then show ?thesis unfolding e using False ch vh by (simp add: gc_inv_def)
  next
    case True
    then have w: "\<not> white g u" using gray by simp
    show ?thesis
    proof (cases "phase g = GCSpropagate")
      case False
      let ?k = "setmark u (makewhite (currentwhite g)) ?h"
      have ow: "one_white (currentwhite g)" using c by (simp add: core_def mask_ok_def)
      have lu: "look ?h u = Some (x\<lparr>body := GClosed v\<rparr>)" using x by (simp add: look_setbody)
      have L: "look ?k q = (if q = u then Some (x\<lparr>body := GClosed v, marked := makewhite (currentwhite g) (marked x)\<rparr>) else look ?h q)" for q
        using lu by (simp add: look_setmark)
      have "core ?k" by (rule core_remark [OF ch lu]) (use x ow in \<open>simp_all add: mark_simps bit_colours\<close>)
      moreover have "cover ?k" using vh by (simp add: cover_setmark)
      moreover have su: "swept ?k u" using ow by (simp add: swept_def L mark_simps)
      have "swept ?k q" if "swept g q" for q
      proof (cases "q = u")
        case True
        then show ?thesis using su by simp
      next
        case False
        then have "look ?k q = look ?h q" by (intro trans [OF L if_not_P])
        then have "swept ?k q = swept ?h q" by (simp only: swept_def setmark_fields)
        then show ?thesis using that swh by simp
      qed
      then have "phase_ok ?k" using other [OF False _ _ su] by simp
      ultimately show ?thesis unfolding e using True False by (simp add: gc_inv_def)
    next
      case pr: True
      let ?k = "setmark u gray2black ?h"
      have lu: "look ?h u = Some (x\<lparr>body := GClosed v\<rparr>)" using x by (simp add: look_setbody)
      have wx: "\<not> iswhite (marked x)" using w x by (simp add: white_Some)
      have L: "look ?k q = (if q = u then Some (x\<lparr>body := GClosed v, marked := gray2black (marked x)\<rparr>) else look ?h q)" for q
        using lu by (simp add: look_setmark)
      have mx: "mark_ok (marked x)" by (rule marks_at [OF c x(1)])
      have ck: "core ?k" by (rule core_remark [OF ch lu]) (use x wx mx in \<open>simp_all add: mark_simps bit_colours blackable_def\<close>)
      have vk: "cover ?k" using vh by (simp add: cover_setmark)
      have W: "white ?k = white ?h" by (rule white_setmark_same) (simp add: mark_simps)
      have Mh: "MI (insert u ?D) ?h" by (rule MIh [OF pr])
      have nl: "\<not> listed (GClosed v)" by (simp add: listed_def)
      have "\<forall>q \<in> waiting ?h. \<exists>b. body_of ?h q = Some b \<and> listed b" using Mh unfolding MI_def by blast
      then have uh: "u \<notin> waiting ?h" using bh nl by (metis option.inject)
      then have uw: "u \<notin> waiting ?k" by (simp add: waiting_def)
      have Mk: "MI (insert u ?D) ?k"
        by (rule MI_local [where x = "x\<lparr>body := GClosed v, marked := gray2black (marked x)\<rparr>", OF Mh])
          (use L wx uw in \<open>auto simp: mark_simps blackable_def waiting_def\<close>)
      have bk: "body_of ?k u = Some (GClosed v)" using bh by simp
      have blk: "black ?k u" by (simp add: black_def L mark_simps)
      show ?thesis
      proof (cases "\<exists>q. v = VRef q \<and> white ?k q")
        case True
        then obtain q where q: "v = VRef q" "white ?k q" by blast
        have "gc_inv (luaC_barrierf u q ?k)"
        proof (rule barrierf_inv [OF ck vk _ bk _ blk q(2), where D = ?D])
          show "alive ?k u" using x(3) by (simp add: alive_def L mark_simps)
          show "phase ?k = GCSpropagate \<longrightarrow> (\<forall>s \<in> set (refs (GClosed v)). s = q \<or> u \<in> ?D \<or> \<not> white ?k s)"
            by (simp add: refs_def q vrefs_def)
        qed (use pr Mk roots [OF pr] W in simp_all)
        then show ?thesis unfolding e using \<open>isgray (marked x)\<close> pr q blk by (simp add: luaC_barrier_def luaC_objbarrier_def)
      next
        case False
        then have "\<forall>r \<in> set (refs (GClosed v)). \<not> white ?k r" by (auto simp: refs_def vrefs_def split: gval.splits)
        then have "okay (waiting ?k) ?k u" using bk blk by (simp add: okay_def blackable_def)
        then have "MI ?D ?k" by (rule MI_drop [OF Mk])
        then have "phase_ok ?k" using pr roots [OF pr] W by (simp add: phase_ok_def marking_ok_def)
        moreover have "luaC_barrier u v ?k = ?k" using False by (auto simp: luaC_barrier_def luaC_objbarrier_def split: gval.split)
        ultimately show ?thesis unfolding e using \<open>isgray (marked x)\<close> pr ck vk by (simp add: gc_inv_def)
      qed
    qed
  qed
qed

lemma openupval_really_mark: "openupval (really_mark n a g) = openupval g"
  by (induction n arbitrary: a g)
    (simp_all add: Let_def mark_if_def mark_value_def push_gray_def split: option.split gbody.split gval.split)

lemma openupval_reallymark: "openupval (reallymarkobject a g) = openupval g"
  by (simp add: reallymarkobject_def openupval_really_mark del: really_mark.simps)

lemma openupval_link: "openupval (luaC_linkupval u v g) = openupval g"
proof -
  have "openupval (luaC_barrier a v' h) = openupval h" for a v' h
    by (simp add: luaC_barrier_def luaC_objbarrier_def luaC_barrierf_def openupval_reallymark
      split: gval.split)
  then show ?thesis by (simp add: luaC_linkupval_def Let_def split: option.split)
qed

lemma close_upval_inv:
  assumes g: "gc_inv g" and o: "openupval g = u # us" and b: "body_of g u = Some (GOpen k)"
  shows "gc_inv (close_upval u k (g\<lparr>openupval := us\<rparr>)) \<and> openupval (close_upval u k (g\<lparr>openupval := us\<rparr>)) = us"
proof -
  have c: "core g" using g by (simp add: gc_inv_def)
  obtain x where x: "look g u = Some x" using b by (auto simp: body_of_def)
  have s: "stack_value (g\<lparr>openupval := us\<rparr>) k = stack_value g k" by (simp add: stack_value_def body_of_def)
  show ?thesis
  proof (cases "alive g u")
    case True
    have "\<forall>r \<in> set (vrefs (stack_value g k)). alive g r" using stack_alive [OF c] by blast
    moreover have "close_upval u k (g\<lparr>openupval := us\<rparr>) =
        luaC_linkupval u (stack_value g k) (setbody u (GClosed (stack_value g k)) (unlinkupval u (g\<lparr>openupval := us\<rparr>)))"
      using True x by (simp add: close_upval_def alive_def s Let_def)
    ultimately show ?thesis using close_alive [OF g o b True] by (simp add: openupval_link unlinkupval_def)
  next
    case False
    then have "close_upval u k (g\<lparr>openupval := us\<rparr>) = luaF_freeupval u (g\<lparr>openupval := us\<rparr>)"
      using x by (simp add: close_upval_def alive_def)
    then show ?thesis using close_dead [OF g o b False] by simp
  qed
qed

lemma close_loop_inv: "gc_inv g \<Longrightarrow> openupval g = us \<Longrightarrow> gc_inv (close_loop l us g)"
proof (induction us arbitrary: g)
  case (Cons u us)
  show ?case
  proof (cases "\<exists>k. body_of g u = Some (GOpen k) \<and> l \<le> k")
    case True
    then obtain k where k: "body_of g u = Some (GOpen k)" "l \<le> k" by blast
    then show ?thesis using Cons.IH close_upval_inv [OF Cons.prems(1,2) k(1)] by simp
  next
    case False
    then show ?thesis using Cons.prems by (simp split: option.split gbody.split)
  qed
qed simp

lemma close_inv: "gc_inv g \<Longrightarrow> gc_inv (luaF_close l g)"
  by (simp add: luaF_close_def close_loop_inv)

end
