(* ===== verification/Lua_GC_Run.thy ===== *)
theory Lua_GC_Run
  imports Lua_GC_Safe Lua_Lex
begin

text \<open>
  The runs of the program with its collector: the state a new interpreter starts from (src/lib/lua/lstate.c),
  the instruction that makes a closure (src/lib/lua/lvm.c), and the relation of all steps. Whatever their
  order, nothing the program can reach is ever freed.
\<close>

section \<open>Closures\<close>

text \<open>An upvalue of a new closure is one of the running closure, or a place of the stack.\<close>

definition set_upval :: "addr \<Rightarrow> addr \<Rightarrow> gcstate \<Rightarrow> gcstate" where
  "set_upval a u g = (case body_of g a of Some (GLClosure e p us) \<Rightarrow> setbody a (GLClosure e p (us @ [u])) g | _ \<Rightarrow> g)"

fun capture_upvals :: "addr \<Rightarrow> (addr + nat) list \<Rightarrow> gcstate \<Rightarrow> gcstate" where
  "capture_upvals a [] g = g"
| "capture_upvals a (Inl u # cs) g = capture_upvals a cs (set_upval a u g)"
| "capture_upvals a (Inr l # cs) g = (case luaF_findupval l g of (u, g1) \<Rightarrow> capture_upvals a cs (set_upval a u g1))"

definition op_closure :: "addr \<Rightarrow> addr \<Rightarrow> (addr + nat) list \<Rightarrow> gcstate \<Rightarrow> gcstate" where
  "op_closure p e cs g = (case luaF_newLclosure p e g of (a, g1) \<Rightarrow> push_stack [VRef a] (capture_upvals a cs g1))"

lemma findupval_other:
  assumes f: "luaF_findupval l g = (u, g')" and b: "body_of g a = Some (GLClosure e p us)"
  shows "look g' a = look g a"
proof -
  have new: "look g1 a = look g a" if n: "newobj (GOpen l) g = (u1, g1)" for u1 g1
  proof -
    have "look g u1 = None" using look_newobj [OF n] by blast
    then have "a \<noteq> u1" using b by (auto simp: body_of_def)
    then show ?thesis by (intro trans [OF conjunct1 [OF look_newobj [OF n]] if_not_P])
  qed
  have res: "look (resurrect q g) a = look g a" if "body_of g q = Some (GOpen l)" for q
  proof -
    have "a \<noteq> q" using that b by auto
    then show ?thesis by (simp add: resurrect_def look_setmark split: option.split)
  qed
  obtain u1 g1 where n: "newobj (GOpen l) g = (u1, g1)" by fastforce
  show ?thesis
    using f new [OF n] res n by (auto simp: luaF_findupval_def Let_def split: list.splits if_splits)
qed

lemma set_upval_inv:
  assumes g: "gc_inv g" and b: "body_of g a = Some (GLClosure e p us)" and a: "alive g a" "\<not> black g a" and u: "alive g u"
  shows "gc_inv (set_upval a u g) \<and> body_of (set_upval a u g) a = Some (GLClosure e p (us @ [u])) \<and>
    (\<forall>q. alive (set_upval a u g) q = alive g q) \<and> \<not> black (set_upval a u g) a"
proof -
  let ?b = "GLClosure e p (us @ [u])"
  have e: "set_upval a u g = setbody a ?b g" by (simp add: set_upval_def b)
  have "object_store a (VRef u) ?b g = setbody a ?b g"
    using a(2) by (simp add: object_store_def luaC_barrier_def luaC_objbarrier_def)
  moreover have "gc_inv (object_store a (VRef u) ?b g)"
    by (rule object_store_inv [OF g b]) (use a u in \<open>auto simp: assignable_def refs_def vrefs_def proto_names_def\<close>)
  ultimately show ?thesis unfolding e using a(2) body_setbody_Some [OF b] by simp
qed

lemma capture_upvals_inv:
  assumes "gc_inv g" "body_of g a = Some (GLClosure e p us)" "alive g a" "\<not> black g a" "\<forall>u. Inl u \<in> set cs \<longrightarrow> alive g u"
  shows "gc_inv (capture_upvals a cs g) \<and> alive (capture_upvals a cs g) a"
  using assms
proof (induction cs arbitrary: g us)
  case (Cons c cs)
  show ?case
  proof (cases c)
    case (Inl u)
    then have u: "alive g u" using Cons.prems(5) by simp
    note S = set_upval_inv [OF Cons.prems(1-4) u]
    have "gc_inv (capture_upvals a cs (set_upval a u g)) \<and> alive (capture_upvals a cs (set_upval a u g)) a"
      by (rule Cons.IH) (use S Cons.prems in auto)
    then show ?thesis by (simp add: Inl)
  next
    case (Inr l)
    obtain u g1 where f: "luaF_findupval l g = (u, g1)" by fastforce
    note F = findupval_inv [OF Cons.prems(1) f]
    have "look g1 a = look g a" by (rule findupval_other [OF f Cons.prems(2)])
    then have b: "body_of g1 a = Some (GLClosure e p us)" "\<not> black g1 a"
      using Cons.prems by (simp_all add: body_of_def black_def)
    note S = set_upval_inv [of g1 a e p us u]
    have "gc_inv (capture_upvals a cs (set_upval a u g1)) \<and> alive (capture_upvals a cs (set_upval a u g1)) a"
      by (rule Cons.IH) (use S F b Cons.prems in auto)
    then show ?thesis by (simp add: Inr f)
  qed
qed simp

lemma op_closure_inv:
  assumes g: "gc_inv g" and a: "alive g p" "alive g e" "\<forall>u. Inl u \<in> set cs \<longrightarrow> alive g u"
  shows "gc_inv (op_closure p e cs g)"
proof -
  obtain a g1 where n: "luaC_link (GLClosure e p []) g = (a, g1)" by fastforce
  have N: "gc_inv g1" "alive g1 a" "\<forall>q. alive g q \<longrightarrow> alive g1 q" "body_of g1 a = Some (GLClosure e p [])"
    using link_inv [OF g n] assms by (auto simp: refs_def proto_names_def bthread_def)
  have "\<not> black g1 a"
  proof -
    obtain h where h: "newobj (GLClosure e p []) g = (a, h)" "look g1 a = look h a"
      using n by (auto simp: luaC_link_def split: prod.splits)
    have "look h a = Some \<lparr>marked = luaC_white (currentwhite g), body = GLClosure e p []\<rparr>" 
      by (rule trans [OF conjunct1 [OF look_newobj [OF h(1)]] if_P [OF refl]])
    then have "look g1 a = Some \<lparr>marked = luaC_white (currentwhite g), body = GLClosure e p []\<rparr>" using h(2) by simp
    moreover have "one_white (currentwhite g)" using g by (simp add: gc_inv_def core_def mask_ok_def)
    ultimately show ?thesis by (simp add: black_def mark_simps)
  qed
  then have "gc_inv (capture_upvals a cs g1) \<and> alive (capture_upvals a cs g1) a" using capture_upvals_inv [OF N(1,4,2)] N a by blast
  then show ?thesis by (simp add: op_closure_def luaF_newLclosure_def n push_stack_inv vrefs_def)
qed

section \<open>The state of a new interpreter\<close>

definition lua_newstate :: gcstate where
  "lua_newstate =
     (let cw = bit2mask WHITE0BIT FIXEDBIT in
      \<lparr>heap = [Some \<lparr>marked = luaC_white cw OR bit2mask FIXEDBIT SFIXEDBIT, body = GThread VNil []\<rparr>],
       strt_hash = [], strt_nuse = 0, currentwhite = cw, phase = GCSpause, sweepstrgc = 0, rootgc = [0], sweepgc = None,
       gray = [], grayagain = [], weak = [], tmudata = [], registry = VNil, mainthread = 0, uvhead = [], openupval = [],
       basic_mt = replicate 9 None, tm_gc = 0, tm_mode = 0\<rparr>)"

text \<open>Strings that are made and fixed, so that they are never collected.\<close>

fun fixed_strings :: "string list \<Rightarrow> gcstate \<Rightarrow> addr list \<times> gcstate" where
  "fixed_strings [] g = ([], g)"
| "fixed_strings (s # ss) g =
     (case luaS_newlstr s g of (a, g1) \<Rightarrow>
      case fixed_strings ss (luaS_fix a g1) of (as, g2) \<Rightarrow> (a # as, g2))"

definition luaT_names :: "string list" where
  "luaT_names =
     [''__index'', ''__newindex'', ''__gc'', ''__mode'', ''__eq'', ''__add'', ''__sub'', ''__mul'', ''__div'', ''__mod'',
      ''__pow'', ''__unm'', ''__len'', ''__lt'', ''__le'', ''__concat'', ''__call'']"

definition luaT_init :: "gcstate \<Rightarrow> gcstate" where
  "luaT_init g = (case fixed_strings luaT_names g of (as, g1) \<Rightarrow> g1\<lparr>tm_gc := as ! 2, tm_mode := as ! 3\<rparr>)"

definition luaX_init :: "gcstate \<Rightarrow> gcstate" where
  "luaX_init g = snd (fixed_strings (map fst reserved_words) g)"

text \<open>\<open>f_luaopen\<close> first makes the stack, the two tables and the table of strings, and then the fixed strings.\<close>

definition luaopen_tables :: "gcstate \<Rightarrow> gcstate" where
  "luaopen_tables g =
     (let g1 = setbody (mainthread g) (GThread VNil [VNil]) g;
          new = luaC_link (GTable None [] (replicate 2 (VNil, VNil)));
          g2 = (case new g1 of (t, g2) \<Rightarrow> setbody (mainthread g2) (GThread (VRef t) [VNil]) g2);
          g3 = (case new g2 of (t, g3) \<Rightarrow> g3\<lparr>registry := VRef t\<rparr>)
      in luaS_resize MINSTRTABSIZE g3)"

definition f_luaopen :: "gcstate \<Rightarrow> gcstate" where
  "f_luaopen g = snd (fixed_strings [''not enough memory''] (luaX_init (luaT_init (luaopen_tables g))))"

definition gc_start :: gcstate where
  "gc_start = f_luaopen lua_newstate"

lemma fixed_strings_inv: "gc_inv g \<Longrightarrow> gc_inv (snd (fixed_strings ss g))"
proof (induction ss arbitrary: g)
  case (Cons s ss)
  obtain a g1 where n: "luaS_newlstr s g = (a, g1)" by fastforce
  note N = newlstr_inv [OF Cons.prems n]
  obtain h where "body_of g1 a = Some (GString s h)" using N by (auto simp: is_string_def split: option.splits gbody.splits)
  then have "gc_inv (luaS_fix a g1)" using fix_inv N by blast
  then have "gc_inv (snd (fixed_strings ss (luaS_fix a g1)))" by (rule Cons.IH)
  then show ?case by (simp add: n split_beta)
qed simp

lemma names_inv: "gc_inv g \<Longrightarrow> gc_inv (g\<lparr>tm_gc := x, tm_mode := y\<rparr>)"
proof -
  assume g: "gc_inv g"
  let ?g = "g\<lparr>tm_gc := x, tm_mode := y\<rparr>"
  have L: "look ?g = look g" by (simp add: look_def fun_eq_iff)
  have "core ?g = core g" using core_fields [OF L] by simp
  moreover have "cover ?g = cover g" by (simp add: cover_def L strings_def)
  moreover have W: "waiting ?g = waiting g" "swept ?g = swept g" "white ?g = white g" "body_of ?g = body_of g" "black ?g = black g"
    by (simp_all add: waiting_def swept_def white_def body_of_def black_def L fun_eq_iff)
  moreover have "phase_ok ?g = phase_ok g"
  proof -
    have F: "phase ?g = phase g" "tmudata ?g = tmudata g" "mainthread ?g = mainthread g" "registry ?g = registry g"
      "sweepstrgc ?g = sweepstrgc g" "strt_hash ?g = strt_hash g" "sweepgc ?g = sweepgc g" "rootgc ?g = rootgc g"
      "openupval ?g = openupval g" "currentwhite ?g = currentwhite g" by simp_all
    have "MI D ?g = MI D g" for D by (simp only: MI_def marks_ok_def okay_def W L F)
    then show ?thesis
      by (simp only: phase_ok_def rest_ok_def marking_ok_def sweep1_ok_def sweep2_ok_def strings_def root_before_def W F)
  qed
  ultimately show ?thesis using g by (simp only: gc_inv_def)
qed

definition gc_base :: gcstate where
  "gc_base =
     lua_newstate\<lparr>heap := [Some \<lparr>marked = 0x61, body = GThread (VRef 1) [VNil]\<rparr>,
         Some \<lparr>marked = 1, body = GTable None [] [(VNil, VNil), (VNil, VNil)]\<rparr>,
         Some \<lparr>marked = 1, body = GTable None [] [(VNil, VNil), (VNil, VNil)]\<rparr>],
       rootgc := [2, 1, 0], registry := VRef 2, strt_hash := replicate 32 []\<rparr>"

lemma gc_start_base: "gc_start = snd (fixed_strings [''not enough memory''] (luaX_init (luaT_init gc_base)))"
proof -
  have m: "luaC_white (bit2mask 0 5) = 1" "1 OR bit2mask 5 6 = (0x61 :: lu_byte)"
    by (simp_all add: luaC_white_def bit2mask_def bitmask_def WHITEBITS_def)
  have r: "replicate 2 x = [x, x]" for x :: "gval \<times> gval" by (simp add: numeral_2_eq_2)
  have "luaopen_tables lua_newstate = gc_base"
    by (simp add: luaopen_tables_def Let_def lua_newstate_def gc_base_def luaC_link_def newobj_def setbody_def look_def put_def
      luaS_resize_def m r numeral_2_eq_2)
  then show ?thesis by (simp only: gc_start_def f_luaopen_def)
qed

lemma base_look: "look gc_base a =
    (if a = 0 then Some \<lparr>marked = 0x61, body = GThread (VRef 1) [VNil]\<rparr>
     else if a = 1 \<or> a = 2 then Some \<lparr>marked = 1, body = GTable None [] [(VNil, VNil), (VNil, VNil)]\<rparr> else None)"
  by (auto simp: look_def gc_base_def nth_Cons' numeral_2_eq_2)

lemma base_fields:
  "mainthread gc_base = 0" "registry gc_base = VRef 2" "rootgc gc_base = [2, 1, 0]" "strt_hash gc_base = replicate 32 []"
  "currentwhite gc_base = 0x21" "tmudata gc_base = []" "phase gc_base = GCSpause" "basic_mt gc_base = replicate 9 None"
  "length (heap gc_base) = 3"
  by (simp_all add: gc_base_def lua_newstate_def Let_def bit2mask_def bitmask_def)

lemma base_marks:
  "one_white 0x21" "mask_ok 0x21" "mark_ok 0x61" "mark_ok 1" "\<not> isdead 0x21 0x61" "\<not> isdead 0x21 1" "iswhite 0x61" "iswhite 1"
  "\<not> isblack 0x61" "\<not> isblack 1" "bit (0x61 :: lu_byte) 5" "\<not> bit (1 :: lu_byte) 5"
proof -
  have c: "(0x21 :: lu_byte) = bitmask 0 OR bitmask 5" "(0x61 :: lu_byte) = bitmask 0 OR bitmask 5 OR bitmask 6"
    "(1 :: lu_byte) = bitmask 0" by (simp_all add: bitmask_def)
  note I = one_white_def mask_ok_def mark_ok_def isdead_iff iswhite_iff isblack_iff bit_simps bit_bitmask
  show "one_white 0x21" "mask_ok 0x21" "mark_ok 0x61" "\<not> isdead 0x21 0x61" "iswhite 0x61" "\<not> isblack 0x61"
    "bit (0x61 :: lu_byte) 5" unfolding c by (auto simp: I)
  show "mark_ok 1" "\<not> isdead 0x21 1" "iswhite 1" "\<not> isblack 1" "\<not> bit (1 :: lu_byte) 5"
    unfolding c(1,3) by (auto simp: I)
qed

lemma base_inv: "gc_inv gc_base"
proof -
  have L: "look gc_base a = Some x \<longleftrightarrow> a = 0 \<and> x = \<lparr>marked = 0x61, body = GThread (VRef 1) [VNil]\<rparr> \<or>
      (a = 1 \<or> a = 2) \<and> x = \<lparr>marked = 1, body = GTable None [] [(VNil, VNil), (VNil, VNil)]\<rparr>" for a x
    by (auto simp: base_look)
  have B: "body_of gc_base a = Some b \<longleftrightarrow> a = 0 \<and> b = GThread (VRef 1) [VNil] \<or>
      (a = 1 \<or> a = 2) \<and> b = GTable None [] [(VNil, VNil), (VNil, VNil)]" for a b
    by (auto simp: body_of_def L)
  have al: "alive gc_base a \<longleftrightarrow> a = 0 \<or> a = 1 \<or> a = 2" for a
    by (auto simp: alive_def L base_fields base_marks)
  have sw: "swept gc_base a" for a by (auto simp: swept_def L base_fields base_marks)
  have bl: "\<not> black gc_base a" for a by (auto simp: black_def base_look base_marks)
  have "core gc_base"
    unfolding core_def
  proof (intro conjI)
    show "marks_ok gc_base" by (auto simp: marks_ok_def L base_marks)
    show "fixed_ok gc_base" by (auto simp: fixed_ok_def L base_marks base_fields)
    show "kinds_ok gc_base" by (auto simp: kinds_ok_def threadlike_def B base_fields)
    show "names_ok gc_base" by (auto simp: names_ok_def B proto_names_def krefs_def vrefs_def)
    show "closed gc_base" by (auto simp: closed_def B al refs_def vrefs_def orefs_def table_refs_def live_entries_def)
    show "rooted gc_base" by (auto simp: rooted_def roots_def base_fields al vrefs_def orefs_def)
  qed (simp_all add: base_fields base_marks blacks_ok_def bl)
  moreover have "cover gc_base"
    by (auto simp: cover_def base_fields base_look intro: exI [of _ 5])
  ultimately show ?thesis using sw by (simp add: gc_inv_def phase_ok_def base_fields rest_ok_def)
qed

lemma start_inv: "gc_inv gc_start"
proof -
  have "gc_inv (luaT_init gc_base)"
    using names_inv [OF fixed_strings_inv [OF base_inv]] by (simp add: luaT_init_def split_beta)
  then show ?thesis unfolding gc_start_base luaX_init_def by (intro fixed_strings_inv)
qed

section \<open>Steps\<close>

text \<open>
  A step is one of the collector, which can come between any two of the program, or one of the program,
  which works on what it can reach: it changes its stack and its globals, closes upvalues, makes objects,
  which it then has on the stack, stores references into them, and fixes strings. A full collection also
  resets a marking that has begun, and marks again after its first cycle. A store into a table of a value
  under a new key has a barrier for the key (\<open>newkey\<close> of src/lib/lua/ltable.c); if the table has an entry for the
  key, empty or not, then \<open>k\<close> is nil and the key one of \<open>ks\<close>.
\<close>

definition reaches :: "gcstate \<Rightarrow> addr list \<Rightarrow> bool" where
  "reaches g rs \<longleftrightarrow> (\<forall>r \<in> set rs. reachable g r)"

definition names_strings :: "gbody \<Rightarrow> gcstate \<Rightarrow> bool" where
  "names_strings b g \<longleftrightarrow> (\<forall>r \<in> set (proto_names b). is_str g r)"

definition creatable :: "gbody \<Rightarrow> bool" where
  "creatable b \<longleftrightarrow>
     (case b of GTable mt arr ns \<Rightarrow> True | GCClosure e us \<Rightarrow> True | GProto src k un ps ln \<Rightarrow> True | GClosed v \<Rightarrow> True | _ \<Rightarrow> False)"

inductive gc_step :: "gcstate \<Rightarrow> gcstate \<Rightarrow> bool" where
  collect: "gc_step g (singlestep g)"
| reset: "gc_step g (fullgc_reset g)"
| again: "phase g = GCSfinalize \<Longrightarrow> gc_step g (markroot g)"
| stack: "reaches g (refs (GThread gt st)) \<Longrightarrow> gc_step g (setbody (mainthread g) (GThread gt st) g)"
| close_upvals: "gc_step g (luaF_close l g)"
| new_object: "luaC_link b g = (a, g') \<Longrightarrow> creatable b \<Longrightarrow> reaches g (refs b @ krefs b) \<Longrightarrow> names_strings b g \<Longrightarrow>
    gc_step g (push_stack [VRef a] g')"
| new_udata: "luaS_newudata e g = (a, g') \<Longrightarrow> reachable g e \<Longrightarrow> gc_step g (push_stack [VRef a] g')"
| new_string: "luaS_newlstr s g = (a, g') \<Longrightarrow> gc_step g (push_stack [VRef a] g')"
| new_closure: "reachable g p \<Longrightarrow> reachable g e \<Longrightarrow> \<forall>u. Inl u \<in> set cs \<longrightarrow> reachable g u \<Longrightarrow> gc_step g (op_closure p e cs g)"
| store: "reachable g t \<Longrightarrow> body_of g t = Some b \<Longrightarrow> b = GTable mt arr ns \<Longrightarrow> b' = GTable mt' arr' ns' \<Longrightarrow>
    reaches g (ks @ vrefs k @ vrefs v) \<Longrightarrow> set ks \<subseteq> set (krefs b) \<Longrightarrow> set (krefs b') \<subseteq> set (krefs b) \<union> set (vrefs k) \<Longrightarrow>
    set (refs b') \<subseteq> set (refs b) \<union> set ks \<union> set (vrefs k) \<union> set (vrefs v) \<Longrightarrow> gc_step g (table_store t k v b' g)"
| assign: "reachable g a \<Longrightarrow> body_of g a = Some b \<Longrightarrow> assignable b b' \<Longrightarrow> reaches g (vrefs v) \<Longrightarrow> names_strings b' g \<Longrightarrow>
    set (refs b') \<subseteq> set (refs b) \<union> set (vrefs v) \<Longrightarrow> gc_step g (object_store a v b' g)"
| types: "reaches g (concat (map orefs ms)) \<Longrightarrow> gc_step g (g\<lparr>basic_mt := ms\<rparr>)"
| fix_string: "body_of g a = Some (GString s h) \<Longrightarrow> gc_step g (luaS_fix a g)"

lemma reaches_alive: "reaches g rs \<Longrightarrow> gc_inv g \<Longrightarrow> \<forall>r \<in> set rs. alive g r"
  by (auto simp: reaches_def gc_inv_def intro: reachable_alive)

lemma alive_lt: "alive g a \<Longrightarrow> a < length (heap g)"
  by (auto simp: alive_def look_lt)

lemma proto_names_refs: "set (proto_names b) \<subseteq> set (refs b)"
  by (auto simp: proto_names_def refs_def split: gbody.split)

lemma pushed_inv: "gc_inv g \<and> alive g a \<Longrightarrow> gc_inv (push_stack [VRef a] g)"
  by (rule push_stack_inv) (auto simp: vrefs_def)

lemma gc_step_inv: "gc_step g g' \<Longrightarrow> gc_inv g \<Longrightarrow> gc_inv g'"
proof (induction rule: gc_step.induct)
  case (again g)
  then show ?case by (intro markroot_inv) (simp_all add: gc_inv_def phase_ok_def)
next
  case (stack g gt st)
  then show ?case using reaches_alive [OF stack] by (intro set_thread_inv) (auto simp: refs_def)
next
  case (new_object b g a g')
  note A = reaches_alive [OF new_object(3,5)]
  have "\<forall>q \<in> set (krefs b). q < length (heap g)" using A alive_lt by auto
  moreover have "\<forall>q \<in> set (proto_names b). q < length (heap g) \<and> is_str g q"
    using A proto_names_refs [of b] new_object(4) alive_lt by (auto simp: names_strings_def)
  moreover have "\<not> bthread b" using new_object(2) by (auto simp: creatable_def bthread_def)
  ultimately show ?case using A link_inv [OF new_object(5,1)] pushed_inv by auto
next
  case (new_udata e g a g')
  then have "alive g e" by (auto simp: gc_inv_def intro: reachable_alive)
  then show ?case using newudata_inv [OF new_udata(3,1)] pushed_inv by blast
next
  case (new_string s g a g')
  then show ?case using newlstr_inv [OF new_string(2,1)] pushed_inv by blast
next
  case (new_closure g p e cs)
  then have "alive g p" "alive g e" "\<forall>u. Inl u \<in> set cs \<longrightarrow> alive g u" by (auto simp: gc_inv_def intro: reachable_alive)
  then show ?case by (rule op_closure_inv [OF new_closure(4)])
next
  case (store g t b mt arr ns b' mt' arr' ns' ks k v)
  have t: "alive g t" using store by (auto simp: gc_inv_def intro: reachable_alive)
  have b: "body_of g t = Some (GTable mt arr ns)" using store by simp
  show ?case
    by (rule table_store_inv [OF store(9) b store(4), where K = "set ks"])
      (use t store(3,6-8) reaches_alive [OF store(5,9)] in auto)
next
  case (assign g a b b' v)
  have a: "alive g a" using assign by (auto simp: gc_inv_def intro: reachable_alive)
  have v: "\<forall>q \<in> set (vrefs v). alive g q" by (rule reaches_alive [OF assign(4,7)])
  have "\<forall>q \<in> set (refs b). alive g q" using assign a unfolding gc_inv_def core_def closed_def by blast
  then have "\<forall>q \<in> set (proto_names b'). q < length (heap g) \<and> is_str g q"
    using v proto_names_refs [of b'] assign(5,6) alive_lt by (fastforce simp: names_strings_def)
  then show ?case by (intro object_store_inv [OF assign(7,2,3,6)] a v)
next
  case (types g ms)
  then show ?case using basic_mt_inv reaches_alive by blast
next
  case (fix_string g a s h)
  then show ?case using fix_inv by blast
qed (simp_all add: singlestep_inv fullgc_reset_inv close_inv)

lemma gc_steps_inv: "gc_step\<^sup>*\<^sup>* g g' \<Longrightarrow> gc_inv g \<Longrightarrow> gc_inv g'"
  by (induction rule: rtranclp_induct) (simp_all add: gc_step_inv)

text \<open>C3: whatever the order of the steps of the program and of the collector from the state of a new
  interpreter, an object that can be reached, through the stack, the registry, tables, closures, upvalues
  and so on, is in the heap and is not one of those the sweep frees.
\<close>

theorem reachable_never_freed:
  assumes "gc_step\<^sup>*\<^sup>* gc_start g" "reachable g a"
  shows "\<exists>x. look g a = Some x \<and> \<not> isdead (currentwhite g) (marked x)"
proof -
  have "gc_inv g" using gc_steps_inv [OF assms(1) start_inv] .
  then show ?thesis using reachable_alive [OF assms(2)] by (simp add: gc_inv_def alive_def)
qed

theorem reachable_never_freed_witness:
  "\<exists>x. look (push_stack [VRef (fst (luaC_link (GTable None [] []) (singlestep gc_start)))]
           (snd (luaC_link (GTable None [] []) (singlestep gc_start))))
           (fst (luaC_link (GTable None [] []) (singlestep gc_start))) = Some x \<and>
      \<not> isdead (currentwhite (push_stack [VRef (fst (luaC_link (GTable None [] []) (singlestep gc_start)))]
           (snd (luaC_link (GTable None [] []) (singlestep gc_start))))) (marked x)"
proof -
  let ?g = "singlestep gc_start"
  obtain a g' where l: "luaC_link (GTable None [] []) ?g = (a, g')" by fastforce
  let ?h = "push_stack [VRef a] g'"
  have s1: "gc_step gc_start ?g" by (rule collect)
  have s2: "gc_step ?g ?h"
    by (rule new_object [OF l])
      (simp_all add: creatable_def reaches_def names_strings_def refs_def krefs_def table_refs_def live_entries_def orefs_def proto_names_def)
  have r: "gc_step\<^sup>*\<^sup>* gc_start ?h" using s1 s2 by (meson rtranclp.rtrancl_into_rtrancl rtranclp.rtrancl_refl)
  have "gc_inv ?g" by (rule gc_step_inv [OF s1 start_inv])
  then have "gc_inv g'" using link_inv [OF _ l] by (simp add: refs_def krefs_def table_refs_def live_entries_def orefs_def proto_names_def bthread_def)
  then obtain gt st where b: "body_of g' (mainthread g') = Some (GThread gt st)"
    by (auto simp: gc_inv_def core_def kinds_ok_def threadlike_def)
  have "body_of ?h (mainthread ?h) = Some (GThread gt (st @ [VRef a]))"
    using b by (simp add: push_stack_def body_setbody_Some [OF b])
  moreover have m: "reachable ?h (mainthread ?h)" by (rule reachable.root) (simp add: roots_def)
  ultimately have "reachable ?h a" using reachable.ref [OF m, of _ a] by (simp add: refs_def vrefs_def)
  then show ?thesis using reachable_never_freed [OF r, of a] by (simp add: l)
qed

end
