(* ===== verification/Spec2Isabelle.thy ===== *)
theory Spec2Isabelle
  imports Prelude Lua_Number Lua_Object Lua_Table Lua_Scatter Lua_Table_Inv Lua_Insert Lua_Sizes
    Lua_Rehash Lua_Traverse Lua_Table_Spec Lua_Opcode Lua_Proto Lua_Check Lua_Verified Lua_Names Lua_Chunk Lua_Chunk_Roundtrip
    Lua_Chunk_Writer C_Lib Lua_Convert Lua_State Lua_VM Lua_Api Lua_Exec
    Lua_Auxlib Lua_Buffer Lua_Heap World Engine Echo Lua_Util Http_Util Http_Encode Httpd Server_Main
    Lua_Lex Lua_Lex_Spec Lua_Pattern Lua_Pattern_Spec C_Printf
    Lua_Strlib C_Printf_Bounds Lua_Quoted Lua_GC_Heap Lua_Strtab Lua_GC Lua_GC_Step Lua_GC_Mark Lua_GC_Gray
    Lua_GC_Atomic Lua_GC_Inv Lua_GC_Sweep Lua_GC_Cycle Lua_GC_Mutator Lua_GC_Program
    Lua_GC_Safe Lua_GC_Run
begin

text \<open>
  A verification development for the game server: a C program (src/src) that embeds the Lua 5.1
  interpreter (src/lib/lua) and drives it from the callbacks of libevent. Every definition is a translation
  of the C functions PROJECT.json maps it to, and computes; the theorems are stated over these definitions.

  The program. \<^verbatim>\<open>main\<close> (src/src/main.c) reads the command line, starts the engine (src/src/module: log,
  memory, events, scripts, HTTP) and one of three programs (src/src/program): the HTTP server httpd, which
  hands every request to the script function \<^verbatim>\<open>http_request_handler\<close>; the echo client; the test server. The
  engine calls scripts through the C interface of the interpreter; the interpreter keeps its data in
  tables, strings and closures, which its collector frees when no script can reach them.

  The theories, from the ground up:

  \<^item> \<open>Prelude\<close>: collections of rewrite rules and generic lemmas. \<open>C_Lib\<close>, \<open>C_Printf\<close>: the functions of
    the C library on characters, strings and formats the sources use.
  \<^item> \<open>Lua_Number\<close>, \<open>Lua_Object\<close>, \<open>Lua_Convert\<close>: numbers as the 64 bits of a double with their comparisons
    and conversions (luaconf.h), values and their equality (lobject.c), texts of numbers (lobject.c, lvm.c).
  \<^item> \<open>Lua_Table\<close> with \<open>Lua_Scatter\<close>, \<open>Lua_Table_Inv\<close>, \<open>Lua_Insert\<close>, \<open>Lua_Sizes\<close>, \<open>Lua_Rehash\<close>,
    \<open>Lua_Traverse\<close>, \<open>Lua_Table_Spec\<close>: ltable.c. The record \<open>Table\<close> has the array and the nodes of the C
    structure, the chains are indices. The specification of a table is a map from keys to values (\<open>tabs\<close>);
    search, assignment, rehash, length and traversal are shown to be functions of that map. The
    locales of \<open>Lua_Rehash\<close> state what a rehash needs of the assignments it makes, that of \<open>Lua_Table_Spec\<close> what
    the clients of a table rely on.
  \<^item> \<open>Lua_State\<close>, \<open>Lua_VM\<close>, \<open>Lua_Api\<close>, \<open>Lua_Exec\<close>, \<open>Lua_Heap\<close>: lstate.h, ltm.c, lvm.c, ldo.c and lapi.c as a
    running C function sees them, a state monad over the frame of the function with error results;
    \<open>Lua_Exec\<close> has the rules by which the proofs above run such code, \<open>Lua_Heap\<close> the cache of tag methods.
  \<^item> \<open>Lua_Auxlib\<close>, \<open>Lua_Buffer\<close>: lauxlib.c, its string buffers refined to concatenation.
  \<^item> \<open>Lua_Pattern\<close>, \<open>Lua_Pattern_Spec\<close>, \<open>Lua_Strlib\<close>, \<open>C_Printf_Bounds\<close>, \<open>Lua_Quoted\<close>: lstrlib.c, its matcher
    against a declarative meaning of patterns, the bounds of its fixed arrays, and the round trip of quoted
    strings through the lexical analyzer.
  \<^item> \<open>Lua_Lex\<close>, \<open>Lua_Lex_Spec\<close>: llex.c.
  \<^item> \<open>Lua_Opcode\<close>, \<open>Lua_Proto\<close>, \<open>Lua_Check\<close>, \<open>Lua_Verified\<close>, \<open>Lua_Names\<close>: instructions (lopcodes.h), prototypes
    (lfunc.c) and the checker of bytecode with its names (ldebug.c), sound against the control flow of code.
  \<^item> \<open>Lua_Chunk\<close>, \<open>Lua_Chunk_Roundtrip\<close>, \<open>Lua_Chunk_Writer\<close>: ldump.c, lundump.c, lzio.c.
  \<^item> \<open>Lua_GC_Heap\<close>, \<open>Lua_Strtab\<close>, \<open>Lua_GC\<close>, \<open>Lua_GC_Step\<close>: lgc.h, lgc.c, lstring.c and the upvalues of lfunc.c. The
    heap is a list of objects reduced to their references and their marks of 8 bits (the record \<open>gcstate\<close> has
    the fields of \<^verbatim>\<open>global_State\<close> the collector uses). \<open>Lua_GC_Mark\<close>, \<open>Lua_GC_Gray\<close>, \<open>Lua_GC_Atomic\<close> show what marking
    establishes, \<open>Lua_GC_Sweep\<close> what the sweep leaves, \<open>Lua_GC_Inv\<close> and \<open>Lua_GC_Cycle\<close> the invariant over all
    phases, \<open>Lua_GC_Mutator\<close>, \<open>Lua_GC_Program\<close> that what the program does between the steps, with its
    barriers, keeps it, \<open>Lua_GC_Safe\<close> that closing upvalues does. \<open>Lua_GC_Run\<close> has the state a new interpreter
    starts from and all steps as a relation: no object the program can reach is ever freed. The locale
    \<open>marking\<close> is the contract of one marking function.
  \<^item> \<open>World\<close>: the calls the program makes to libevent, APR and the C library, as a trace, and its static
    variables. \<open>Engine\<close>, \<open>Lua_Util\<close>, \<open>Http_Util\<close>, \<open>Http_Encode\<close>: src/src/module. \<open>Echo\<close>, \<open>Httpd\<close>,
    \<open>Server_Main\<close>: src/src/program and main.c.

  Parameters. Code that is not in the repository or that is data of the program is an argument: \<open>E\<close> answers
  the calls of \<open>World\<close>, from the trace so far; \<open>B\<close> is the effect of calling a function value, since what
  a script does is not the program's; readers and writers of chunks are functions of the caller. No property
  assumes more of them than its statement says.

  Errors. A C function of the interpreter returns a value, throws an error (\<^verbatim>\<open>longjmp\<close>) or, when an
  assertion on its use is broken, is stuck; these are different results of \<open>Lua_State\<close>, so every error path is
  a branch. Functions below the interface return a sum with the message.

  Bounds and fuel. Machine integers keep their width where they can wrap (\<open>32 word\<close> hashes, marks of 8
  bits, counters of 64). Loops are structural or have a termination proof. Fuel is used where C recurses
  through data: the chains of a table (the number of nodes, enough by the invariant), the depth of tag
  methods (\<^verbatim>\<open>MAXTAGLOOP\<close>, as in C), the marking of an object (the number of objects, enough since each call
  marks one); theorems about such functions prove that the fuel suffices.

  Not modelled. The instruction loop \<^verbatim>\<open>luaV_execute\<close> and the compiler behind the lexical analyzer (lparser.c,
  lcode.c): scripts are the parameter \<open>B\<close>. Coroutines and hooks (the program creates none). The rest of the
  standard library (lbaselib.c, lmathlib.c, liolib.c, loslib.c, ldblib.c, loadlib.c), called by scripts only;
  arithmetic of doubles. lmem.c and the amounts of memory that pace the collector. The stand-alone programs
  lua.c, luac.c, print.c, which the server does not link. The headers of APR and libevent, interfaces whose
  code is not in the repository.
\<close>

end
